(* ===== verification/Sys_Prelude.thy ===== *)
theory Sys_Prelude
  imports Main "HOL-Library.Word" "HOL-Library.Monad_Syntax"
begin

unbundle bit_operations_syntax

section \<open>Shared types, collections and lemmas\<close>

text \<open>
  The prelude of the development: the names of the machine types of the C
  sources (x86-64 Linux, LP64), the collections of rewrite rules the component
  theories add to, and the lemmas on option binds, maps and 64-bit words that
  more than one component uses.

  A computation of type \<open>'a option\<close> stands for a piece of C code that may
  have no defined outcome: \<open>None\<close> is an access outside the memory the code
  owns, a null dereference, a lock taken twice by the same thread, or a loop
  that does not end. A theorem that such a computation is \<open>Some\<close> is therefore
  a memory-safety and termination theorem.
\<close>

type_synonym byte = "8 word"
type_synonym int32 = "32 word"
type_synonym size_t = "64 word"
type_synonym off_t = "64 word"
type_synonym addr = "64 word"

text \<open>Rewriting collections: \<open>c_defs\<close> unfolds the operations of a component,
  \<open>unat_simps\<close> moves 64-bit arithmetic that does not wrap to natural numbers.\<close>

named_theorems c_defs
named_theorems unat_simps

subsection \<open>Option binds\<close>

lemma bind_eq_SomeI: "m = Some x \<Longrightarrow> f x = Some y \<Longrightarrow> m \<bind> f = Some y"
  by simp

lemma bind_eq_SomeE:
  assumes "m \<bind> f = Some y"
  obtains x where "m = Some x" and "f x = Some y"
  using assms by (cases m) auto

subsection \<open>64-bit words without wrap-around\<close>

lemma unat_plus_no_wrap [unat_simps]:
  "unat (a :: 64 word) + unat b < 2 ^ 64 \<Longrightarrow> unat (a + b) = unat a + unat b"
  by (simp add: unat_word_ariths)

lemma unat_minus_no_wrap [unat_simps]:
  "unat (b :: 64 word) \<le> unat a \<Longrightarrow> unat (a - b) = unat a - unat b"
  by (simp add: unat_sub word_le_nat_alt)

lemma unat_max_64: "unat (a :: 64 word) < 2 ^ 64"
  using unsigned_less [of a] by simp

lemma word_eq_unat: "(a :: 'a :: len word) = b \<longleftrightarrow> unat a = unat b"
  by (simp add: word_unat_eq_iff)

text \<open>Signed reading of words with a clear sign bit.\<close>

lemma sint_small:
  fixes w :: "'a :: len word"
  assumes "unat w < 2 ^ (LENGTH('a) - 1)"
  shows "sint w = int (unat w)"
proof -
  have "int (unat w) < 2 ^ (LENGTH('a) - 1)" using assms by (metis of_nat_less_iff of_nat_numeral of_nat_power)
  then have "uint w < 2 ^ (LENGTH('a) - 1)" by simp
  then have "signed_take_bit (LENGTH('a) - Suc 0) (uint w) = uint w"
    by (intro signed_take_bit_int_eq_self) (simp_all add: order_trans [of _ 0])
  then show ?thesis by (simp add: sint_uint)
qed

lemma unat_word_of_int_small:
  "m < 2 ^ 64 \<Longrightarrow> unat (word_of_int (int m) :: 64 word) = m"
  by (simp add: unat_of_nat)

end
