(* ===== verification/C_Stdio.thy ===== *)
theory C_Stdio
  imports Sys_Prelude
begin

section \<open>C formatted input and output\<close>

text \<open>
  The conversions of \<^verbatim>\<open>fprintf\<close> and \<^verbatim>\<open>sscanf\<close> that the operation log uses:
  \<^verbatim>\<open>%o\<close>, \<^verbatim>\<open>%ld\<close>, \<^verbatim>\<open>%zu\<close>, \<^verbatim>\<open>%02x\<close>, \<^verbatim>\<open>%2x\<close>, \<^verbatim>\<open>%s\<close> and \<^verbatim>\<open>fgets\<close>. A scanning
  function returns the converted value and the rest of the input, or \<open>None\<close> when the
  conversion fails; numbers out of range saturate, as \<^verbatim>\<open>strtol\<close> and \<^verbatim>\<open>strtoul\<close> do.
\<close>

definition isspace :: "char \<Rightarrow> bool" where
  "isspace c \<longleftrightarrow> c \<in> {CHR '' '', CHR 0x09, CHR 0x0A, CHR 0x0B, CHR 0x0C, CHR 0x0D}"

definition newline :: char where
  "newline = CHR 0x0A"

text \<open>What C sees of a string: the characters in front of the first NUL.\<close>

definition NUL :: char where
  "NUL = CHR 0x00"

definition c_str :: "string \<Rightarrow> string" where
  "c_str s = takeWhile (\<lambda>c. c \<noteq> NUL) s"

definition digit_char :: "nat \<Rightarrow> char" where
  "digit_char d = ''0123456789abcdef'' ! d"

definition char_val :: "char \<Rightarrow> nat option" where
  "char_val c =
     (let v = of_char c :: nat
      in if 48 \<le> v \<and> v \<le> 57 then Some (v - 48)
         else if 97 \<le> v \<and> v \<le> 102 then Some (v - 87)
         else if 65 \<le> v \<and> v \<le> 70 then Some (v - 55)
         else None)"

definition is_digit :: "nat \<Rightarrow> char \<Rightarrow> bool" where
  "is_digit b c \<longleftrightarrow> (case char_val c of None \<Rightarrow> False | Some d \<Rightarrow> d < b)"

fun print_num :: "nat \<Rightarrow> nat \<Rightarrow> string" where
  "print_num b n =
     (if b < 2 \<or> n < b then [digit_char n] else print_num b (n div b) @ [digit_char (n mod b)])"

declare print_num.simps [simp del]

definition print_ld :: "off_t \<Rightarrow> string" where
  "print_ld x =
     (if sint x < 0 then CHR ''-'' # print_num 10 (nat (- sint x)) else print_num 10 (nat (sint x)))"

definition print_02x :: "byte \<Rightarrow> string" where
  "print_02x x = [digit_char (unat x div 16), digit_char (unat x mod 16)]"

definition num_of :: "nat \<Rightarrow> string \<Rightarrow> nat" where
  "num_of b ds = foldl (\<lambda>a c. a * b + the (char_val c)) 0 ds"

definition scan_digits :: "nat \<Rightarrow> string \<Rightarrow> (nat \<times> string) option" where
  "scan_digits b s =
     (let ds = takeWhile (is_digit b) s
      in if ds = [] then None else Some (num_of b ds, dropWhile (is_digit b) s))"

definition scan_sign :: "string \<Rightarrow> bool \<times> string" where
  "scan_sign s =
     (case s of [] \<Rightarrow> (False, [])
      | c # r \<Rightarrow> if c = CHR ''-'' then (True, r) else if c = CHR ''+'' then (False, r) else (False, s))"

definition scan_ul :: "nat \<Rightarrow> string \<Rightarrow> (64 word \<times> string) option" where
  "scan_ul b s =
     (let (neg, r) = scan_sign (dropWhile isspace s)
      in case scan_digits b r of None \<Rightarrow> None
         | Some (n, rest) \<Rightarrow>
             Some (if 2 ^ 64 \<le> n then - 1 else if neg then - of_nat n else of_nat n, rest))"

definition scan_ld :: "string \<Rightarrow> (64 word \<times> string) option" where
  "scan_ld s =
     (let (neg, r) = scan_sign (dropWhile isspace s)
      in case scan_digits 10 r of None \<Rightarrow> None
         | Some (n, rest) \<Rightarrow>
             Some (if neg then (if 2 ^ 63 \<le> n then 2 ^ 63 else - of_nat n)
                   else if 2 ^ 63 \<le> n then 2 ^ 63 - 1 else of_nat n, rest))"

text \<open>\<^verbatim>\<open>atoi\<close> is \<^verbatim>\<open>strtol\<close> with the result cut to an \<^verbatim>\<open>int\<close>.\<close>

definition atoi :: "string \<Rightarrow> int32" where
  "atoi s = (case scan_ld s of None \<Rightarrow> 0 | Some (v, _) \<Rightarrow> ucast v)"

definition scan_o :: "string \<Rightarrow> (32 word \<times> string) option" where
  "scan_o s = map_option (\<lambda>(v, rest). (ucast v, rest)) (scan_ul 8 s)"

definition scan_s :: "string \<Rightarrow> (string \<times> string) option" where
  "scan_s s =
     (let t = dropWhile isspace s;
          w = takeWhile (\<lambda>c. \<not> isspace c) t
      in if w = [] then None else Some (w, dropWhile (\<lambda>c. \<not> isspace c) t))"

definition scan_lit :: "char \<Rightarrow> string \<Rightarrow> string option" where
  "scan_lit c s = (case s of [] \<Rightarrow> None | d # r \<Rightarrow> if d = c then Some r else None)"

text \<open>\<^verbatim>\<open>sscanf(p, "%2x", &x)\<close> on the characters before the end of the string, at most two:
  \<open>None\<close> when nothing is stored to \<^verbatim>\<open>x\<close>. A lone prefix \<^verbatim>\<open>0x\<close> counts as no conversion.\<close>

definition scan_2x :: "string \<Rightarrow> nat option" where
  "scan_2x s =
     (case take 2 s of
        [c] \<Rightarrow> if is_digit 16 c then char_val c else None
      | [c, d] \<Rightarrow>
          if is_digit 16 c \<and> is_digit 16 d then Some (the (char_val c) * 16 + the (char_val d))
          else if c = CHR ''0'' \<and> (d = CHR ''x'' \<or> d = CHR ''X'') then None
          else if is_digit 16 c then char_val c
          else if c = CHR ''+'' \<and> is_digit 16 d then char_val d
          else if c = CHR ''-'' \<and> is_digit 16 d then Some (2 ^ 32 - the (char_val d))
          else None
      | _ \<Rightarrow> None)"

text \<open>\<^verbatim>\<open>fgets\<close> with a buffer of \<open>n\<close>: at most \<open>n - 1\<close> characters, up to and including a
  newline.\<close>

definition fgets :: "nat \<Rightarrow> string \<Rightarrow> string \<times> string" where
  "fgets n s =
     (let l = takeWhile (\<lambda>c. c \<noteq> newline) s;
          m = min (n - 1) (length l + 1)
      in (take m s, drop m s))"

subsection \<open>Digits\<close>

lemma digit_char_val:
  assumes "d < 16"
  shows "char_val (digit_char d) = Some d" and "\<not> isspace (digit_char d)"
proof -
  have "d = 0 \<or> d = 1 \<or> d = 2 \<or> d = 3 \<or> d = 4 \<or> d = 5 \<or> d = 6 \<or> d = 7 \<or> d = 8 \<or> d = 9 \<or>
      d = 10 \<or> d = 11 \<or> d = 12 \<or> d = 13 \<or> d = 14 \<or> d = 15" using assms by arith
  then show "char_val (digit_char d) = Some d" "\<not> isspace (digit_char d)"
    by (auto simp: digit_char_def char_val_def isspace_def)
qed

lemma is_digit_digit_char [simp]: "d < b \<Longrightarrow> b \<le> 16 \<Longrightarrow> is_digit b (digit_char d)"
  by (simp add: is_digit_def digit_char_val)

lemma num_of_append: "num_of b (xs @ [c]) = num_of b xs * b + the (char_val c)"
  by (simp add: num_of_def)

lemma print_num_digits:
  "2 \<le> b \<Longrightarrow> b \<le> 16 \<Longrightarrow>
    print_num b n \<noteq> [] \<and> list_all (is_digit b) (print_num b n) \<and> num_of b (print_num b n) = n"
proof (induction b n rule: print_num.induct)
  case (1 b n)
  show ?case
  proof (cases "n < b")
    case True
    then show ?thesis using 1(2,3) digit_char_val(1) [of n]
      by (simp add: print_num.simps [of b n] num_of_def)
  next
    case False
    have m: "n mod b < b" "n mod b < 16" using 1(2,3) by (simp, meson 1 mod_less_divisor order_less_le_trans zero_less_numeral)
    have IH: "print_num b (n div b) \<noteq> [] \<and> list_all (is_digit b) (print_num b (n div b)) \<and>
        num_of b (print_num b (n div b)) = n div b"
      by (rule 1(1)) (use False 1(2,3) in auto)
    have e: "print_num b n = print_num b (n div b) @ [digit_char (n mod b)]"
      using False 1(2) by (simp add: print_num.simps [of b n])
    show ?thesis unfolding e num_of_append
      using IH m 1(3) digit_char_val(1) [OF m(2)] by (simp add: div_mult_mod_eq)
  qed
qed

lemma scan_digits_print:
  assumes "2 \<le> b" "b \<le> 16" and "rest = [] \<or> \<not> is_digit b (hd rest)"
  shows "scan_digits b (print_num b n @ rest) = Some (n, rest)"
proof -
  note d = print_num_digits [OF assms(1,2), of n]
  have t: "takeWhile (is_digit b) rest = []" "dropWhile (is_digit b) rest = rest"
    using assms(3) by (cases rest; simp)+
  have "takeWhile (is_digit b) (print_num b n @ rest) = print_num b n"
    "dropWhile (is_digit b) (print_num b n @ rest) = rest"
    using d t by (simp_all add: takeWhile_append dropWhile_append list_all_iff)
  then show ?thesis using d by (simp add: scan_digits_def)
qed

lemma is_digit_no_space: "is_digit b c \<Longrightarrow> \<not> isspace c \<and> c \<noteq> CHR ''-'' \<and> c \<noteq> CHR ''+''"
  by (auto simp: is_digit_def char_val_def isspace_def)

lemma print_num_head:
  assumes "2 \<le> b" "b \<le> 16"
  shows "dropWhile isspace (print_num b n @ rest) = print_num b n @ rest"
    "scan_sign (print_num b n @ rest) = (False, print_num b n @ rest)"
    "\<forall>c \<in> set (print_num b n). \<not> isspace c"
proof -
  obtain c cs where p: "print_num b n = c # cs" "is_digit b c"
    using print_num_digits [OF assms, of n] by (cases "print_num b n") auto
  note c = is_digit_no_space [OF p(2)]
  show "dropWhile isspace (print_num b n @ rest) = print_num b n @ rest"
    "scan_sign (print_num b n @ rest) = (False, print_num b n @ rest)"
    using p c by (simp_all add: scan_sign_def)
  show "\<forall>c \<in> set (print_num b n). \<not> isspace c"
    using print_num_digits [OF assms, of n] is_digit_no_space [of b] by (auto simp: list_all_iff)
qed

lemma scan_ul_print:
  assumes "2 \<le> b" "b \<le> 16" and "n < 2 ^ 64" and "rest = [] \<or> \<not> is_digit b (hd rest)"
  shows "scan_ul b (CHR '' '' # print_num b n @ rest) = Some (of_nat n, rest)"
proof -
  have "isspace (CHR '' '')" by (simp add: isspace_def)
  then show ?thesis
    using print_num_head(1,2) [OF assms(1,2), of n rest] scan_digits_print [OF assms(1,2,4)] assms(3)
    by (simp add: scan_ul_def Let_def)
qed

lemma space_not_digit: "isspace c \<Longrightarrow> \<not> is_digit b c"
  using is_digit_no_space by blast

lemma scan_o_print:
  fixes m :: "32 word"
  assumes "rest = [] \<or> isspace (hd rest)"
  shows "scan_o (CHR '' '' # print_num 8 (unat m) @ rest) = Some (m, rest)"
proof -
  have "unat m < 2 ^ 64" by (rule order_less_le_trans [OF unsigned_less]) simp
  then have "scan_ul 8 (CHR '' '' # print_num 8 (unat m) @ rest) = Some (of_nat (unat m), rest)"
    using assms space_not_digit by (intro scan_ul_print) auto
  moreover have "ucast (of_nat (unat m) :: 64 word) = m"
    by (rule bit_word_eqI) (auto simp: bit_simps)
  ultimately show ?thesis by (simp add: scan_o_def)
qed

lemma scan_ld_print:
  assumes "0 \<le> sint x" and "rest = [] \<or> isspace (hd rest)"
  shows "scan_ld (CHR '' '' # print_ld x @ rest) = Some (x, rest)"
proof -
  have sp: "isspace (CHR '' '')" by (simp add: isspace_def)
  have p: "print_ld x = print_num 10 (nat (sint x))" using assms(1) by (simp add: print_ld_def)
  have "sint x < 2 ^ 63" using sint_less [of x] by simp
  then have b: "\<not> 2 ^ 63 \<le> nat (sint x)" by (simp add: not_le nat_less_iff [OF assms(1)])
  have w: "of_nat (nat (sint x)) = x" using assms(1) by (simp add: of_nat_nat)
  have "scan_digits 10 (print_num 10 (nat (sint x)) @ rest) = Some (nat (sint x), rest)"
    using assms(2) space_not_digit by (intro scan_digits_print) auto
  then show ?thesis
    using print_num_head(1,2) [of 10 "nat (sint x)" rest] b w sp unfolding p by (simp add: scan_ld_def Let_def)
qed

lemma atoi_print:
  assumes "0 \<le> sint x"
  shows "atoi (print_ld x) = ucast x"
proof -
  have "scan_ld (print_ld x) = scan_ld (CHR '' '' # print_ld x)" by (simp add: scan_ld_def isspace_def)
  then show ?thesis using scan_ld_print [OF assms, of "[]"] by (simp add: atoi_def)
qed

lemma scan_s_word:
  assumes "w \<noteq> []" "\<forall>c \<in> set w. \<not> isspace c" and "rest = [] \<or> isspace (hd rest)"
  shows "scan_s (CHR '' '' # w @ rest) = Some (w, rest)"
proof -
  have sp: "isspace (CHR '' '')" by (simp add: isspace_def)
  have d: "dropWhile isspace (w @ rest) = w @ rest" using assms(1,2) by (cases w) auto
  have "takeWhile (\<lambda>c. \<not> isspace c) rest = []" "dropWhile (\<lambda>c. \<not> isspace c) rest = rest"
    using assms(3) by (cases rest; simp)+
  then have "takeWhile (\<lambda>c. \<not> isspace c) (w @ rest) = w" "dropWhile (\<lambda>c. \<not> isspace c) (w @ rest) = rest"
    using assms(2) by (simp_all add: takeWhile_append dropWhile_append)
  then show ?thesis using sp d assms(1) by (simp add: scan_s_def)
qed

lemma scan_2x_print:
  "scan_2x (print_02x x @ rest) = Some (unat x)"
proof -
  have b: "unat x < 256" by (rule order_less_le_trans [OF unsigned_less]) simp
  then have d: "unat x div 16 < 16" "unat x mod 16 < 16" by simp_all
  then show ?thesis by (simp add: scan_2x_def print_02x_def digit_char_val(1))
qed

lemma print_02x_facts: "length (print_02x x) = 2" "\<forall>c \<in> set (print_02x x). \<not> isspace c"
proof -
  have b: "unat x < 256" by (rule order_less_le_trans [OF unsigned_less]) simp
  then have d: "unat x div 16 < 16" "unat x mod 16 < 16" by simp_all
  then show "length (print_02x x) = 2" "\<forall>c \<in> set (print_02x x). \<not> isspace c"
    by (simp_all add: print_02x_def digit_char_val(2))
qed

lemma fgets_line:
  assumes "newline \<notin> set l" and "length l + 1 < n"
  shows "fgets n (l @ newline # rest) = (l @ [newline], rest)"
proof -
  have "takeWhile (\<lambda>c. c \<noteq> newline) (l @ newline # rest) = l"
    using assms(1) by (auto simp: takeWhile_append)
  then show ?thesis using assms(2) by (simp add: fgets_def Let_def)
qed

text \<open>A line that is longer than the buffer.\<close>

lemma fgets_long:
  assumes nl: "newline \<notin> set (a @ b)" and "length a < n" and "n \<le> length (a @ b) + 1"
  shows "fst (fgets n ((a @ b) @ newline # rest)) = a @ take (n - 1 - length a) b"
proof -
  have "takeWhile (\<lambda>c. c \<noteq> newline) ((a @ b) @ newline # rest) = a @ b"
    using nl by (subst takeWhile_append2) auto
  moreover have "min (n - 1) (length (a @ b) + 1) = n - 1" using assms(3) by simp
  ultimately have "fst (fgets n ((a @ b) @ newline # rest)) = take (n - 1) ((a @ b) @ newline # rest)"
    by (simp only: fgets_def Let_def fst_conv)
  then show ?thesis using assms by simp
qed

end
