(* ===== verification/Ext_Sort.thy ===== *)
theory Ext_Sort
  imports C_Stdio "HOL-Library.Char_ord" "HOL-Library.List_Lexorder" "HOL-Library.Multiset"
begin

section \<open>The external sort\<close>

text \<open>
  \<^verbatim>\<open>task00-sort/src/sort.cpp\<close>: lines of the standard input are collected up to a memory limit,
  each chunk is sorted and written to a temporary file, and the files are merged with a
  priority queue. A file is the text that is still to be read from it, a file pointer its
  index in \<^verbatim>\<open>files\<close>. \<^verbatim>\<open>std::string\<close> compares bytes as unsigned, which is the order of
  \<open>char\<close> lists here. What the operating system does with the temporary file of run \<open>i\<close> is the argument \<open>io i\<close>.
  Reading the standard input and reading a run back do not fail.
\<close>

text \<open>Whether \<^verbatim>\<open>tmpfile\<close> succeeds, whether \<^verbatim>\<open>fputs\<close> and \<^verbatim>\<open>fputc\<close> report success for line \<open>j\<close>, and how many bytes of the run reach the
  file: \<open>None\<close> when all do, \<open>Some n\<close> when the flush of the buffer in \<^verbatim>\<open>rewind\<close>, which has no result, fails after \<open>n\<close> bytes.\<close>

record run_io =
  tmpfile_ok :: bool
  put_ok :: "nat \<Rightarrow> bool"
  flushed :: "nat option"

record Node =
  str :: string
  fp :: nat

definition Cmp :: "bool \<Rightarrow> Node \<Rightarrow> Node \<Rightarrow> bool" where
  "Cmp reverse a b = (if reverse then str a < str b else str a > str b)"

function fgetline_loop :: "string \<Rightarrow> string \<Rightarrow> bool \<times> string \<times> string" where
  "fgetline_loop out f =
     (case fgets 1024 f of (buf, rest) \<Rightarrow>
        if buf = [] then (out \<noteq> [], out, rest)
        else
          let out = out @ c_str buf in
          if out \<noteq> [] \<and> last out = newline then (True, butlast out, rest)
          else fgetline_loop out rest)"
  by pat_completeness auto
termination
  by (relation "measure (\<lambda>(out, f). length f)") (auto simp: fgets_def Let_def)

declare fgetline_loop.simps [simp del]

definition fgetline :: "string \<Rightarrow> bool \<times> string \<times> string" where
  "fgetline f = fgetline_loop [] f"

text \<open>\<^verbatim>\<open>std::sort\<close> with the comparison of \<^verbatim>\<open>separate\<close>: equal strings cannot be told apart, so the
  result is the one ordered list of the same strings.\<close>

definition run_sort :: "bool \<Rightarrow> string list \<Rightarrow> string list" where
  "run_sort reverse l = (if reverse then rev (sort l) else sort l)"

fun put_lines :: "(nat \<Rightarrow> bool) \<Rightarrow> string list \<Rightarrow> string option" where
  "put_lines ok [] = Some []"
| "put_lines ok (s # ss) =
     (if ok 0 then map_option (\<lambda>r. c_str s @ newline # r) (put_lines (\<lambda>j. ok (Suc j)) ss) else None)"

definition rewind :: "nat option \<Rightarrow> string \<Rightarrow> string" where
  "rewind flush f = (case flush of None \<Rightarrow> f | Some n \<Rightarrow> take n f)"

definition separate ::
  "run_io \<Rightarrow> bool \<Rightarrow> string list \<Rightarrow> string list \<Rightarrow> bool \<times> string list \<times> string list" where
  "separate io reverse files str_lst =
     (if str_lst = [] then (True, files, str_lst)
      else
        let str_lst = run_sort reverse str_lst in
        if \<not> tmpfile_ok io then (False, files, str_lst)
        else
          (case put_lines (put_ok io) str_lst of
             None \<Rightarrow> (False, files, str_lst)
           | Some f \<Rightarrow> (True, files @ [rewind (flushed io) f], [])))"

text \<open>\<^verbatim>\<open>pq.top()\<close> is an element that no other one is above in the order \<open>Cmp\<close>; the library
  does not say which one when several have the same string. The choice is the argument
  \<open>pick\<close>, a position in the queue.\<close>

definition top_choice :: "bool \<Rightarrow> (Node list \<Rightarrow> nat) \<Rightarrow> bool" where
  "top_choice reverse pick \<longleftrightarrow>
     (\<forall>q. q \<noteq> [] \<longrightarrow> pick q < length q \<and> (\<forall>n \<in> set q. \<not> Cmp reverse (q ! pick q) n))"

fun merge_fill :: "nat list \<Rightarrow> string list \<Rightarrow> Node list \<Rightarrow> Node list \<times> string list" where
  "merge_fill [] files pq = (pq, files)"
| "merge_fill (i # is) files pq =
     (case fgetline (files ! i) of (ok, s, rest) \<Rightarrow>
        merge_fill is (files[i := rest]) (if ok then pq @ [\<lparr>str = s, fp = i\<rparr>] else pq))"

partial_function (option) merge_loop ::
  "(Node list \<Rightarrow> nat) \<Rightarrow> Node list \<Rightarrow> string list \<Rightarrow> string \<Rightarrow> string option" where
  "merge_loop pick pq files out =
     (if pq = [] then Some out
      else if length pq \<le> pick pq then None
      else
        let cur = pq ! pick pq; pq = take (pick pq) pq @ drop (Suc (pick pq)) pq in
        (case fgetline (files ! fp cur) of (ok, s, rest) \<Rightarrow>
           merge_loop pick (if ok then pq @ [\<lparr>str = s, fp = fp cur\<rparr>] else pq)
             (files[fp cur := rest]) (out @ str cur @ [newline])))"

definition merge :: "(Node list \<Rightarrow> nat) \<Rightarrow> bool \<Rightarrow> string list \<Rightarrow> (bool \<times> string) option" where
  "merge pick cout_ok files =
     (case merge_fill [0..<length files] files [] of (pq, files) \<Rightarrow>
        map_option (\<lambda>out. (cout_ok, out)) (merge_loop pick pq files []))"

subsection \<open>main\<close>

definition getline :: "string \<Rightarrow> (string \<times> string) option" where
  "getline inp =
     (if inp = [] then None
      else Some (takeWhile (\<lambda>c. c \<noteq> newline) inp, drop 1 (dropWhile (\<lambda>c. c \<noteq> newline) inp)))"

lemma getline_shorter: "getline inp = Some (s, rest) \<Longrightarrow> length rest < length inp"
  using length_dropWhile_le [of "\<lambda>c. c \<noteq> newline" inp]
  by (cases inp) (auto simp: getline_def split: if_splits)

text \<open>\<^verbatim>\<open>getopt(argc, argv, "r")\<close>: the option characters in order, and what is left as operands.\<close>

fun getopt_r :: "string list \<Rightarrow> string \<times> string list" where
  "getopt_r [] = ([], [])"
| "getopt_r (a # as) =
     (if a = ''--'' then ([], as)
      else (case getopt_r as of (os, rs) \<Rightarrow>
        if 1 < length a \<and> hd a = CHR ''-'' then (tl a @ os, rs) else (os, a # rs)))"

definition MEM_LIMIT :: size_t where
  "MEM_LIMIT = 64 * 1024 * 1024"

definition sizeof_string :: size_t where
  "sizeof_string = 32"

function read_runs ::
  "(nat \<Rightarrow> run_io) \<Rightarrow> bool \<Rightarrow> string \<Rightarrow> string list \<Rightarrow> string list \<Rightarrow> size_t \<Rightarrow> string list option" where
  "read_runs io reverse inp files str_lst len =
     (case getline inp of
        None \<Rightarrow>
          (case separate (io (length files)) reverse files str_lst of (ok, files, _) \<Rightarrow>
             if ok then Some files else None)
      | Some (s, rest) \<Rightarrow>
          let len = len + (sizeof_string + of_nat (length s)); str_lst = str_lst @ [s] in
          if MEM_LIMIT \<le> len
          then (case separate (io (length files)) reverse files str_lst of (ok, files, str_lst) \<Rightarrow>
                  if ok then read_runs io reverse rest files str_lst 0 else None)
          else read_runs io reverse rest files str_lst len)"
  by pat_completeness auto
termination
  by (relation "measure (\<lambda>(io, rv, inp, _). length inp)") (auto dest: getline_shorter)

declare read_runs.simps [simp del]

definition sort_main ::
  "(Node list \<Rightarrow> nat) \<Rightarrow> (nat \<Rightarrow> run_io) \<Rightarrow> bool \<Rightarrow> string list \<Rightarrow> string \<Rightarrow> (int \<times> string) option" where
  "sort_main pick io cout_ok args inp =
     (case getopt_r args of (opts, rest) \<Rightarrow>
        if \<exists>c \<in> set opts. c \<noteq> CHR ''r'' then Some (1, [])
        else if rest \<noteq> [] then Some (1, [])
        else
          let reverse = (opts \<noteq> []) in
          (case read_runs io reverse inp [] [] 0 of
             None \<Rightarrow> Some (1, [])
           | Some files \<Rightarrow>
               map_option (\<lambda>(ok, out). (if ok then 0 else 1, out)) (merge pick cout_ok files)))"

end
