(* ===== verification/Ext_Sort_Correct.thy ===== *)
theory Ext_Sort_Correct
  imports Ext_Sort
begin

section \<open>The external sort sorts\<close>

text \<open>
  Reading a run back line by line whatever the size of the buffer of \<^verbatim>\<open>fgets\<close>; the merge of
  ordered runs, proved for every priority queue that meets the contract of
  \<^verbatim>\<open>std::priority_queue\<close>; and the chunks of the main loop, of which
  one run each is written.
\<close>

definition unlines :: "string list \<Rightarrow> string" where
  "unlines ls = concat (map (\<lambda>l. l @ [newline]) ls)"

definition line_ok :: "string \<Rightarrow> bool" where
  "line_ok l \<longleftrightarrow> newline \<notin> set l \<and> NUL \<notin> set l"

lemma unlines_simps [simp]:
  "unlines [] = []" "unlines (l # ls) = l @ newline # unlines ls" "unlines (ls @ ls') = unlines ls @ unlines ls'"
  by (simp_all add: unlines_def)

subsection \<open>Reading lines back\<close>

lemma c_str_id: "NUL \<notin> set l \<Longrightarrow> c_str l = l"
  by (simp add: c_str_def takeWhile_eq_all_conv) metis

lemma newline_not_NUL: "newline \<noteq> NUL"
  by (simp add: newline_def NUL_def)

lemma line_ok_append: "line_ok (a @ b) \<longleftrightarrow> line_ok a \<and> line_ok b"
  by (auto simp: line_ok_def)

lemma fgets_part:
  assumes "newline \<notin> set l" and "1023 \<le> length l"
  shows "fgets 1024 (l @ newline # r) = (take 1023 l, drop 1023 l @ newline # r)"
proof -
  have "takeWhile (\<lambda>c. c \<noteq> newline) (l @ newline # r) = l"
    using assms(1) by (auto simp: takeWhile_append)
  then show ?thesis using assms(2) by (simp add: fgets_def Let_def)
qed

lemma fgetline_loop_line:
  "line_ok out \<Longrightarrow> line_ok l \<Longrightarrow> fgetline_loop out (l @ newline # r) = (True, out @ l, r)"
proof (induction "length l" arbitrary: out l rule: less_induct)
  case less
  then have nl: "newline \<notin> set l" "NUL \<notin> set l" by (simp_all add: line_ok_def)
  show ?case
  proof (cases "length l < 1023")
    case True
    then have "fgets 1024 (l @ newline # r) = (l @ [newline], r)" using fgets_line [OF nl(1), of 1024 r] by simp
    then show ?thesis using nl newline_not_NUL
      by (subst fgetline_loop.simps) (simp add: c_str_id Let_def butlast_append)
  next
    case False
    then have f: "fgets 1024 (l @ newline # r) = (take 1023 l, drop 1023 l @ newline # r)" using fgets_part [OF nl(1)] by simp
    have t: "take 1023 l \<noteq> []" using False by auto
    have ok: "line_ok (take 1023 l)" "line_ok (drop 1023 l)"
      using less.prems(2) append_take_drop_id [of 1023 l] line_ok_append by metis+
    then have ok': "line_ok (out @ take 1023 l)" using less.prems(1) by (simp add: line_ok_append)
    then have "last (out @ take 1023 l) \<noteq> newline" using t by (metis append_is_Nil_conv last_in_set line_ok_def)
    moreover have "fgetline_loop (out @ take 1023 l) (drop 1023 l @ newline # r) = (True, (out @ take 1023 l) @ drop 1023 l, r)"
      using False ok' ok(2) by (intro less.hyps) auto
    moreover have "c_str (take 1023 l) = take 1023 l" using ok(1) by (simp add: c_str_id line_ok_def)
    ultimately show ?thesis using f t by (subst fgetline_loop.simps) (simp add: Let_def)
  qed
qed

lemma fgetline_unlines [simp]:
  "fgetline [] = (False, [], [])"
  "line_ok l \<Longrightarrow> fgetline (l @ newline # r) = (True, l, r)"
  by (simp_all add: fgetline_def fgetline_loop_line line_ok_def fgetline_loop.simps [of "[]" "[]"] fgets_def)

subsection \<open>Ordered lists\<close>

definition upto_eq :: "bool \<Rightarrow> string \<Rightarrow> string \<Rightarrow> bool" where
  "upto_eq reverse a b = (if reverse then b \<le> a else a \<le> b)"

definition ordered :: "bool \<Rightarrow> string list \<Rightarrow> bool" where
  "ordered reverse ls = sorted_wrt (upto_eq reverse) ls"

lemma ordered_simps [simp]:
  "ordered rv []" "ordered rv (l # ls) \<longleftrightarrow> (\<forall>k \<in> set ls. upto_eq rv l k) \<and> ordered rv ls"
  by (simp_all add: ordered_def)

lemma ordered_iff: "ordered rv ls \<longleftrightarrow> sorted (if rv then rev ls else ls)"
  by (cases rv) (simp_all add: ordered_def upto_eq_def [abs_def] sorted_wrt_rev)

lemma run_sort_ordered: "ordered rv (run_sort rv ls)" "mset (run_sort rv ls) = mset ls"
  by (simp_all add: ordered_iff run_sort_def)

lemma ordered_unique: "ordered rv ls \<Longrightarrow> mset ls = mset ks \<Longrightarrow> ls = run_sort rv ks"
  by (auto simp: ordered_iff run_sort_def split: if_splits)
    (metis mset_rev properties_for_sort rev_rev_ident, metis properties_for_sort)

lemma upto_eq_Cmp: "upto_eq rv (str a) (str b) \<longleftrightarrow> \<not> Cmp rv a b"
  by (auto simp: upto_eq_def Cmp_def not_less)

lemma upto_eq_trans: "upto_eq rv a b \<Longrightarrow> upto_eq rv b c \<Longrightarrow> upto_eq rv a c"
  by (auto simp: upto_eq_def split: if_splits)

text \<open>Cutting lines at a NUL, the smallest character, keeps the order.\<close>

lemma NUL_least: "NUL \<le> c"
  by (simp add: less_eq_char_def NUL_def)

lemma c_str_mono: "a \<le> b \<Longrightarrow> c_str a \<le> c_str b"
proof (induction a arbitrary: b)
  case Nil
  then show ?case by (simp add: c_str_def)
next
  case (Cons x xs)
  then obtain y ys where b: "b = y # ys" by (cases b) auto
  then have "x < y \<or> x = y \<and> xs \<le> ys" using Cons.prems by auto
  then show ?case
  proof
    assume "x < y"
    then have "y \<noteq> NUL" using NUL_least [of x] by auto
    then show ?case using \<open>x < y\<close> b by (auto simp: c_str_def)
  next
    assume "x = y \<and> xs \<le> ys"
    then show ?case using Cons.IH [of ys] b by (auto simp: c_str_def)
  qed
qed

lemma run_sort_c_str: "map c_str (run_sort rv ls) = run_sort rv (map c_str ls)"
proof (rule ordered_unique)
  have "ordered rv ks \<Longrightarrow> ordered rv (map c_str ks)" for ks
    by (induction ks) (auto simp: upto_eq_def c_str_mono)
  then show "ordered rv (map c_str (run_sort rv ls))" using run_sort_ordered(1) by blast
  show "mset (map c_str (run_sort rv ls)) = mset (map c_str ls)" using run_sort_ordered(2) by (simp add: mset_map)
qed

subsection \<open>Merging\<close>

text \<open>The priority queue as an interface: a position whose node no other node is above.\<close>

locale queue_top =
  fixes reverse :: bool and pick :: "Node list \<Rightarrow> nat"
  assumes pick_bound: "q \<noteq> [] \<Longrightarrow> pick q < length q"
    and pick_top: "q \<noteq> [] \<Longrightarrow> n \<in> set q \<Longrightarrow> \<not> Cmp reverse (q ! pick q) n"

text \<open>\<open>runs n files R pq\<close>: file \<open>i\<close> holds the lines \<open>R i\<close> in order; the queue has at most one node
  per file, whose string comes before the file's lines; a file without a node is at its end.\<close>

definition runs :: "bool \<Rightarrow> string list \<Rightarrow> (nat \<Rightarrow> string list) \<Rightarrow> Node list \<Rightarrow> bool" where
  "runs rv files R pq \<longleftrightarrow>
     (\<forall>i < length files. files ! i = unlines (R i) \<and> ordered rv (R i) \<and> (\<forall>l \<in> set (R i). line_ok l)) \<and>
     distinct (map fp pq) \<and> (\<forall>n \<in> set pq. fp n < length files \<and> (\<forall>l \<in> set (R (fp n)). upto_eq rv (str n) l)) \<and>
     (\<forall>i < length files. i \<notin> fp ` set pq \<longrightarrow> R i = [])"

definition pending :: "string list \<Rightarrow> (nat \<Rightarrow> string list) \<Rightarrow> string multiset" where
  "pending files R = (\<Sum>i < length files. mset (R i))"

lemma pending_upd:
  assumes "i < length files" and "R i = l # ls"
  shows "pending files R = add_mset l (pending files (R(i := ls)))"
proof -
  have "pending files R = mset (R i) + (\<Sum>j \<in> {..<length files} - {i}. mset (R j))"
    unfolding pending_def using assms(1) by (simp add: sum.remove [of _ i])
  moreover have "pending files (R(i := ls)) = mset ls + (\<Sum>j \<in> {..<length files} - {i}. mset (R j))"
    unfolding pending_def using assms(1) by (simp add: sum.remove [of _ i])
  ultimately show ?thesis using assms(2) by simp
qed

lemma pending_member: "l \<in># pending files R \<longleftrightarrow> (\<exists>i < length files. l \<in> set (R i))"
  by (auto simp: pending_def set_mset_sum)

lemma take_drop_nth:
  assumes "k < length q"
  shows "q = take k q @ q ! k # drop (Suc k) q"
  using assms by (rule id_take_nth_drop)

text \<open>Reading the first line of every file.\<close>

lemma merge_fill_runs_gen:
  "distinct is \<Longrightarrow> set is \<subseteq> {..<length files} \<Longrightarrow> set is \<inter> fp ` set pq = {} \<Longrightarrow>
    \<forall>i < length files. files ! i = unlines (R i) \<and> ordered rv (R i) \<and> (\<forall>l \<in> set (R i). line_ok l) \<Longrightarrow>
    distinct (map fp pq) \<Longrightarrow> \<forall>n \<in> set pq. fp n < length files \<and> (\<forall>l \<in> set (R (fp n)). upto_eq rv (str n) l) \<Longrightarrow>
    \<forall>i < length files. i \<notin> fp ` set pq \<longrightarrow> i \<notin> set is \<longrightarrow> R i = [] \<Longrightarrow>
    \<exists>pq' files' R'. merge_fill is files pq = (pq', files') \<and> runs rv files' R' pq' \<and>
      mset (map str pq') + pending files' R' = mset (map str pq) + pending files R"
proof (induction "is" arbitrary: files pq R)
  case Nil
  then show ?case by (auto simp: runs_def)
next
  case (Cons i "is")
  have i: "i < length files" "i \<notin> set is" "i \<notin> fp ` set pq" using Cons.prems by auto
  show ?case
  proof (cases "R i")
    case Nil
    then have f: "files ! i = []" using Cons.prems(4) i(1) by simp
    have "\<forall>j < length files. j \<notin> fp ` set pq \<longrightarrow> j \<notin> set is \<longrightarrow> R j = []"
      using Cons.prems(7) Nil by (metis set_ConsD)
    then have "\<exists>pq' files' R'. merge_fill is files pq = (pq', files') \<and> runs rv files' R' pq' \<and>
        mset (map str pq') + pending files' R' = mset (map str pq) + pending files R"
      using Cons.prems by (intro Cons.IH) auto
    then show ?thesis using f list_update_id [of files i] by simp
  next
    case (Cons l ls)
    let ?R = "R(i := ls)" and ?f = "files[i := unlines ls]" and ?q = "pq @ [\<lparr>str = l, fp = i\<rparr>]"
    have f: "files ! i = l @ newline # unlines ls" "line_ok l" "ordered rv (l # ls)" "\<forall>k \<in> set ls. line_ok k"
      using Cons.prems(4) i(1) Cons by auto
    have o: "\<forall>n \<in> set ?q. fp n < length ?f \<and> (\<forall>k \<in> set (?R (fp n)). upto_eq rv (str n) k)"
      using Cons.prems(6) i f(3) by auto
    have "\<exists>pq' files' R'. merge_fill is ?f ?q = (pq', files') \<and> runs rv files' R' pq' \<and>
        mset (map str pq') + pending files' R' = mset (map str ?q) + pending ?f ?R"
      using Cons.prems(1,2,3,4,5,7) i f(3,4) o by (intro Cons.IH) (auto simp: nth_list_update)
    moreover have "mset (map str ?q) + pending ?f ?R = mset (map str pq) + pending files R"
      using pending_upd [OF i(1), of R l ls] Cons by (simp add: pending_def)
    ultimately show ?thesis using f(1,2) by (simp only: merge_fill.simps fgetline_unlines prod.case if_True)
  qed
qed

lemma merge_fill_runs:
  assumes "\<And>i. i < length files \<Longrightarrow> files ! i = unlines (R i) \<and> ordered rv (R i) \<and> (\<forall>l \<in> set (R i). line_ok l)"
  shows "\<exists>pq files' R'. merge_fill [0..<length files] files [] = (pq, files') \<and> runs rv files' R' pq \<and>
    mset (map str pq) + pending files' R' = pending files R"
  using merge_fill_runs_gen [of "[0..<length files]" files "[]" R rv] assms by (auto simp: atLeast0LessThan)

context queue_top
begin

lemma top_first:
  assumes r: "runs reverse files R pq" and q: "pq \<noteq> []"
    and l: "l \<in> str ` set pq \<or> l \<in># pending files R"
  shows "upto_eq reverse (str (pq ! pick pq)) l"
proof -
  have top: "upto_eq reverse (str (pq ! pick pq)) (str n)" if "n \<in> set pq" for n
    using pick_top [OF q that] by (simp add: upto_eq_Cmp)
  from l show ?thesis
  proof
    assume "l \<in># pending files R"
    then obtain i where i: "i < length files" "l \<in> set (R i)" by (auto simp: pending_member)
    then have "R i \<noteq> []" by auto
    then have "i \<in> fp ` set pq" using r i(1) unfolding runs_def by blast
    then obtain n where n: "n \<in> set pq" "fp n = i" by blast
    then have "upto_eq reverse (str n) l" using r i by (auto simp: runs_def)
    then show ?thesis using top [OF n(1)] upto_eq_trans by blast
  qed (use top in auto)
qed

lemma merge_loop_merges:
  "runs reverse files R pq \<Longrightarrow>
    \<exists>ls. merge_loop pick pq files out = Some (out @ unlines ls) \<and> ordered reverse ls \<and>
      mset ls = mset (map str pq) + pending files R"
proof (induction "size (mset (map str pq) + pending files R)" arbitrary: pq files R out rule: less_induct)
  case less
  note r = less.prems
  show ?case
  proof (cases "pq = []")
    case True
    then have "pending files R = {#}" using r by (auto simp: pending_def runs_def)
    then show ?thesis using True by (auto simp: merge_loop.simps intro!: exI [of _ "[]"])
  next
    case False
    define k where "k = pick pq"
    define cur where "cur = pq ! k"
    define q where "q = take k pq @ drop (Suc k) pq"
    have k: "k < length pq" using pick_bound [OF False] by (simp add: k_def)
    have split: "pq = take k pq @ cur # drop (Suc k) pq" unfolding cur_def by (rule take_drop_nth [OF k])
    have mq: "mset pq = add_mset cur (mset q)"
      by (subst split) (simp add: q_def)
    have sq: "set pq = insert cur (set q)" using arg_cong [OF mq, of set_mset] by simp
    have dq: "distinct (map fp q)" "fp cur \<notin> fp ` set q"
    proof -
      have "distinct (map fp (take k pq @ cur # drop (Suc k) pq))" using r split by (simp add: runs_def)
      then show "distinct (map fp q)" "fp cur \<notin> fp ` set q" by (auto simp: q_def)
    qed
    let ?i = "fp cur"
    have i: "?i < length files" using r sq by (auto simp: runs_def)
    have step: "merge_loop pick pq files out =
        (case fgetline (files ! ?i) of (ok, s, rest) \<Rightarrow>
          merge_loop pick (if ok then q @ [\<lparr>str = s, fp = ?i\<rparr>] else q) (files[?i := rest]) (out @ str cur @ [newline]))"
      unfolding q_def
      using False k by (subst merge_loop.simps) (simp add: Let_def k_def [symmetric] cur_def [symmetric])
    have first: "upto_eq reverse (str cur) l" if "l \<in> str ` set q \<or> l \<in># pending files R" for l
      using top_first [OF r False, of l] that sq unfolding cur_def k_def by auto
    obtain q' files' R' where s: "merge_loop pick pq files out = merge_loop pick q' files' (out @ str cur @ [newline])"
      and r': "runs reverse files' R' q'"
      and m': "mset (map str q') + pending files' R' = mset (map str q) + pending files R"
    proof (cases "R ?i")
      case Nil
      then have f: "files ! ?i = []" using r i by (simp add: runs_def)
      have "runs reverse files R q" using r Nil dq sq unfolding runs_def by auto
      then show ?thesis using that [of q files R] step f list_update_id [of files ?i] by simp
    next
      case (Cons l ls)
      let ?R = "R(?i := ls)" and ?f = "files[?i := unlines ls]" and ?q = "q @ [\<lparr>str = l, fp = ?i\<rparr>]"
      have f: "files ! ?i = l @ newline # unlines ls" "line_ok l" using r i Cons by (auto simp: runs_def)
      have "runs reverse ?f ?R ?q" using r Cons dq sq i unfolding runs_def
        by (auto simp: nth_list_update)
      moreover have "pending ?f ?R = pending files ?R" by (simp add: pending_def)
      ultimately show ?thesis using that [of ?q ?f ?R] step f pending_upd [OF i, of R l ls] Cons by simp
    qed
    have "size (mset (map str q') + pending files' R') < size (mset (map str pq) + pending files R)"
      unfolding m' using arg_cong [OF mq, of size] by simp
    from less.hyps [OF this r'] obtain ls where ls: "merge_loop pick q' files' (out @ str cur @ [newline]) =
        Some ((out @ str cur @ [newline]) @ unlines ls)" "ordered reverse ls"
      "mset ls = mset (map str q) + pending files R" unfolding m' by blast
    have "set ls = str ` set q \<union> set_mset (pending files R)" using arg_cong [OF ls(3), of set_mset] by simp
    then have "ordered reverse (str cur # ls)" using first ls(2) by auto
    then show ?thesis using s ls arg_cong [OF mq, of "image_mset str"] by (intro exI [of _ "str cur # ls"]) simp
  qed
qed

lemma merge_merges:
  assumes R: "\<And>i. i < length files \<Longrightarrow> files ! i = unlines (R i) \<and> ordered reverse (R i) \<and> (\<forall>l \<in> set (R i). line_ok l)"
  shows "\<exists>ls. merge pick cout_ok files = Some (cout_ok, unlines ls) \<and> ordered reverse ls \<and> mset ls = pending files R"
proof -
  obtain pq files' R' where f: "merge_fill [0..<length files] files [] = (pq, files')"
    and r: "runs reverse files' R' pq" "mset (map str pq) + pending files' R' = pending files R"
    using merge_fill_runs [OF R] by blast
  then show ?thesis using merge_loop_merges [OF r(1), of "[]"] by (auto simp: merge_def)
qed

end

text \<open>A priority queue that takes the first of the nodes with the top string.\<close>

fun first_top :: "bool \<Rightarrow> Node list \<Rightarrow> nat" where
  "first_top reverse [] = 0"
| "first_top reverse [n] = 0"
| "first_top reverse (n # q) =
     (let k = first_top reverse q in if Cmp reverse n (q ! k) then Suc k else 0)"

lemma Cmp_trans: "\<not> Cmp rv a b \<Longrightarrow> \<not> Cmp rv b c \<Longrightarrow> \<not> Cmp rv a c"
  by (auto simp: Cmp_def split: if_splits)

lemma Cmp_asym: "Cmp rv a b \<Longrightarrow> \<not> Cmp rv b a"
  by (auto simp: Cmp_def split: if_splits)

lemma first_top_ok:
  "q \<noteq> [] \<Longrightarrow> first_top rv q < length q \<and> (\<forall>n \<in> set q. \<not> Cmp rv (q ! first_top rv q) n)"
proof (induction rv q rule: first_top.induct)
  case (3 rv n m q)
  let ?k = "first_top rv (m # q)"
  have k: "?k < length (m # q)" "\<forall>x \<in> set (m # q). \<not> Cmp rv ((m # q) ! ?k) x" using 3 by simp_all
  show ?case
  proof (cases "Cmp rv n ((m # q) ! ?k)")
    case True
    then show ?thesis using k Cmp_asym [OF True] by (auto simp: Let_def)
  next
    case False
    have "\<not> Cmp rv n x" if "x \<in> set (m # q)" for x
      using Cmp_trans [OF False] k(2) that by blast
    moreover have "\<not> Cmp rv n n" by (simp add: Cmp_def)
    ultimately show ?thesis using False by (auto simp: Let_def)
  qed
qed (simp_all add: Cmp_def)

interpretation first: queue_top rv "first_top rv" for rv
  by unfold_locales (use first_top_ok in blast)+

subsection \<open>The main loop\<close>

function input_lines :: "string \<Rightarrow> string list" where
  "input_lines inp = (case getline inp of None \<Rightarrow> [] | Some (s, rest) \<Rightarrow> s # input_lines rest)"
  by pat_completeness auto
termination
  by (relation "measure length") (auto dest: getline_shorter)

declare input_lines.simps [simp del]

lemma put_lines_eq: "put_lines ok ls = (if \<forall>j < length ls. ok j then Some (unlines (map c_str ls)) else None)"
  by (induction ok ls rule: put_lines.induct) (auto simp: less_Suc_eq_0_disj)

text \<open>The reference for the main loop: the chunks into which the lines are cut, and writing one run per chunk.\<close>

fun chunks :: "string list \<Rightarrow> string list \<Rightarrow> size_t \<Rightarrow> string list list" where
  "chunks [] lst len = (if lst = [] then [] else [lst])"
| "chunks (s # ss) lst len =
     (let len = len + (sizeof_string + of_nat (length s)); lst = lst @ [s] in
      if MEM_LIMIT \<le> len then lst # chunks ss [] 0 else chunks ss lst len)"

definition run_fails :: "run_io \<Rightarrow> string list \<Rightarrow> bool" where
  "run_fails io ls \<longleftrightarrow> \<not> tmpfile_ok io \<or> (\<exists>j < length ls. \<not> put_ok io j)"

definition run_text :: "bool \<Rightarrow> run_io \<Rightarrow> string list \<Rightarrow> string" where
  "run_text rv io ls = rewind (flushed io) (unlines (run_sort rv (map c_str ls)))"

fun write_runs :: "(nat \<Rightarrow> run_io) \<Rightarrow> bool \<Rightarrow> string list \<Rightarrow> string list list \<Rightarrow> string list option" where
  "write_runs io rv files [] = Some files"
| "write_runs io rv files (ls # lss) =
     (if run_fails (io (length files)) ls then None
      else write_runs io rv (files @ [run_text rv (io (length files)) ls]) lss)"

lemma concat_chunks: "concat (chunks ss lst len) = lst @ ss"
  by (induction ss lst len rule: chunks.induct) (auto simp: Let_def)

lemma write_runs_eq:
  "write_runs io rv files lss =
     (if \<exists>i < length lss. run_fails (io (length files + i)) (lss ! i) then None
      else Some (files @ map (\<lambda>i. run_text rv (io (length files + i)) (lss ! i)) [0..<length lss]))"
proof (induction lss arbitrary: files)
  case (Cons ls lss)
  have ex: "(\<exists>i < length (ls # lss). run_fails (io (length files + i)) ((ls # lss) ! i)) \<longleftrightarrow>
      run_fails (io (length files)) ls \<or> (\<exists>i < length lss. run_fails (io (Suc (length files + i))) (lss ! i))"
    by (auto simp: less_Suc_eq_0_disj)
  have mp: "map f [0..<length (ls # lss)] = f 0 # map (\<lambda>i. f (Suc i)) [0..<length lss]" for f :: "nat \<Rightarrow> string"
    by (simp add: upt_conv_Cons map_Suc_upt [symmetric] comp_def del: upt_Suc)
  show ?case unfolding ex mp by (simp add: Cons.IH)
qed simp

lemma separate_eq:
  assumes "lst \<noteq> []"
  shows "separate io rv files lst =
    (if run_fails io lst then (False, files, run_sort rv lst) else (True, files @ [run_text rv io lst], []))"
proof -
  have "length (run_sort rv lst) = length lst" by (simp add: run_sort_def)
  then show ?thesis using assms
    by (simp add: separate_def Let_def put_lines_eq run_fails_def run_text_def run_sort_c_str)
qed

lemma read_runs_eq: "read_runs io rv inp files lst len = write_runs io rv files (chunks (input_lines inp) lst len)"
proof (induction io rv inp files lst len rule: read_runs.induct)
  case (1 io rv inp files lst len)
  show ?case
  proof (cases "getline inp")
    case None
    then have "input_lines inp = []" by (simp add: input_lines.simps)
    moreover have "separate (io (length files)) rv files [] = (True, files, [])" by (simp add: separate_def)
    ultimately show ?thesis using None separate_eq [of lst "io (length files)" rv files]
      by (cases "lst = []") (simp_all add: read_runs.simps)
  next
    case (Some sr)
    obtain s rest where sr: "sr = (s, rest)" by fastforce
    let ?len = "len + (sizeof_string + of_nat (length s))"
    have il: "input_lines inp = s # input_lines rest" using Some sr by (simp add: input_lines.simps [of inp])
    note sep = separate_eq [of "lst @ [s]" "io (length files)" rv files]
    show ?thesis
    proof (cases "MEM_LIMIT \<le> ?len")
      case True
      note IH = 1(1) [OF Some sr [symmetric] refl refl True]
      show ?thesis using IH Some sr True sep unfolding il by (subst read_runs.simps) (auto simp: Let_def)
    next
      case False
      show ?thesis using 1(2) [OF Some sr [symmetric] refl refl False] Some sr False unfolding il
        by (subst read_runs.simps) (simp add: Let_def)
    qed
  qed
qed

text \<open>\<open>written rv files Ls\<close>: the files are the ordered runs of the chunks \<open>Ls\<close>.\<close>

definition written :: "bool \<Rightarrow> string list \<Rightarrow> string list list \<Rightarrow> bool" where
  "written rv files Ls \<longleftrightarrow> files = map (\<lambda>ls. unlines (run_sort rv (map c_str ls))) Ls"

lemma write_runs_written:
  assumes "\<forall>i < length Ls. \<not> run_fails (io i) (Ls ! i) \<and> flushed (io i) = None"
  shows "\<exists>files. write_runs io rv [] Ls = Some files \<and> written rv files Ls"
  using assms by (auto simp: write_runs_eq written_def run_text_def rewind_def intro!: nth_equalityI)

lemma input_lines_no_newline: "l \<in> set (input_lines inp) \<Longrightarrow> newline \<notin> set l"
proof (induction inp rule: input_lines.induct)
  case (1 inp)
  show ?case
  proof (cases "getline inp")
    case None
    then show ?thesis using 1(2) by (simp add: input_lines.simps)
  next
    case (Some sr)
    obtain s rest where sr: "sr = (s, rest)" by fastforce
    have "newline \<notin> set s" using Some sr by (auto simp: getline_def split: if_splits dest: set_takeWhileD)
    then show ?thesis using 1(1) [OF Some sr [symmetric]] 1(2) Some sr by (auto simp: input_lines.simps [of inp])
  qed
qed

lemma pending_written:
  "(\<Sum>i < length Ls. mset (run_sort rv (map c_str (Ls ! i)))) = mset (map c_str (concat Ls))"
proof (induction Ls rule: rev_induct)
  case (snoc ls Ls)
  have "(\<Sum>i < length Ls. mset (run_sort rv (map c_str ((Ls @ [ls]) ! i)))) = (\<Sum>i < length Ls. mset (run_sort rv (map c_str (Ls ! i))))"
    by (intro sum.cong) (auto simp: nth_append)
  then show ?case using snoc by (simp add: run_sort_ordered(2))
qed simp

lemma merge_written:
  assumes q: "queue_top rv pick" and w: "written rv files Ls" and nl: "\<forall>l \<in> set (concat Ls). newline \<notin> set l"
  shows "merge pick cout_ok files = Some (cout_ok, unlines (run_sort rv (map c_str (concat Ls))))"
proof -
  let ?R = "\<lambda>i. run_sort rv (map c_str (Ls ! i))"
  have set_rs: "set (run_sort rv ls) = set ls" for ls by (simp add: run_sort_def)
  have ok: "line_ok (c_str l)" if "newline \<notin> set l" for l
    using that by (auto simp: line_ok_def c_str_def dest: set_takeWhileD)
  have "files ! i = unlines (?R i) \<and> ordered rv (?R i) \<and> (\<forall>l \<in> set (?R i). line_ok l)" if "i < length files" for i
    using w nl that nth_mem [of i Ls] by (auto simp: written_def run_sort_ordered(1) set_rs intro!: ok)
  from queue_top.merge_merges [OF q this]
  obtain ls where ls: "merge pick cout_ok files = Some (cout_ok, unlines ls)" "ordered rv ls" "mset ls = pending files ?R" by blast
  have "length files = length Ls" using w by (simp add: written_def)
  then have "mset ls = mset (map c_str (concat Ls))" unfolding ls(3) pending_def by (simp only: pending_written)
  then show ?thesis using ls(1) ordered_unique [OF ls(2)] by metis
qed

end
