(* ===== verification/Sort_Properties.thy ===== *)
theory Sort_Properties
  imports Ext_Sort_Correct
begin

section \<open>Properties of the external sort\<close>

text \<open>
  The claims about the sorting program as a whole, for every input, tie-breaking of the queue and
  outcome of creating and writing the temporary files.
\<close>

lemma top_choice_queue: "top_choice rv pick \<Longrightarrow> queue_top rv pick"
  by unfold_locales (auto simp: top_choice_def)

lemma sort_main_runs:
  assumes "getopt_r args = (opts, [])" and "set opts \<subseteq> {CHR ''r''}" and "rv = (opts \<noteq> [])"
  shows "sort_main pick io cout_ok args inp =
    (case write_runs io rv [] (chunks (input_lines inp) [] 0) of None \<Rightarrow> Some (1, [])
     | Some files \<Rightarrow> map_option (\<lambda>(ok, out). (if ok then 0 else 1, out)) (merge pick cout_ok files))"
  using assms by (auto simp: sort_main_def Let_def read_runs_eq)

text \<open>
  C5: The program sorts. For every input and every way the priority queue breaks ties, with the options \<^verbatim>\<open>-r\<close> or none:
  the input lines are cut into chunks, one after the other. If the temporary file of one of the chunks cannot be created, or writing one of its lines
  is reported as failed, the program ends with status 1 and prints nothing. Otherwise, if the flush of each run in \<^verbatim>\<open>rewind\<close> succeeds, it hands the input
  lines to the standard output, each once (cut at its first NUL byte if it has one), in ascending byte order, or descending with \<^verbatim>\<open>-r\<close>, across any number of temporary files,
  and ends with status 0, or 1 when that stream has failed by then. Reading the standard input and reading a run back are taken to succeed.
\<close>

theorem sort_main_sorts:
  assumes "top_choice rv pick" and "getopt_r args = (opts, [])" and "set opts \<subseteq> {CHR ''r''}" and "rv = (opts \<noteq> [])"
  shows "\<exists>cs out. cs = chunks (input_lines inp) [] 0 \<and> concat cs = input_lines inp \<and>
    mset out = mset (map c_str (input_lines inp)) \<and> sorted (if rv then rev out else out) \<and>
    (if \<exists>i < length cs. \<not> tmpfile_ok (io i) \<or> (\<exists>j < length (cs ! i). \<not> put_ok (io i) j)
     then sort_main pick io cout_ok args inp = Some (1, [])
     else (\<forall>i < length cs. flushed (io i) = None) \<longrightarrow>
       sort_main pick io cout_ok args inp = Some (if cout_ok then 0 else 1, unlines out))"
proof -
  let ?cs = "chunks (input_lines inp) [] 0" and ?out = "run_sort rv (map c_str (input_lines inp))"
  have cs: "concat ?cs = input_lines inp" by (simp add: concat_chunks)
  have out: "mset ?out = mset (map c_str (input_lines inp))" "sorted (if rv then rev ?out else ?out)"
    using run_sort_ordered [of rv "map c_str (input_lines inp)"] by (simp_all add: ordered_iff)
  note main = sort_main_runs [OF assms(2-4), of pick io cout_ok inp]
  have "sort_main pick io cout_ok args inp = Some (1, [])" if "\<exists>i < length ?cs. run_fails (io i) (?cs ! i)"
    using that by (simp add: main write_runs_eq)
  moreover have "sort_main pick io cout_ok args inp = Some (if cout_ok then 0 else 1, unlines ?out)"
    if ok: "\<forall>i < length ?cs. \<not> run_fails (io i) (?cs ! i) \<and> flushed (io i) = None"
  proof -
    obtain files where f: "write_runs io rv [] ?cs = Some files" "written rv files ?cs" using write_runs_written [OF ok] by blast
    have "\<forall>l \<in> set (concat ?cs). newline \<notin> set l" unfolding cs using input_lines_no_newline by blast
    from merge_written [OF top_choice_queue [OF assms(1)] f(2) this] show ?thesis by (simp add: main f(1) cs)
  qed
  ultimately show ?thesis using cs out unfolding run_fails_def by (intro exI [of _ ?cs] exI [of _ ?out]) (auto split: if_split)
qed

lemma first_top_choice: "top_choice rv (first_top rv)"
  using first.pick_bound first.pick_top by (auto simp: top_choice_def)

text \<open>At the witness, three lines are sorted in descending order; with a full disk the second line of the run cannot be written.\<close>

definition good_io :: run_io where
  "good_io = \<lparr>tmpfile_ok = True, put_ok = (\<lambda>_. True), flushed = None\<rparr>"

definition full_disk :: run_io where
  "full_disk = \<lparr>tmpfile_ok = True, put_ok = (\<lambda>j. j \<noteq> 1), flushed = None\<rparr>"

theorem sort_main_sorts_witness:
  "(\<exists>out. mset out = {# ''a'', ''b'', ''a'' #} \<and> sorted (rev out) \<and>
     sort_main (first_top True) (\<lambda>_. good_io) True [''-r''] (''a'' @ newline # ''b'' @ newline # ''a'') = Some (0, unlines out)) \<and>
   sort_main (first_top True) (\<lambda>_. full_disk) True [''-r''] (''a'' @ newline # ''b'' @ newline # ''a'') = Some (1, [])"
proof -
  define inp where "inp = ''a'' @ newline # ''b'' @ newline # ''a''"
  have l: "input_lines inp = [''a'', ''b'', ''a'']" unfolding inp_def by code_simp
  have c: "map c_str [''a'', ''b'', ''a''] = [''a'', ''b'', ''a'']" by code_simp
  have d: "chunks [''a'', ''b'', ''a''] [] 0 = [[''a'', ''b'', ''a'']]" by code_simp
  note sorts = sort_main_sorts [OF first_top_choice, of "[''-r'']" "''r''" True inp, unfolded l c d]
  have "\<exists>i < length [[''a'', ''b'', ''a'']]. \<not> tmpfile_ok full_disk \<or> (\<exists>j < length ([[''a'', ''b'', ''a'']] ! i). \<not> put_ok full_disk j)"
    by (simp add: full_disk_def)
  then have 1: "sort_main (first_top True) (\<lambda>_. full_disk) True [''-r''] inp = Some (1, [])"
    using sorts [of "\<lambda>_. full_disk" True] by auto
  have "tmpfile_ok good_io" "put_ok good_io j" "flushed good_io = None" for j by (simp_all add: good_io_def)
  then have 2: "\<exists>out. mset out = {# ''a'', ''b'', ''a'' #} \<and> sorted (rev out) \<and>
      sort_main (first_top True) (\<lambda>_. good_io) True [''-r''] inp = Some (0, unlines out)"
    using sorts [of "\<lambda>_. good_io" True] by simp
  show ?thesis using 1 2 unfolding inp_def by simp
qed

text \<open>
  A failing flush goes unnoticed. When \<^verbatim>\<open>fputs\<close> and \<^verbatim>\<open>fputc\<close> have put every run into the buffers of its file and the flushes in \<^verbatim>\<open>rewind\<close>
  fail, the lines are lost, and the program ends with status 0.
\<close>

lemma merge_empty:
  assumes "queue_top rv pick"
  shows "merge pick cout_ok (replicate n []) = Some (cout_ok, [])"
proof -
  have z: "pending files (\<lambda>_. []) = {#}" for files by (simp add: pending_def)
  show ?thesis using queue_top.merge_merges [OF assms, of "replicate n []" "\<lambda>_. []" cout_ok] by (auto simp: z)
qed

lemma lost_flush:
  assumes "top_choice rv pick" and "getopt_r args = (opts, [])" and "set opts \<subseteq> {CHR ''r''}" and "rv = (opts \<noteq> [])"
    and io: "\<And>i. io i = \<lparr>tmpfile_ok = True, put_ok = (\<lambda>_. True), flushed = Some 0\<rparr>"
  shows "sort_main pick io True args inp = Some (0, [])"
proof -
  have "write_runs io rv [] cs = Some (replicate (length cs) [])" for cs
    by (simp add: write_runs_eq run_fails_def io run_text_def rewind_def map_replicate_trivial map_replicate_const)
  then show ?thesis using merge_empty [OF top_choice_queue [OF assms(1)]] by (simp add: sort_main_runs [OF assms(2-4)])
qed

text \<open>
  Reading a run back. \<^verbatim>\<open>fgetline\<close> returns the lines of a run one after the other, of any
  length and whatever its buffer of 1024 bytes cuts them into, and reports the end after the last.
\<close>

fun read_back :: "nat \<Rightarrow> string \<Rightarrow> string list" where
  "read_back 0 f = []"
| "read_back (Suc n) f = (case fgetline f of (ok, l, rest) \<Rightarrow> if ok then l # read_back n rest else [])"

theorem fgetline_reads_back:
  assumes "\<forall>l \<in> set ls. newline \<notin> set l \<and> NUL \<notin> set l" and "length ls < n"
  shows "read_back n (unlines ls) = ls"
  using assms
proof (induction ls arbitrary: n)
  case Nil
  then show ?case by (cases n) simp_all
next
  case (Cons l ls)
  then show ?case by (cases n) (simp_all add: line_ok_def)
qed

theorem fgetline_reads_back_witness:
  "read_back 3 (unlines [replicate 1023 (CHR ''x''), replicate 2000 (CHR ''y'')]) =
    [replicate 1023 (CHR ''x''), replicate 2000 (CHR ''y'')]"
  by (rule fgetline_reads_back) (simp_all add: newline_def NUL_def set_replicate_conv_if)

end
