(* ===== verification/Sys_Calls.thy ===== *)
theory Sys_Calls
  imports Sys_Prelude
begin

section \<open>System calls and the tracer\<close>

text \<open>
  \<^verbatim>\<open>task01-syscalls/src\<close>. The kernel is an argument: what a \<^verbatim>\<open>syscall\<close> instruction leaves in
  \<^verbatim>\<open>rax\<close> for the number and the arguments in the registers. A C function returns its value and
  the new value of \<^verbatim>\<open>errno\<close>.
\<close>

type_synonym kernel = "64 word \<Rightarrow> 64 word \<Rightarrow> 64 word \<Rightarrow> 64 word \<Rightarrow> 64 word"

definition SYS_read :: "64 word" where "SYS_read = 0"
definition SYS_write :: "64 word" where "SYS_write = 1"

subsection \<open>syscall\_asm.c\<close>

definition my_syscall ::
  "kernel \<Rightarrow> 64 word \<Rightarrow> 64 word \<Rightarrow> 64 word \<Rightarrow> 64 word \<Rightarrow> int32 \<Rightarrow> 64 word \<times> int32" where
  "my_syscall k rax rdi rsi rdx errno =
     (let ret = k rax rdi rsi rdx in
      if - 4095 \<le> ret then (- 1, ucast (- ret)) else (ret, errno))"

definition asm_read :: "kernel \<Rightarrow> int32 \<Rightarrow> addr \<Rightarrow> size_t \<Rightarrow> int32 \<Rightarrow> 64 word \<times> int32" where
  "asm_read k fd buf count errno =
     (if count = 0 then (0, errno) else my_syscall k SYS_read (scast fd) buf count errno)"

definition asm_write :: "kernel \<Rightarrow> int32 \<Rightarrow> addr \<Rightarrow> size_t \<Rightarrow> int32 \<Rightarrow> 64 word \<times> int32" where
  "asm_write k fd buf count errno =
     (if count = 0 then (0, errno) else my_syscall k SYS_write (scast fd) buf count errno)"

subsection \<open>syscall\_wrapper.c\<close>

text \<open>The C library's \<^verbatim>\<open>syscall\<close>: a result between -4095 and -1, read as a signed number, is an error.\<close>

definition libc_syscall ::
  "kernel \<Rightarrow> 64 word \<Rightarrow> 64 word \<Rightarrow> 64 word \<Rightarrow> 64 word \<Rightarrow> int32 \<Rightarrow> 64 word \<times> int32" where
  "libc_syscall k n a b c errno =
     (let ret = sint (k n a b c) in
      if - 4095 \<le> ret \<and> ret \<le> - 1 then (- 1, of_int (- ret)) else (of_int ret, errno))"

definition wrapper_read :: "kernel \<Rightarrow> int32 \<Rightarrow> addr \<Rightarrow> size_t \<Rightarrow> int32 \<Rightarrow> 64 word \<times> int32" where
  "wrapper_read k fd buf count errno =
     (if count = 0 then (0, errno) else libc_syscall k SYS_read (scast fd) buf count errno)"

definition wrapper_write :: "kernel \<Rightarrow> int32 \<Rightarrow> addr \<Rightarrow> size_t \<Rightarrow> int32 \<Rightarrow> 64 word \<times> int32" where
  "wrapper_write k fd buf count errno =
     (if count = 0 then (0, errno) else libc_syscall k SYS_write (scast fd) buf count errno)"

subsection \<open>syscall\_tracer.c\<close>

text \<open>What the tracer sees of the traced process: the events its \<^verbatim>\<open>waitpid\<close> calls report, one after
  the other, with the registers that \<^verbatim>\<open>PTRACE_GETREGS\<close> reads at a stop. After the end of the process
  both calls fail and leave \<^verbatim>\<open>status\<close> and \<^verbatim>\<open>regs\<close> as they are.\<close>

record user_regs =
  orig_rax :: "64 word"
  rdi :: "64 word"
  rsi :: "64 word"
  rdx :: "64 word"
  rax :: "64 word"

datatype event = Stopped user_regs | Exited int | Killed nat

datatype status = Sstopped | Sexited | Ssignaled

record tracer =
  events :: "event list"
  status :: status
  regs :: user_regs

text \<open>\<^verbatim>\<open>PTRACE_SYSCALL\<close>, \<^verbatim>\<open>waitpid\<close>, \<^verbatim>\<open>PTRACE_GETREGS\<close>.\<close>

definition next_stop :: "tracer \<Rightarrow> tracer" where
  "next_stop t =
     (case events t of
        [] \<Rightarrow> t
      | Stopped r # es \<Rightarrow> t\<lparr>events := es, status := Sstopped, regs := r\<rparr>
      | Exited c # es \<Rightarrow> t\<lparr>events := es, status := Sexited\<rparr>
      | Killed s # es \<Rightarrow> t\<lparr>events := es, status := Ssignaled\<rparr>)"

text \<open>A line of the output: the call, its arguments and its result.\<close>

record trace_line =
  call :: "64 word"
  args :: "64 word \<times> 64 word \<times> 64 word"
  result :: "64 word"

text \<open>The loop; \<open>None\<close> when it does not end. The condition is checked after a \<^verbatim>\<open>continue\<close> too.\<close>

partial_function (option) trace_loop :: "tracer \<Rightarrow> trace_line list \<Rightarrow> trace_line list option" where
  "trace_loop t out =
     (let t1 = next_stop t; r = regs t1 in
      if orig_rax r \<noteq> SYS_read \<and> orig_rax r \<noteq> SYS_write
      then (if status t1 = Sexited then Some out else trace_loop t1 out)
      else
        let t2 = next_stop t1;
            out' = out @ [\<lparr>call = orig_rax r, args = (rdi r, rsi r, rdx r), result = rax (regs t2)\<rparr>] in
        (if status t2 = Sexited then Some out' else trace_loop t2 out'))"

text \<open>\<^verbatim>\<open>main\<close>: the return value and the output. \<open>regs0\<close> and the first status are the uninitialised locals.
  The child comes back from \<^verbatim>\<open>execvp\<close> only when that fails.\<close>

definition tracer_main :: "nat \<Rightarrow> int \<Rightarrow> status \<Rightarrow> user_regs \<Rightarrow> event list \<Rightarrow> (int \<times> trace_line list) option" where
  "tracer_main argc pid status0 regs0 es =
     (if argc < 2 then Some (1, [])
      else if pid = - 1 then Some (1, [])
      else if pid = 0 then Some (1, [])
      else map_option (\<lambda>out. (0, out)) (trace_loop \<lparr>events = es, status = status0, regs = regs0\<rparr> []))"

subsection \<open>Tracing a process that ends\<close>

definition traced :: "user_regs \<Rightarrow> bool" where
  "traced r \<longleftrightarrow> orig_rax r = SYS_read \<or> orig_rax r = SYS_write"

text \<open>The system calls of a process, each with its registers at entry and at exit.\<close>

definition call_events :: "(user_regs \<times> user_regs) list \<Rightarrow> event list" where
  "call_events cs = concat (map (\<lambda>(en, ex). [Stopped en, Stopped ex]) cs)"

definition line_of :: "user_regs \<times> user_regs \<Rightarrow> trace_line" where
  "line_of c = \<lparr>call = orig_rax (fst c), args = (rdi (fst c), rsi (fst c), rdx (fst c)), result = rax (snd c)\<rparr>"

lemma trace_skip:
  "\<not> traced r \<Longrightarrow> trace_loop \<lparr>events = Stopped r # es, status = st, regs = r0\<rparr> out =
     trace_loop \<lparr>events = es, status = Sstopped, regs = r\<rparr> out"
  by (subst trace_loop.simps) (simp add: next_stop_def Let_def traced_def)

lemma trace_call:
  "traced r \<Longrightarrow> trace_loop \<lparr>events = Stopped r # Stopped r' # es, status = st, regs = r0\<rparr> out =
     trace_loop \<lparr>events = es, status = Sstopped, regs = r'\<rparr> (out @ [line_of (r, r')])"
  by (subst trace_loop.simps) (auto simp: next_stop_def Let_def traced_def line_of_def)

lemma trace_exit:
  "\<not> traced r \<Longrightarrow> trace_loop \<lparr>events = [Exited c], status = st, regs = r\<rparr> out = Some out"
  by (subst trace_loop.simps) (simp add: next_stop_def Let_def traced_def)

lemma trace_calls:
  "\<forall>(en, ex) \<in> set cs. traced en = traced ex \<Longrightarrow> \<exists>r' st'.
     trace_loop \<lparr>events = call_events cs @ es, status = st, regs = r\<rparr> out =
     trace_loop \<lparr>events = es, status = st', regs = r'\<rparr> (out @ map line_of (filter (\<lambda>(en, _). traced en) cs))"
proof (induction cs arbitrary: st r out)
  case Nil
  then show ?case by (auto simp: call_events_def)
next
  case (Cons c cs)
  obtain en ex where c: "c = (en, ex)" by fastforce
  have IH: "\<exists>r' st'. trace_loop \<lparr>events = call_events cs @ es, status = st, regs = r\<rparr> out =
     trace_loop \<lparr>events = es, status = st', regs = r'\<rparr> (out @ map line_of (filter (\<lambda>(en, _). traced en) cs))" for st r out
    by (rule Cons.IH) (use Cons.prems in simp)
  have ev: "call_events (c # cs) = Stopped en # Stopped ex # call_events cs" by (simp add: c call_events_def)
  show ?case
  proof (cases "traced en")
    case True
    then have "trace_loop \<lparr>events = call_events (c # cs) @ es, status = st, regs = r\<rparr> out =
        trace_loop \<lparr>events = call_events cs @ es, status = Sstopped, regs = ex\<rparr> (out @ [line_of c])"
      using trace_call [OF True] ev c by simp
    with IH [of Sstopped ex "out @ [line_of c]"] show ?thesis using True c by auto
  next
    case False
    then have "trace_loop \<lparr>events = call_events (c # cs) @ es, status = st, regs = r\<rparr> out =
        trace_loop \<lparr>events = call_events cs @ es, status = Sstopped, regs = ex\<rparr> out"
      using trace_skip Cons.prems ev c by simp
    with IH [of Sstopped ex out] show ?thesis using False c by auto
  qed
qed

text \<open>A process that does not exit by itself: the loop never sees its condition fulfilled.\<close>

definition no_exit :: "tracer \<Rightarrow> bool" where
  "no_exit t \<longleftrightarrow> (\<forall>c. Exited c \<notin> set (events t)) \<and> status t \<noteq> Sexited"

lemma next_stop_no_exit: "no_exit t \<Longrightarrow> no_exit (next_stop t)"
  by (auto simp: no_exit_def next_stop_def split: list.split event.split)

lemma no_exit_status: "no_exit t \<Longrightarrow> status t \<noteq> Sexited"
  by (simp add: no_exit_def)

lemma trace_no_exit:
  assumes "no_exit t"
  shows "trace_loop t out = None"
proof -
  have "\<not> no_exit t" if "trace_loop t out = Some res" for res
  proof (rule trace_loop.raw_induct [OF _ that, where P = "\<lambda>t out res. \<not> no_exit t"])
    fix f t out res
    assume IH: "\<And>t out res. f t out = Some res \<Longrightarrow> \<not> no_exit t"
      and e: "(let t1 = next_stop t; r = regs t1 in
        if orig_rax r \<noteq> SYS_read \<and> orig_rax r \<noteq> SYS_write then (if status t1 = Sexited then Some out else f t1 out)
        else let t2 = next_stop t1;
            out' = out @ [\<lparr>call = orig_rax r, args = (rdi r, rsi r, rdx r), result = rax (regs t2)\<rparr>] in
          (if status t2 = Sexited then Some out' else f t2 out')) = Some res"
    show "\<not> no_exit t"
    proof
      assume t: "no_exit t"
      note n1 = next_stop_no_exit [OF t]
      note n2 = next_stop_no_exit [OF n1]
      show False using e IH n1 n2 no_exit_status [OF n1] no_exit_status [OF n2] by (auto simp: Let_def split: if_splits)
    qed
  qed
  then show ?thesis using assms by (cases "trace_loop t out") auto
qed

end
