(* ===== verification/Sys_Properties.thy ===== *)
theory Sys_Properties
  imports Sys_Calls
begin

section \<open>Properties of the system-call labs\<close>

text \<open>
  The claims about the preload libraries and the tracer, for every kernel and every traced process.
\<close>

lemma uint_of_sint: "uint (r :: 64 word) = (if 0 \<le> sint r then sint r else sint r + 2 ^ 64)"
proof -
  have u: "uint r = sint r mod 2 ^ 64" by (simp add: uint_sint take_bit_eq_mod)
  have b: "sint r < 2 ^ 63" "- (2 ^ 63) \<le> sint r" using sint_lt [of r] sint_ge [of r] by simp_all
  show ?thesis
  proof (cases "0 \<le> sint r")
    case True
    then show ?thesis using u b by simp
  next
    case False
    have "sint r mod 2 ^ 64 = (sint r + 2 ^ 64) mod 2 ^ 64" by simp
    also have "\<dots> = sint r + 2 ^ 64" by (rule mod_pos_pos_trivial) (use b False in auto)
    finally show ?thesis using u False by simp
  qed
qed

lemma error_range: "- 4095 \<le> (r :: 64 word) \<longleftrightarrow> - 4095 \<le> sint r \<and> sint r \<le> - 1"
proof -
  have "uint (- 4095 :: 64 word) = 2 ^ 64 - 4095" by simp
  moreover have "sint r < 2 ^ 63" using sint_lt [of r] by simp
  ultimately show ?thesis unfolding word_le_def uint_of_sint [of r] by auto
qed

lemma ucast_minus: "ucast (- r) = (of_int (- sint r) :: int32)" for r :: "64 word"
proof -
  have "- r = word_of_int (- sint r)" by simp
  moreover have "ucast (word_of_int x :: 64 word) = (word_of_int x :: int32)" for x
    by (rule bit_word_eqI) (auto simp: bit_simps)
  ultimately show ?thesis by metis
qed

text \<open>
  C34: Both libraries behave the same. The assembly version tests for an error by one unsigned
  comparison and the wrapper relies on the C library's \<^verbatim>\<open>syscall\<close>, which looks for a signed result
  between -4095 and -1: \<^verbatim>\<open>read\<close> and \<^verbatim>\<open>write\<close> of the two libraries return the same value and leave
  the same \<^verbatim>\<open>errno\<close> for every answer of the kernel. \<^verbatim>\<open>errno\<close> changes only when -1 is returned.
\<close>

theorem libraries_agree:
  "asm_read k fd buf count errno = wrapper_read k fd buf count errno \<and>
   asm_write k fd buf count errno = wrapper_write k fd buf count errno \<and>
   (case asm_read k fd buf count errno of (r, e) \<Rightarrow> e = errno \<or> r = - 1)"
proof -
  have "my_syscall k n a b c errno = libc_syscall k n a b c errno" for n a b c
    by (simp add: my_syscall_def libc_syscall_def Let_def error_range ucast_minus)
  moreover have "case asm_read k fd buf count errno of (r, e) \<Rightarrow> e = errno \<or> r = - 1"
    by (simp add: asm_read_def my_syscall_def Let_def)
  ultimately show ?thesis by (simp add: asm_read_def asm_write_def wrapper_read_def wrapper_write_def)
qed

text \<open>
  Empty transfers. For a count of 0 both libraries return 0 without asking the kernel, which
  would report a bad descriptor: the error of the plain system call is not seen.
\<close>

theorem zero_count_hides_error:
  assumes "k SYS_read (scast fd) buf 0 = - 9"
  shows "asm_read k fd buf 0 errno = (0, errno) \<and> wrapper_read k fd buf 0 errno = (0, errno) \<and>
    libc_syscall k SYS_read (scast fd) buf 0 errno = (- 1, 9)"
  using assms by (simp add: asm_read_def wrapper_read_def libc_syscall_def)

theorem zero_count_hides_error_witness:
  "asm_read (\<lambda>_ _ _ _. - 9) 77 0x1000 0 0 = (0, 0) \<and> libc_syscall (\<lambda>_ _ _ _. - 9) SYS_read (scast (77 :: int32)) 0x1000 0 0 = (- 1, 9)"
  using zero_count_hides_error [of "\<lambda>_ _ _ _. - 9" 77 "0x1000" 0] by simp

subsection \<open>The tracer\<close>

text \<open>
  C35: The tracer reports every call once. For a process that stops after its \<^verbatim>\<open>execve\<close>, makes
  any sequence of system calls, each with a stop at entry and at exit, and exits, the tracer ends with
  status 0 and prints exactly one line for each \<^verbatim>\<open>read\<close> and \<^verbatim>\<open>write\<close>, in order, with the arguments
  at entry and the result at exit.
\<close>

theorem tracer_reports_calls:
  assumes "2 \<le> argc" and "0 < pid" and "\<not> traced start" and "\<not> traced leave"
    and "\<forall>(en, ex) \<in> set cs. traced en = traced ex"
  shows "tracer_main argc pid st r (Stopped start # call_events cs @ [Stopped leave, Exited c]) =
    Some (0, map line_of (filter (\<lambda>(en, _). traced en) cs))"
proof -
  let ?es = "[Stopped leave, Exited c]" and ?ls = "map line_of (filter (\<lambda>(en, _). traced en) cs)"
  obtain r' st' where "trace_loop \<lparr>events = call_events cs @ ?es, status = Sstopped, regs = start\<rparr> [] =
      trace_loop \<lparr>events = ?es, status = st', regs = r'\<rparr> ([] @ ?ls)"
    using trace_calls [OF assms(5)] by blast
  also have "\<dots> = Some ?ls" using trace_skip [OF assms(4)] trace_exit [OF assms(4)] by simp
  finally show ?thesis using assms(1,2) trace_skip [OF assms(3)] by (simp add: tracer_main_def)
qed

definition regs_of :: "64 word \<Rightarrow> 64 word \<Rightarrow> user_regs" where
  "regs_of n v = \<lparr>orig_rax = n, rdi = 1, rsi = 0x1000, rdx = 5, rax = v\<rparr>"

theorem tracer_reports_calls_witness:
  "tracer_main 2 42 Sstopped (regs_of 0 0)
     [Stopped (regs_of 59 0), Stopped (regs_of 1 0), Stopped (regs_of 1 5), Stopped (regs_of 12 0), Stopped (regs_of 12 7),
      Stopped (regs_of 231 0), Exited 0] =
   Some (0, [\<lparr>call = 1, args = (1, 0x1000, 5), result = 5\<rparr>])"
  using tracer_reports_calls [of 2 42 "regs_of 59 0" "regs_of 231 0" "[(regs_of 1 0, regs_of 1 5), (regs_of 12 0, regs_of 12 7)]" Sstopped "regs_of 0 0" 0]
  by (simp add: traced_def regs_of_def SYS_read_def SYS_write_def call_events_def line_of_def)

text \<open>
  A killed process. When the traced process is ended by a signal, whatever it did before, the
  tracer does not end: it waits for \<^verbatim>\<open>WIFEXITED\<close>, which a killed process never fulfils.
\<close>

theorem tracer_hangs_on_kill:
  assumes "2 \<le> argc" and "0 < pid" and "st \<noteq> Sexited"
  shows "tracer_main argc pid st r (map Stopped rs @ [Killed s]) = None"
proof -
  have "no_exit \<lparr>events = map Stopped rs @ [Killed s], status = st, regs = r\<rparr>" using assms(3) by (auto simp: no_exit_def)
  then show ?thesis using assms(1,2) trace_no_exit by (simp add: tracer_main_def)
qed

theorem tracer_hangs_on_kill_witness:
  "tracer_main 2 42 Sstopped (regs_of 0 0) [Stopped (regs_of 59 0), Stopped (regs_of 0 0), Killed 9] = None"
  using tracer_hangs_on_kill [of 2 42 Sstopped "regs_of 0 0" "[regs_of 59 0, regs_of 0 0]" 9] by simp

end
