(* ===== verification/C_Strings.thy ===== *)
theory C_Strings
  imports Sys_Prelude
begin

section \<open>C strings\<close>

text \<open>
  The string routines of the C library the labs use. A C string is the list of its
  characters before the terminating NUL. \<^verbatim>\<open>snprintf(buf, n, "%s", s)\<close> keeps at most
  \<open>n - 1\<close> characters; \<^verbatim>\<open>strtok(s, "/")\<close> is the next token and what follows it;
  \<open>cut_last_slash\<close> is what \<^verbatim>\<open>strrchr(s, '/')\<close> splits a string into. The scanning
  functions are the conversions of \<^verbatim>\<open>sscanf\<close>, each with what is left of the input,
  the printing functions those of \<^verbatim>\<open>fprintf\<close>.
\<close>

definition snprintf_s :: "nat \<Rightarrow> string \<Rightarrow> string" where
  "snprintf_s n s = take (n - 1) s"

definition strtok :: "string \<Rightarrow> (string \<times> string) option" where
  "strtok s =
     (let t = dropWhile (\<lambda>c. c = CHR ''/'') s
      in if t = [] then None
         else Some (takeWhile (\<lambda>c. c \<noteq> CHR ''/'') t, drop 1 (dropWhile (\<lambda>c. c \<noteq> CHR ''/'') t)))"

definition cut_last_slash :: "string \<Rightarrow> (string \<times> string) option" where
  "cut_last_slash s =
     (case dropWhile (\<lambda>c. c \<noteq> CHR ''/'') (rev s) of
        [] \<Rightarrow> None
      | _ # r \<Rightarrow> Some (rev r, rev (takeWhile (\<lambda>c. c \<noteq> CHR ''/'') (rev s))))"

lemma strtok_shorter:
  assumes "strtok s = Some (tok, rest)"
  shows "length rest < length s"
proof -
  let ?t = "dropWhile (\<lambda>c. c = CHR ''/'') s"
  have r: "rest = drop 1 (dropWhile (\<lambda>c. c \<noteq> CHR ''/'') ?t)" and n: "?t \<noteq> []"
    using assms by (auto simp: strtok_def Let_def split: if_splits)
  have "0 < length ?t" using n by (rule length_greater_0_conv [THEN iffD2])
  with length_dropWhile_le [of "\<lambda>c. c \<noteq> CHR ''/''" "?t"] have "length rest < length ?t"
    unfolding r length_drop by linarith
  also have "length ?t \<le> length s" by (rule length_dropWhile_le)
  finally show ?thesis .
qed

lemma strtok_token:
  assumes "strtok s = Some (tok, rest)"
  shows "tok \<noteq> [] \<and> CHR ''/'' \<notin> set tok"
proof -
  let ?t = "dropWhile (\<lambda>c. c = CHR ''/'') s"
  have n: "?t \<noteq> []" and tk: "tok = takeWhile (\<lambda>c. c \<noteq> CHR ''/'') ?t"
    using assms by (auto simp: strtok_def Let_def split: if_splits)
  have "hd ?t \<noteq> CHR ''/''" using hd_dropWhile [OF n] by simp
  with n tk show ?thesis by (cases "?t") (auto dest: set_takeWhileD)
qed

text \<open>The components of a path, as the loop over \<^verbatim>\<open>strtok\<close> meets them.\<close>

function components :: "string \<Rightarrow> string list" where
  "components s = (case strtok s of None \<Rightarrow> [] | Some (tok, rest) \<Rightarrow> tok # components rest)"
  by pat_completeness auto
termination
  by (relation "measure length") (auto dest: strtok_shorter)

declare components.simps [simp del]

lemma strtok_Nil [simp]: "strtok [] = None"
  by (simp add: strtok_def)

lemma strtok_slash [simp]: "strtok (CHR ''/'' # s) = strtok s"
  by (simp add: strtok_def)

lemma strtok_name:
  assumes "w \<noteq> []" and "CHR ''/'' \<notin> set w"
  shows "strtok (w @ CHR ''/'' # s) = Some (w, s)" "strtok w = Some (w, [])"
proof -
  obtain c v where w: "w = c # v" "c \<noteq> CHR ''/''" using assms by (cases w) auto
  have "takeWhile (\<lambda>c. c \<noteq> CHR ''/'') (w @ CHR ''/'' # s) = w"
    "dropWhile (\<lambda>c. c \<noteq> CHR ''/'') (w @ CHR ''/'' # s) = CHR ''/'' # s"
    "takeWhile (\<lambda>c. c \<noteq> CHR ''/'') w = w" "dropWhile (\<lambda>c. c \<noteq> CHR ''/'') w = []"
    using assms(2) by (auto simp: takeWhile_append dropWhile_append takeWhile_eq_all_conv)
  moreover have "dropWhile (\<lambda>c. c = CHR ''/'') (w @ x) = w @ x" for x using w by simp
  ultimately show "strtok (w @ CHR ''/'' # s) = Some (w, s)" "strtok w = Some (w, [])"
    using assms(1) append_Nil2 [of w] unfolding strtok_def Let_def by (metis append_is_Nil_conv drop_0 drop_Suc_Cons One_nat_def, metis drop_Nil append_Nil2)
qed

lemma components_simps [simp]:
  "components [] = []" "components (CHR ''/'' # s) = components s"
  by (simp_all add: components.simps)

lemma components_name:
  "w \<noteq> [] \<Longrightarrow> CHR ''/'' \<notin> set w \<Longrightarrow> components (w @ CHR ''/'' # s) = w # components s"
  "w \<noteq> [] \<Longrightarrow> CHR ''/'' \<notin> set w \<Longrightarrow> components w = [w]"
  by (simp_all add: components.simps [of "w @ _"] components.simps [of w] strtok_name)

lemma components_append:
  "components (p @ CHR ''/'' # s) = components p @ components s"
proof (induction p rule: length_induct)
  case (1 p)
  show ?case
  proof (cases p)
    case Nil
    then show ?thesis by simp
  next
    case (Cons c q)
    show ?thesis
    proof (cases "c = CHR ''/''")
      case True
      then show ?thesis using 1 Cons by simp
    next
      case False
      define w where "w = takeWhile (\<lambda>c. c \<noteq> CHR ''/'') p"
      have w: "w \<noteq> []" "CHR ''/'' \<notin> set w"
        using Cons False by (auto simp: w_def dest: set_takeWhileD)
      show ?thesis
      proof (cases "dropWhile (\<lambda>c. c \<noteq> CHR ''/'') p")
        case Nil
        then have "p = w" unfolding w_def by (metis append_Nil2 takeWhile_dropWhile_id)
        then show ?thesis using components_name w by simp
      next
        case (Cons d r)
        then have d: "d = CHR ''/''" using hd_dropWhile [of "\<lambda>c. c \<noteq> CHR ''/''" p] by simp
        then have p: "p = w @ CHR ''/'' # r" using Cons takeWhile_dropWhile_id [of "\<lambda>c. c \<noteq> CHR ''/''" p]
          by (simp add: w_def)
        then have "components (r @ CHR ''/'' # s) = components r @ components s"
          using 1 by simp
        then show ?thesis using p components_name(1) [OF w] by simp
      qed
    qed
  qed
qed

lemma cut_last_slash_name:
  "CHR ''/'' \<notin> set w \<Longrightarrow> cut_last_slash (p @ CHR ''/'' # w) = Some (p, w)"
  by (simp add: cut_last_slash_def takeWhile_append dropWhile_append)

lemma cut_last_slash_Some:
  assumes "cut_last_slash s = Some (p, w)"
  shows "s = p @ CHR ''/'' # w" "CHR ''/'' \<notin> set w"
proof -
  obtain d r where d: "dropWhile (\<lambda>c. c \<noteq> CHR ''/'') (rev s) = d # r" and p: "p = rev r"
    and w: "w = rev (takeWhile (\<lambda>c. c \<noteq> CHR ''/'') (rev s))"
    using assms by (auto simp: cut_last_slash_def split: list.splits)
  have "d = CHR ''/''" using hd_dropWhile [of "\<lambda>c. c \<noteq> CHR ''/''" "rev s"] d by simp
  then have "rev s = rev w @ CHR ''/'' # rev p"
    using takeWhile_dropWhile_id [of "\<lambda>c. c \<noteq> CHR ''/''" "rev s"] d p w by simp
  then show "s = p @ CHR ''/'' # w" by (metis rev_append rev_rev_ident rev.simps(2) append.assoc append_Cons append_Nil)
  show "CHR ''/'' \<notin> set w" using w by (auto dest: set_takeWhileD)
qed

end
