(* ===== verification/Fs_Inode.thy ===== *)
theory Fs_Inode
  imports C_Strings
begin

section \<open>MemFS: the inode tree\<close>

text \<open>
  The inode tree of \<^verbatim>\<open>task02-fileio/src/inode.c\<close>. Inodes are never freed, so an inode
  pointer is its index in the list of all inodes in the order of their creation, with
  the root at 0; \<^verbatim>\<open>children\<close> with \<^verbatim>\<open>child_count\<close> is the list of the child
  pointers. File data is a list of bytes in which \<open>None\<close> marks a byte that was
  allocated but never written. Whether an allocation succeeds is an argument.
\<close>

type_synonym mode_t = "32 word"

definition S_IFMT :: mode_t where "S_IFMT = 0xF000"
definition S_IFDIR :: mode_t where "S_IFDIR = 0x4000"
definition S_IFREG :: mode_t where "S_IFREG = 0x8000"
definition S_IFLNK :: mode_t where "S_IFLNK = 0xA000"

definition S_ISDIR :: "mode_t \<Rightarrow> bool" where "S_ISDIR m \<longleftrightarrow> m AND S_IFMT = S_IFDIR"
definition S_ISREG :: "mode_t \<Rightarrow> bool" where "S_ISREG m \<longleftrightarrow> m AND S_IFMT = S_IFREG"
definition S_ISLNK :: "mode_t \<Rightarrow> bool" where "S_ISLNK m \<longleftrightarrow> m AND S_IFMT = S_IFLNK"

definition MAX_NAME_LEN :: nat where "MAX_NAME_LEN = 255"
definition MAX_CHILDREN :: nat where "MAX_CHILDREN = 1024"

type_synonym inode_ptr = nat

record INode_Attr =
  iname :: string
  mode :: mode_t
  nlink :: nat
  data :: "byte option list"
  size_of :: size_t
  link_target :: "string option"

record INode =
  parent :: "inode_ptr option"
  children :: "inode_ptr list"
  attr :: INode_Attr

type_synonym inodes = "INode list"

definition root :: INode where
  "root = \<lparr>parent = None, children = [],
     attr = \<lparr>iname = [], mode = S_IFDIR OR 0x1ED, nlink = 2, data = [], size_of = 0,
             link_target = None\<rparr>\<rparr>"

definition find_child :: "inodes \<Rightarrow> inode_ptr option \<Rightarrow> string \<Rightarrow> inode_ptr option" where
  "find_child T dir nm =
     (case dir of None \<Rightarrow> None
      | Some d \<Rightarrow> if \<not> S_ISDIR (mode (attr (T ! d))) then None
                 else find (\<lambda>c. iname (attr (T ! c)) = nm) (children (T ! d)))"

text \<open>The \<^verbatim>\<open>strtok\<close> loop of \<^verbatim>\<open>find_by_path\<close>, from the inode \<open>cur\<close>.\<close>

function walk :: "inodes \<Rightarrow> inode_ptr \<Rightarrow> string \<Rightarrow> inode_ptr option" where
  "walk T cur buf =
     (case strtok buf of None \<Rightarrow> Some cur
      | Some (token, rest) \<Rightarrow>
          (case find_child T (Some cur) token of None \<Rightarrow> None
           | Some c \<Rightarrow> walk T c rest))"
  by pat_completeness auto
termination
  by (relation "measure (\<lambda>(T, cur, buf). length buf)") (auto dest: strtok_shorter)

declare walk.simps [simp del]

definition find_by_path :: "inodes \<Rightarrow> string \<Rightarrow> inode_ptr option" where
  "find_by_path T path = walk T 0 (snprintf_s 1024 path)"

text \<open>The parent directory and the base name, or \<open>None\<close> when no parent is found.\<close>

definition parse_parent :: "inodes \<Rightarrow> string \<Rightarrow> (inode_ptr \<times> string) option" where
  "parse_parent T path =
     (case cut_last_slash (snprintf_s 1024 path) of None \<Rightarrow> None
      | Some (buf, rest) \<Rightarrow>
          if rest = [] then None
          else let basename = snprintf_s (MAX_NAME_LEN + 1) rest
               in if buf = [] then Some (0, basename)
                  else map_option (\<lambda>p. (p, basename)) (find_by_path T buf))"

definition new_inode :: "inode_ptr \<Rightarrow> string \<Rightarrow> mode_t \<Rightarrow> INode" where
  "new_inode p nm m =
     \<lparr>parent = Some p, children = [],
      attr = \<lparr>iname = snprintf_s (MAX_NAME_LEN + 1) nm, mode = m,
              nlink = (if S_ISDIR m then 2 else 1), data = [], size_of = 0, link_target = None\<rparr>\<rparr>"

definition create_inode ::
  "bool \<Rightarrow> inodes \<Rightarrow> inode_ptr option \<Rightarrow> string \<Rightarrow> mode_t \<Rightarrow> (inode_ptr \<times> inodes) option" where
  "create_inode calloc_ok T par nm m =
     (case par of None \<Rightarrow> None
      | Some p \<Rightarrow>
          if \<not> S_ISDIR (mode (attr (T ! p))) \<or> MAX_CHILDREN \<le> length (children (T ! p)) then None
          else if \<not> calloc_ok then None
          else Some (length T,
                     T[p := (T ! p)\<lparr>children := children (T ! p) @ [length T]\<rparr>] @ [new_inode p nm m]))"

text \<open>The traversal of \<^verbatim>\<open>statfs\<close>: \<open>fuel\<close> bounds the depth of the recursion, and \<open>None\<close>
  means that it was not enough.\<close>

fun collect_statfs ::
  "nat \<Rightarrow> inodes \<Rightarrow> inode_ptr \<Rightarrow> size_t \<times> size_t \<Rightarrow> (size_t \<times> size_t) option"
  and collect_children ::
  "nat \<Rightarrow> inodes \<Rightarrow> inode_ptr list \<Rightarrow> size_t \<times> size_t \<Rightarrow> (size_t \<times> size_t) option" where
  "collect_statfs 0 T i (files, blocks) = None"
| "collect_statfs (Suc fuel) T i (files, blocks) =
     (let a = attr (T ! i);
          acc = (if S_ISREG (mode a) then (files + 1, blocks + size_of a) else (files, blocks))
      in if S_ISDIR (mode a) then collect_children fuel T (children (T ! i)) acc else Some acc)"
| "collect_children fuel T [] acc = Some acc"
| "collect_children fuel T (c # cs) acc =
     (case collect_statfs fuel T c acc of None \<Rightarrow> None
      | Some acc' \<Rightarrow> collect_children fuel T cs acc')"

subsection \<open>The tree invariant\<close>

text \<open>
  Every inode but the root is listed exactly once, in the directory it has as parent,
  which was created before it; only directories have children, at most
  \<^verbatim>\<open>MAX_CHILDREN\<close>, with distinct names of 1 to \<^verbatim>\<open>MAX_NAME_LEN\<close> characters; the data of a
  file has the recorded length.
\<close>

definition name_ok :: "string \<Rightarrow> bool" where
  "name_ok w \<longleftrightarrow> w \<noteq> [] \<and> length w \<le> MAX_NAME_LEN \<and> CHR ''/'' \<notin> set w"

definition node_ok :: "inodes \<Rightarrow> inode_ptr \<Rightarrow> bool" where
  "node_ok T i \<longleftrightarrow>
     length (children (T ! i)) \<le> MAX_CHILDREN \<and>
     (\<forall>c \<in> set (children (T ! i)). i < c \<and> c < length T \<and> parent (T ! c) = Some i) \<and>
     distinct (map (\<lambda>c. iname (attr (T ! c))) (children (T ! i))) \<and>
     (children (T ! i) \<noteq> [] \<longrightarrow> S_ISDIR (mode (attr (T ! i)))) \<and>
     length (data (attr (T ! i))) = unat (size_of (attr (T ! i))) \<and>
     (0 < i \<longrightarrow> (\<exists>p < i. parent (T ! i) = Some p \<and> i \<in> set (children (T ! p)))) \<and>
     (0 < i \<longrightarrow> name_ok (iname (attr (T ! i)))) \<and>
     (i = 0 \<longrightarrow> parent (T ! i) = None)"

definition tree_ok :: "inodes \<Rightarrow> bool" where
  "tree_ok T \<longleftrightarrow> T \<noteq> [] \<and> S_ISDIR (mode (attr (T ! 0))) \<and> (\<forall>i < length T. node_ok T i)"

lemma tree_okD:
  assumes "tree_ok T" and "i < length T"
  shows "length (children (T ! i)) \<le> MAX_CHILDREN"
    "\<And>c. c \<in> set (children (T ! i)) \<Longrightarrow> i < c \<and> c < length T \<and> parent (T ! c) = Some i"
    "distinct (map (\<lambda>c. iname (attr (T ! c))) (children (T ! i)))"
    "children (T ! i) \<noteq> [] \<Longrightarrow> S_ISDIR (mode (attr (T ! i)))"
    "length (data (attr (T ! i))) = unat (size_of (attr (T ! i)))"
    "0 < i \<Longrightarrow> \<exists>p < i. parent (T ! i) = Some p \<and> i \<in> set (children (T ! p))"
    "0 < i \<Longrightarrow> name_ok (iname (attr (T ! i)))"
    "i = 0 \<Longrightarrow> parent (T ! i) = None"
proof -
  have n: "node_ok T i" using assms by (simp add: tree_ok_def)
  note n' = n [unfolded node_ok_def]
  show "length (children (T ! i)) \<le> MAX_CHILDREN" by (rule n' [THEN conjunct1])
  show "\<And>c. c \<in> set (children (T ! i)) \<Longrightarrow> i < c \<and> c < length T \<and> parent (T ! c) = Some i"
    by (rule bspec [OF n' [THEN conjunct2, THEN conjunct1]])
  show "distinct (map (\<lambda>c. iname (attr (T ! c))) (children (T ! i)))"
    by (rule n' [THEN conjunct2, THEN conjunct2, THEN conjunct1])
  show "children (T ! i) \<noteq> [] \<Longrightarrow> S_ISDIR (mode (attr (T ! i)))"
    by (rule mp [OF n' [THEN conjunct2, THEN conjunct2, THEN conjunct2, THEN conjunct1]])
  show "length (data (attr (T ! i))) = unat (size_of (attr (T ! i)))"
    by (rule n' [THEN conjunct2, THEN conjunct2, THEN conjunct2, THEN conjunct2, THEN conjunct1])
  show "0 < i \<Longrightarrow> \<exists>p < i. parent (T ! i) = Some p \<and> i \<in> set (children (T ! p))"
    by (rule mp [OF n' [THEN conjunct2, THEN conjunct2, THEN conjunct2, THEN conjunct2, THEN conjunct2, THEN conjunct1]])
  show "0 < i \<Longrightarrow> name_ok (iname (attr (T ! i)))"
    by (rule mp [OF n' [THEN conjunct2, THEN conjunct2, THEN conjunct2, THEN conjunct2, THEN conjunct2, THEN conjunct2, THEN conjunct1]])
  show "i = 0 \<Longrightarrow> parent (T ! i) = None"
    by (rule mp [OF n' [THEN conjunct2, THEN conjunct2, THEN conjunct2, THEN conjunct2, THEN conjunct2, THEN conjunct2, THEN conjunct2]])
qed

lemma find_child_bound:
  assumes "tree_ok T" and "d < length T" and "find_child T (Some d) nm = Some c"
  shows "d < c" "c < length T" "c \<in> set (children (T ! d))" "iname (attr (T ! c)) = nm"
    "S_ISDIR (mode (attr (T ! d)))"
proof -
  have f: "find (\<lambda>c. iname (attr (T ! c)) = nm) (children (T ! d)) = Some c"
    and "S_ISDIR (mode (attr (T ! d)))"
    using assms(3) by (simp_all add: find_child_def split: if_splits)
  then show "c \<in> set (children (T ! d))" "iname (attr (T ! c)) = nm" "S_ISDIR (mode (attr (T ! d)))"
    by (auto simp: find_Some_iff)
  then show "d < c" "c < length T" using tree_okD(2) [OF assms(1,2)] by auto
qed

lemma walk_bound:
  "tree_ok T \<Longrightarrow> i < length T \<Longrightarrow> walk T i buf = Some j \<Longrightarrow> j < length T"
proof (induction T i buf rule: walk.induct)
  case (1 T cur buf)
  show ?case
  proof (cases "strtok buf")
    case None
    then show ?thesis using 1 by (simp add: walk.simps [of T cur buf])
  next
    case (Some a)
    then obtain token rest where s: "strtok buf = Some (token, rest)" by (cases a) auto
    then obtain c where c: "find_child T (Some cur) token = Some c" "walk T c rest = Some j"
      using 1(4) by (auto simp: walk.simps [of T cur buf] split: option.splits)
    then show ?thesis using 1(1) [OF s] 1(2) find_child_bound(2) [OF 1(2,3) c(1)] s c by blast
  qed
qed

lemma find_by_path_bound: "tree_ok T \<Longrightarrow> find_by_path T path = Some i \<Longrightarrow> i < length T"
  by (auto simp: find_by_path_def tree_ok_def intro: walk_bound)

lemma parse_parent_bound:
  assumes "tree_ok T" and "parse_parent T path = Some (p, b)"
  shows "p < length T"
proof -
  have "p = 0 \<or> (\<exists>buf. find_by_path T buf = Some p)"
    using assms(2) by (auto simp: parse_parent_def Let_def split: option.splits if_splits)
  then show ?thesis using assms(1) find_by_path_bound by (auto simp: tree_ok_def)
qed

end
