(* ===== verification/Fs_Statfs.thy ===== *)
theory Fs_Statfs
  imports Fs_Tree "HOL-Library.Multiset"
begin

section \<open>MemFS: the traversal of statfs\<close>

text \<open>
  \<^verbatim>\<open>collect_statfs\<close> recurses over the directory tree. On a consistent tree the recursion
  is never deeper than the number of inodes, so that number is enough fuel, and it visits
  every inode exactly once: the counters are the number and the total size of the
  regular files among all inodes.
\<close>

fun visit :: "nat \<Rightarrow> inodes \<Rightarrow> inode_ptr \<Rightarrow> inode_ptr list" where
  "visit 0 T i = []"
| "visit (Suc f) T i = i # concat (map (visit f T) (children (T ! i)))"

definition tally :: "inodes \<Rightarrow> inode_ptr \<Rightarrow> size_t \<times> size_t \<Rightarrow> size_t \<times> size_t" where
  "tally T i acc = (case acc of (files, blocks) \<Rightarrow>
     if S_ISREG (mode (attr (T ! i))) then (files + 1, blocks + size_of (attr (T ! i))) else acc)"

lemma tally_pair:
  "tally T i (a, b) =
    (if S_ISREG (mode (attr (T ! i))) then (a + 1, b + size_of (attr (T ! i))) else (a, b))"
  by (simp add: tally_def)

lemma collect_visit:
  assumes ok: "tree_ok T"
  shows "i < length T \<Longrightarrow> length T - i \<le> f \<Longrightarrow> collect_statfs f T i acc = Some (fold (tally T) (visit f T i) acc)"
proof (induction f arbitrary: i acc)
  case 0
  then show ?case by simp
next
  case (Suc f)
  have kids: "collect_children f T cs acc = Some (fold (tally T) (concat (map (visit f T) cs)) acc)"
    if "set cs \<subseteq> set (children (T ! i))" for cs acc
    using that
  proof (induction cs arbitrary: acc)
    case Nil
    then show ?case by simp
  next
    case (Cons c cs)
    then have "i < c" "c < length T" using tree_okD(2) [OF ok Suc.prems(1), of c] by simp_all
    then have "collect_statfs f T c acc = Some (fold (tally T) (visit f T c) acc)"
      using Suc.prems(2) by (intro Suc.IH) simp_all
    then show ?case using Cons by simp
  qed
  obtain files blocks where acc: "acc = (files, blocks)" by (cases acc)
  have "children (T ! i) = []" if "\<not> S_ISDIR (mode (attr (T ! i)))"
    using tree_okD(4) [OF ok Suc.prems(1)] that by blast
  then show ?case using kids [of "children (T ! i)"] by (auto simp: acc Let_def tally_pair)
qed

lemma count_concat: "count (mset (concat xss)) x = sum_list (map (\<lambda>xs. count (mset xs) x) xss)"
  by (induction xss) auto

lemma count_children:
  assumes ok: "tree_ok T" and i: "i < length T" and x: "x < length T"
  shows "count (mset (children (T ! i))) x = (if parent (T ! x) = Some i then 1 else 0)"
proof -
  have "distinct (children (T ! i))" using tree_okD(3) [OF ok i] by (simp add: distinct_map)
  moreover have "x \<in> set (children (T ! i)) \<longleftrightarrow> parent (T ! x) = Some i"
  proof
    show "x \<in> set (children (T ! i)) \<Longrightarrow> parent (T ! x) = Some i" using tree_okD(2) [OF ok i] by simp
    assume p: "parent (T ! x) = Some i"
    then have "0 < x" using tree_okD(8) [OF ok x] by (cases x) auto
    then show "x \<in> set (children (T ! i))" using tree_okD(6) [OF ok x] p by auto
  qed
  ultimately show ?thesis by (simp add: distinct_count_atmost_1)
qed

lemma sum_list_if_eq: "(\<Sum>c \<leftarrow> cs. if c = x then 1 else (0 :: nat)) = count (mset cs) x"
  by (induction cs) auto

lemma count_visit:
  assumes ok: "tree_ok T" and x: "x < length T"
  shows "i < length T \<Longrightarrow> length T - i \<le> f \<Longrightarrow>
    count (mset (visit f T i)) x = (if i = x then 1 else 0) +
      (case parent (T ! x) of None \<Rightarrow> 0 | Some q \<Rightarrow> count (mset (visit f T i)) q)"
proof (induction f arbitrary: i)
  case 0
  then show ?case by simp
next
  case (Suc f)
  define cs where "cs = children (T ! i)"
  let ?q = "\<lambda>c. case parent (T ! x) of None \<Rightarrow> 0 | Some q \<Rightarrow> count (mset (visit f T c)) q"
  have "count (mset (visit f T c)) x = (if c = x then 1 else 0) + ?q c" if "c \<in> set cs" for c
    using tree_okD(2) [OF ok Suc.prems(1), of c] that Suc.prems(2) by (intro Suc.IH) (auto simp: cs_def)
  then have "(\<Sum>c \<leftarrow> cs. count (mset (visit f T c)) x) = (\<Sum>c \<leftarrow> cs. (if c = x then 1 else 0) + ?q c)"
    by (intro arg_cong [where f = sum_list] map_cong refl)
  also have "\<dots> = count (mset cs) x + (\<Sum>c \<leftarrow> cs. ?q c)"
    by (simp only: sum_list_addf sum_list_if_eq)
  also have "count (mset cs) x = (if parent (T ! x) = Some i then 1 else 0)"
    unfolding cs_def by (rule count_children [OF ok Suc.prems(1) x])
  finally have s: "(\<Sum>c \<leftarrow> cs. count (mset (visit f T c)) x) =
    (if parent (T ! x) = Some i then 1 else 0) + (\<Sum>c \<leftarrow> cs. ?q c)" .
  have v: "count (mset (visit (Suc f) T i)) y =
      (if i = y then 1 else 0) + (\<Sum>c \<leftarrow> cs. count (mset (visit f T c)) y)" for y
    by (simp add: count_concat cs_def comp_def)
  show ?case
  proof (cases "parent (T ! x)")
    case None
    then show ?thesis unfolding v s by simp
  next
    case (Some q)
    then show ?thesis unfolding Some option.case v s by simp
  qed
qed

lemma visit_all:
  assumes ok: "tree_ok T"
  shows "mset (visit (length T) T 0) = mset [0..<length T]"
proof (rule multiset_eqI)
  have T: "0 < length T" using ok by (simp add: tree_ok_def)
  have sub: "set (visit f T i) \<subseteq> {..<length T}" if "i < length T" for f i
    using that
  proof (induction f arbitrary: i)
    case (Suc f)
    then show ?case using tree_okD(2) [OF ok Suc.prems] by fastforce
  qed simp
  have one: "count (mset (visit (length T) T 0)) x = 1" if "x < length T" for x
    using that
  proof (induction x rule: less_induct)
    case (less x)
    note c = count_visit [OF ok less.prems T]
    show ?case
    proof (cases "x = 0")
      case True
      then show ?thesis using c tree_okD(8) [OF ok T] by simp
    next
      case False
      then obtain q where "q < x" "parent (T ! x) = Some q" using tree_okD(6) [OF ok less.prems] by auto
      then show ?thesis using less c False by simp
    qed
  qed
  fix x
  show "count (mset (visit (length T) T 0)) x = count (mset [0..<length T]) x"
  proof (cases "x < length T")
    case True
    then show ?thesis using one by (simp add: distinct_count_atmost_1)
  next
    case False
    then have "x \<notin> set (visit (length T) T 0)" using sub [OF T] by auto
    with False show ?thesis by (simp add: count_eq_zero_iff not_in_iff)
  qed
qed

lemma fold_tally:
  "fold (tally T) xs (a, b) =
    (a + of_nat (length (filter (\<lambda>i. S_ISREG (mode (attr (T ! i)))) xs)),
     b + (\<Sum>i \<leftarrow> filter (\<lambda>i. S_ISREG (mode (attr (T ! i)))) xs. size_of (attr (T ! i))))"
  by (induction xs arbitrary: a b) (auto simp: tally_def)

lemma collect_statfs_total:
  assumes ok: "tree_ok T"
  shows "collect_statfs (length T) T 0 (0, 0) =
    Some (of_nat (length (filter (\<lambda>n. S_ISREG (mode (attr n))) T)),
          \<Sum>n \<leftarrow> filter (\<lambda>n. S_ISREG (mode (attr n))) T. size_of (attr n))"
proof -
  let ?P = "\<lambda>i. S_ISREG (mode (attr (T ! i)))"
  have T: "0 < length T" using ok by (simp add: tree_ok_def)
  have m: "mset (filter ?P (visit (length T) T 0)) = mset (filter ?P [0..<length T])"
    using visit_all [OF ok] by (metis mset_filter)
  have n: "map ((!) T) [0..<length T] = T" by (rule map_nth)
  have "filter (\<lambda>n. S_ISREG (mode (attr n))) (map ((!) T) [0..<length T]) = map ((!) T) (filter ?P [0..<length T])"
    by (simp add: filter_map comp_def)
  then have f: "filter (\<lambda>n. S_ISREG (mode (attr n))) T = map ((!) T) (filter ?P [0..<length T])"
    unfolding n .
  have "length (filter ?P (visit (length T) T 0)) = length (filter ?P [0..<length T])"
    using arg_cong [OF m, of size] by (simp only: size_mset)
  moreover have "(\<Sum>i \<leftarrow> filter ?P (visit (length T) T 0). size_of (attr (T ! i))) =
      (\<Sum>i \<leftarrow> filter ?P [0..<length T]. size_of (attr (T ! i)))"
    using arg_cong [OF m, of "\<lambda>M. sum_mset (image_mset (\<lambda>i. size_of (attr (T ! i))) M)"]
    by (simp only: mset_map [symmetric] sum_mset_sum_list)
  ultimately show ?thesis
    using collect_visit [OF ok T, of "length T" "(0, 0)"] by (simp add: fold_tally f comp_def)
qed

end
