(* ===== verification/Fs_Ops.thy ===== *)
theory Fs_Ops
  imports Fs_Statfs C_Stdio
begin

section \<open>MemFS: the FUSE operations\<close>

text \<open>
  The callbacks of \<^verbatim>\<open>task02-fileio/src/memfs.c\<close> and \<^verbatim>\<open>append_log\<close> of
  \<^verbatim>\<open>log.c\<close>. The state is the inode tree, the contents of the log file and the
  replay flag. A callback returns its \<^verbatim>\<open>int\<close> result (a negative error number or a
  count) with what it hands back; \<open>None\<close> stands for a memory access outside an
  object. Which allocations succeed and whether the log file opens is an argument.
\<close>

definition ENOENT :: int where "ENOENT = 2"
definition ENOMEM :: int where "ENOMEM = 12"
definition EACCES :: int where "EACCES = 13"
definition EEXIST :: int where "EEXIST = 17"
definition ENOTDIR :: int where "ENOTDIR = 20"
definition EISDIR :: int where "EISDIR = 21"
definition EINVAL :: int where "EINVAL = 22"

lemmas errno_defs = ENOENT_def ENOMEM_def EACCES_def EEXIST_def ENOTDIR_def EISDIR_def EINVAL_def

definition O_ACCMODE :: int32 where "O_ACCMODE = 3"
definition O_RDONLY :: int32 where "O_RDONLY = 0"
definition O_WRONLY :: int32 where "O_WRONLY = 1"

record fs_env =
  calloc_ok :: bool
  realloc_ok :: bool
  strdup_ok :: bool
  fopen_ok :: bool

record memfs =
  tree :: inodes
  log_file :: string
  is_replaying :: bool

record stat =
  st_mode :: mode_t
  st_nlink :: nat
  st_size :: size_t

record statvfs =
  f_files :: size_t
  f_namemax :: nat
  f_blocks :: size_t

type_synonym fuse_file_info = "int32 option"

definition attr_at :: "memfs \<Rightarrow> inode_ptr \<Rightarrow> INode_Attr" where
  "attr_at s i = attr (tree s ! i)"

definition set_attr :: "inode_ptr \<Rightarrow> INode_Attr \<Rightarrow> memfs \<Rightarrow> memfs" where
  "set_attr i a s = s\<lparr>tree := (tree s)[i := (tree s ! i)\<lparr>attr := a\<rparr>]\<rparr>"

text \<open>A \<^verbatim>\<open>size_t\<close> returned as \<^verbatim>\<open>int\<close>.\<close>

definition int_of_size :: "size_t \<Rightarrow> int" where
  "int_of_size n = sint (ucast n :: int32)"

subsection \<open>The log\<close>

definition log_line ::
  "char \<Rightarrow> string \<Rightarrow> mode_t \<Rightarrow> byte list \<Rightarrow> size_t \<Rightarrow> off_t \<Rightarrow> string \<Rightarrow> string" where
  "log_line op path m buf n offset target =
     (if op = CHR ''M'' then ''M '' @ path @ '' '' @ print_num 8 (unat m) @ [newline]
      else if op = CHR ''C'' then ''C '' @ path @ '' '' @ print_num 8 (unat m) @ [newline]
      else if op = CHR ''W'' then
        ''W '' @ path @ '' '' @ print_ld offset @ '' '' @ print_num 10 (unat n) @ '' '' @
        concat (map (\<lambda>i. print_02x (buf ! i)) [0..<unat n]) @ [newline]
      else if op = CHR ''S'' then ''S '' @ path @ '' '' @ target @ [newline]
      else [])"

definition append_log ::
  "fs_env \<Rightarrow> char \<Rightarrow> string \<Rightarrow> mode_t \<Rightarrow> byte list \<Rightarrow> size_t \<Rightarrow> off_t \<Rightarrow> string \<Rightarrow> memfs \<Rightarrow> memfs" where
  "append_log e op path m buf n offset target s =
     (if is_replaying s then s
      else if \<not> fopen_ok e then s
      else s\<lparr>log_file := log_file s @ log_line op path m buf n offset target\<rparr>)"

subsection \<open>Reading\<close>

definition my_fuse_getattr :: "string \<Rightarrow> memfs \<Rightarrow> int \<times> stat" where
  "my_fuse_getattr path s =
     (case find_by_path (tree s) path of
        None \<Rightarrow> (- ENOENT, \<lparr>st_mode = 0, st_nlink = 0, st_size = 0\<rparr>)
      | Some i \<Rightarrow> (0, \<lparr>st_mode = mode (attr_at s i), st_nlink = nlink (attr_at s i),
                      st_size = size_of (attr_at s i)\<rparr>))"

definition my_fuse_read ::
  "string \<Rightarrow> size_t \<Rightarrow> off_t \<Rightarrow> fuse_file_info \<Rightarrow> memfs \<Rightarrow> (int \<times> byte option list) option" where
  "my_fuse_read path n offset fi s =
     (case find_by_path (tree s) path of
        None \<Rightarrow> Some (- ENOENT, [])
      | Some i \<Rightarrow>
          let a = attr_at s i in
          if \<not> S_ISREG (mode a) then Some (- EISDIR, [])
          else if (case fi of None \<Rightarrow> False | Some flags \<Rightarrow> flags AND O_ACCMODE = O_WRONLY)
          then Some (- EACCES, [])
          else if sint offset < 0 then Some (- EINVAL, [])
          else if size_of a \<le> offset then Some (0, [])
          else let n = (if size_of a < offset + n then size_of a - offset else n) in
               if unat offset + unat n \<le> length (data a)
               then Some (int_of_size n, take (unat n) (drop (unat offset) (data a)))
               else None)"

definition my_fuse_readdir :: "string \<Rightarrow> memfs \<Rightarrow> int \<times> string list" where
  "my_fuse_readdir path s =
     (case find_by_path (tree s) path of
        None \<Rightarrow> (- ENOENT, [])
      | Some i \<Rightarrow>
          if \<not> S_ISDIR (mode (attr_at s i)) then (- ENOTDIR, [])
          else (0, [''.'', ''..''] @ map (\<lambda>c. iname (attr_at s c)) (children (tree s ! i))))"

definition my_fuse_open :: "string \<Rightarrow> memfs \<Rightarrow> int" where
  "my_fuse_open path s =
     (case find_by_path (tree s) path of
        None \<Rightarrow> - ENOENT
      | Some i \<Rightarrow> if \<not> S_ISREG (mode (attr_at s i)) then - EISDIR else 0)"

definition my_fuse_readlink :: "string \<Rightarrow> size_t \<Rightarrow> memfs \<Rightarrow> int \<times> string" where
  "my_fuse_readlink path n s =
     (case find_by_path (tree s) path of
        None \<Rightarrow> (- ENOENT, [])
      | Some i \<Rightarrow>
          (case link_target (attr_at s i) of
             None \<Rightarrow> (- EINVAL, [])
           | Some target \<Rightarrow>
               if \<not> S_ISLNK (mode (attr_at s i)) then (- EINVAL, [])
               else (0, snprintf_s (unat n) target)))"

definition my_fuse_statfs :: "string \<Rightarrow> memfs \<Rightarrow> (int \<times> statvfs) option" where
  "my_fuse_statfs path s =
     (case collect_statfs (length (tree s)) (tree s) 0 (0, 0) of
        None \<Rightarrow> None
      | Some (files, blocks) \<Rightarrow>
          Some (0, \<lparr>f_files = files, f_namemax = MAX_NAME_LEN, f_blocks = blocks\<rparr>))"

subsection \<open>Changing\<close>

definition my_fuse_write ::
  "fs_env \<Rightarrow> string \<Rightarrow> byte list \<Rightarrow> size_t \<Rightarrow> off_t \<Rightarrow> fuse_file_info \<Rightarrow> memfs \<Rightarrow> (int \<times> memfs) option" where
  "my_fuse_write e path buf n offset fi s =
     (case find_by_path (tree s) path of
        None \<Rightarrow> Some (- ENOENT, s)
      | Some i \<Rightarrow>
          let a = attr_at s i in
          if \<not> S_ISREG (mode a) then Some (- EISDIR, s)
          else if (case fi of None \<Rightarrow> False | Some flags \<Rightarrow> flags AND O_ACCMODE = O_RDONLY)
          then Some (- EACCES, s)
          else if sint offset < 0 then Some (- EINVAL, s)
          else
            let new_size = offset + n in
            if size_of a < new_size \<and> \<not> realloc_ok e then Some (- ENOMEM, s)
            else
              let a = (if size_of a < new_size
                       then a\<lparr>data := take (unat new_size) (data a) @
                                replicate (unat new_size - length (data a)) None,
                              size_of := new_size\<rparr>
                       else a) in
              if unat offset + unat n \<le> length (data a) \<and> unat n \<le> length buf
              then
                let a = a\<lparr>data := take (unat offset) (data a) @ map Some (take (unat n) buf) @
                                   drop (unat offset + unat n) (data a)\<rparr>;
                    s = append_log e CHR ''W'' path 0 buf n offset [] (set_attr i a s)
                in Some (int_of_size n, s)
              else None)"

definition my_fuse_mkdir :: "fs_env \<Rightarrow> string \<Rightarrow> mode_t \<Rightarrow> memfs \<Rightarrow> int \<times> memfs" where
  "my_fuse_mkdir e path m s =
     (case parse_parent (tree s) path of
        None \<Rightarrow> (- ENOENT, s)
      | Some (p, basename) \<Rightarrow>
          if \<not> S_ISDIR (mode (attr_at s p)) then (- ENOTDIR, s)
          else if find_child (tree s) (Some p) basename \<noteq> None then (- EEXIST, s)
          else (case create_inode (calloc_ok e) (tree s) (Some p) basename (S_IFDIR OR m) of
                  None \<Rightarrow> (- ENOMEM, s)
                | Some (i, T) \<Rightarrow> (0, append_log e CHR ''M'' path m [] 0 0 [] (s\<lparr>tree := T\<rparr>))))"

definition my_fuse_mknod :: "fs_env \<Rightarrow> string \<Rightarrow> mode_t \<Rightarrow> memfs \<Rightarrow> int \<times> memfs" where
  "my_fuse_mknod e path m s =
     (case parse_parent (tree s) path of
        None \<Rightarrow> (- ENOENT, s)
      | Some (p, basename) \<Rightarrow>
          if \<not> S_ISDIR (mode (attr_at s p)) then (- ENOTDIR, s)
          else if find_child (tree s) (Some p) basename \<noteq> None then (- EEXIST, s)
          else (case create_inode (calloc_ok e) (tree s) (Some p) basename (S_IFREG OR m) of
                  None \<Rightarrow> (- ENOMEM, s)
                | Some (i, T) \<Rightarrow> (0, append_log e CHR ''C'' path m [] 0 0 [] (s\<lparr>tree := T\<rparr>))))"

definition my_fuse_create :: "fs_env \<Rightarrow> string \<Rightarrow> mode_t \<Rightarrow> memfs \<Rightarrow> int \<times> memfs" where
  "my_fuse_create e path m s = my_fuse_mknod e path m s"

definition my_fuse_symlink :: "fs_env \<Rightarrow> string \<Rightarrow> string \<Rightarrow> memfs \<Rightarrow> int \<times> memfs" where
  "my_fuse_symlink e target linkpath s =
     (case parse_parent (tree s) linkpath of
        None \<Rightarrow> (- ENOENT, s)
      | Some (p, nm) \<Rightarrow>
          if \<not> S_ISDIR (mode (attr_at s p)) then (- ENOTDIR, s)
          else if find_child (tree s) (Some p) nm \<noteq> None then (- EEXIST, s)
          else (case create_inode (calloc_ok e) (tree s) (Some p) nm (S_IFLNK OR 0x1FF) of
                  None \<Rightarrow> (- ENOMEM, s)
                | Some (i, T) \<Rightarrow>
                    let s = s\<lparr>tree := T\<rparr> in
                    if \<not> strdup_ok e then (- ENOMEM, s)
                    else let s = set_attr i ((attr_at s i)\<lparr>link_target := Some target\<rparr>) s
                         in (0, append_log e CHR ''S'' linkpath 0 [] 0 0 target s)))"

subsection \<open>All operations\<close>

datatype fs_op =
  Mkdir string mode_t
| Mknod string mode_t
| Create string mode_t
| Symlink string string
| Write string "byte list" size_t off_t fuse_file_info

fun fs_exec :: "fs_env \<Rightarrow> fs_op \<Rightarrow> memfs \<Rightarrow> (int \<times> memfs) option" where
  "fs_exec e (Mkdir path m) s = Some (my_fuse_mkdir e path m s)"
| "fs_exec e (Mknod path m) s = Some (my_fuse_mknod e path m s)"
| "fs_exec e (Create path m) s = Some (my_fuse_create e path m s)"
| "fs_exec e (Symlink target linkpath) s = Some (my_fuse_symlink e target linkpath s)"
| "fs_exec e (Write path buf n offset fi) s = my_fuse_write e path buf n offset fi s"

definition empty_fs :: memfs where
  "empty_fs = \<lparr>tree = [root], log_file = [], is_replaying = False\<rparr>"

inductive fs_reachable :: "memfs \<Rightarrow> bool" where
  start: "fs_reachable empty_fs"
| step: "fs_reachable s \<Longrightarrow> fs_exec e op s = Some (r, s') \<Longrightarrow> fs_reachable s'"

end
