(* ===== verification/Fs_Invariant.thy ===== *)
theory Fs_Invariant
  imports Fs_Ops
begin

section \<open>MemFS: what the operations do to the tree\<close>

text \<open>
  \<^verbatim>\<open>mkdir\<close>, \<^verbatim>\<open>mknod\<close> and \<^verbatim>\<open>symlink\<close> add one inode, \<^verbatim>\<open>write\<close> changes the data of
  one; all of them keep the tree invariant, and a failing operation changes nothing (with
  the exception of a \<^verbatim>\<open>symlink\<close> whose \<^verbatim>\<open>strdup\<close> fails).
\<close>

lemma append_log_tree [simp]: "tree (append_log e op path m buf n off target s) = tree s"
  and append_log_replaying [simp]: "is_replaying (append_log e op path m buf n off target s) = is_replaying s"
  by (simp_all add: append_log_def)

lemma set_attr_simps [simp]:
  "tree (set_attr i a s) = (tree s)[i := (tree s ! i)\<lparr>attr := a\<rparr>]"
  "log_file (set_attr i a s) = log_file s" "is_replaying (set_attr i a s) = is_replaying s"
  by (simp_all add: set_attr_def)

subsection \<open>Creating an inode at a path\<close>

text \<open>What \<^verbatim>\<open>mkdir\<close> and \<^verbatim>\<open>mknod\<close> share, and the first half of \<^verbatim>\<open>symlink\<close>.\<close>

definition make :: "fs_env \<Rightarrow> string \<Rightarrow> mode_t \<Rightarrow> inodes \<Rightarrow> int + (inode_ptr \<times> inodes)" where
  "make e path m T =
     (case parse_parent T path of
        None \<Rightarrow> Inl (- ENOENT)
      | Some (p, basename) \<Rightarrow>
          if \<not> S_ISDIR (mode (attr (T ! p))) then Inl (- ENOTDIR)
          else if find_child T (Some p) basename \<noteq> None then Inl (- EEXIST)
          else (case create_inode (calloc_ok e) T (Some p) basename m of
                  None \<Rightarrow> Inl (- ENOMEM) | Some r \<Rightarrow> Inr r))"

lemma mkdir_make:
  "my_fuse_mkdir e path m s =
     (case make e path (S_IFDIR OR m) (tree s) of Inl err \<Rightarrow> (err, s)
      | Inr (i, T) \<Rightarrow> (0, append_log e CHR ''M'' path m [] 0 0 [] (s\<lparr>tree := T\<rparr>)))"
  by (simp add: my_fuse_mkdir_def make_def attr_at_def split: option.split prod.split)

lemma mknod_make:
  "my_fuse_mknod e path m s =
     (case make e path (S_IFREG OR m) (tree s) of Inl err \<Rightarrow> (err, s)
      | Inr (i, T) \<Rightarrow> (0, append_log e CHR ''C'' path m [] 0 0 [] (s\<lparr>tree := T\<rparr>)))"
  by (simp add: my_fuse_mknod_def make_def attr_at_def split: option.split prod.split)

lemma symlink_make:
  "my_fuse_symlink e target path s =
     (case make e path (S_IFLNK OR 0x1FF) (tree s) of Inl err \<Rightarrow> (err, s)
      | Inr (i, T) \<Rightarrow>
          if \<not> strdup_ok e then (- ENOMEM, s\<lparr>tree := T\<rparr>)
          else (0, append_log e CHR ''S'' path 0 [] 0 0 target
                 (set_attr i ((attr (T ! i))\<lparr>link_target := Some target\<rparr>) (s\<lparr>tree := T\<rparr>))))"
  by (simp add: my_fuse_symlink_def make_def attr_at_def split: option.split prod.split)

text \<open>The inode \<open>i\<close> made at \<open>path\<close>: \<open>T'\<close> is \<open>T\<close> with this one inode added.\<close>

lemma make_ok:
  assumes ok: "tree_ok T" and mk: "make e path m T = Inr (i, T')"
  obtains p b where "parse_parent T path = Some (p, b)" "p < length T" "grown T T' p i" "tree_ok T'"
    "T' ! i = \<lparr>parent = Some p, children = [],
        attr = \<lparr>iname = b, mode = m, nlink = (if S_ISDIR m then 2 else 1), data = [], size_of = 0,
                link_target = None\<rparr>\<rparr>"
    "find_child T' (Some p) b = Some i"
proof -
  obtain p b where p: "parse_parent T path = Some (p, b)" and dir: "S_ISDIR (mode (attr (T ! p)))"
    and fresh: "find_child T (Some p) b = None"
    and c: "create_inode (calloc_ok e) T (Some p) b m = Some (i, T')"
    using mk by (auto simp: make_def split: option.splits if_splits)
  have pb: "p < length T" by (rule parse_parent_bound [OF ok p])
  note n = parse_parent_name_ok [OF p]
  have g: "grown T T' p i" by (rule create_inode_grown [OF c pb])
  have t: "take MAX_NAME_LEN b = b" using n by (simp add: name_ok_def)
  have new: "T' ! i = \<lparr>parent = Some p, children = [],
        attr = \<lparr>iname = b, mode = m, nlink = (if S_ISDIR m then 2 else 1), data = [], size_of = 0,
                link_target = None\<rparr>\<rparr>"
    using create_inode_Some(3) [OF c pb] t by (simp add: new_inode_def snprintf_s_def)
  have ok': "tree_ok T'"
    by (rule grown_tree_ok [OF ok g dir create_inode_Some(6) [OF c pb]]) (use fresh n new in simp_all)
  have "find_child T' (Some p) b = Some i"
    using grown_find_child [OF ok g pb, of b] fresh dir new by simp
  then show ?thesis using that [OF p pb g ok' new] by simp
qed

lemma make_resolves:
  assumes ok: "tree_ok T" and mk: "make e path m T = Inr (i, T')"
    and short: "\<And>buf rest. cut_last_slash (snprintf_s 1024 path) = Some (buf, rest) \<Longrightarrow> length rest \<le> MAX_NAME_LEN"
  shows "find_by_path T' path = Some i"
proof -
  obtain p b where p: "parse_parent T path = Some (p, b)" "p < length T" "grown T T' p i"
    "find_child T' (Some p) b = Some i"
    by (rule make_ok [OF ok mk])
  obtain buf rest where r: "snprintf_s 1024 path = buf @ CHR ''/'' # rest" "CHR ''/'' \<notin> set rest" "rest \<noteq> []"
    "b = take MAX_NAME_LEN rest" "resolve T 0 (components buf) = Some p"
    by (rule parse_parent_Some [OF p(1)])
  have "length rest \<le> MAX_NAME_LEN" using short r(1) cut_last_slash_name [OF r(2), of buf] by simp
  then have b: "b = rest" using r(4) by simp
  have "resolve T' 0 (components buf) = Some p"
    by (rule grown_resolve [OF ok p(3) _ r(5)]) (use ok in \<open>simp add: tree_ok_def\<close>)
  then show ?thesis using find_by_parent [OF r(1-3)] p(4) b by simp
qed

subsection \<open>Writing\<close>

definition overwrite :: "nat \<Rightarrow> 'a list \<Rightarrow> 'a list \<Rightarrow> 'a list" where
  "overwrite k xs ys = take k ys @ xs @ drop (k + length xs) ys"

lemma overwrite_facts:
  assumes "k + length xs \<le> length ys"
  shows "length (overwrite k xs ys) = length ys"
    "j < length ys \<Longrightarrow> overwrite k xs ys ! j = (if k \<le> j \<and> j < k + length xs then xs ! (j - k) else ys ! j)"
    "take (length xs) (drop k (overwrite k xs ys)) = xs"
  using assms by (auto simp: overwrite_def nth_append min_def)

definition resized :: "nat \<Rightarrow> byte option list \<Rightarrow> byte option list" where
  "resized k xs = xs @ replicate (k - length xs) None"

lemma resized_facts: "length (resized k xs) = max (length xs) k"
  "j < length xs \<Longrightarrow> resized k xs ! j = xs ! j"
  "length xs \<le> j \<Longrightarrow> j < k \<Longrightarrow> resized k xs ! j = None"
  by (auto simp: resized_def nth_append)

text \<open>A write that is not refused: the data of the inode after it, and the log.\<close>

lemma write_cases:
  assumes ok: "tree_ok (tree s)" and w: "my_fuse_write e path buf n offset fi s = Some (r, s')"
  obtains (error) "s' = s" "r \<in> {- ENOENT, - EISDIR, - EACCES, - EINVAL, - ENOMEM}"
  | (written) i a where "find_by_path (tree s) path = Some i" "i < length (tree s)"
      "S_ISREG (mode (attr_at s i))" "r = int_of_size n" "0 \<le> sint offset"
      "unat n \<le> length buf" "size_of (attr_at s i) < offset + n \<longrightarrow> realloc_ok e"
      "\<not> (case fi of None \<Rightarrow> False | Some flags \<Rightarrow> flags AND O_ACCMODE = O_RDONLY)"
      "unat (offset + n) = unat offset + unat n"
      "a = (attr_at s i)\<lparr>data := overwrite (unat offset) (map Some (take (unat n) buf))
              (resized (unat offset + unat n) (data (attr_at s i))),
              size_of := max (size_of (attr_at s i)) (offset + n)\<rparr>"
      "length (data a) = unat (size_of a)"
      "s' = append_log e CHR ''W'' path 0 buf n offset [] (set_attr i a s)"
proof (cases "find_by_path (tree s) path")
  case None
  then show ?thesis using w by (intro error) (simp_all add: my_fuse_write_def)
next
  case (Some i)
  define a where "a = attr_at s i"
  have i: "i < length (tree s)" by (rule find_by_path_bound [OF ok Some])
  have la: "length (data a) = unat (size_of a)" using tree_okD(5) [OF ok i] by (simp add: a_def attr_at_def)
  let ?ro = "case fi of None \<Rightarrow> False | Some flags \<Rightarrow> flags AND O_ACCMODE = O_RDONLY"
  consider "\<not> S_ISREG (mode a) \<or> ?ro \<or> sint offset < 0 \<or> size_of a < offset + n \<and> \<not> realloc_ok e"
    | (run) "S_ISREG (mode a)" "\<not> ?ro" "0 \<le> sint offset" "size_of a < offset + n \<longrightarrow> realloc_ok e"
    by linarith
  then show ?thesis
  proof cases
    case 1
    then show ?thesis using w Some
      by (intro error) (auto simp: my_fuse_write_def Let_def a_def split: if_splits)
  next
    case run
    define b where "b = (if size_of a < offset + n
        then a\<lparr>data := take (unat (offset + n)) (data a) @ replicate (unat (offset + n) - length (data a)) None,
               size_of := offset + n\<rparr> else a)"
    have lb: "length (data b) = unat (size_of b)" using la by (auto simp: b_def word_less_nat_alt)
    have g: "unat offset + unat n \<le> length (data b)" "unat n \<le> length buf" "r = int_of_size n"
      "s' = append_log e CHR ''W'' path 0 buf n offset [] (set_attr i (b\<lparr>data := take (unat offset) (data b) @
         map Some (take (unat n) buf) @ drop (unat offset + unat n) (data b)\<rparr>) s)"
      using w Some run
      by (auto simp: my_fuse_write_def Let_def a_def [symmetric] b_def [symmetric] split: if_splits)
    have nw: "unat (offset + n) = unat offset + unat n"
      using g(1) lb unat_max_64 [of "size_of b"] by (intro unat_plus_no_wrap) linarith
    have bd: "data b = resized (unat offset + unat n) (data a)"
      using la by (auto simp: b_def resized_def nw [symmetric] word_less_nat_alt)
    have bs: "size_of b = max (size_of a) (offset + n)" by (auto simp: b_def max_def)
    let ?d = "overwrite (unat offset) (map Some (take (unat n) buf)) (data b)"
    have ld: "length ?d = unat (size_of b)"
      using overwrite_facts(1) [of "unat offset" "map Some (take (unat n) buf)" "data b"] g(1,2) lb by simp
    have e: "b\<lparr>data := take (unat offset) (data b) @ map Some (take (unat n) buf) @
        drop (unat offset + unat n) (data b)\<rparr> = a\<lparr>data := ?d, size_of := size_of b\<rparr>"
      using g(2) by (cases "size_of a < offset + n") (simp_all add: overwrite_def b_def)
    have s': "s' = append_log e CHR ''W'' path 0 buf n offset [] (set_attr i (a\<lparr>data :=
        overwrite (unat offset) (map Some (take (unat n) buf)) (resized (unat offset + unat n) (data a)),
        size_of := max (size_of a) (offset + n)\<rparr>) s)"
      using g(4) unfolding e unfolding bd bs .
    show ?thesis
      by (rule written [OF Some i _ g(3) run(3) g(2) _ run(2) nw refl _ s' [unfolded a_def]])
        (use run(1,4) ld in \<open>simp_all add: a_def bd bs\<close>)
  qed
qed

subsection \<open>The invariant\<close>

lemma write_tree_ok:
  assumes ok: "tree_ok (tree s)" and w: "my_fuse_write e path buf n offset fi s = Some (r, s')"
  shows "tree_ok (tree s')"
  using ok w
proof (cases rule: write_cases)
  case error
  then show ?thesis using ok by simp
next
  case (written i a)
  then show ?thesis using set_attr_tree_ok [OF ok written(2), of a] by (simp add: attr_at_def)
qed

lemma symlink_tree_ok:
  assumes ok: "tree_ok (tree s)"
  shows "tree_ok (tree (snd (my_fuse_symlink e target path s)))"
proof (cases "make e path (S_IFLNK OR 0x1FF) (tree s)")
  case (Inl err)
  then show ?thesis using ok by (simp add: symlink_make)
next
  case (Inr r)
  obtain i T where r: "r = (i, T)" by (cases r)
  obtain p where T: "tree_ok T" "grown (tree s) T p i"
    using make_ok [OF ok Inr [unfolded r]] by metis
  have i: "i < length T" using T(2) by (simp add: grown_def)
  have "tree_ok (T[i := (T ! i)\<lparr>attr := (attr (T ! i))\<lparr>link_target := Some target\<rparr>\<rparr>])"
    using tree_okD(5) [OF T(1) i] by (intro set_attr_tree_ok [OF T(1) i]) simp_all
  then show ?thesis using T(1) Inr r by (simp add: symlink_make)
qed

lemma make_tree_ok: "tree_ok T \<Longrightarrow> make e path m T = Inr (i, T') \<Longrightarrow> tree_ok T'"
  by (rule make_ok)

lemma mkdir_tree_ok: "tree_ok (tree s) \<Longrightarrow> tree_ok (tree (snd (my_fuse_mkdir e path m s)))"
  using make_tree_ok [of "tree s" e path "S_IFDIR OR m"]
  by (simp add: mkdir_make split: sum.split prod.split)

lemma mknod_tree_ok: "tree_ok (tree s) \<Longrightarrow> tree_ok (tree (snd (my_fuse_mknod e path m s)))"
  using make_tree_ok [of "tree s" e path "S_IFREG OR m"]
  by (simp add: mknod_make split: sum.split prod.split)

lemma exec_tree_ok:
  assumes ok: "tree_ok (tree s)" and x: "fs_exec e op s = Some (r, s')"
  shows "tree_ok (tree s')"
  using x mkdir_tree_ok [OF ok] mknod_tree_ok [OF ok] symlink_tree_ok [OF ok] write_tree_ok [OF ok]
  by (cases op) (auto simp: my_fuse_create_def, (metis snd_conv)+)

lemma root_tree_ok: "tree_ok [root]"
  by (simp add: tree_ok_def node_ok_def root_def S_ISDIR_def S_IFMT_def S_IFDIR_def)

lemma reachable_tree_ok: "fs_reachable s \<Longrightarrow> tree_ok (tree s)"
proof (induction rule: fs_reachable.induct)
  case start
  then show ?case using root_tree_ok by (simp add: empty_fs_def)
next
  case (step s e op r s')
  then show ?case using exec_tree_ok by blast
qed

end
