(* ===== verification/Fs_Log.thy ===== *)
theory Fs_Log
  imports Fs_Invariant
begin

section \<open>MemFS: the operation log and recovery\<close>

text \<open>
  \<^verbatim>\<open>load_log\<close>, \<^verbatim>\<open>init_log_path\<close> and \<^verbatim>\<open>main\<close>: a new process rebuilds the tree by
  executing the lines of the log. A line is parsed with the buffers of the source: a
  path or target of 1024 characters or more, more than 2048 bytes of data, or data that is
  not all there give \<open>None\<close> (a write outside a buffer, or bytes that are not determined by
  the log).
\<close>

definition init_log_path :: "string \<Rightarrow> string" where
  "init_log_path mount_path =
     (let log_path = snprintf_s 1024 mount_path;
          log_path = (case cut_last_slash log_path of None \<Rightarrow> log_path | Some (dir, _) \<Rightarrow> dir)
      in log_path @ take (1024 - length log_path - 1) ''/log'')"

primrec decode_hex :: "nat \<Rightarrow> string \<Rightarrow> byte list option" where
  "decode_hex 0 hex = Some []"
| "decode_hex (Suc n) hex =
     (if hex = [] then None
      else case scan_2x hex of None \<Rightarrow> None
           | Some x \<Rightarrow> map_option (Cons (of_nat x)) (decode_hex n (drop 2 hex)))"

text \<open>\<^verbatim>\<open>%s\<close> into a buffer of 1024 characters.\<close>

definition scan_buf :: "string \<Rightarrow> (string \<times> string) option option" where
  "scan_buf s =
     (case scan_s s of None \<Rightarrow> Some None
      | Some (w, r) \<Rightarrow> if length w < 1024 then Some (Some (w, r)) else None)"

definition load_make ::
  "(fs_env \<Rightarrow> string \<Rightarrow> mode_t \<Rightarrow> memfs \<Rightarrow> int \<times> memfs) \<Rightarrow> fs_env \<Rightarrow> string \<Rightarrow> memfs \<Rightarrow> memfs option" where
  "load_make f e r s =
     (case scan_buf r of None \<Rightarrow> None
      | Some None \<Rightarrow> Some s
      | Some (Some (path, r)) \<Rightarrow>
          (case scan_o r of None \<Rightarrow> Some s
           | Some (m, _) \<Rightarrow> Some (snd (f e path m s))))"

definition load_write :: "fs_env \<Rightarrow> string \<Rightarrow> memfs \<Rightarrow> memfs option" where
  "load_write e r s =
     (case scan_buf r of None \<Rightarrow> None
      | Some None \<Rightarrow> Some s
      | Some (Some (path, r)) \<Rightarrow>
          (case scan_ld r of None \<Rightarrow> Some s
           | Some (offset, r) \<Rightarrow>
               (case scan_ul 10 r of None \<Rightarrow> Some s
                | Some (n, r) \<Rightarrow>
                    (case scan_s r of None \<Rightarrow> Some s
                     | Some (hex, _) \<Rightarrow>
                         if 2048 < unat n then None
                         else (case decode_hex (unat n) hex of None \<Rightarrow> None
                               | Some buf \<Rightarrow>
                                   map_option snd (my_fuse_write e path buf n offset None s))))))"

definition load_symlink :: "fs_env \<Rightarrow> string \<Rightarrow> memfs \<Rightarrow> memfs option" where
  "load_symlink e r s =
     (case scan_buf r of None \<Rightarrow> None
      | Some None \<Rightarrow> Some s
      | Some (Some (path, r)) \<Rightarrow>
          (case scan_buf r of None \<Rightarrow> None
           | Some None \<Rightarrow> Some s
           | Some (Some (target, _)) \<Rightarrow> Some (snd (my_fuse_symlink e target path s))))"

definition load_line :: "fs_env \<Rightarrow> string \<Rightarrow> memfs \<Rightarrow> memfs option" where
  "load_line e line s =
     (case line of [] \<Rightarrow> Some s
      | op # r \<Rightarrow>
          if op = CHR ''M'' then load_make my_fuse_mkdir e r s
          else if op = CHR ''C'' then load_make my_fuse_mknod e r s
          else if op = CHR ''W'' then load_write e r s
          else if op = CHR ''S'' then load_symlink e r s
          else Some s)"

lemma fgets_shorter: "lg \<noteq> [] \<Longrightarrow> length (snd (fgets 4096 lg)) < length lg"
  by (simp add: fgets_def Let_def)

function load_lines :: "(nat \<Rightarrow> fs_env) \<Rightarrow> nat \<Rightarrow> string \<Rightarrow> memfs \<Rightarrow> memfs option" where
  "load_lines es k lg s =
     (if lg = [] then Some s
      else case load_line (es k) (fst (fgets 4096 lg)) s of None \<Rightarrow> None
           | Some s' \<Rightarrow> load_lines es (Suc k) (snd (fgets 4096 lg)) s')"
  by pat_completeness auto
termination
  by (relation "measure (\<lambda>(es, k, lg, s). length lg)") (auto simp: fgets_shorter)

declare load_lines.simps [simp del]

definition load_log :: "bool \<Rightarrow> (nat \<Rightarrow> fs_env) \<Rightarrow> memfs \<Rightarrow> memfs option" where
  "load_log opened es s = (if opened then load_lines es 0 (log_file s) s else Some s)"

text \<open>A new process with the log a former one has left, up to the call of \<^verbatim>\<open>fuse_main\<close>.\<close>

definition mount :: "bool \<Rightarrow> (nat \<Rightarrow> fs_env) \<Rightarrow> string \<Rightarrow> memfs option" where
  "mount opened es lg =
     map_option (is_replaying_update (\<lambda>_. False))
       (load_log opened es \<lparr>tree = [root], log_file = lg, is_replaying = True\<rparr>)"

subsection \<open>A line of the log is executed as it was written\<close>

definition word_ok :: "string \<Rightarrow> bool" where
  "word_ok w \<longleftrightarrow> w \<noteq> [] \<and> length w < 1024 \<and> (\<forall>c \<in> set w. \<not> isspace c)"

lemma space_facts [simp]: "isspace (CHR '' '')" "isspace newline"
  by (simp_all add: isspace_def newline_def)

lemma scan_buf_word:
  "word_ok w \<Longrightarrow> rest = [] \<or> isspace (hd rest) \<Longrightarrow> scan_buf (CHR '' '' # w @ rest) = Some (Some (w, rest))"
  using scan_s_word [of w rest] by (simp add: scan_buf_def word_ok_def)

lemma load_make_line:
  assumes "word_ok path"
  shows "load_make f e (CHR '' '' # path @ '' '' @ print_num 8 (unat m) @ [newline]) s = Some (snd (f e path m s))"
proof -
  have "scan_buf (CHR '' '' # path @ CHR '' '' # print_num 8 (unat m) @ [newline]) =
      Some (Some (path, CHR '' '' # print_num 8 (unat m) @ [newline]))"
    using assms by (rule scan_buf_word) simp
  moreover have "scan_o (CHR '' '' # print_num 8 (unat m) @ [newline]) = Some (m, [newline])"
    by (rule scan_o_print) simp
  ultimately show ?thesis by (simp add: load_make_def)
qed

lemma load_symlink_line:
  assumes "word_ok path" "word_ok target"
  shows "load_symlink e (CHR '' '' # path @ '' '' @ target @ [newline]) s = Some (snd (my_fuse_symlink e target path s))"
proof -
  have "scan_buf (CHR '' '' # path @ CHR '' '' # target @ [newline]) = Some (Some (path, CHR '' '' # target @ [newline]))"
    using assms(1) by (rule scan_buf_word) simp
  moreover have "scan_buf (CHR '' '' # target @ [newline]) = Some (Some (target, [newline]))"
    using assms(2) by (rule scan_buf_word) simp
  ultimately show ?thesis by (simp add: load_symlink_def)
qed

lemma decode_hex_print: "decode_hex (length xs) (concat (map print_02x xs)) = Some xs"
proof (induction xs)
  case (Cons x xs)
  have "print_02x x @ concat (map print_02x xs) \<noteq> []" using print_02x_facts(1) [of x] by auto
  then show ?case using Cons scan_2x_print [of x] print_02x_facts(1) [of x]
    by (simp add: append_eq_conv_conj)
qed simp

lemma hex_text: "n \<le> length buf \<Longrightarrow>
  concat (map (\<lambda>i. print_02x (buf ! i)) [0..<n]) = concat (map print_02x (take n buf))"
proof -
  assume "n \<le> length buf"
  then have "map ((!) buf) [0..<n] = take n buf" by (intro nth_equalityI) simp_all
  then show ?thesis by (metis (no_types, lifting) comp_apply map_eq_conv map_map)
qed

lemma hex_no_space: "c \<in> set (concat (map print_02x xs)) \<Longrightarrow> \<not> isspace c"
  using print_02x_facts(2) by auto

lemma length_hex: "length (concat (map print_02x xs)) = 2 * length xs"
  by (induction xs) (simp_all add: print_02x_facts(1))

lemma load_write_line:
  assumes p: "word_ok path" and n: "n \<noteq> 0" "unat n \<le> 2048" "unat n \<le> length buf" and off: "0 \<le> sint offset"
  shows "load_write e (CHR '' '' # path @ '' '' @ print_ld offset @ '' '' @ print_num 10 (unat n) @ '' '' @
      concat (map (\<lambda>i. print_02x (buf ! i)) [0..<unat n]) @ [newline]) s =
    map_option snd (my_fuse_write e path (take (unat n) buf) n offset None s)"
proof -
  let ?hex = "concat (map print_02x (take (unat n) buf))"
  let ?r3 = "CHR '' '' # ?hex @ [newline]"
  let ?r2 = "CHR '' '' # print_num 10 (unat n) @ ?r3"
  let ?r1 = "CHR '' '' # print_ld offset @ ?r2"
  have "scan_buf (CHR '' '' # path @ ?r1) = Some (Some (path, ?r1))" using p by (rule scan_buf_word) simp
  moreover have "scan_ld ?r1 = Some (offset, ?r2)" using off by (rule scan_ld_print) simp
  moreover have "scan_ul 10 ?r2 = Some (n, ?r3)"
    using scan_ul_print [of 10 "unat n" ?r3] space_not_digit [of "CHR '' ''" 10] unat_max_64 [of n] by simp
  moreover have "scan_s ?r3 = Some (?hex, [newline])"
  proof (rule scan_s_word)
    have "0 < length ?hex" unfolding length_hex using n(1,3) by (simp add: unat_gt_0)
    then show "?hex \<noteq> []" by (rule length_greater_0_conv [THEN iffD1])
    show "\<forall>c \<in> set ?hex. \<not> isspace c" using hex_no_space by blast
  qed simp
  moreover have "decode_hex (unat n) ?hex = Some (take (unat n) buf)"
    using decode_hex_print [of "take (unat n) buf"] n(3) by simp
  ultimately show ?thesis using n(2) by (simp add: load_write_def hex_text [OF n(3)])
qed

text \<open>A write that was logged has the same effect on the tree when it is replayed.\<close>

definition replaying :: "inodes \<Rightarrow> memfs" where
  "replaying T = \<lparr>tree = T, log_file = [], is_replaying = True\<rparr>"

definition recording :: "inodes \<Rightarrow> memfs" where
  "recording T = \<lparr>tree = T, log_file = [], is_replaying = False\<rparr>"

lemma write_replay:
  assumes ok: "tree_ok T" and w: "my_fuse_write e path buf n offset fi (recording T) = Some (r, s')"
    and wr: "s' \<noteq> recording T" and e': "realloc_ok e'"
  shows "0 \<le> sint offset" "unat n \<le> length buf"
    "map_option (\<lambda>x. tree (snd x)) (my_fuse_write e' path (take (unat n) buf) n offset None (replaying T)) = Some (tree s')"
proof -
  have ok': "tree_ok (tree (recording T))" using ok by (simp add: recording_def)
  have "0 \<le> sint offset \<and> unat n \<le> length buf \<and>
    map_option (\<lambda>x. tree (snd x)) (my_fuse_write e' path (take (unat n) buf) n offset None (replaying T)) = Some (tree s')"
    using ok' w
  proof (cases rule: write_cases)
    case error
    then show ?thesis using wr by simp
  next
    case (written i a)
    have at: "attr_at (replaying T) i = attr_at (recording T) i"
      and tr: "tree (replaying T) = T" "tree (recording T) = T"
      by (simp_all add: attr_at_def replaying_def recording_def)
    let ?b = "attr_at (recording T) i"
    have lb: "length (data ?b) = unat (size_of ?b)"
      using tree_okD(5) [OF ok] written(2) by (simp add: attr_at_def tr)
    define b where "b = (if size_of ?b < offset + n
        then ?b\<lparr>data := take (unat (offset + n)) (data ?b) @ replicate (unat (offset + n) - length (data ?b)) None,
               size_of := offset + n\<rparr> else ?b)"
    have bd: "data b = resized (unat offset + unat n) (data ?b)"
      using lb written(9) by (auto simp: b_def resized_def written(9) [symmetric] word_less_nat_alt)
    have len: "unat offset + unat n \<le> length (data b)" by (simp add: bd resized_facts)
    have a: "a = b\<lparr>data := take (unat offset) (data b) @ map Some (take (unat n) buf) @
        drop (unat offset + unat n) (data b)\<rparr>"
      unfolding written(10) bd using written(6)
      by (cases "size_of ?b < offset + n") (simp_all add: overwrite_def b_def max_def)
    have "my_fuse_write e' path (take (unat n) buf) n offset None (replaying T) =
        Some (int_of_size n, append_log e' CHR ''W'' path 0 (take (unat n) buf) n offset [] (set_attr i a (replaying T)))"
      using written(1,3,5,6) e' len
      by (simp add: my_fuse_write_def tr at Let_def a b_def [symmetric])
    then show ?thesis using written(5,6,12) by (simp add: tr)
  qed
  then show "0 \<le> sint offset" "unat n \<le> length buf"
    "map_option (\<lambda>x. tree (snd x)) (my_fuse_write e' path (take (unat n) buf) n offset None (replaying T)) = Some (tree s')"
    by blast+
qed

subsection \<open>Journals\<close>

text \<open>
  The contract between the operations and the log, for any state: an operation changes the
  state only if it appends to the log, it appends at most one line, which fits the line
  buffer, and playing this line makes the same change. Then playing the whole log of a run
  gives the state of the run.
\<close>

locale journal =
  fixes inv :: "'t \<Rightarrow> bool"
    and clean :: "'op \<Rightarrow> bool"
    and steady :: "'e \<Rightarrow> bool"
    and able :: "'e \<Rightarrow> bool"
    and emit :: "'e \<Rightarrow> 'op \<Rightarrow> 't \<Rightarrow> ('t \<times> string) option"
    and play :: "'e \<Rightarrow> string \<Rightarrow> 't \<Rightarrow> 't option"
  assumes emit_inv: "inv t \<Longrightarrow> emit e op t = Some (t', lg) \<Longrightarrow> inv t'"
    and emit_silent: "inv t \<Longrightarrow> steady e \<Longrightarrow> emit e op t = Some (t', []) \<Longrightarrow> t' = t"
    and emit_line: "inv t \<Longrightarrow> steady e \<Longrightarrow> clean op \<Longrightarrow> emit e op t = Some (t', lg) \<Longrightarrow> lg \<noteq> [] \<Longrightarrow>
      \<exists>l. lg = l @ [newline] \<and> newline \<notin> set l \<and> length l + 1 < 4096"
    and emit_play: "inv t \<Longrightarrow> steady e \<Longrightarrow> clean op \<Longrightarrow> emit e op t = Some (t', lg) \<Longrightarrow> lg \<noteq> [] \<Longrightarrow>
      able e' \<Longrightarrow> play e' lg t = Some t'"

fun run_journal ::
  "('e \<Rightarrow> 'op \<Rightarrow> 't \<Rightarrow> ('t \<times> string) option) \<Rightarrow> ('e \<times> 'op) list \<Rightarrow> 't \<Rightarrow> ('t \<times> string) option" where
  "run_journal em [] t = Some (t, [])"
| "run_journal em ((e, op) # ops) t =
     (case em e op t of None \<Rightarrow> None
      | Some (t', lg) \<Rightarrow> map_option (\<lambda>(t'', lg'). (t'', lg @ lg')) (run_journal em ops t'))"

function play_text ::
  "('e \<Rightarrow> string \<Rightarrow> 't \<Rightarrow> 't option) \<Rightarrow> (nat \<Rightarrow> 'e) \<Rightarrow> nat \<Rightarrow> string \<Rightarrow> 't \<Rightarrow> 't option" where
  "play_text pl es k lg t =
     (if lg = [] then Some t
      else case pl (es k) (fst (fgets 4096 lg)) t of None \<Rightarrow> None
           | Some t' \<Rightarrow> play_text pl es (Suc k) (snd (fgets 4096 lg)) t')"
  by pat_completeness auto
termination
  by (relation "measure (\<lambda>(pl, es, k, lg, t). length lg)") (auto simp: fgets_shorter)

declare play_text.simps [simp del]

context journal
begin

lemma play_run:
  assumes "\<forall>k. able (es k)"
  shows "inv t \<Longrightarrow> \<forall>(e, op) \<in> set ops. steady e \<and> clean op \<Longrightarrow> run_journal emit ops t = Some (t', lg) \<Longrightarrow>
    play_text play es k lg t = Some t'"
proof (induction ops arbitrary: t lg k)
  case Nil
  then show ?case by (simp add: play_text.simps)
next
  case (Cons x ops)
  obtain e op where x: "x = (e, op)" by (cases x)
  have c: "steady e" "clean op" using Cons.prems(2) x by auto
  obtain t1 l1 l2 where s: "emit e op t = Some (t1, l1)" "run_journal emit ops t1 = Some (t', l2)" "lg = l1 @ l2"
    using Cons.prems(3) x by (auto split: option.splits)
  have inv1: "inv t1" by (rule emit_inv [OF Cons.prems(1) s(1)])
  have IH: "play_text play es k l2 t1 = Some t'" for k
    by (rule Cons.IH [OF inv1 _ s(2)]) (use Cons.prems(2) in auto)
  show ?case
  proof (cases "l1 = []")
    case True
    then have "t1 = t" using emit_silent [OF Cons.prems(1) c(1)] s(1) by simp
    then show ?thesis using IH s(3) True by simp
  next
    case False
    obtain l where l: "l1 = l @ [newline]" "newline \<notin> set l" "length l + 1 < 4096"
      using emit_line [OF Cons.prems(1) c s(1) False] by blast
    have "fgets 4096 lg = (l1, l2)" using fgets_line [OF l(2,3), of l2] s(3) l(1) by simp
    moreover have "play (es k) l1 t = Some t1"
      by (rule emit_play [OF Cons.prems(1) c s(1) False]) (use assms in blast)
    moreover have "lg \<noteq> []" using False s(3) by simp
    ultimately show ?thesis using IH by (simp add: play_text.simps [of play es k lg t])
  qed
qed

end

end
