(* ===== verification/Fs_Recovery.thy ===== *)
theory Fs_Recovery
  imports Fs_Log
begin

section \<open>MemFS: the log is a journal of the tree\<close>

text \<open>
  The interpretation of the journal contract on the operations of \<^verbatim>\<open>memfs.c\<close> and the
  line interpreter of \<^verbatim>\<open>load_log\<close>. The contract holds for operations whose path and
  target are words for \<^verbatim>\<open>%s\<close> (no white space, fewer than 1024 characters) and whose
  data is not empty and fits the line buffer together with the path.
\<close>

definition fs_emit :: "fs_env \<Rightarrow> fs_op \<Rightarrow> inodes \<Rightarrow> (inodes \<times> string) option" where
  "fs_emit e op T = map_option (\<lambda>(r, s). (tree s, log_file s)) (fs_exec e op (recording T))"

definition fs_play :: "fs_env \<Rightarrow> string \<Rightarrow> inodes \<Rightarrow> inodes option" where
  "fs_play e line T = map_option tree (load_line e line (replaying T))"

definition steady :: "fs_env \<Rightarrow> bool" where
  "steady e \<longleftrightarrow> fopen_ok e \<and> strdup_ok e"

definition able :: "fs_env \<Rightarrow> bool" where
  "able e \<longleftrightarrow> calloc_ok e \<and> realloc_ok e \<and> strdup_ok e"

fun op_clean :: "fs_op \<Rightarrow> bool" where
  "op_clean (Mkdir path m) \<longleftrightarrow> word_ok path"
| "op_clean (Mknod path m) \<longleftrightarrow> word_ok path"
| "op_clean (Create path m) \<longleftrightarrow> word_ok path"
| "op_clean (Symlink target path) \<longleftrightarrow> word_ok target \<and> word_ok path"
| "op_clean (Write path buf n offset fi) \<longleftrightarrow> word_ok path \<and> n \<noteq> 0 \<and> length path + 2 * unat n \<le> 4040"

lemma recording_simps [simp]:
  "tree (recording T) = T" "log_file (recording T) = []" "\<not> is_replaying (recording T)"
  "tree (replaying T) = T" "is_replaying (replaying T)"
  by (simp_all add: recording_def replaying_def)

lemma make_env:
  "make e path m T = Inr r \<Longrightarrow> calloc_ok e' \<Longrightarrow> make e' path m T = Inr r"
  by (auto simp: make_def create_inode_def split: option.splits if_splits)

lemma append_log_recording:
  "fopen_ok e \<Longrightarrow> \<not> is_replaying s \<Longrightarrow>
    log_file (append_log e op path m buf n off target s) = log_file s @ log_line op path m buf n off target"
  by (simp add: append_log_def)

subsection \<open>The effect of an operation and its line\<close>

lemma emit_mkdir:
  "fopen_ok e \<Longrightarrow> fs_emit e (Mkdir path m) T =
    Some (case make e path (S_IFDIR OR m) T of Inl _ \<Rightarrow> (T, [])
          | Inr (i, T') \<Rightarrow> (T', log_line CHR ''M'' path m [] 0 0 []))"
  by (simp add: fs_emit_def mkdir_make append_log_recording split: sum.split prod.split)

lemma emit_mknod:
  "fopen_ok e \<Longrightarrow> fs_emit e (Mknod path m) T =
    Some (case make e path (S_IFREG OR m) T of Inl _ \<Rightarrow> (T, [])
          | Inr (i, T') \<Rightarrow> (T', log_line CHR ''C'' path m [] 0 0 []))"
  "fs_emit e (Create path m) T = fs_emit e (Mknod path m) T"
  by (simp_all add: fs_emit_def my_fuse_create_def mknod_make append_log_recording split: sum.split prod.split)

definition with_target :: "inode_ptr \<Rightarrow> string \<Rightarrow> inodes \<Rightarrow> inodes" where
  "with_target i target T = T[i := (T ! i)\<lparr>attr := (attr (T ! i))\<lparr>link_target := Some target\<rparr>\<rparr>]"

lemma emit_symlink:
  "steady e \<Longrightarrow> fs_emit e (Symlink target path) T =
    Some (case make e path (S_IFLNK OR 0x1FF) T of Inl _ \<Rightarrow> (T, [])
          | Inr (i, T') \<Rightarrow> (with_target i target T', log_line CHR ''S'' path 0 [] 0 0 target))"
  by (simp add: fs_emit_def symlink_make append_log_recording steady_def with_target_def
      split: sum.split prod.split)

lemma emit_write:
  assumes "tree_ok T" "fopen_ok e" and "fs_emit e (Write path buf n offset fi) T = Some (T', lg)"
  obtains (error) "T' = T" "lg = []"
  | (written) r s' where "my_fuse_write e path buf n offset fi (recording T) = Some (r, s')"
      "s' \<noteq> recording T" "T' = tree s'" "lg = log_line CHR ''W'' path 0 buf n offset []"
proof -
  obtain r s' where w: "my_fuse_write e path buf n offset fi (recording T) = Some (r, s')"
    "T' = tree s'" "lg = log_file s'"
    using assms(3) by (auto simp: fs_emit_def)
  have ok: "tree_ok (tree (recording T))" using assms(1) by simp
  from ok w(1) show ?thesis
  proof (cases rule: write_cases)
    case error
    then show ?thesis using that(1) w by simp
  next
    case (written i a)
    then have l: "log_file s' = log_line CHR ''W'' path 0 buf n offset []"
      using assms(2) by (simp add: append_log_recording)
    moreover have "log_line CHR ''W'' path 0 buf n offset [] \<noteq> []" by (simp add: log_line_def)
    ultimately have "s' \<noteq> recording T" by auto
    then show ?thesis using that(2) w l by simp
  qed
qed

lemma log_line_not_Nil [simp]:
  "log_line CHR ''M'' path m buf n off target \<noteq> []" "log_line CHR ''C'' path m buf n off target \<noteq> []"
  "log_line CHR ''S'' path m buf n off target \<noteq> []" "log_line CHR ''W'' path m buf n off target \<noteq> []"
  by (simp_all add: log_line_def)

subsection \<open>The lines fit and play back\<close>

lemma length_print_num:
  "2 \<le> b \<Longrightarrow> n < b ^ Suc k \<Longrightarrow> length (print_num b n) \<le> Suc k"
proof (induction k arbitrary: n)
  case 0
  then show ?case by (simp add: print_num.simps [of b n])
next
  case (Suc k)
  have "n div b < b ^ Suc k" using Suc.prems by (simp add: div_less_iff_less_mult mult.commute)
  then show ?case using Suc by (simp add: print_num.simps [of b n])
qed

lemma no_newline: "\<forall>c \<in> set w. \<not> isspace c \<Longrightarrow> newline \<notin> set w"
  using space_facts(2) by blast

lemma print_no_newline: "2 \<le> b \<Longrightarrow> b \<le> 16 \<Longrightarrow> newline \<notin> set (print_num b n)"
  by (rule no_newline) (rule print_num_head(3))

lemma newline_lit [simp]: "newline \<noteq> CHR '' ''" "newline \<noteq> CHR ''M''" "newline \<noteq> CHR ''C''"
  "newline \<noteq> CHR ''S''" "newline \<noteq> CHR ''W''" "newline \<noteq> CHR ''-''"
  by (simp_all add: newline_def)

lemma make_line:
  assumes "word_ok path" and "op = CHR ''M'' \<or> op = CHR ''C''"
  shows "\<exists>l. log_line op path m [] 0 0 [] = l @ [newline] \<and> newline \<notin> set l \<and> length l + 1 < 4096"
proof -
  have "unat m < 8 ^ Suc 10" by (rule order_less_le_trans [OF unsigned_less]) simp
  then have "length (print_num 8 (unat m)) \<le> Suc 10" by (intro length_print_num) simp_all
  moreover have "newline \<notin> set (print_num 8 (unat m))" by (rule print_no_newline) simp_all
  ultimately show ?thesis
    using assms no_newline [of path]
    by (intro exI [of _ "op # '' '' @ path @ '' '' @ print_num 8 (unat m)"])
      (auto simp: log_line_def word_ok_def)
qed

lemma symlink_line:
  assumes "word_ok path" "word_ok target"
  shows "\<exists>l. log_line CHR ''S'' path 0 [] 0 0 target = l @ [newline] \<and> newline \<notin> set l \<and> length l + 1 < 4096"
  using assms no_newline [of path] no_newline [of target]
  by (intro exI [of _ "''S '' @ path @ '' '' @ target"]) (auto simp: log_line_def word_ok_def)

lemma write_numbers:
  assumes off: "0 \<le> sint offset"
  shows "length (print_ld offset) \<le> 19" "newline \<notin> set (print_ld offset)"
    "length (print_num 10 (unat (n :: size_t))) \<le> 20" "newline \<notin> set (print_num 10 (unat n))"
proof -
  have "sint offset < 2 ^ 63" using sint_less [of offset] by simp
  then have "nat (sint offset) < 10 ^ Suc 18" using off by (simp add: nat_less_iff)
  then show "length (print_ld offset) \<le> 19" "newline \<notin> set (print_ld offset)"
    using off length_print_num [of 10 "nat (sint offset)" 18] print_no_newline [of 10]
    by (simp_all add: print_ld_def)
  have "unat n < 10 ^ Suc 19" using unat_max_64 [of n] by simp
  then show "length (print_num 10 (unat n)) \<le> 20" "newline \<notin> set (print_num 10 (unat n))"
    using length_print_num [of 10 "unat n" 19] print_no_newline [of 10] by simp_all
qed

lemma hex_facts:
  assumes "n \<le> length buf"
  shows "length (concat (map print_02x (take n buf))) = 2 * n" "newline \<notin> set (concat (map print_02x (take n buf)))"
proof -
  show "length (concat (map print_02x (take n buf))) = 2 * n" unfolding length_hex using assms by simp
  show "newline \<notin> set (concat (map print_02x (take n buf)))" by (rule no_newline) (blast dest: hex_no_space)
qed

lemma write_line:
  assumes p: "word_ok path" and len: "length path + 2 * unat n \<le> 4040" and off: "0 \<le> sint offset"
    and n: "unat n \<le> length buf"
  shows "\<exists>l. log_line CHR ''W'' path 0 buf n offset [] = l @ [newline] \<and> newline \<notin> set l \<and> length l + 1 < 4096"
  using p no_newline [of path] write_numbers(1,2) [OF off] write_numbers(3,4) [OF off, of n] hex_facts [OF n] len
  by (intro exI [of _ "''W '' @ path @ '' '' @ print_ld offset @ '' '' @ print_num 10 (unat n) @ '' '' @
        concat (map print_02x (take (unat n) buf))"])
    (auto simp: log_line_def word_ok_def hex_text [OF n])

lemma play_make:
  assumes "word_ok path"
  shows "fs_play e (log_line CHR ''M'' path m [] 0 0 []) T = Some (tree (snd (my_fuse_mkdir e path m (replaying T))))"
    and "fs_play e (log_line CHR ''C'' path m [] 0 0 []) T = Some (tree (snd (my_fuse_mknod e path m (replaying T))))"
  using load_make_line [OF assms] by (simp_all add: fs_play_def load_line_def log_line_def)

lemma play_symlink:
  assumes "word_ok path" "word_ok target"
  shows "fs_play e (log_line CHR ''S'' path 0 [] 0 0 target) T =
    Some (tree (snd (my_fuse_symlink e target path (replaying T))))"
  using load_symlink_line [OF assms] by (simp add: fs_play_def load_line_def log_line_def)

lemma play_write:
  assumes "word_ok path" "n \<noteq> 0" "unat n \<le> 2048" "unat n \<le> length buf" "0 \<le> sint offset"
  shows "fs_play e (log_line CHR ''W'' path 0 buf n offset []) T =
    map_option (\<lambda>x. tree (snd x)) (my_fuse_write e path (take (unat n) buf) n offset None (replaying T))"
  using load_write_line [OF assms]
  by (simp add: fs_play_def load_line_def log_line_def option.map_comp comp_def)

lemma fs_emit_inv: "tree_ok T \<Longrightarrow> fs_emit e op T = Some (T', lg) \<Longrightarrow> tree_ok T'"
  using exec_tree_ok [of "recording T" e op] by (auto simp: fs_emit_def)

lemma fs_emit_silent:
  assumes "tree_ok T" "steady e" "fs_emit e op T = Some (T', [])"
  shows "T' = T"
proof (cases op)
  case (Write path buf n offset fi)
  have f: "fopen_ok e" using assms(2) by (simp add: steady_def)
  from assms(1) f assms(3) [unfolded Write] show ?thesis by (cases rule: emit_write) (auto dest: sym)
qed (use assms in \<open>auto simp: emit_mkdir emit_mknod emit_symlink steady_def split: sum.splits prod.splits\<close>)

lemma fs_emit_line:
  assumes "tree_ok T" "steady e" "op_clean op" "fs_emit e op T = Some (T', lg)" "lg \<noteq> []"
  shows "\<exists>l. lg = l @ [newline] \<and> newline \<notin> set l \<and> length l + 1 < 4096"
proof (cases op)
  case (Mkdir path m)
  then have "lg = log_line CHR ''M'' path m [] 0 0 []" "word_ok path"
    using assms by (auto simp: emit_mkdir steady_def split: sum.splits prod.splits)
  then show ?thesis using make_line [of path "CHR ''M''" m] by simp
next
  case (Mknod path m)
  then have "lg = log_line CHR ''C'' path m [] 0 0 []" "word_ok path"
    using assms by (auto simp: emit_mknod steady_def split: sum.splits prod.splits)
  then show ?thesis using make_line [of path "CHR ''C''" m] by simp
next
  case (Create path m)
  then have "lg = log_line CHR ''C'' path m [] 0 0 []" "word_ok path"
    using assms by (auto simp: emit_mknod steady_def split: sum.splits prod.splits)
  then show ?thesis using make_line [of path "CHR ''C''" m] by simp
next
  case (Symlink target path)
  then have "lg = log_line CHR ''S'' path 0 [] 0 0 target" "word_ok path" "word_ok target"
    using assms by (auto simp: emit_symlink split: sum.splits prod.splits)
  then show ?thesis using symlink_line [of path target] by simp
next
  case (Write path buf n offset fi)
  have f: "fopen_ok e" using assms(2) by (simp add: steady_def)
  from assms(1) f assms(4) [unfolded Write] show ?thesis
  proof (cases rule: emit_write)
    case error
    then show ?thesis using assms(5) by simp
  next
    case (written r s')
    note w = write_replay(1,2) [OF assms(1) written(1,2), of "e\<lparr>realloc_ok := True\<rparr>"]
    show ?thesis unfolding written(4) using assms(3) Write w by (intro write_line) simp_all
  qed
qed

lemma fs_emit_play:
  assumes "tree_ok T" "steady e" "op_clean op" "fs_emit e op T = Some (T', lg)" "lg \<noteq> []" "able e'"
  shows "fs_play e' lg T = Some T'"
proof (cases op)
  case (Mkdir path m)
  then show ?thesis using assms make_env [of e path "S_IFDIR OR m" T _ e']
    by (auto simp: emit_mkdir steady_def able_def play_make mkdir_make split: sum.splits prod.splits)
next
  case (Mknod path m)
  then show ?thesis using assms make_env [of e path "S_IFREG OR m" T _ e']
    by (auto simp: emit_mknod steady_def able_def play_make mknod_make split: sum.splits prod.splits)
next
  case (Create path m)
  then show ?thesis using assms make_env [of e path "S_IFREG OR m" T _ e']
    by (auto simp: emit_mknod steady_def able_def play_make mknod_make split: sum.splits prod.splits)
next
  case (Symlink target path)
  then show ?thesis using assms make_env [of e path "S_IFLNK OR 0x1FF" T _ e']
    by (auto simp: emit_symlink able_def play_symlink symlink_make with_target_def split: sum.splits prod.splits)
next
  case (Write path buf n offset fi)
  have f: "fopen_ok e" using assms(2) by (simp add: steady_def)
  from assms(1) f assms(4) [unfolded Write] show ?thesis
  proof (cases rule: emit_write)
    case error
    then show ?thesis using assms(5) by simp
  next
    case (written r s')
    have "realloc_ok e'" using assms(6) by (simp add: able_def)
    note w = write_replay [OF assms(1) written(1,2) this]
    show ?thesis unfolding written(3,4) using assms(3) Write w by (subst play_write) simp_all
  qed
qed

interpretation oplog: journal tree_ok op_clean steady able fs_emit fs_play
  by unfold_locales (rule fs_emit_inv fs_emit_silent fs_emit_line fs_emit_play; assumption)+

subsection \<open>From the tree to the whole state\<close>

primrec fs_run :: "(fs_env \<times> fs_op) list \<Rightarrow> memfs \<Rightarrow> memfs option" where
  "fs_run [] s = Some s"
| "fs_run (x # ops) s =
     (case fs_exec (fst x) (snd x) s of None \<Rightarrow> None | Some (r, s') \<Rightarrow> fs_run ops s')"

text \<open>An operation reads nothing but the tree and only appends to the log.\<close>

lemma exec_emit:
  assumes "\<not> is_replaying s"
  shows "fs_exec e op s =
    map_option (\<lambda>(r, s'). (r, s'\<lparr>log_file := log_file s @ log_file s'\<rparr>)) (fs_exec e op (recording (tree s)))"
proof -
  obtain T L where sl: "s = \<lparr>tree = T, log_file = L, is_replaying = False\<rparr>"
    using assms by (cases s) simp
  show ?thesis unfolding sl
    by (cases op)
      (simp_all add: recording_def mkdir_make mknod_make my_fuse_create_def symlink_make my_fuse_write_def
        append_log_def set_attr_def attr_at_def Let_def split: sum.split prod.split option.split)
qed

lemma exec_replaying: "fs_exec e op s = Some (r, s') \<Longrightarrow> is_replaying s' = is_replaying s"
  by (cases op)
    (auto simp: mkdir_make mknod_make my_fuse_create_def symlink_make my_fuse_write_def Let_def
      split: sum.splits prod.splits option.splits if_splits)

lemma run_emits:
  "\<not> is_replaying s \<Longrightarrow> fs_run ops s = Some s' \<Longrightarrow>
    \<exists>lg. run_journal fs_emit ops (tree s) = Some (tree s', lg) \<and> log_file s' = log_file s @ lg \<and> \<not> is_replaying s'"
proof (induction ops arbitrary: s)
  case Nil
  then show ?case by simp
next
  case (Cons x ops)
  obtain e op where x: "x = (e, op)" by (cases x)
  obtain r s1 where s1: "fs_exec e op s = Some (r, s1)" "fs_run ops s1 = Some s'"
    using Cons.prems(2) x by (auto split: option.splits)
  obtain s2 where s2: "fs_exec e op (recording (tree s)) = Some (r, s2)" "s1 = s2\<lparr>log_file := log_file s @ log_file s2\<rparr>"
    using s1(1) exec_emit [OF Cons.prems(1), of e op] by auto
  have "\<not> is_replaying s1" using exec_replaying [OF s1(1)] Cons.prems(1) by simp
  then obtain lg where lg: "run_journal fs_emit ops (tree s1) = Some (tree s', lg)"
      "log_file s' = log_file s1 @ lg" "\<not> is_replaying s'"
    using Cons.IH s1(2) by blast
  have "fs_emit e op (tree s) = Some (tree s1, log_file s2)" using s2 by (simp add: fs_emit_def)
  then show ?case using lg s2 x by simp
qed

lemma load_make_replaying:
  assumes f: "\<And>path m s. is_replaying s \<Longrightarrow> snd (f e path m s) = s\<lparr>tree := tree (snd (f e path m (replaying (tree s))))\<rparr>"
    and s: "is_replaying s"
  shows "load_make f e r s = map_option (\<lambda>s'. s\<lparr>tree := tree s'\<rparr>) (load_make f e r (replaying (tree s)))"
  using f [OF s] by (simp add: load_make_def split: option.split prod.split)

lemma replaying_ops:
  assumes "is_replaying s"
  shows "snd (my_fuse_mkdir e path m s) = s\<lparr>tree := tree (snd (my_fuse_mkdir e path m (replaying (tree s))))\<rparr>"
    "snd (my_fuse_mknod e path m s) = s\<lparr>tree := tree (snd (my_fuse_mknod e path m (replaying (tree s))))\<rparr>"
    "snd (my_fuse_symlink e target path s) = s\<lparr>tree := tree (snd (my_fuse_symlink e target path (replaying (tree s))))\<rparr>"
    "map_option snd (my_fuse_write e path buf n offset fi s) =
      map_option (\<lambda>x. s\<lparr>tree := tree (snd x)\<rparr>) (my_fuse_write e path buf n offset fi (replaying (tree s)))"
proof -
  obtain T L where sl: "s = \<lparr>tree = T, log_file = L, is_replaying = True\<rparr>"
    using assms by (cases s) simp
  show "snd (my_fuse_mkdir e path m s) = s\<lparr>tree := tree (snd (my_fuse_mkdir e path m (replaying (tree s))))\<rparr>"
    "snd (my_fuse_mknod e path m s) = s\<lparr>tree := tree (snd (my_fuse_mknod e path m (replaying (tree s))))\<rparr>"
    "snd (my_fuse_symlink e target path s) = s\<lparr>tree := tree (snd (my_fuse_symlink e target path (replaying (tree s))))\<rparr>"
    unfolding sl
    by (simp_all add: replaying_def mkdir_make mknod_make symlink_make append_log_def set_attr_def
        split: sum.split prod.split)
  show "map_option snd (my_fuse_write e path buf n offset fi s) =
      map_option (\<lambda>x. s\<lparr>tree := tree (snd x)\<rparr>) (my_fuse_write e path buf n offset fi (replaying (tree s)))"
    unfolding sl
    by (simp add: replaying_def my_fuse_write_def append_log_def set_attr_def attr_at_def Let_def
        split: option.split)
qed

lemma load_line_replaying:
  assumes s: "is_replaying s"
  shows "load_line e line s = map_option (\<lambda>T. s\<lparr>tree := T\<rparr>) (fs_play e line (tree s))"
proof -
  have "load_write e r s = map_option (\<lambda>s'. s\<lparr>tree := tree s'\<rparr>) (load_write e r (replaying (tree s)))" for r
    using replaying_ops(4) [OF s, of e]
    by (simp add: load_write_def option.map_comp comp_def split: option.split prod.split)
  moreover have "load_symlink e r s = map_option (\<lambda>s'. s\<lparr>tree := tree s'\<rparr>) (load_symlink e r (replaying (tree s)))" for r
    using replaying_ops(3) [OF s, of e] by (simp add: load_symlink_def split: option.split prod.split)
  moreover have "load_make my_fuse_mkdir e r s = map_option (\<lambda>s'. s\<lparr>tree := tree s'\<rparr>) (load_make my_fuse_mkdir e r (replaying (tree s)))"
    "load_make my_fuse_mknod e r s = map_option (\<lambda>s'. s\<lparr>tree := tree s'\<rparr>) (load_make my_fuse_mknod e r (replaying (tree s)))" for r
    by (rule load_make_replaying [OF replaying_ops(1) s], assumption)
      (rule load_make_replaying [OF replaying_ops(2) s], assumption)
  ultimately show ?thesis
    by (cases line) (simp_all add: load_line_def fs_play_def option.map_comp comp_def)
qed

lemma load_lines_play:
  "is_replaying s \<Longrightarrow> load_lines es k lg s = map_option (\<lambda>T. s\<lparr>tree := T\<rparr>) (play_text fs_play es k lg (tree s))"
proof (induction es k lg s rule: load_lines.induct)
  case (1 es k lg s)
  show ?case
  proof (cases "lg = []")
    case True
    then show ?thesis by (simp add: load_lines.simps [of es k "[]" s] play_text.simps [of fs_play es k "[]"])
  next
    case False
    let ?l = "fst (fgets 4096 lg)"
    show ?thesis
    proof (cases "fs_play (es k) ?l (tree s)")
      case None
      then show ?thesis using False load_line_replaying [OF 1(2)]
        by (simp add: load_lines.simps [of es k lg s] play_text.simps [of fs_play es k lg])
    next
      case (Some T)
      then have l: "load_line (es k) ?l s = Some (s\<lparr>tree := T\<rparr>)" using load_line_replaying [OF 1(2)] by simp
      have "load_lines es (Suc k) (snd (fgets 4096 lg)) (s\<lparr>tree := T\<rparr>) =
          map_option (\<lambda>T'. s\<lparr>tree := T'\<rparr>) (play_text fs_play es (Suc k) (snd (fgets 4096 lg)) T)"
        using 1(1) [OF False l] 1(2) by simp
      then show ?thesis using False Some l
        by (simp add: load_lines.simps [of es k lg s] play_text.simps [of fs_play es k lg])
    qed
  qed
qed

lemma mount_recovers:
  assumes "fs_run ops empty_fs = Some s" and "\<forall>(e, op) \<in> set ops. steady e \<and> op_clean op"
    and "\<forall>k. able (es k)"
  shows "mount True es (log_file s) = Some s"
proof -
  have r: "\<not> is_replaying empty_fs" "tree empty_fs = [root]" "log_file empty_fs = []"
    by (simp_all add: empty_fs_def)
  obtain lg where lg: "run_journal fs_emit ops [root] = Some (tree s, lg)" "log_file s = lg" "\<not> is_replaying s"
    using run_emits [OF r(1) assms(1)] r by auto
  have "play_text fs_play es 0 lg [root] = Some (tree s)"
    by (rule oplog.play_run [OF assms(3) root_tree_ok assms(2) lg(1)])
  then show ?thesis using lg(2,3)
    by (simp add: mount_def load_log_def load_lines_play)
qed

end
