(* ===== verification/Fs_Properties.thy ===== *)
theory Fs_Properties
  imports Fs_Recovery
begin

section \<open>MemFS: properties\<close>

text \<open>
  The statements about the file system as a whole. The sample file system of the
  witnesses has a directory \<^verbatim>\<open>/d\<close> with a file \<^verbatim>\<open>/d/f\<close> of three bytes.
\<close>

definition all_ok :: fs_env where
  "all_ok = \<lparr>calloc_ok = True, realloc_ok = True, strdup_ok = True, fopen_ok = True\<rparr>"

definition sample_ops :: "(fs_env \<times> fs_op) list" where
  "sample_ops = [(all_ok, Mkdir ''/d'' 0x1ED), (all_ok, Mknod ''/d/f'' 0x1A4),
     (all_ok, Write ''/d/f'' [1, 2, 3] 3 0 None)]"

definition sample_fs :: memfs where
  "sample_fs = the (fs_run sample_ops empty_fs)"

lemma run_reachable: "fs_reachable s \<Longrightarrow> fs_run ops s = Some s' \<Longrightarrow> fs_reachable s'"
  by (induction ops arbitrary: s) (auto split: option.splits intro: fs_reachable.step)

lemma sample_run: "fs_run sample_ops empty_fs = Some sample_fs"
proof -
  have "fs_run sample_ops empty_fs \<noteq> None" by code_simp
  then show ?thesis by (auto simp: sample_fs_def)
qed

lemma sample_reachable: "fs_reachable sample_fs"
  by (rule run_reachable [OF fs_reachable.start sample_run])

subsection \<open>Recovery and the invariant\<close>

text \<open>C1: Recovery: after any run of operations from the empty file system, a new process that
  replays the log gets exactly the file system of the run, with the same tree and the same
  log. The paths and link targets have no white space and fewer than 1024 characters, writes
  are not empty and fit the log's line buffer; during the run the log file opens and
  \<^verbatim>\<open>strdup\<close> succeeds (other allocations may fail), during the replay allocations succeed.\<close>

theorem fs_recovery:
  assumes "fs_run ops empty_fs = Some s" and "\<forall>(e, op) \<in> set ops. steady e \<and> op_clean op"
    and "\<forall>k. able (es k)"
  shows "mount True es (log_file s) = Some s"
  using assms by (rule mount_recovers)

lemma fs_recovery_witness: "mount True (\<lambda>_. all_ok) (log_file sample_fs) = Some sample_fs"
proof (rule fs_recovery [OF sample_run])
  show "\<forall>(e, op) \<in> set sample_ops. steady e \<and> op_clean op"
    by (simp add: sample_ops_def steady_def all_ok_def word_ok_def isspace_def)
  show "\<forall>k. able all_ok" by (simp add: able_def all_ok_def)
qed

text \<open>C12: Every file system that operations can produce is a tree: each inode but the root is
  listed exactly once, in the directory that is its parent; only directories have entries, at
  most 1024 with distinct names of 1 to 255 characters without a slash; the data of each file
  has the recorded size.\<close>

theorem fs_invariant:
  assumes "fs_reachable s"
  shows "tree_ok (tree s)"
  using assms by (rule reachable_tree_ok)

lemma fs_invariant_witness: "tree_ok (tree sample_fs)"
  by (rule fs_invariant [OF sample_reachable])

subsection \<open>Reading and writing\<close>

lemma int_of_size_small: "unat n < 2 ^ 31 \<Longrightarrow> int_of_size n = int (unat n)"
proof -
  assume n: "unat n < 2 ^ 31"
  have "unat (ucast n :: int32) = unat n"
    using n by (simp add: unsigned_ucast_eq take_bit_eq_mod)
  then show ?thesis using sint_small [of "ucast n :: int32"] n by (simp add: int_of_size_def)
qed

lemma error_negative: "r \<in> {- ENOENT, - EISDIR, - EACCES, - EINVAL, - ENOMEM} \<Longrightarrow> r < 0"
  by (auto simp: errno_defs)

text \<open>C23: A write that returns a count returns the number of bytes asked for, and a read of the
  same range, through a handle that is not write-only, returns these bytes.\<close>

theorem write_then_read:
  assumes ok: "tree_ok (tree s)" and n: "unat n < 2 ^ 31"
    and w: "my_fuse_write e path buf n offset fi s = Some (r, s')" "0 \<le> r"
    and fi': "\<not> (case fi' of None \<Rightarrow> False | Some flags \<Rightarrow> flags AND O_ACCMODE = O_WRONLY)"
  shows "r = int (unat n) \<and>
    my_fuse_read path n offset fi' s' = Some (int (unat n), map Some (take (unat n) buf))"
  using ok w(1)
proof (cases rule: write_cases)
  case error
  then show ?thesis using error_negative w(2) by fastforce
next
  case (written i a)
  have r: "r = int (unat n)" using written(4) int_of_size_small [OF n] by simp
  have t: "tree s' = (tree s)[i := (tree s ! i)\<lparr>attr := a\<rparr>]" using written(12) by simp
  have a: "iname a = iname (attr (tree s ! i))" "mode a = mode (attr (tree s ! i))"
    using written(10) by (simp_all add: attr_at_def)
  have f: "find_by_path (tree s') path = Some i"
    unfolding t set_attr_find_by_path [OF a written(2)] by (rule written(1))
  have at: "attr_at s' i = a" using t written(2) by (simp add: attr_at_def)
  have "offset + n \<le> size_of a" using written(10) by simp
  then have le: "unat offset + unat n \<le> unat (size_of a)" using written(9) by (simp add: word_le_nat_alt)
  have d: "take (unat n) (drop (unat offset) (data a)) = map Some (take (unat n) buf)"
    using overwrite_facts(3) [of "unat offset" "map Some (take (unat n) buf)"
        "resized (unat offset + unat n) (data (attr_at s i))"] written(6,10)
    by (simp add: resized_facts)
  have m: "S_ISREG (mode a)" using a(2) written(3) by (simp add: attr_at_def)
  have nc: "\<not> size_of a < offset + n" using le written(9) by (simp add: word_less_nat_alt)
  show ?thesis
  proof (cases "size_of a \<le> offset")
    case True
    then have "unat n = 0" using le by (simp add: word_le_nat_alt)
    then show ?thesis using r f at fi' m written(5) True by (simp add: my_fuse_read_def)
  next
    case False
    then show ?thesis
      using r f at fi' m written(5,11) nc le d int_of_size_small [OF n]
      by (simp add: my_fuse_read_def Let_def)
  qed
qed

lemma write_then_read_witness:
  "\<exists>r s'. my_fuse_write all_ok ''/d/f'' [7, 8] 2 5 None sample_fs = Some (r, s') \<and>
    my_fuse_read ''/d/f'' 2 5 None s' = Some (2, [Some 7, Some 8])"
proof -
  have "(case my_fuse_write all_ok ''/d/f'' [7, 8] 2 5 None sample_fs of None \<Rightarrow> False | Some (r, s') \<Rightarrow> r = 2)"
    by code_simp
  then obtain s' where s': "my_fuse_write all_ok ''/d/f'' [7, 8] 2 5 None sample_fs = Some (2, s')"
    by (auto split: option.splits)
  show ?thesis
    using write_then_read [OF reachable_tree_ok [OF sample_reachable] _ s', of None] s' by simp
qed

text \<open>C24: A write that returns a count sets the file's size to the larger of the old size and
  the end of the written range, keeps every other byte of the file that was there before, the
  attributes of every other inode, and the inode every path leads to.\<close>

theorem write_effect:
  assumes ok: "tree_ok (tree s)" and n: "unat n < 2 ^ 31"
    and w: "my_fuse_write e path buf n offset fi s = Some (r, s')" "0 \<le> r"
  shows "\<exists>i. find_by_path (tree s) path = Some i \<and>
    unat (size_of (attr_at s' i)) = max (unat (size_of (attr_at s i))) (unat offset + unat n) \<and>
    (\<forall>k < unat (size_of (attr_at s i)). \<not> (unat offset \<le> k \<and> k < unat offset + unat n) \<longrightarrow>
       data (attr_at s' i) ! k = data (attr_at s i) ! k) \<and>
    (\<forall>j. j \<noteq> i \<longrightarrow> attr_at s' j = attr_at s j) \<and>
    (\<forall>p. find_by_path (tree s') p = find_by_path (tree s) p)"
  using ok w(1)
proof (cases rule: write_cases)
  case error
  then show ?thesis using error_negative w(2) by fastforce
next
  case (written i a)
  have t: "tree s' = (tree s)[i := (tree s ! i)\<lparr>attr := a\<rparr>]" using written(12) by simp
  have a: "iname a = iname (attr (tree s ! i))" "mode a = mode (attr (tree s ! i))"
    using written(10) by (simp_all add: attr_at_def)
  have at: "attr_at s' i = a" using t written(2) by (simp add: attr_at_def)
  have l: "length (data (attr_at s i)) = unat (size_of (attr_at s i))"
    using tree_okD(5) [OF ok written(2)] by (simp add: attr_at_def)
  have "unat (size_of a) = max (unat (size_of (attr_at s i))) (unat offset + unat n)"
    using written(9,10) by (simp add: max_def word_le_nat_alt)
  moreover have "data a ! k = data (attr_at s i) ! k"
    if "k < unat (size_of (attr_at s i))" "\<not> (unat offset \<le> k \<and> k < unat offset + unat n)" for k
  proof -
    have "data a ! k = resized (unat offset + unat n) (data (attr_at s i)) ! k"
      using overwrite_facts(2) [of "unat offset" "map Some (take (unat n) buf)"
          "resized (unat offset + unat n) (data (attr_at s i))" k] written(6,10) that l
      by (auto simp: resized_facts)
    then show ?thesis using resized_facts(2) l that by simp
  qed
  moreover have "attr_at s' j = attr_at s j" if "j \<noteq> i" for j using t that by (simp add: attr_at_def)
  moreover have "find_by_path (tree s') p = find_by_path (tree s) p" for p
    unfolding t by (rule set_attr_find_by_path [OF a written(2)])
  ultimately show ?thesis using written(1) at by (intro exI [of _ i]) simp
qed

lemma write_effect_witness:
  "\<exists>s'. my_fuse_write all_ok ''/d/f'' [7, 8] 2 5 None sample_fs = Some (2, s') \<and>
    find_by_path (tree s') ''/d'' = find_by_path (tree sample_fs) ''/d''"
proof -
  have "(case my_fuse_write all_ok ''/d/f'' [7, 8] 2 5 None sample_fs of None \<Rightarrow> False | Some (r, s') \<Rightarrow> r = 2)"
    by code_simp
  then obtain s' where s': "my_fuse_write all_ok ''/d/f'' [7, 8] 2 5 None sample_fs = Some (2, s')"
    by (auto split: option.splits)
  show ?thesis using write_effect [OF reachable_tree_ok [OF sample_reachable] _ s'] s' by auto
qed

text \<open>A write behind the end of the file leaves the bytes between the old end and its offset
  unwritten: a read of them returns whatever \<^verbatim>\<open>realloc\<close> left there, not zeros.\<close>

theorem sparse_write_gap:
  assumes ok: "tree_ok (tree s)" and f: "find_by_path (tree s) path = Some i" and n: "unat n < 2 ^ 31"
    and w: "my_fuse_write e path buf n offset fi s = Some (r, s')" "0 \<le> r"
    and k: "unat (size_of (attr_at s i)) \<le> k" "k < unat offset"
  shows "data (attr_at s' i) ! k = None"
  using ok w(1)
proof (cases rule: write_cases)
  case error
  then show ?thesis using error_negative w(2) by fastforce
next
  case (written j a)
  have j: "j = i" using f written(1) by simp
  have at: "attr_at s' i = a" using written(12,2) j by (simp add: attr_at_def)
  have l: "length (data (attr_at s i)) = unat (size_of (attr_at s i))"
    using tree_okD(5) [OF ok] written(2) j by (simp add: attr_at_def)
  have "data a ! k = resized (unat offset + unat n) (data (attr_at s i)) ! k"
    using overwrite_facts(2) [of "unat offset" "map Some (take (unat n) buf)"
        "resized (unat offset + unat n) (data (attr_at s i))" k] written(6,10) j k
    by (auto simp: resized_facts)
  then show ?thesis using at resized_facts(3) [of "data (attr_at s i)" k] l k by simp
qed

lemma sparse_write_gap_witness:
  "\<exists>s'. my_fuse_write all_ok ''/d/f'' [7, 8] 2 5 None sample_fs = Some (2, s') \<and> data (attr_at s' 2) ! 4 = None"
proof -
  have "(case my_fuse_write all_ok ''/d/f'' [7, 8] 2 5 None sample_fs of None \<Rightarrow> False | Some (r, s') \<Rightarrow> r = 2)"
    by code_simp
  then obtain s' where s': "my_fuse_write all_ok ''/d/f'' [7, 8] 2 5 None sample_fs = Some (2, s')"
    by (auto split: option.splits)
  have "find_by_path (tree sample_fs) ''/d/f'' = Some 2" "unat (size_of (attr_at sample_fs 2)) = 3"
    by code_simp+
  then show ?thesis
    using sparse_write_gap [OF reachable_tree_ok [OF sample_reachable] _ _ s', of 2 4] s' by simp
qed

subsection \<open>Creating\<close>

text \<open>The last name of a path is not cut off at 255 characters.\<close>

definition short_name :: "string \<Rightarrow> bool" where
  "short_name path \<longleftrightarrow>
     (case cut_last_slash (snprintf_s 1024 path) of None \<Rightarrow> True
      | Some (_, rest) \<Rightarrow> length rest \<le> MAX_NAME_LEN)"

lemma make_short:
  assumes "tree_ok T" and "make e path m T = Inr (i, T')" and "short_name path"
  shows "find_by_path T' path = Some i"
  using assms(3) by (intro make_resolves [OF assms(1,2)]) (simp add: short_name_def)

lemma make_error: "make e path m T \<noteq> Inl 0"
  by (auto simp: make_def errno_defs split: option.splits if_splits prod.splits)

lemma mkdir_made:
  assumes "my_fuse_mkdir e path m s = (0, s')"
  obtains i where "make e path (S_IFDIR OR m) (tree s) = Inr (i, tree s')"
  using assms make_error [of e path "S_IFDIR OR m" "tree s"]
  by (auto simp: mkdir_make split: sum.splits prod.splits)

lemma symlink_made:
  assumes "my_fuse_symlink e target path s = (0, s')"
  obtains i T where "make e path (S_IFLNK OR 0x1FF) (tree s) = Inr (i, T)" "tree s' = with_target i target T"
  using assms make_error [of e path "S_IFLNK OR 0x1FF" "tree s"]
  by (auto simp: symlink_make ENOMEM_def with_target_def split: sum.splits prod.splits if_splits)

lemma result_0: "fst x = (0 :: int) \<Longrightarrow> x = (0, snd x)"
  by (cases x) simp

lemma dir_mode: "m AND S_IFMT = 0 \<Longrightarrow> S_ISDIR (S_IFDIR OR m)"
  by (simp add: S_ISDIR_def S_IFDIR_def S_IFMT_def bit.conj_disj_distrib2)

lemma make_paths:
  assumes "tree_ok T" and "make e path m T = Inr (i, T')" and "find_by_path T q = Some j"
  shows "find_by_path T' q = Some j" "attr (T' ! j) = attr (T ! j)"
proof -
  obtain p b where g: "grown T T' p i" by (rule make_ok [OF assms(1,2)])
  have j: "j < i" using find_by_path_bound [OF assms(1,3)] g by (simp add: grown_def)
  show "find_by_path T' q = Some j" by (rule grown_find_by_path [OF assms(1) g assms(3)])
  show "attr (T' ! j) = attr (T ! j)" by (rule grownD(1) [OF g j])
qed

text \<open>After a successful \<^verbatim>\<open>mkdir\<close>, \<^verbatim>\<open>getattr\<close> finds a directory of the given mode with two
  links and size 0 at the path, and every path that \<^verbatim>\<open>getattr\<close> found before has the same
  attributes as before.\<close>

theorem mkdir_then_getattr:
  assumes ok: "tree_ok (tree s)" and k: "my_fuse_mkdir e path m s = (0, s')"
    and m: "m AND S_IFMT = 0" and nm: "short_name path"
  shows "my_fuse_getattr path s' = (0, \<lparr>st_mode = S_IFDIR OR m, st_nlink = 2, st_size = 0\<rparr>) \<and>
    (\<forall>q st. my_fuse_getattr q s = (0, st) \<longrightarrow> my_fuse_getattr q s' = (0, st))"
proof -
  obtain i where mk: "make e path (S_IFDIR OR m) (tree s) = Inr (i, tree s')" by (rule mkdir_made [OF k])
  obtain p b where new: "tree s' ! i = \<lparr>parent = Some p, children = [],
      attr = \<lparr>iname = b, mode = S_IFDIR OR m, nlink = (if S_ISDIR (S_IFDIR OR m) then 2 else 1), data = [],
              size_of = 0, link_target = None\<rparr>\<rparr>"
    by (rule make_ok [OF ok mk])
  have "find_by_path (tree s') path = Some i" by (rule make_short [OF ok mk nm])
  then have "my_fuse_getattr path s' = (0, \<lparr>st_mode = S_IFDIR OR m, st_nlink = 2, st_size = 0\<rparr>)"
    using new dir_mode [OF m] by (simp add: my_fuse_getattr_def attr_at_def)
  moreover have "my_fuse_getattr q s' = (0, st)" if g: "my_fuse_getattr q s = (0, st)" for q st
  proof -
    obtain j where "find_by_path (tree s) q = Some j"
      using g by (auto simp: my_fuse_getattr_def ENOENT_def split: option.splits)
    then show ?thesis using make_paths [OF ok mk] g by (simp add: my_fuse_getattr_def attr_at_def)
  qed
  ultimately show ?thesis by blast
qed

lemma mkdir_then_getattr_witness:
  "\<exists>s'. my_fuse_mkdir all_ok ''/d/x'' 0x1C0 sample_fs = (0, s') \<and>
    my_fuse_getattr ''/d/x'' s' = (0, \<lparr>st_mode = 0x41C0, st_nlink = 2, st_size = 0\<rparr>)"
proof -
  have "fst (my_fuse_mkdir all_ok ''/d/x'' 0x1C0 sample_fs) = 0" by code_simp
  note k = result_0 [OF this]
  have "short_name ''/d/x''" "(0x1C0 :: mode_t) AND S_IFMT = 0" "S_IFDIR OR 0x1C0 = 0x41C0"
    by code_simp+
  then show ?thesis
    using mkdir_then_getattr [OF reachable_tree_ok [OF sample_reachable] k] k by auto
qed

lemma grown_parse_parent:
  assumes ok: "tree_ok T" and g: "grown T T' p i" and pp: "parse_parent T path = Some r"
  shows "parse_parent T' path = Some r"
  using pp grown_find_by_path [OF ok g]
  by (auto simp: parse_parent_def Let_def split: option.splits if_splits)

text \<open>A second \<^verbatim>\<open>mkdir\<close> or \<^verbatim>\<open>mknod\<close> of a path that was just created fails with
  \<^verbatim>\<open>EEXIST\<close> and changes nothing.\<close>

theorem mkdir_twice:
  assumes ok: "tree_ok (tree s)" and k: "my_fuse_mkdir e path m s = (0, s')"
  shows "my_fuse_mkdir e' path m' s' = (- EEXIST, s') \<and> my_fuse_mknod e' path m' s' = (- EEXIST, s')"
proof -
  obtain i where mk: "make e path (S_IFDIR OR m) (tree s) = Inr (i, tree s')" by (rule mkdir_made [OF k])
  obtain p b where p: "parse_parent (tree s) path = Some (p, b)" "p < length (tree s)" "grown (tree s) (tree s') p i"
    "find_child (tree s') (Some p) b = Some i"
    by (rule make_ok [OF ok mk])
  have "parse_parent (tree s') path = Some (p, b)" by (rule grown_parse_parent [OF ok p(3,1)])
  moreover have "S_ISDIR (mode (attr (tree s' ! p)))" using p(4) by (simp add: find_child_def split: if_splits)
  ultimately have "make e' path x (tree s') = Inl (- EEXIST)" for x using p(4) by (simp add: make_def)
  then show ?thesis by (simp add: mkdir_make mknod_make)
qed

lemma mkdir_twice_witness:
  "\<exists>s'. my_fuse_mkdir all_ok ''/d/x'' 0x1C0 sample_fs = (0, s') \<and>
    my_fuse_mkdir all_ok ''/d/x'' 0x1C0 s' = (- EEXIST, s')"
proof -
  have "fst (my_fuse_mkdir all_ok ''/d/x'' 0x1C0 sample_fs) = 0" by code_simp
  note k = result_0 [OF this]
  show ?thesis using mkdir_twice [OF reachable_tree_ok [OF sample_reachable] k] k by blast
qed

text \<open>C25: An operation that returns an error leaves the file system and the log as they were,
  whatever allocation fails, as long as \<^verbatim>\<open>strdup\<close> succeeds.\<close>

theorem failed_op_unchanged:
  assumes ok: "tree_ok (tree s)" and x: "fs_exec e op s = Some (r, s')" and r: "r < 0" and e: "strdup_ok e"
    and n: "\<forall>path buf n offset fi. op = Write path buf n offset fi \<longrightarrow> unat n < 2 ^ 31"
  shows "s' = s"
proof (cases op)
  case (Write path buf n offset fi)
  have w: "my_fuse_write e path buf n offset fi s = Some (r, s')" using x Write by simp
  have n31: "unat n < 2 ^ 31" using n Write by simp
  from ok w show ?thesis
  proof (cases rule: write_cases)
    case (written i a)
    then show ?thesis using r int_of_size_small [OF n31] by simp
  qed
qed (use x r e in \<open>auto simp: mkdir_make mknod_make my_fuse_create_def symlink_make split: sum.splits prod.splits\<close>)

lemma failed_op_unchanged_witness:
  "\<exists>s'. fs_exec all_ok (Mkdir ''/d'' 0) sample_fs = Some (- EEXIST, s') \<and> s' = sample_fs"
proof -
  have f: "fst (my_fuse_mkdir all_ok ''/d'' 0 sample_fs) = - EEXIST" by code_simp
  then have x: "fs_exec all_ok (Mkdir ''/d'' 0) sample_fs = Some (- EEXIST, snd (my_fuse_mkdir all_ok ''/d'' 0 sample_fs))"
    by (simp add: prod_eq_iff)
  then show ?thesis
    using failed_op_unchanged [OF reachable_tree_ok [OF sample_reachable] x]
    by (simp add: EEXIST_def all_ok_def)
qed

text \<open>After a successful \<^verbatim>\<open>symlink\<close>, \<^verbatim>\<open>readlink\<close> into a buffer of \<open>n\<close> bytes returns the
  first \<open>n - 1\<close> characters of the target.\<close>

theorem symlink_then_readlink:
  assumes ok: "tree_ok (tree s)" and k: "my_fuse_symlink e target path s = (0, s')" and nm: "short_name path"
  shows "my_fuse_readlink path n s' = (0, take (unat n - 1) target)"
proof -
  obtain i T where mk: "make e path (S_IFLNK OR 0x1FF) (tree s) = Inr (i, T)" and t: "tree s' = with_target i target T"
    by (rule symlink_made [OF k])
  obtain p b where new: "grown (tree s) T p i" "T ! i = \<lparr>parent = Some p, children = [],
      attr = \<lparr>iname = b, mode = S_IFLNK OR 0x1FF, nlink = (if S_ISDIR (S_IFLNK OR 0x1FF) then 2 else 1),
              data = [], size_of = 0, link_target = None\<rparr>\<rparr>"
    by (rule make_ok [OF ok mk])
  have i: "i < length T" using new(1) by (simp add: grown_def)
  have "find_by_path T path = Some i" by (rule make_short [OF ok mk nm])
  then have f: "find_by_path (tree s') path = Some i"
    unfolding t with_target_def using i by (subst set_attr_find_by_path) simp_all
  have "S_ISLNK (S_IFLNK OR 0x1FF)" by (simp add: S_ISLNK_def S_IFLNK_def S_IFMT_def)
  then show ?thesis using f t i new(2)
    by (simp add: my_fuse_readlink_def attr_at_def with_target_def snprintf_s_def)
qed

lemma symlink_then_readlink_witness:
  "\<exists>s'. my_fuse_symlink all_ok ''/d/f'' ''/l'' sample_fs = (0, s') \<and>
    my_fuse_readlink ''/l'' 64 s' = (0, ''/d/f'')"
proof -
  have "fst (my_fuse_symlink all_ok ''/d/f'' ''/l'' sample_fs) = 0" by code_simp
  note k = result_0 [OF this]
  have "short_name ''/l''" by code_simp
  then show ?thesis using symlink_then_readlink [OF reachable_tree_ok [OF sample_reachable] k, of 64] k by auto
qed

text \<open>Listing a directory gives the two dot entries and then the names of its entries, without
  repetition; exactly the names the directory's lookup finds.\<close>

theorem readdir_lists:
  assumes ok: "tree_ok (tree s)" and f: "find_by_path (tree s) path = Some d"
    and dir: "S_ISDIR (mode (attr_at s d))"
  shows "\<exists>names. my_fuse_readdir path s = (0, [''.'', ''..''] @ names) \<and> distinct names \<and>
    (\<forall>w. w \<in> set names \<longleftrightarrow> find_child (tree s) (Some d) w \<noteq> None)"
proof -
  have d: "d < length (tree s)" by (rule find_by_path_bound [OF ok f])
  let ?names = "map (\<lambda>c. iname (attr (tree s ! c))) (children (tree s ! d))"
  have "my_fuse_readdir path s = (0, [''.'', ''..''] @ ?names)"
    using f dir by (simp add: my_fuse_readdir_def attr_at_def)
  moreover have "distinct ?names" by (rule tree_okD(3) [OF ok d])
  moreover have "w \<in> set ?names \<longleftrightarrow> find_child (tree s) (Some d) w \<noteq> None" for w
    using find_child_None [of "tree s" d w] dir by (simp add: attr_at_def)
  ultimately show ?thesis by blast
qed

lemma readdir_lists_witness:
  "\<exists>names. my_fuse_readdir ''/d'' sample_fs = (0, [''.'', ''..''] @ names) \<and> distinct names"
proof -
  have "find_by_path (tree sample_fs) ''/d'' = Some 1" "S_ISDIR (mode (attr_at sample_fs 1))" by code_simp+
  then show ?thesis using readdir_lists [OF reachable_tree_ok [OF sample_reachable]] by blast
qed

text \<open>C38: \<^verbatim>\<open>statfs\<close> terminates and counts every regular file of the file system once: the number
  of files and, modulo \<open>2 ^ 64\<close>, the sum of their sizes.\<close>

theorem statfs_counts:
  assumes "tree_ok (tree s)"
  shows "my_fuse_statfs path s = Some (0,
    \<lparr>f_files = of_nat (length (filter (\<lambda>n. S_ISREG (mode (attr n))) (tree s))),
     f_namemax = 255,
     f_blocks = (\<Sum>n \<leftarrow> filter (\<lambda>n. S_ISREG (mode (attr n))) (tree s). size_of (attr n))\<rparr>)"
  using collect_statfs_total [OF assms] by (simp add: my_fuse_statfs_def MAX_NAME_LEN_def)

lemma statfs_counts_witness:
  "my_fuse_statfs ''/'' sample_fs = Some (0, \<lparr>f_files = 1, f_namemax = 255, f_blocks = 3\<rparr>)"
proof -
  have "length (filter (\<lambda>n. S_ISREG (mode (attr n))) (tree sample_fs)) = 1"
    "(\<Sum>n \<leftarrow> filter (\<lambda>n. S_ISREG (mode (attr n))) (tree sample_fs). size_of (attr n)) = 3"
    by code_simp+
  then show ?thesis using statfs_counts [OF reachable_tree_ok [OF sample_reachable], of "''/''"] by simp
qed

subsection \<open>Names and log lines that do not come back\<close>

text \<open>A name longer than 255 characters is silently cut: \<^verbatim>\<open>mkdir\<close> reports success, but the
  path that was created is not found.\<close>

theorem long_name_lost:
  assumes ok: "tree_ok (tree s)" and k: "my_fuse_mkdir e path m s = (0, s')" and nm: "\<not> short_name path"
  shows "my_fuse_getattr path s' = (- ENOENT, \<lparr>st_mode = 0, st_nlink = 0, st_size = 0\<rparr>)"
proof -
  obtain i where mk: "make e path (S_IFDIR OR m) (tree s) = Inr (i, tree s')" by (rule mkdir_made [OF k])
  obtain p b where p: "parse_parent (tree s) path = Some (p, b)" "p < length (tree s)"
    "grown (tree s) (tree s') p i" "tree_ok (tree s')"
    by (rule make_ok [OF ok mk])
  obtain buf rest where r: "snprintf_s 1024 path = buf @ CHR ''/'' # rest" "CHR ''/'' \<notin> set rest" "rest \<noteq> []"
    "b = take MAX_NAME_LEN rest" "resolve (tree s) 0 (components buf) = Some p"
    by (rule parse_parent_Some [OF p(1)])
  have long: "MAX_NAME_LEN < length rest"
    using nm r(1) cut_last_slash_name [OF r(2), of buf] by (simp add: short_name_def)
  have "resolve (tree s') 0 (components buf) = Some p"
    by (rule grown_resolve [OF ok p(3) _ r(5)]) (use ok in \<open>simp add: tree_ok_def\<close>)
  then have f: "find_by_path (tree s') path = find_child (tree s') (Some p) rest"
    by (rule find_by_parent [OF r(1-3)])
  have "find_child (tree s') (Some p) rest = None"
  proof (rule ccontr)
    assume "find_child (tree s') (Some p) rest \<noteq> None"
    then obtain c where c: "find_child (tree s') (Some p) rest = Some c" by auto
    have pb: "p < length (tree s')" using p(2,3) by (simp add: grown_def)
    note cb = find_child_bound [OF p(4) pb c]
    have "name_ok (iname (attr (tree s' ! c)))" using cb by (intro tree_okD(7) [OF p(4)]) simp_all
    then show False using cb(4) long by (simp add: name_ok_def)
  qed
  then show ?thesis using f by (simp add: my_fuse_getattr_def)
qed

definition long_path :: string where
  "long_path = CHR ''/'' # replicate 256 (CHR ''n'')"

lemma long_path_cut: "cut_last_slash (snprintf_s 1024 long_path) = Some ([], replicate 256 (CHR ''n''))"
  using cut_last_slash_name [of "replicate 256 (CHR ''n'')" "[]"] by (simp add: long_path_def snprintf_s_def)

lemma long_name_lost_witness:
  "\<exists>s'. my_fuse_mkdir all_ok long_path 0x1C0 empty_fs = (0, s') \<and> fst (my_fuse_getattr long_path s') = - 2"
proof -
  have "\<not> short_name long_path" by (simp add: short_name_def long_path_cut MAX_NAME_LEN_def)
  moreover have "parse_parent [root] long_path = Some (0, replicate 255 (CHR ''n''))"
    unfolding parse_parent_def long_path_cut by (simp add: MAX_NAME_LEN_def snprintf_s_def)
  then have "fst (my_fuse_mkdir all_ok long_path 0x1C0 empty_fs) = 0"
    by (simp add: mkdir_make make_def empty_fs_def create_inode_def find_child_def root_def all_ok_def
        S_ISDIR_def S_IFDIR_def S_IFMT_def MAX_CHILDREN_def)
  note k = result_0 [OF this]
  ultimately show ?thesis
    using long_name_lost [OF reachable_tree_ok [OF fs_reachable.start] k] k by (auto simp: ENOENT_def)
qed

text \<open>A directory whose path has a blank is lost when the log is replayed: the line
  \<^verbatim>\<open>mkdir\<close> wrote for it is skipped, since \<^verbatim>\<open>%s\<close> stops at the blank and what follows
  is not an octal number.\<close>

theorem blank_path_lost:
  assumes p: "word_ok p" and c: "\<not> is_digit 8 c" "\<not> isspace c" "c \<noteq> CHR ''-''" "c \<noteq> CHR ''+''"
  shows "load_line e (log_line CHR ''M'' (p @ CHR '' '' # c # q) m [] 0 0 []) s = Some s"
proof -
  let ?r = "CHR '' '' # c # q @ '' '' @ print_num 8 (unat m) @ [newline]"
  have "scan_buf (CHR '' '' # p @ ?r) = Some (Some (p, ?r))" using p by (rule scan_buf_word) simp
  moreover have "scan_o ?r = None"
    using c by (simp add: scan_o_def scan_ul_def scan_sign_def scan_digits_def)
  ultimately show ?thesis by (simp add: load_line_def log_line_def load_make_def)
qed

lemma blank_path_lost_witness:
  "load_line all_ok (log_line CHR ''M'' ''/my dir'' 0x1ED [] 0 0 []) empty_fs = Some empty_fs"
  using blank_path_lost [of "''/my''" "CHR ''d''" all_ok "''ir''" "0x1ED" empty_fs]
  by (simp add: word_ok_def isspace_def is_digit_def char_val_def)

text \<open>A write of more than 2048 bytes is logged, but replaying its line writes behind the
  2048-byte buffer of \<^verbatim>\<open>load_log\<close>.\<close>

theorem large_write_overflows:
  assumes p: "word_ok path" and n: "2048 < unat n" "unat n \<le> length buf" and off: "0 \<le> sint offset"
  shows "load_line e (fst (fgets 4096 (log_line CHR ''W'' path 0 buf n offset []))) s = None"
proof -
  let ?hex = "concat (map print_02x (take (unat n) buf))"
  let ?h = "CHR '' '' # path @ '' '' @ print_ld offset @ '' '' @ print_num 10 (unat n) @ '' ''"
  note w = write_numbers(1,2) [OF off] write_numbers(3,4) [OF off, of n] and h = hex_facts [OF n(2)]
  have l: "length ?h \<le> 1066" using p w(1,3) by (simp add: word_ok_def)
  define k where "k = 4095 - (length ?h + 1)"
  have k: "0 < k" "k < length ?hex" using l h(1) n(1) by (simp_all add: k_def)
  have "newline \<notin> set ((CHR ''W'' # ?h) @ ?hex)"
    using p no_newline [of path] w(2,4) h(2) by (auto simp: word_ok_def)
  then have "fst (fgets 4096 (((CHR ''W'' # ?h) @ ?hex) @ newline # [])) = (CHR ''W'' # ?h) @ take (4096 - 1 - length (CHR ''W'' # ?h)) ?hex"
    by (rule fgets_long) (use l h(1) n(1) in simp_all)
  moreover have "log_line CHR ''W'' path 0 buf n offset [] = ((CHR ''W'' # ?h) @ ?hex) @ newline # []"
    by (simp add: log_line_def hex_text [OF n(2)])
  ultimately have f: "fst (fgets 4096 (log_line CHR ''W'' path 0 buf n offset [])) = CHR ''W'' # ?h @ take k ?hex"
    by (simp add: k_def)
  let ?r3 = "CHR '' '' # take k ?hex"
  let ?r2 = "CHR '' '' # print_num 10 (unat n) @ ?r3"
  let ?r1 = "CHR '' '' # print_ld offset @ ?r2"
  have "scan_buf (CHR '' '' # path @ ?r1) = Some (Some (path, ?r1))" using p by (rule scan_buf_word) simp
  moreover have "scan_ld ?r1 = Some (offset, ?r2)" using off by (rule scan_ld_print) simp
  moreover have "scan_ul 10 ?r2 = Some (n, ?r3)"
    using scan_ul_print [of 10 "unat n" ?r3] space_not_digit [of "CHR '' ''" 10] unat_max_64 [of n] by simp
  moreover have "scan_s ?r3 = Some (take k ?hex, [])"
  proof -
    have "0 < length (take k ?hex)" unfolding length_take using k by linarith
    then have "take k ?hex \<noteq> []" by (rule length_greater_0_conv [THEN iffD1])
    moreover have "\<forall>c \<in> set (take k ?hex). \<not> isspace c" using hex_no_space by (meson in_set_takeD)
    ultimately show ?thesis using scan_s_word [of "take k ?hex" "[]"] by simp
  qed
  ultimately show ?thesis using n(1) unfolding f by (simp add: load_line_def load_write_def)
qed

lemma large_write_overflows_witness:
  "load_line all_ok (fst (fgets 4096 (log_line CHR ''W'' ''/f'' 0 (replicate 4096 0) 4096 0 []))) empty_fs = None"
  by (rule large_write_overflows) (simp_all add: word_ok_def isspace_def)

text \<open>The log lies next to the mount point: for a mount path \<^verbatim>\<open>dir/name\<close> it is
  \<^verbatim>\<open>dir/log\<close>. For a mount path without a slash, or with a trailing one, the log path is
  inside the mounted directory itself.\<close>

theorem log_path_place:
  assumes "CHR ''/'' \<notin> set nm" and "length dir + length nm + 1 < 1020"
  shows "init_log_path (dir @ CHR ''/'' # nm) = dir @ ''/log'' \<and>
    init_log_path nm = nm @ ''/log'' \<and> init_log_path (nm @ ''/'') = nm @ ''/log''"
proof -
  have "cut_last_slash nm = None"
    using cut_last_slash_Some(1) [of nm] assms(1) by (cases "cut_last_slash nm") auto
  then have "init_log_path nm = nm @ ''/log''" using assms(2) by (simp add: init_log_path_def snprintf_s_def)
  moreover have "init_log_path (dir @ CHR ''/'' # nm) = dir @ ''/log''"
    using cut_last_slash_name [OF assms(1)] assms(2) by (simp add: init_log_path_def snprintf_s_def)
  moreover have "init_log_path (nm @ ''/'') = nm @ ''/log''"
    using cut_last_slash_name [of "[]" nm] assms(2) by (simp add: init_log_path_def snprintf_s_def)
  ultimately show ?thesis by blast
qed

lemma log_path_place_witness:
  "init_log_path ''/tmp/mnt'' = ''/tmp/log'' \<and> init_log_path ''mnt'' = ''mnt/log''"
  using log_path_place [of "''mnt''" "''/tmp''"] by simp

text \<open>When \<^verbatim>\<open>strdup\<close> fails, \<^verbatim>\<open>symlink\<close> reports \<^verbatim>\<open>ENOMEM\<close> but the link stays in the
  tree, without a target and without a log line: a second attempt fails with \<^verbatim>\<open>EEXIST\<close>.\<close>

theorem symlink_oom_leaves:
  assumes ok: "tree_ok (tree s)" and mk: "make e path (S_IFLNK OR 0x1FF) (tree s) = Inr (i, T)"
    and e: "\<not> strdup_ok e"
  shows "my_fuse_symlink e target path s = (- ENOMEM, s\<lparr>tree := T\<rparr>) \<and> T \<noteq> tree s \<and>
    my_fuse_symlink e' target path (s\<lparr>tree := T\<rparr>) = (- EEXIST, s\<lparr>tree := T\<rparr>)"
proof -
  obtain p b where p: "parse_parent (tree s) path = Some (p, b)" "grown (tree s) T p i"
    "find_child T (Some p) b = Some i"
    by (rule make_ok [OF ok mk])
  have "parse_parent T path = Some (p, b)" by (rule grown_parse_parent [OF ok p(2,1)])
  moreover have "S_ISDIR (mode (attr (T ! p)))" using p(3) by (simp add: find_child_def split: if_splits)
  ultimately have "make e' path (S_IFLNK OR 0x1FF) T = Inl (- EEXIST)" using p(3) by (simp add: make_def)
  moreover have "T \<noteq> tree s" using p(2) by (auto simp: grown_def)
  ultimately show ?thesis using mk e by (simp add: symlink_make)
qed

lemma symlink_oom_leaves_witness:
  "\<exists>T. my_fuse_symlink (all_ok\<lparr>strdup_ok := False\<rparr>) ''/d/f'' ''/l'' sample_fs = (- ENOMEM, sample_fs\<lparr>tree := T\<rparr>) \<and>
    T \<noteq> tree sample_fs"
proof -
  have "(case make (all_ok\<lparr>strdup_ok := False\<rparr>) ''/l'' (S_IFLNK OR 0x1FF) (tree sample_fs) of Inl _ \<Rightarrow> False | Inr _ \<Rightarrow> True)"
    by code_simp
  then obtain i T where mk: "make (all_ok\<lparr>strdup_ok := False\<rparr>) ''/l'' (S_IFLNK OR 0x1FF) (tree sample_fs) = Inr (i, T)"
    by (auto split: sum.splits)
  show ?thesis
    using symlink_oom_leaves [OF reachable_tree_ok [OF sample_reachable] mk] by (intro exI [of _ T]) simp
qed

end
