(* ===== verification/Shell.thy ===== *)
theory Shell
  imports C_Stdio
begin

section \<open>The shell\<close>

text \<open>
  \<^verbatim>\<open>task03-processes\<close>: the execution of pipelines and builtins (\<^verbatim>\<open>src/execute.c\<close>), the main
  loop (\<^verbatim>\<open>src/main.c\<close>) and the argument vectors that the parser builds (\<^verbatim>\<open>parser/parse.y\<close>). A
  pipeline is the list of its commands. What the system calls answer is an argument, \<open>os\<close>. A
  child is described by the descriptors it has after \<^verbatim>\<open>execvp\<close>.
\<close>

record command =
  argv :: "string list"
  input_redir :: "string option"
  output_redir :: "string option"

record pipeline =
  commands :: "command list"
  background :: bool

text \<open>The descriptors a child deals with, by what they are in \<^verbatim>\<open>run_pipeline\<close>, and the objects they
  refer to. A table gives for every open descriptor its object and whether \<^verbatim>\<open>O_CLOEXEC\<close> is set.\<close>

datatype fd = STDIN_FILENO | STDOUT_FILENO | PIPE_READ nat | PIPE_WRITE nat

datatype desc = Shell_in | Shell_out | File_in string | File_out string | Pipe_in nat | Pipe_out nat

type_synonym fd_table = "fd \<Rightarrow> (desc \<times> bool) option"

definition shell_fds :: "nat \<Rightarrow> fd_table" where
  "shell_fds n = (\<lambda>fd. case fd of
       STDIN_FILENO \<Rightarrow> Some (Shell_in, False)
     | STDOUT_FILENO \<Rightarrow> Some (Shell_out, False)
     | PIPE_READ i \<Rightarrow> if i < n then Some (Pipe_in i, True) else None
     | PIPE_WRITE i \<Rightarrow> if i < n then Some (Pipe_out i, True) else None)"

definition dup2 :: "fd \<Rightarrow> fd \<Rightarrow> fd_table \<Rightarrow> fd_table" where
  "dup2 oldfd newfd t = (case t oldfd of None \<Rightarrow> t | Some (d, _) \<Rightarrow> t(newfd \<mapsto> (d, False)))"

text \<open>A process after its \<^verbatim>\<open>execvp\<close>: the descriptors that are left and the arguments.\<close>

record child =
  c_fds :: "fd \<Rightarrow> desc option"
  c_argv :: "string list"

definition execvp :: "string list \<Rightarrow> fd_table \<Rightarrow> child" where
  "execvp args t = \<lparr>c_fds = (\<lambda>fd. case t fd of Some (d, False) \<Rightarrow> Some d | _ \<Rightarrow> None), c_argv = args\<rparr>"

text \<open>A wait status: a normal exit with its code, or the signal that ended the process; \<open>Wfail\<close>
  when \<^verbatim>\<open>waitpid\<close> fails.\<close>

datatype wstatus = Wexit nat | Wsignal nat | Wfail

definition WEXITSTATUS :: "wstatus \<Rightarrow> nat" where
  "WEXITSTATUS s = (case s of Wexit c \<Rightarrow> c mod 256 | _ \<Rightarrow> 0)"

record os =
  pipe_ok :: "nat \<Rightarrow> bool"
  fork_ok :: "nat \<Rightarrow> bool"
  open_r :: "string \<Rightarrow> bool"
  open_w :: "string \<Rightarrow> bool"
  wait_status :: "nat \<Rightarrow> wstatus"

subsection \<open>execute.c\<close>

text \<open>The child number \<open>pcnt\<close> up to its \<^verbatim>\<open>execvp\<close>; \<open>None\<close> when it exits with 1 before.\<close>

definition child_setup :: "os \<Rightarrow> nat \<Rightarrow> command \<Rightarrow> bool \<Rightarrow> child option" where
  "child_setup os pcnt cmd has_next = do {
     let t = shell_fds (Suc pcnt);
     t \<leftarrow> (case input_redir cmd of
            Some f \<Rightarrow> if open_r os f then Some (t(STDIN_FILENO \<mapsto> (File_in f, False))) else None
          | None \<Rightarrow> Some (if pcnt \<noteq> 0 then dup2 (PIPE_READ (pcnt - 1)) STDIN_FILENO t else t));
     t \<leftarrow> (case output_redir cmd of
            Some f \<Rightarrow> if open_w os f then Some (t(STDOUT_FILENO \<mapsto> (File_out f, False))) else None
          | None \<Rightarrow> Some (if has_next then dup2 (PIPE_WRITE pcnt) STDOUT_FILENO t else t));
     Some (execvp (argv cmd) t)
   }"

text \<open>The loop that starts the children. The result is the value of an early return if any, the
  children, and the pipes whose two ends the shell has open. The arrays have 1024 entries: \<open>None\<close>
  is a write behind them.\<close>

fun spawn_loop ::
  "os \<Rightarrow> command list \<Rightarrow> child option list \<Rightarrow> (int option \<times> child option list \<times> nat list) option" where
  "spawn_loop os [] kids = Some (None, kids, [0..<length kids])"
| "spawn_loop os (cmd # cmds) kids =
     (let pcnt = length kids in
      if 1024 \<le> pcnt then None
      else if \<not> pipe_ok os pcnt then Some (Some 1, kids, [0..<pcnt])
      else if \<not> fork_ok os pcnt then Some (Some 1, kids, [0..<Suc pcnt])
      else spawn_loop os cmds (kids @ [child_setup os pcnt cmd (cmds \<noteq> [])]))"

text \<open>How a child ends: it exits with 1 when its set-up fails, otherwise as the system says (also with
  1 when \<^verbatim>\<open>execvp\<close> fails).\<close>

definition child_status :: "os \<Rightarrow> child option list \<Rightarrow> nat \<Rightarrow> wstatus" where
  "child_status os kids i = (if kids ! i = None then Wexit 1 else wait_status os i)"

text \<open>Waiting for the children from number \<open>i\<close> on, with what \<^verbatim>\<open>waitpid\<close> says of each: the return value
  and how many were waited for.\<close>

fun wait_loop :: "wstatus list \<Rightarrow> nat \<Rightarrow> int \<times> nat" where
  "wait_loop [] i = (0, i)"
| "wait_loop (status # ss) i =
     (if status = Wfail \<or> WEXITSTATUS status \<noteq> 0 then (1, Suc i) else wait_loop ss (Suc i))"

record pipeline_result =
  ret :: int
  kids :: "child option list"
  held :: "nat list"
  waited :: nat

definition run_pipeline :: "os \<Rightarrow> pipeline \<Rightarrow> pipeline_result option" where
  "run_pipeline os p =
     (if commands p = [] \<or> argv (hd (commands p)) = []
      then Some \<lparr>ret = 0, kids = [], held = [], waited = 0\<rparr>
      else
        case spawn_loop os (commands p) [] of
          None \<Rightarrow> None
        | Some (Some r, cs, ps) \<Rightarrow> Some \<lparr>ret = r, kids = cs, held = ps, waited = 0\<rparr>
        | Some (None, cs, ps) \<Rightarrow>
            if background p then Some \<lparr>ret = 0, kids = cs, held = [], waited = 0\<rparr>
            else (case wait_loop (map (child_status os cs) [0..<length cs]) 0 of (r, w) \<Rightarrow>
              Some \<lparr>ret = r, kids = cs, held = [], waited = w\<rparr>))"

datatype builtin_type = BUILTIN_NONE | BUILTIN_EXIT | BUILTIN_WAIT | BUILTIN_KILL

text \<open>What a builtin does: it ends the shell, or calls \<^verbatim>\<open>waitpid\<close> or \<^verbatim>\<open>kill\<close>, or neither, and returns.
  \<open>ok\<close> says for a process number whether the call succeeds.\<close>

datatype action = Exits int32 | Waits int32 int | Kills int32 int | Returns int

definition run_builtin :: "(int32 \<Rightarrow> bool) \<Rightarrow> builtin_type \<Rightarrow> string option \<Rightarrow> action" where
  "run_builtin ok builtin builtin_arg =
     (case builtin of
        BUILTIN_EXIT \<Rightarrow> Exits (case builtin_arg of None \<Rightarrow> 0 | Some a \<Rightarrow> atoi a)
      | BUILTIN_WAIT \<Rightarrow>
          (let pid = (case builtin_arg of None \<Rightarrow> - 1 | Some a \<Rightarrow> atoi a) in
           Waits pid (if ok pid then 0 else 1))
      | BUILTIN_KILL \<Rightarrow>
          (case builtin_arg of
             None \<Rightarrow> Returns 1
           | Some a \<Rightarrow>
               if a = [] \<or> \<not> is_digit 10 (hd a) then Returns 1
               else let pid = atoi a in Kills pid (if ok pid then 0 else 1))
      | BUILTIN_NONE \<Rightarrow> Returns 1)"

subsection \<open>main.c\<close>

fun check_consistency :: "command list \<Rightarrow> bool" where
  "check_consistency [] = True"
| "check_consistency (c # cs) =
     (let rest = check_consistency cs in if output_redir c \<noteq> None \<and> cs \<noteq> [] then False else rest)"

text \<open>Freeing sets the freed pointers to NULL; the commands after the first are freed themselves. The
  strings that a pipeline holds are those of its commands.\<close>

definition free_command_args :: "command \<Rightarrow> command" where
  "free_command_args c = c\<lparr>argv := [], input_redir := None, output_redir := None\<rparr>"

definition free_pipeline_cmds :: "pipeline \<Rightarrow> pipeline" where
  "free_pipeline_cmds p = p\<lparr>commands := map free_command_args (take 1 (commands p))\<rparr>"

definition strings_of :: "pipeline \<Rightarrow> string list" where
  "strings_of p = concat (map (\<lambda>c. argv c @ (case input_redir c of None \<Rightarrow> [] | Some f \<Rightarrow> [f])
     @ (case output_redir c of None \<Rightarrow> [] | Some f \<Rightarrow> [f])) (commands p))"

text \<open>What \<^verbatim>\<open>yyparse\<close> leaves behind for one line.\<close>

record parsed =
  eof :: bool
  builtin :: builtin_type
  builtin_arg :: "string option"
  current_pipeline :: pipeline

text \<open>The shell: its last status and the strings it no longer refers to and has not freed. One round of the main
  loop ends the shell with a status (\<open>Inl\<close>) or goes on; \<open>None\<close> is an overflow in \<^verbatim>\<open>run_pipeline\<close>.\<close>

record shell =
  last_status :: int
  unfreed :: "string list"

definition shell_round :: "os \<Rightarrow> (int32 \<Rightarrow> bool) \<Rightarrow> parsed \<Rightarrow> shell \<Rightarrow> (int + shell) option" where
  "shell_round os ok p s =
     (if eof p then Some (Inl (last_status s))
      else if builtin p \<noteq> BUILTIN_NONE
      then Some (case run_builtin ok (builtin p) (builtin_arg p) of
             Exits c \<Rightarrow> Inl (sint c)
           | Waits _ r \<Rightarrow> Inr (s\<lparr>last_status := r\<rparr>)
           | Kills _ r \<Rightarrow> Inr (s\<lparr>last_status := r\<rparr>)
           | Returns r \<Rightarrow> Inr (s\<lparr>last_status := r\<rparr>))
      else
        let pl = current_pipeline p in
        if check_consistency (commands pl)
        then (if commands pl \<noteq> [] \<and> argv (hd (commands pl)) \<noteq> []
              then map_option (\<lambda>r. Inr (s\<lparr>last_status := ret r, unfreed := unfreed s @ strings_of (free_pipeline_cmds pl)\<rparr>)) (run_pipeline os pl)
              else Some (Inr (s\<lparr>unfreed := unfreed s @ strings_of pl\<rparr>)))
        else Some (Inr (s\<lparr>unfreed := unfreed s @ strings_of pl\<rparr>)))"

subsection \<open>parse.y: argument vectors\<close>

text \<open>The array \<^verbatim>\<open>argv\<close> with its capacity; \<open>None\<close> is a store outside it. Allocations succeed.\<close>

record arg_vec =
  cells :: "string option list"
  argc :: nat

definition append_argv :: "string \<Rightarrow> arg_vec \<Rightarrow> arg_vec option" where
  "append_argv new_val c =
     (let c = (if cells c = [] then c\<lparr>cells := replicate 8 None\<rparr> else c);
          c = (if length (cells c) < argc c + 1 then c\<lparr>cells := cells c @ replicate (length (cells c)) None\<rparr> else c) in
      if length (cells c) \<le> argc c then None
      else
        let c = c\<lparr>cells := (cells c)[argc c := Some (c_str new_val)], argc := argc c + 1\<rparr> in
        if length (cells c) \<le> argc c then None
        else Some (c\<lparr>cells := (cells c)[argc c := None]\<rparr>))"

fun append_all :: "string list \<Rightarrow> arg_vec \<Rightarrow> arg_vec option" where
  "append_all [] c = Some c"
| "append_all (w # ws) c = (case append_argv w c of None \<Rightarrow> None | Some c \<Rightarrow> append_all ws c)"

subsection \<open>What the loops do\<close>

lemma spawn_loop_all:
  assumes "\<forall>i. pipe_ok os i \<and> fork_ok os i"
  shows "length ks + length cmds \<le> 1024 \<Longrightarrow>
    spawn_loop os cmds ks = Some (None, ks @ map (\<lambda>i. child_setup os (length ks + i) (cmds ! i) (Suc i < length cmds)) [0..<length cmds],
      [0..<length ks + length cmds])"
proof (induction cmds arbitrary: ks)
  case (Cons c cs)
  let ?k = "child_setup os (length ks) c (cs \<noteq> [])"
  have u: "[0..<length (c # cs)] = 0 # map Suc [0..<length cs]" by (simp add: upt_conv_Cons map_Suc_upt del: upt_Suc)
  have "spawn_loop os cs (ks @ [?k]) = Some (None, (ks @ [?k]) @ map (\<lambda>i. child_setup os (length (ks @ [?k]) + i) (cs ! i) (Suc i < length cs)) [0..<length cs],
      [0..<length (ks @ [?k]) + length cs])"
    using Cons.prems by (intro Cons.IH) simp
  then show ?case using Cons.prems assms unfolding u by (simp add: Let_def comp_def)
qed simp

definition wait_ok :: "wstatus \<Rightarrow> bool" where
  "wait_ok s \<longleftrightarrow> s \<noteq> Wfail \<and> WEXITSTATUS s = 0"

lemma wait_fails: "s = Wfail \<or> WEXITSTATUS s \<noteq> 0 \<longleftrightarrow> \<not> wait_ok s"
  by (auto simp: wait_ok_def)

lemma wait_loop_takeWhile:
  "wait_loop ss i =
    (if list_all wait_ok ss then (0, i + length ss) else (1, Suc (i + length (takeWhile wait_ok ss))))"
  by (induction ss i rule: wait_loop.induct) (simp_all only: wait_loop.simps wait_fails, auto)

lemma spawn_loop_stops:
  assumes "\<forall>i<n. pipe_ok os i \<and> fork_ok os i" "\<not> (pipe_ok os n \<and> fork_ok os n)"
  shows "length ks \<le> n \<Longrightarrow> n < length ks + length cmds \<Longrightarrow> n < 1024 \<Longrightarrow>
    \<exists>cs. spawn_loop os cmds ks = Some (Some 1, cs, [0..<if pipe_ok os n then Suc n else n]) \<and> length cs = n"
proof (induction cmds arbitrary: ks)
  case (Cons c cs)
  show ?case
  proof (cases "length ks = n")
    case True
    then show ?thesis using Cons.prems assms(2) by (auto simp: Let_def)
  next
    case False
    then show ?thesis using Cons.prems assms(1) Cons.IH [of "ks @ [child_setup os (length ks) c (cs \<noteq> [])]"]
      by (auto simp: Let_def)
  qed
qed simp

lemma append_argv_word:
  "argc c < 7 \<Longrightarrow> cells c = [] \<and> argc c = 0 \<or> length (cells c) = 8 \<Longrightarrow>
    \<exists>d. append_argv w c = Some d \<and> argc d = Suc (argc c) \<and> length (cells d) = 8 \<and>
      take (argc d) (cells d) = take (argc c) (cells c) @ [Some (c_str w)] \<and> cells d ! argc d = None"
  by (auto simp: append_argv_def Let_def take_Suc_conv_app_nth)

lemma append_argv_full: "argc c = 7 \<Longrightarrow> length (cells c) = 8 \<Longrightarrow> append_argv w c = None"
  by (simp add: append_argv_def)

lemma append_all_words:
  "argc c + length ws < 8 \<Longrightarrow> cells c = [] \<and> argc c = 0 \<or> length (cells c) = 8 \<and> cells c ! argc c = None \<Longrightarrow> ws \<noteq> [] \<Longrightarrow>
    \<exists>d. append_all ws c = Some d \<and> argc d = argc c + length ws \<and> length (cells d) = 8 \<and>
      take (argc d) (cells d) = take (argc c) (cells c) @ map (\<lambda>w. Some (c_str w)) ws \<and> cells d ! argc d = None"
proof (induction ws arbitrary: c)
  case (Cons w ws)
  obtain d where d: "append_argv w c = Some d" "argc d = Suc (argc c)" "length (cells d) = 8"
      "take (argc d) (cells d) = take (argc c) (cells c) @ [Some (c_str w)]" "cells d ! argc d = None"
    using Cons.prems append_argv_word [of c w] by auto
  show ?case
  proof (cases "ws = []")
    case False
    then show ?thesis using Cons.IH [of d] Cons.prems d by auto
  qed (use d in simp)
qed simp

lemma append_all_overflow:
  "argc c < 8 \<Longrightarrow> 8 \<le> argc c + length ws \<Longrightarrow> cells c = [] \<and> argc c = 0 \<or> length (cells c) = 8 \<Longrightarrow> append_all ws c = None"
proof (induction ws arbitrary: c)
  case (Cons w ws)
  show ?case
  proof (cases "argc c = 7")
    case True
    then show ?thesis using Cons.prems append_argv_full [of c w] by auto
  next
    case False
    then obtain d where "append_argv w c = Some d" "argc d = Suc (argc c)" "length (cells d) = 8"
      using Cons.prems append_argv_word [of c w] by auto
    then show ?thesis using Cons False by auto
  qed
qed simp

lemma child_setup_fds:
  "child_setup os pcnt cmd has_next =
    (if (\<exists>f. input_redir cmd = Some f \<and> \<not> open_r os f) \<or> (\<exists>f. output_redir cmd = Some f \<and> \<not> open_w os f) then None
     else Some \<lparr>c_fds = [STDIN_FILENO \<mapsto> (case input_redir cmd of Some f \<Rightarrow> File_in f
                                         | None \<Rightarrow> if pcnt \<noteq> 0 then Pipe_in (pcnt - 1) else Shell_in),
                        STDOUT_FILENO \<mapsto> (case output_redir cmd of Some f \<Rightarrow> File_out f
                                         | None \<Rightarrow> if has_next then Pipe_out pcnt else Shell_out)],
                c_argv = argv cmd\<rparr>)"
  by (auto simp: child_setup_def execvp_def dup2_def shell_fds_def Let_def fun_eq_iff
      split: option.split fd.split if_splits)

lemma strings_of_freed [simp]: "strings_of (free_pipeline_cmds p) = []"
  by (cases "commands p") (auto simp: strings_of_def free_pipeline_cmds_def free_command_args_def)

end
