(* ===== verification/Shell_Properties.thy ===== *)
theory Shell_Properties
  imports Shell
begin

section \<open>Properties of the shell\<close>

text \<open>
  How the children of a pipeline are connected, what a pipeline returns and waits for, and what
  happens on the error paths. \<open>runnable\<close> collects what a pipeline needs to be started.
\<close>

definition runnable :: "os \<Rightarrow> pipeline \<Rightarrow> bool" where
  "runnable os p \<longleftrightarrow> commands p \<noteq> [] \<and> argv (hd (commands p)) \<noteq> [] \<and> length (commands p) \<le> 1024 \<and>
     (\<forall>i. pipe_ok os i \<and> fork_ok os i)"

definition opens :: "os \<Rightarrow> command \<Rightarrow> bool" where
  "opens os c \<longleftrightarrow> (\<forall>f. input_redir c = Some f \<longrightarrow> open_r os f) \<and> (\<forall>f. output_redir c = Some f \<longrightarrow> open_w os f)"

definition started :: "os \<Rightarrow> pipeline \<Rightarrow> child option list" where
  "started os p = map (\<lambda>i. child_setup os i (commands p ! i) (Suc i < length (commands p))) [0..<length (commands p)]"

lemma started_nth:
  "i < length (commands p) \<Longrightarrow> started os p ! i = child_setup os i (commands p ! i) (Suc i < length (commands p))"
  by (simp add: started_def)

lemma run_pipeline_runnable:
  assumes "runnable os p"
  shows "run_pipeline os p = Some (if background p then \<lparr>ret = 0, kids = started os p, held = [], waited = 0\<rparr>
    else case wait_loop (map (child_status os (started os p)) [0..<length (commands p)]) 0 of (r, w) \<Rightarrow>
      \<lparr>ret = r, kids = started os p, held = [], waited = w\<rparr>)"
  using assms spawn_loop_all [of os "[]" "commands p"]
  by (auto simp: runnable_def run_pipeline_def started_def split: prod.split)

lemma list_all_upt: "list_all P (map f [0..<n]) \<longleftrightarrow> (\<forall>i<n. P (f i))"
  by (auto simp: list_all_iff)

lemma child_setup_opens:
  "opens os cmd \<Longrightarrow> child_setup os i cmd has_next \<noteq> None"
  by (auto simp: child_setup_fds opens_def)

lemma child_std:
  assumes "child_setup os i cmd has_next = Some k"
  shows "c_argv k = argv cmd"
    "c_fds k STDIN_FILENO = Some (case input_redir cmd of Some f \<Rightarrow> File_in f | None \<Rightarrow> if i = 0 then Shell_in else Pipe_in (i - 1))"
    "c_fds k STDOUT_FILENO = Some (case output_redir cmd of Some f \<Rightarrow> File_out f | None \<Rightarrow> if has_next then Pipe_out i else Shell_out)"
  using assms by (auto simp: child_setup_fds split: if_splits option.splits)

lemma child_pipe_end:
  "child_setup os i cmd has_next = Some k \<Longrightarrow>
    (c_fds k fd = Some (Pipe_out n) \<longrightarrow> n = i \<and> has_next \<and> output_redir cmd = None) \<and>
    (c_fds k fd = Some (Pipe_in n) \<longrightarrow> Suc n = i \<and> input_redir cmd = None)"
  by (auto simp: child_setup_fds split: if_splits option.splits)

text \<open>
  C11: The processes of a pipeline are connected as the command line says: child \<open>i\<close> runs the
  arguments of command \<open>i\<close>; its standard input is its input file if it has one, else the pipe that
  child \<open>i - 1\<close> writes, or the shell's for the first; its standard output is its output file, else
  the pipe that child \<open>i + 1\<close> reads, or the shell's for the last. It has no other of these
  descriptors open, and the shell keeps none of the pipes, so a pipe has one writer and one reader
  and its reader sees the end of the data when its writer ends.
\<close>

theorem pipeline_wiring:
  assumes run: "runnable os p" and opens: "\<forall>c\<in>set (commands p). opens os c"
  shows "\<exists>r. run_pipeline os p = Some r \<and> held r = [] \<and> length (kids r) = length (commands p) \<and>
    (\<forall>i<length (commands p). \<exists>k. kids r ! i = Some k \<and> c_argv k = argv (commands p ! i) \<and>
       c_fds k STDIN_FILENO = Some (case input_redir (commands p ! i) of Some f \<Rightarrow> File_in f
         | None \<Rightarrow> if i = 0 then Shell_in else Pipe_in (i - 1)) \<and>
       c_fds k STDOUT_FILENO = Some (case output_redir (commands p ! i) of Some f \<Rightarrow> File_out f
         | None \<Rightarrow> if Suc i = length (commands p) then Shell_out else Pipe_out i) \<and>
       (\<forall>j fd. c_fds k fd = Some (Pipe_out j) \<longrightarrow> j = i \<and> Suc j < length (commands p)) \<and>
       (\<forall>j fd. c_fds k fd = Some (Pipe_in j) \<longrightarrow> Suc j = i))"
proof -
  obtain r where r: "run_pipeline os p = Some r" "held r = []" "kids r = started os p"
    using run_pipeline_runnable [OF run] by (auto split: if_splits prod.splits)
  have kid: "\<exists>k. kids r ! i = Some k \<and> child_setup os i (commands p ! i) (Suc i < length (commands p)) = Some k"
    if "i < length (commands p)" for i
    using that opens child_setup_opens [of os "commands p ! i"] unfolding r(3) by (auto simp: started_nth)
  have "\<exists>k. kids r ! i = Some k \<and> c_argv k = argv (commands p ! i) \<and>
       c_fds k STDIN_FILENO = Some (case input_redir (commands p ! i) of Some f \<Rightarrow> File_in f
         | None \<Rightarrow> if i = 0 then Shell_in else Pipe_in (i - 1)) \<and>
       c_fds k STDOUT_FILENO = Some (case output_redir (commands p ! i) of Some f \<Rightarrow> File_out f
         | None \<Rightarrow> if Suc i = length (commands p) then Shell_out else Pipe_out i) \<and>
       (\<forall>j fd. c_fds k fd = Some (Pipe_out j) \<longrightarrow> j = i \<and> Suc j < length (commands p)) \<and>
       (\<forall>j fd. c_fds k fd = Some (Pipe_in j) \<longrightarrow> Suc j = i)"
    if i: "i < length (commands p)" for i
  proof -
    obtain k where k: "kids r ! i = Some k" "child_setup os i (commands p ! i) (Suc i < length (commands p)) = Some k"
      using kid [OF i] by blast
    show ?thesis
    proof (intro exI conjI)
      show "c_fds k STDOUT_FILENO = Some (case output_redir (commands p ! i) of Some f \<Rightarrow> File_out f
          | None \<Rightarrow> if Suc i = length (commands p) then Shell_out else Pipe_out i)"
        using child_std(3) [OF k(2)] i by (simp add: not_less_eq less_Suc_eq cong: if_cong split: option.split)
    qed (use k(1) child_std(1,2) [OF k(2)] child_pipe_end [OF k(2)] in blast)+
  qed
  moreover have "length (kids r) = length (commands p)" using r(3) by (simp add: started_def)
  ultimately show ?thesis using r by blast
qed

definition plain_os :: os where
  "plain_os = \<lparr>pipe_ok = (\<lambda>_. True), fork_ok = (\<lambda>_. True), open_r = (\<lambda>_. True), open_w = (\<lambda>_. True),
     wait_status = (\<lambda>_. Wexit 0)\<rparr>"

definition cat_wc :: "bool \<Rightarrow> pipeline" where
  "cat_wc bg = \<lparr>commands = [\<lparr>argv = [''cat''], input_redir = Some ''f'', output_redir = None\<rparr>,
     \<lparr>argv = [''wc'', ''-l''], input_redir = None, output_redir = None\<rparr>], background = bg\<rparr>"

theorem pipeline_wiring_witness:
  "\<exists>r k0 k1. run_pipeline plain_os (cat_wc False) = Some r \<and> kids r ! 0 = Some k0 \<and> kids r ! 1 = Some k1 \<and>
    c_fds k0 STDIN_FILENO = Some (File_in ''f'') \<and> c_fds k0 STDOUT_FILENO = Some (Pipe_out 0) \<and>
    c_fds k1 STDIN_FILENO = Some (Pipe_in 0) \<and> c_fds k1 STDOUT_FILENO = Some Shell_out"
proof -
  let ?p = "cat_wc False"
  have run: "runnable plain_os ?p" by (simp add: runnable_def cat_wc_def plain_os_def)
  have opens: "\<forall>c\<in>set (commands ?p). opens plain_os c" by (simp add: opens_def cat_wc_def plain_os_def)
  obtain r where r: "run_pipeline plain_os ?p = Some r" and
    k: "\<forall>i<length (commands ?p). \<exists>k. kids r ! i = Some k \<and>
       c_fds k STDIN_FILENO = Some (case input_redir (commands ?p ! i) of Some f \<Rightarrow> File_in f
         | None \<Rightarrow> if i = 0 then Shell_in else Pipe_in (i - 1)) \<and>
       c_fds k STDOUT_FILENO = Some (case output_redir (commands ?p ! i) of Some f \<Rightarrow> File_out f
         | None \<Rightarrow> if Suc i = length (commands ?p) then Shell_out else Pipe_out i)"
    using pipeline_wiring [OF run opens] by blast
  show ?thesis using r k [rule_format, of 0] k [rule_format, of 1] by (auto simp: cat_wc_def)
qed

text \<open>
  C31: A background pipeline returns 0 and waits for nobody. A foreground pipeline returns 0 exactly
  when every child was waited for and ended well; a child whose redirection cannot be opened counts
  as failed. Otherwise it returns 1 at the first failed child and the children behind it are not
  waited for, although the README promises to block until all of them terminate.
\<close>

theorem pipeline_status:
  assumes run: "runnable os p"
  shows "\<exists>r. run_pipeline os p = Some r \<and>
    (background p \<longrightarrow> ret r = 0 \<and> waited r = 0) \<and>
    (\<not> background p \<longrightarrow>
       (ret r = 0 \<longleftrightarrow> (\<forall>i<length (commands p). opens os (commands p ! i) \<and> wait_ok (wait_status os i))) \<and>
       (ret r = 0 \<longrightarrow> waited r = length (commands p)) \<and>
       (ret r \<noteq> 0 \<longrightarrow> ret r = 1 \<and> waited r \<noteq> 0 \<and>
          (\<forall>i<waited r - 1. wait_ok (child_status os (kids r) i)) \<and>
          \<not> wait_ok (child_status os (kids r) (waited r - 1))))"
proof -
  let ?n = "length (commands p)"
  let ?ss = "map (child_status os (started os p)) [0..<?n]"
  let ?k = "length (takeWhile wait_ok ?ss)"
  have ok: "wait_ok (child_status os (started os p) i) \<longleftrightarrow> opens os (commands p ! i) \<and> wait_ok (wait_status os i)"
    if "i < ?n" for i
    using that by (auto simp: child_status_def started_nth child_setup_fds opens_def wait_ok_def WEXITSTATUS_def)
  have all: "list_all wait_ok ?ss \<longleftrightarrow> (\<forall>i<?n. opens os (commands p ! i) \<and> wait_ok (wait_status os i))"
    unfolding list_all_upt using ok by blast
  have fail: "?k < ?n" "\<not> wait_ok (child_status os (started os p) ?k)" if "\<not> list_all wait_ok ?ss"
  proof -
    show "?k < ?n" using that takeWhile_eq_all_conv [of wait_ok ?ss] length_takeWhile_le [of wait_ok ?ss]
        takeWhile_eq_take [of wait_ok ?ss] by (auto simp: list_all_iff less_le)
    then show "\<not> wait_ok (child_status os (started os p) ?k)" using nth_length_takeWhile [of wait_ok ?ss] by simp
  qed
  have before: "wait_ok (child_status os (started os p) i)" if "i < ?k" for i
  proof -
    have "i < ?n" using that length_takeWhile_le [of wait_ok ?ss] by simp
    moreover have "wait_ok (?ss ! i)" using that takeWhile_nth [of i wait_ok ?ss] nth_mem [of i "takeWhile wait_ok ?ss"]
      by (metis set_takeWhileD)
    ultimately show ?thesis by simp
  qed
  show ?thesis
    unfolding run_pipeline_runnable [OF run] wait_loop_takeWhile
    using all fail before by (auto split: if_splits)
qed

theorem pipeline_status_witness:
  "\<exists>r. run_pipeline (plain_os\<lparr>wait_status := (\<lambda>i. Wexit (1 - i))\<rparr>) (cat_wc False) = Some r \<and> ret r = 1"
proof -
  let ?os = "plain_os\<lparr>wait_status := (\<lambda>i. Wexit (1 - i))\<rparr>"
  have "runnable ?os (cat_wc False)" by (simp add: runnable_def cat_wc_def plain_os_def)
  from pipeline_status [OF this] obtain r where r: "run_pipeline ?os (cat_wc False) = Some r"
    "ret r = 0 \<longleftrightarrow> (\<forall>i<length (commands (cat_wc False)). opens ?os (commands (cat_wc False) ! i) \<and> wait_ok (wait_status ?os i))"
    "ret r \<noteq> 0 \<longrightarrow> ret r = 1"
    by (auto simp: cat_wc_def)
  have "\<not> wait_ok (wait_status ?os 0)" by (simp add: wait_ok_def WEXITSTATUS_def)
  then have "ret r \<noteq> 0" using r(2) by (auto simp: cat_wc_def)
  then show ?thesis using r by blast
qed

text \<open>
  The exit status of a pipeline ignores signals: when all children were killed, the pipeline
  has returned 0, as if all had succeeded.
\<close>

theorem killed_pipeline_succeeds:
  assumes run: "runnable os p" and opens: "\<forall>c\<in>set (commands p). opens os c" and
    killed: "\<forall>i<length (commands p). \<exists>sig. wait_status os i = Wsignal sig"
  shows "\<exists>r. run_pipeline os p = Some r \<and> ret r = 0"
proof -
  let ?ss = "map (child_status os (started os p)) [0..<length (commands p)]"
  have "wait_ok (child_status os (started os p) i)" if "i < length (commands p)" for i
    using that killed opens child_setup_opens [of os "commands p ! i"]
    by (auto simp: child_status_def started_nth wait_ok_def WEXITSTATUS_def)
  then have "list_all wait_ok ?ss" by (simp add: list_all_upt)
  then show ?thesis unfolding run_pipeline_runnable [OF run] wait_loop_takeWhile by simp
qed

theorem killed_pipeline_succeeds_witness:
  "\<exists>r. run_pipeline (plain_os\<lparr>wait_status := (\<lambda>_. Wsignal 9)\<rparr>) (cat_wc False) = Some r \<and> ret r = 0"
  by (rule killed_pipeline_succeeds) (auto simp: runnable_def opens_def cat_wc_def plain_os_def)

text \<open>
  When a pipe or a process cannot be created for command \<open>n\<close>, the pipeline returns 1 at once:
  the \<open>n\<close> children that run are not waited for, and both ends of their pipes (and of the last one,
  when only the fork failed) stay open in the shell.
\<close>

theorem failed_start_leaks:
  assumes "commands p \<noteq> []" "argv (hd (commands p)) \<noteq> []" "n < length (commands p)" "n < 1024"
    "\<forall>i<n. pipe_ok os i \<and> fork_ok os i" "\<not> (pipe_ok os n \<and> fork_ok os n)"
  shows "\<exists>r. run_pipeline os p = Some r \<and> ret r = 1 \<and> length (kids r) = n \<and> waited r = 0 \<and>
    held r = [0..<if pipe_ok os n then Suc n else n]"
  using spawn_loop_stops [OF assms(5,6), of "[]" "commands p"] assms(1-4)
  by (auto simp: run_pipeline_def simp del: upt_Suc)

theorem failed_start_leaks_witness:
  "\<exists>r. run_pipeline (plain_os\<lparr>fork_ok := (\<lambda>i. i \<noteq> 1)\<rparr>) (cat_wc False) = Some r \<and> ret r = 1 \<and> length (kids r) = 1 \<and>
    held r = [0, 1]"
  using failed_start_leaks [of "cat_wc False" 1 "plain_os\<lparr>fork_ok := (\<lambda>i. i \<noteq> 1)\<rparr>"]
  by (auto simp: cat_wc_def plain_os_def upt_rec)

text \<open>
  C32: The argument vector of a command holds its words in order and a NULL behind them for commands
  of one to seven words. The eighth word fills the array of eight cells without a growth, and the
  NULL is stored behind its end.
\<close>

theorem argv_words:
  assumes "ws \<noteq> []"
  shows "if length ws < 8
     then \<exists>c. append_all ws \<lparr>cells = [], argc = 0\<rparr> = Some c \<and> argc c = length ws \<and>
       take (argc c) (cells c) = map (\<lambda>w. Some (c_str w)) ws \<and> argc c < length (cells c) \<and> cells c ! argc c = None
     else append_all ws \<lparr>cells = [], argc = 0\<rparr> = None"
  using append_all_words [of "\<lparr>cells = [], argc = 0\<rparr>" ws] append_all_overflow [of "\<lparr>cells = [], argc = 0\<rparr>" ws] assms
  by auto

theorem argv_words_witness:
  "append_all (replicate 8 ''x'') \<lparr>cells = [], argc = 0\<rparr> = None"
  using argv_words [of "replicate 8 ''x''"] by (simp add: numeral_eq_Suc)

text \<open>
  One line that is not the last and no builtin: a pipeline with an output redirection in front of
  a pipe is not run, keeps the last status and loses its strings; any other runs, sets the last
  status to what it returned, and its strings are freed.
\<close>

theorem shell_round_pipeline:
  assumes "\<not> eof l" "builtin l = BUILTIN_NONE" "current_pipeline l = pl" "runnable os pl"
  shows "if \<exists>i. Suc i < length (commands pl) \<and> output_redir (commands pl ! i) \<noteq> None
    then shell_round os ok l s = Some (Inr (s\<lparr>unfreed := unfreed s @ strings_of pl\<rparr>))
    else \<exists>r. run_pipeline os pl = Some r \<and> shell_round os ok l s = Some (Inr (s\<lparr>last_status := ret r\<rparr>))"
proof -
  have cons: "check_consistency cs \<longleftrightarrow> \<not> (\<exists>i. Suc i < length cs \<and> output_redir (cs ! i) \<noteq> None)" for cs
  proof (induction cs)
    case (Cons c cs)
    have "(\<exists>i. Suc i < length (c # cs) \<and> output_redir ((c # cs) ! i) \<noteq> None) \<longleftrightarrow>
        (cs \<noteq> [] \<and> output_redir c \<noteq> None) \<or> (\<exists>i. Suc i < length cs \<and> output_redir (cs ! i) \<noteq> None)"
      by (auto simp: nth_Cons' gr0_conv_Suc split: if_splits intro: exI [of _ 0] exI [of _ "Suc _"])
    then show ?case using Cons by (auto simp: Let_def)
  qed simp
  obtain r where "run_pipeline os pl = Some r" using run_pipeline_runnable [OF assms(4)] by blast
  then show ?thesis using assms cons [of "commands pl"] by (auto simp: shell_round_def Let_def runnable_def)
qed

theorem shell_round_pipeline_witness:
  "shell_round plain_os (\<lambda>_. True) \<lparr>eof = False, builtin = BUILTIN_NONE, builtin_arg = None, current_pipeline =
      \<lparr>commands = [\<lparr>argv = [''a''], input_redir = None, output_redir = Some ''f''\<rparr>,
        \<lparr>argv = [''b''], input_redir = None, output_redir = None\<rparr>], background = False\<rparr>\<rparr> \<lparr>last_status = 0, unfreed = []\<rparr>
   = Some (Inr \<lparr>last_status = 0, unfreed = [''a'', ''f'', ''b'']\<rparr>)"
  using shell_round_pipeline [OF _ _ refl, of "\<lparr>eof = False, builtin = BUILTIN_NONE, builtin_arg = None, current_pipeline =
      \<lparr>commands = [\<lparr>argv = [''a''], input_redir = None, output_redir = Some ''f''\<rparr>,
        \<lparr>argv = [''b''], input_redir = None, output_redir = None\<rparr>], background = False\<rparr>\<rparr>" plain_os "\<lambda>_. True"
    "\<lparr>last_status = 0, unfreed = []\<rparr>"]
  by (auto simp: runnable_def plain_os_def strings_of_def)

end
