(* ===== verification/Shell_Scan.thy ===== *)
theory Shell_Scan
  imports Shell
begin

section \<open>The scanner of the shell\<close>

text \<open>
  \<^verbatim>\<open>task03-processes/parser/scan.l\<close>, with the meaning that Flex gives to it: at every position the rule
  with the longest match is taken, the first one of several; where no rule matches, one character is
  passed to \<^verbatim>\<open>ECHO\<close>, which the file defines to be empty. A rule is the length of its longest match (0
  for none) and its action on the matched text; \<open>None\<close> is an action that returns no token. The token
  \<open>NL\<close> is the value 0 that ends a line for the parser.
\<close>

datatype token =
  EXIT | WAIT | KILL | PIPE | INPUT_REDIR | OUTPUT_REDIR | STRING string | NL | BACKGROUND

definition is_CHAR :: "char \<Rightarrow> bool" where
  "is_CHAR c \<longleftrightarrow> c \<in> set ''0123456789abcdefghijklmnopqrstuvwxyzABCDEFGHIJKLMNOPQRSTUVWXYZ_/-*.=''"

definition dquote :: char where "dquote = CHR 0x22"
definition squote :: char where "squote = CHR 0x27"

definition QUOTED_CHAR :: "char \<Rightarrow> bool" where
  "QUOTED_CHAR c \<longleftrightarrow> c \<noteq> dquote"

type_synonym rule = "(string \<Rightarrow> nat) \<times> (string \<Rightarrow> token option)"

definition lit :: "string \<Rightarrow> string \<Rightarrow> nat" where
  "lit k s = (if take (length k) s = k then length k else 0)"

definition word_len :: "string \<Rightarrow> nat" where
  "word_len s = length (takeWhile is_CHAR s)"

text \<open>A single quote closes the longest text that it can close.\<close>

definition squoted_len :: "string \<Rightarrow> nat" where
  "squoted_len s =
     (case s of [] \<Rightarrow> 0
      | c # r \<Rightarrow>
          let w = dropWhile (\<lambda>c. c \<noteq> squote) (rev (takeWhile QUOTED_CHAR r)) in
          if c = squote \<and> 2 \<le> length w then Suc (length w) else 0)"

definition dquoted_len :: "string \<Rightarrow> nat" where
  "dquoted_len s =
     (case s of [] \<Rightarrow> 0
      | c # r \<Rightarrow>
          let w = takeWhile QUOTED_CHAR r in
          if c = dquote \<and> w \<noteq> [] \<and> length w < length r then length w + 2 else 0)"

definition semicolon_len :: "string \<Rightarrow> nat" where
  "semicolon_len s = (case s of c # d # _ \<Rightarrow> if c \<noteq> newline \<and> d = CHR '';'' then 2 else 0 | _ \<Rightarrow> 0)"

definition unquote :: "string \<Rightarrow> string" where
  "unquote t = butlast (tl t)"

definition rules :: "rule list" where
  "rules =
    [(lit ''exit'', \<lambda>_. Some EXIT), (lit ''wait'', \<lambda>_. Some WAIT), (lit ''kill'', \<lambda>_. Some KILL),
     (lit [newline], \<lambda>_. Some NL), (lit ''&'', \<lambda>_. Some BACKGROUND), (lit ''|'', \<lambda>_. Some PIPE),
     (lit ''>'', \<lambda>_. Some OUTPUT_REDIR), (lit ''<'', \<lambda>_. Some INPUT_REDIR),
     (word_len, \<lambda>t. Some (STRING t)),
     (squoted_len, \<lambda>t. Some (STRING (unquote t))),
     (dquoted_len, \<lambda>t. Some (STRING (unquote t))),
     (semicolon_len, \<lambda>_. None)]"

fun pick :: "rule list \<Rightarrow> string \<Rightarrow> nat \<times> (string \<Rightarrow> token option)" where
  "pick [] s = (0, \<lambda>_. None)"
| "pick ((m, a) # rs) s = (case pick rs s of (n, b) \<Rightarrow> if n \<le> m s then (m s, a) else (n, b))"

function scan :: "string \<Rightarrow> token list" where
  "scan [] = []"
| "scan (c # s) =
     (case pick rules (c # s) of (n, a) \<Rightarrow>
        if n = 0 then scan s
        else (case a (take n (c # s)) of None \<Rightarrow> scan (drop n (c # s)) | Some t \<Rightarrow> t # scan (drop n (c # s))))"
  by pat_completeness auto
termination by (relation "measure length") auto

declare scan.simps(2) [simp del]

subsection \<open>Tokens one by one\<close>

text \<open>The longest match: no rule matches more than the one that is taken.\<close>

lemma pick_longest: "(m, a) \<in> set rs \<Longrightarrow> m s \<le> fst (pick rs s)"
  by (induction rs s rule: pick.induct) (auto split: prod.splits)

lemma pick_rule: "fst (pick rs s) \<noteq> 0 \<Longrightarrow> \<exists>m. (m, snd (pick rs s)) \<in> set rs \<and> fst (pick rs s) = m s"
  by (induction rs s rule: pick.induct) (auto split: prod.splits if_splits)

lemma pick_first:
  "\<forall>(m', a') \<in> set xs. m' s < m s \<Longrightarrow> \<forall>(m', a') \<in> set ys. m' s \<le> m s \<Longrightarrow>
    pick (xs @ (m, a) # ys) s = (m s, a)"
proof (induction xs)
  case Nil
  have "fst (pick ys s) \<le> m s" using pick_rule [of ys s] Nil by (cases "fst (pick ys s) = 0") auto
  then show ?case by (auto split: prod.split)
next
  case (Cons r xs)
  then show ?case by (cases r) auto
qed

text \<open>A rule wins at a position when the rules in front of it match less and those behind it no more.\<close>

lemma scan_rule:
  assumes "rules = xs @ (m, a) # ys" "\<forall>(m', a') \<in> set xs. m' s < m s" "\<forall>(m', a') \<in> set ys. m' s \<le> m s"
    and "m s = n" "0 < n" "n \<le> length s"
  shows "scan s = (case a (take n s) of None \<Rightarrow> scan (drop n s) | Some t \<Rightarrow> t # scan (drop n s))"
proof -
  have "pick rules s = (n, a)" using pick_first [of xs s m ys a] assms(1-4) by simp
  moreover obtain c v where "s = c # v" using assms(5,6) by (cases s) auto
  ultimately show ?thesis using assms(5) by (simp add: scan.simps split: option.split)
qed

definition not_semicolon :: "string \<Rightarrow> bool" where
  "not_semicolon r \<longleftrightarrow> r = [] \<or> hd r \<noteq> CHR '';''"

definition word_end :: "string \<Rightarrow> bool" where
  "word_end r \<longleftrightarrow> r = [] \<or> \<not> is_CHAR (hd r) \<and> hd r \<noteq> CHR '';''"

definition keyword :: "string \<Rightarrow> bool" where
  "keyword w \<longleftrightarrow> w \<in> {''exit'', ''wait'', ''kill''}"

definition plain_word :: "string \<Rightarrow> bool" where
  "plain_word w \<longleftrightarrow> w \<noteq> [] \<and> list_all is_CHAR w \<and> \<not> keyword w"

lemmas lens = lit_def word_len_def squoted_len_def dquoted_len_def semicolon_len_def

lemma word_len_append:
  "list_all is_CHAR w \<Longrightarrow> word_end r \<Longrightarrow> word_len (w @ r) = length w"
  by (cases r) (auto simp: word_len_def word_end_def takeWhile_append list_all_iff takeWhile_eq_all_conv [THEN iffD2])

lemma special_not_CHAR:
  "\<not> is_CHAR newline" "\<not> is_CHAR (CHR ''&'')" "\<not> is_CHAR (CHR ''|'')" "\<not> is_CHAR (CHR ''<'')" "\<not> is_CHAR (CHR ''>'')"
  "\<not> is_CHAR (CHR '' '')" "\<not> is_CHAR squote" "\<not> is_CHAR dquote" "\<not> is_CHAR (CHR '';'')"
  by (simp_all add: is_CHAR_def newline_def squote_def dquote_def)

lemma lit_word:
  assumes "keyword k" "list_all is_CHAR w" "w \<noteq> k" "word_end r"
  shows "lit k (w @ r) < length w \<or> w = []"
proof (cases "take (length k) (w @ r) = k")
  case True
  have k: "length k = 4" "list_all is_CHAR k" using assms(1) by (auto simp: keyword_def is_CHAR_def)
  have "length k < length w"
  proof (rule ccontr)
    assume "\<not> length k < length w"
    then have "k = w @ take (4 - length w) r" using True k(1) by auto
    moreover have "4 - length w \<noteq> 0" using calculation assms(3) by auto
    moreover have "r \<noteq> []" using calculation assms(3) by auto
    ultimately have "hd r \<in> set k" by (cases r) (auto simp: take_Cons')
    then show False using k(2) assms(4) \<open>r \<noteq> []\<close> by (auto simp: word_end_def list_all_iff)
  qed
  then show ?thesis using k by (simp add: lit_def)
qed (auto simp: lit_def)

lemma scan_word:
  assumes w: "plain_word w" and r: "word_end r"
  shows "scan (w @ r) = STRING w # scan r"
proof -
  obtain c v where cv: "w = c # v" "is_CHAR c" using w by (cases w) (auto simp: plain_word_def)
  have wl: "word_len (w @ r) = length w" using w r by (simp add: word_len_append plain_word_def)
  have one: "lit [d] (w @ r) = 0" if "\<not> is_CHAR d" for d using that cv by (auto simp: lit_def)
  have key: "lit k (w @ r) < length w" if "keyword k" for k
    using lit_word [OF that, of w r] w r that by (auto simp: plain_word_def)
  have q: "squoted_len (w @ r) = 0" "dquoted_len (w @ r) = 0"
    using cv special_not_CHAR by (auto simp: lens Let_def)
  have "semicolon_len (w @ r) \<le> length w"
    using w r cv by (cases v; cases r) (auto simp: lens word_end_def plain_word_def list_all_iff special_not_CHAR)
  then have "scan (w @ r) = (case Some (STRING (take (length w) (w @ r))) of None \<Rightarrow> scan (drop (length w) (w @ r))
      | Some t \<Rightarrow> t # scan (drop (length w) (w @ r)))"
    by (intro scan_rule [of "take 8 rules" word_len _ "drop 9 rules"])
      (use cv wl one key q special_not_CHAR in \<open>simp_all add: rules_def keyword_def\<close>)
  then show ?thesis by simp
qed

lemma scan_dquoted:
  assumes w: "w \<noteq> []" "dquote \<notin> set w"
  shows "scan (dquote # w @ dquote # r) = STRING w # scan r"
proof -
  let ?s = "dquote # w @ dquote # r"
  have t: "takeWhile QUOTED_CHAR (w @ dquote # r) = w"
    using w(2) by (subst takeWhile_append2) (auto simp: QUOTED_CHAR_def)
  have "dquoted_len ?s = length w + 2" using w t by (simp add: lens)
  moreover have "semicolon_len ?s \<le> 2" by (simp add: lens split: list.split)
  moreover have "lit k ?s = 0" if "k \<noteq> []" "hd k \<noteq> dquote" for k using that by (cases k) (auto simp: lit_def)
  moreover have "word_len ?s = 0" "squoted_len ?s = 0"
    using special_not_CHAR by (auto simp: lens Let_def squote_def dquote_def)
  ultimately have "scan ?s = (case Some (STRING (unquote (take (length w + 2) ?s))) of None \<Rightarrow> scan (drop (length w + 2) ?s)
      | Some t \<Rightarrow> t # scan (drop (length w + 2) ?s))"
    by (intro scan_rule [of "take 10 rules" dquoted_len _ "drop 11 rules"])
      (simp_all add: rules_def newline_def dquote_def)
  then show ?thesis by (simp add: unquote_def butlast_append)
qed

lemma scan_newline: "scan (newline # r) = NL # scan r"
proof -
  have "scan (newline # r) = (case Some NL of None \<Rightarrow> scan (drop 1 (newline # r)) | Some t \<Rightarrow> t # scan (drop 1 (newline # r)))"
    by (rule scan_rule [of "take 3 rules" "lit [newline]" _ "drop 4 rules" _ 1])
      (simp_all add: rules_def lens newline_def is_CHAR_def squote_def dquote_def split: list.split)
  then show ?thesis by simp
qed

lemma scan_symbol:
  assumes "not_semicolon r"
  shows "scan (CHR ''&'' # r) = BACKGROUND # scan r" "scan (CHR ''|'' # r) = PIPE # scan r"
    "scan (CHR ''>'' # r) = OUTPUT_REDIR # scan r" "scan (CHR ''<'' # r) = INPUT_REDIR # scan r"
    "scan (CHR '' '' # r) = scan r"
  using assms
  by (cases r; simp add: scan.simps rules_def lens newline_def is_CHAR_def squote_def dquote_def not_semicolon_def)+

end
