(* ===== verification/Shell_Parse.thy ===== *)
theory Shell_Parse
  imports Shell_Scan
begin

section \<open>The parser of the shell and its main loop\<close>

text \<open>
  \<^verbatim>\<open>task03-processes/parser/parse.y\<close>, with the meaning that Bison gives to the grammar. The actions work on
  the global variables, here a state: the commands of \<^verbatim>\<open>current_pipeline\<close> (the first one is part of the
  variable and always there), whether \<^verbatim>\<open>current_command\<close> points to the last of them or is NULL, and
  the fields for the builtins. A state of the parser with one reduction and no other choice reduces
  without looking at the next token; with other choices it shifts the tokens it can shift and reduces
  on every other one. So a token that does not fit is noticed only when all commands before it are
  complete, or where only a \<^verbatim>\<open>STRING\<close> can follow. There is no rule for errors: \<^verbatim>\<open>yyparse\<close> gives up, the
  token is lost, what the actions have done stays, and the next call goes on behind the token. A result
  is whether the line was accepted, whether the end of the input was met (\<^verbatim>\<open>yywrap\<close> sets \<^verbatim>\<open>eof\<close>), the
  tokens left, and the state; \<open>None\<close> is a store outside an argument vector.
\<close>

record pcommand =
  args :: arg_vec
  in_redir :: "string option"
  out_redir :: "string option"

record pstate =
  pcmds :: "pcommand list"
  current :: bool
  in_background :: bool
  current_builtin :: builtin_type
  arg_of_builtin :: "string option"

type_synonym parse_result = "(bool \<times> bool \<times> token list \<times> pstate) option"

definition new_command :: pcommand where
  "new_command = \<lparr>args = \<lparr>cells = [], argc = 0\<rparr>, in_redir = None, out_redir = None\<rparr>"

text \<open>What \<^verbatim>\<open>main\<close> sets before each call of \<^verbatim>\<open>yyparse\<close>.\<close>

definition parse_start :: pstate where
  "parse_start = \<lparr>pcmds = [new_command], current = True, in_background = False,
     current_builtin = BUILTIN_NONE, arg_of_builtin = None\<rparr>"

definition on_last :: "(pcommand \<Rightarrow> pcommand) \<Rightarrow> pstate \<Rightarrow> pstate" where
  "on_last f st = st\<lparr>pcmds := butlast (pcmds st) @ [f (last (pcmds st))]\<rparr>"

text \<open>The actions of the rules for \<^verbatim>\<open>command\<close>.\<close>

definition on_word :: "string \<Rightarrow> pstate \<Rightarrow> pstate option" where
  "on_word w st =
     (let st = (if current st then st else st\<lparr>pcmds := pcmds st @ [new_command], current := True\<rparr>) in
      case append_argv w (args (last (pcmds st))) of None \<Rightarrow> None
      | Some v \<Rightarrow> Some (on_last (\<lambda>c. c\<lparr>args := v\<rparr>) st))"

definition syntax_error :: "token list \<Rightarrow> pstate \<Rightarrow> parse_result" where
  "syntax_error ts st = Some (False, ts = [], tl ts, st)"

text \<open>Looking at the next token: whether it is \<open>t\<close>, and its text when it is a \<^verbatim>\<open>STRING\<close>.\<close>

definition next_is :: "token \<Rightarrow> token list \<Rightarrow> bool" where
  "next_is t ts \<longleftrightarrow> ts \<noteq> [] \<and> hd ts = t"

definition next_string :: "token list \<Rightarrow> (string \<times> token list) option" where
  "next_string ts = (case ts of STRING w # r \<Rightarrow> Some (w, r) | _ \<Rightarrow> None)"

lemma next_shorter: "next_is t ts \<Longrightarrow> length (tl ts) < length ts"
  by (auto simp: next_is_def)

lemma next_string_Some: "next_string ts = Some (w, r) \<longleftrightarrow> ts = STRING w # r"
  by (auto simp: next_string_def split: list.splits token.splits)

definition parse_end :: "token list \<Rightarrow> pstate \<Rightarrow> parse_result" where
  "parse_end ts st =
     (if ts = [] then Some (True, True, [], st)
      else if next_is NL ts then Some (True, False, tl ts, st)
      else syntax_error ts st)"

text \<open>An optional redirection \<open>t\<close>; \<open>Inl\<close> are the tokens where a \<^verbatim>\<open>STRING\<close> is missing.\<close>

definition parse_redir :: "token \<Rightarrow> token list \<Rightarrow> token list + string option \<times> token list" where
  "parse_redir t ts =
     (if \<not> next_is t ts then Inr (None, ts)
      else case next_string (tl ts) of None \<Rightarrow> Inl (tl ts) | Some (f, r) \<Rightarrow> Inr (Some (c_str f), r))"

text \<open>The rule for \<^verbatim>\<open>redir\<close>, on the current command.\<close>

definition parse_redirs :: "token list \<Rightarrow> pstate \<Rightarrow> token list \<times> pstate + token list \<times> pstate" where
  "parse_redirs ts st =
     (case parse_redir INPUT_REDIR ts of
        Inl r \<Rightarrow> Inl (r, st)
      | Inr (f, r) \<Rightarrow>
          let st = on_last (\<lambda>c. c\<lparr>in_redir := f\<rparr>) st in
          (case parse_redir OUTPUT_REDIR r of
             Inl r \<Rightarrow> Inl (r, st)
           | Inr (f, r) \<Rightarrow> Inr (r, on_last (\<lambda>c. c\<lparr>out_redir := f\<rparr>) st)))"

text \<open>The tokens that are left are not more than before.\<close>

lemma parse_redir_len:
  "parse_redir t ts = Inl r \<Longrightarrow> length r \<le> length ts" "parse_redir t ts = Inr (f, r) \<Longrightarrow> length r \<le> length ts"
  by (cases ts; auto simp: parse_redir_def next_string_Some split: option.splits if_splits)+

lemma parse_redirs_len:
  "parse_redirs ts st = Inl (r, st') \<Longrightarrow> length r \<le> length ts" "parse_redirs ts st = Inr (r, st') \<Longrightarrow> length r \<le> length ts"
  by (auto simp: parse_redirs_def Let_def split: sum.splits dest!: parse_redir_len)

lemma tail_string_shorter: "parse_redirs ts st = Inr (r, st') \<Longrightarrow> next_string (tl r) = Some (w, q) \<Longrightarrow> length q < length ts"
  using parse_redirs_len(2) [of ts st r st'] by (cases r) (auto simp: next_string_Some)

text \<open>The rest of a pipeline, behind a word of a command.\<close>

function parse_pipeline :: "token list \<Rightarrow> pstate \<Rightarrow> parse_result" where
  "parse_pipeline ts st =
     (case next_string ts of
        Some (w, r) \<Rightarrow> (case on_word w st of None \<Rightarrow> None | Some st \<Rightarrow> parse_pipeline r st)
      | None \<Rightarrow>
          (case parse_redirs ts st of
             Inl (r, st) \<Rightarrow> syntax_error r st
           | Inr (r, st) \<Rightarrow>
               let st = st\<lparr>current := False\<rparr> in
               if next_is PIPE r
               then (case next_string (tl r) of
                       None \<Rightarrow> syntax_error (tl r) st
                     | Some (w, q) \<Rightarrow> (case on_word w st of None \<Rightarrow> None | Some st \<Rightarrow> parse_pipeline q st))
               else if next_is BACKGROUND r then parse_end (tl r) (st\<lparr>in_background := True\<rparr>)
               else parse_end r (st\<lparr>in_background := False\<rparr>)))"
  by pat_completeness auto
termination by (relation "measure (length \<circ> fst)") (auto simp: next_string_Some dest: tail_string_shorter)

declare parse_pipeline.simps [simp del]

definition set_builtin :: "builtin_type \<Rightarrow> string option \<Rightarrow> pstate \<Rightarrow> pstate" where
  "set_builtin b arg st = st\<lparr>current_builtin := b, arg_of_builtin := map_option c_str arg\<rparr>"

definition parse_builtin :: "builtin_type \<Rightarrow> token list \<Rightarrow> pstate \<Rightarrow> parse_result" where
  "parse_builtin b ts st =
     (case next_string ts of
        Some (a, r) \<Rightarrow> parse_end r (set_builtin b (Some a) st)
      | None \<Rightarrow> if b = BUILTIN_KILL then syntax_error ts st else parse_end ts (set_builtin b None st))"

definition yyparse :: "token list \<Rightarrow> pstate \<Rightarrow> parse_result" where
  "yyparse ts st =
     (if next_is EXIT ts then parse_builtin BUILTIN_EXIT (tl ts) st
      else if next_is WAIT ts then parse_builtin BUILTIN_WAIT (tl ts) st
      else if next_is KILL ts then parse_builtin BUILTIN_KILL (tl ts) st
      else case next_string ts of
             Some (w, r) \<Rightarrow> (case on_word w st of None \<Rightarrow> None | Some st \<Rightarrow> parse_pipeline r st)
           | None \<Rightarrow> parse_end ts st)"

text \<open>The line as the main loop sees it.\<close>

definition command_of :: "pcommand \<Rightarrow> command" where
  "command_of c = \<lparr>argv = map the (take (argc (args c)) (cells (args c))), input_redir = in_redir c, output_redir = out_redir c\<rparr>"

definition parsed_line :: "bool \<Rightarrow> pstate \<Rightarrow> parsed" where
  "parsed_line e st = \<lparr>eof = e, builtin = current_builtin st, builtin_arg = arg_of_builtin st,
     current_pipeline = \<lparr>commands = map command_of (pcmds st), background = in_background st\<rparr>\<rparr>"

subsection \<open>Every call takes a token\<close>

text \<open>A result is \<open>shrunk\<close> when tokens were taken, or the end of the input was met.\<close>

definition shrunk :: "token list \<Rightarrow> parse_result \<Rightarrow> bool" where
  "shrunk ts res \<longleftrightarrow> (case res of None \<Rightarrow> True | Some (ok, e, r, st) \<Rightarrow> if e then r = [] else length r < length ts)"

lemma shrunk_mono: "shrunk ts res \<Longrightarrow> length ts \<le> length ts' \<Longrightarrow> shrunk ts' res"
  by (auto simp: shrunk_def split: option.splits if_splits)

lemma shrunk_error: "shrunk ts (syntax_error ts st)"
  by (cases ts) (auto simp: syntax_error_def shrunk_def)

lemma shrunk_end: "shrunk ts (parse_end ts st)"
  using shrunk_error [of ts st] next_shorter by (auto simp: parse_end_def shrunk_def)

lemma shrunk_pipeline: "shrunk ts (parse_pipeline ts st)"
proof (induction ts st rule: parse_pipeline.induct)
  case (1 ts st)
  show ?case
  proof (cases "next_string ts")
    case (Some wr)
    obtain w r where wr: "wr = (w, r)" by fastforce
    have "shrunk ts (parse_pipeline r st')" if "on_word w st = Some st'" for st'
      using shrunk_mono [OF 1(2) [OF Some wr [symmetric] that]] Some wr by (simp add: next_string_Some)
    then show ?thesis using Some wr by (subst parse_pipeline.simps) (auto simp: shrunk_def split: option.split)
  next
    case None
    show ?thesis
    proof (cases "parse_redirs ts st")
      case (Inl e)
      then show ?thesis using None parse_redirs_len(1) [of ts st "fst e" "snd e"] shrunk_mono [OF shrunk_error, of "fst e" ts]
        by (subst parse_pipeline.simps) (simp add: case_prod_beta)
    next
      case (Inr e)
      obtain r st1 where e: "e = (r, st1)" by fastforce
      let ?st = "st1\<lparr>current := False\<rparr>"
      have len: "length r \<le> length ts" "length (tl r) \<le> length ts" using parse_redirs_len(2) [of ts st r st1] Inr e by auto
      note sh = shrunk_mono [OF shrunk_error len(2)] shrunk_mono [OF shrunk_end len(1)] shrunk_mono [OF shrunk_end len(2)]
      have "shrunk ts (parse_pipeline q st')" if "next_is PIPE r" "next_string (tl r) = Some (w, q)" "on_word w ?st = Some st'" for w q st'
        by (rule shrunk_mono [OF 1(1) [OF None Inr e [symmetric] refl that(1,2) refl that(3)]])
          (use tail_string_shorter [of ts st r st1 w q] Inr e that(2) in simp)
      then show ?thesis using None Inr e sh
        by (subst parse_pipeline.simps) (simp add: Let_def shrunk_def [of ts None] split: option.split)
    qed
  qed
qed

lemma shrunk_builtin: "shrunk ts (parse_builtin b ts st)"
  using shrunk_error shrunk_end shrunk_mono [OF shrunk_end]
  by (auto simp: parse_builtin_def next_string_Some split: option.split)

lemma shrunk_yyparse: "shrunk ts (yyparse ts st)"
proof -
  have "shrunk ts (parse_builtin b (tl ts) st)" for b by (rule shrunk_mono [OF shrunk_builtin]) simp
  moreover have "shrunk ts (parse_pipeline r st')" if "next_string ts = Some (w, r)" for w r st'
    using that by (intro shrunk_mono [OF shrunk_pipeline]) (simp add: next_string_Some)
  ultimately show ?thesis using shrunk_end
    by (auto simp: yyparse_def shrunk_def [of ts None] split: option.split)
qed

subsection \<open>main.c: the loop\<close>

lemma shell_round_eof: "shell_round os ok (parsed_line True st) s = Some (Inl (last_status s))"
  by (simp add: shell_round_def parsed_line_def)

lemma yyparse_shorter: "yyparse ts st = Some (ok, False, r, st') \<Longrightarrow> length r < length ts"
  using shrunk_yyparse [of ts st] by (simp add: shrunk_def)

text \<open>The whole shell on the tokens of its input, to its exit status; \<open>env i\<close> is what the system does
  in round \<open>i\<close>.\<close>

function shell_main :: "(nat \<Rightarrow> os \<times> (int32 \<Rightarrow> bool)) \<Rightarrow> token list \<Rightarrow> shell \<Rightarrow> int option" where
  "shell_main env ts s =
     (case yyparse ts parse_start of
        None \<Rightarrow> None
      | Some (_, e, r, st) \<Rightarrow>
          (case shell_round (fst (env 0)) (snd (env 0)) (parsed_line e st) s of
             None \<Rightarrow> None
           | Some (Inl status) \<Rightarrow> Some status
           | Some (Inr s) \<Rightarrow> shell_main (\<lambda>i. env (Suc i)) r s))"
  by pat_completeness auto
termination
proof (relation "measure (\<lambda>(env, ts, s). length ts)")
  fix env :: "nat \<Rightarrow> os \<times> (int32 \<Rightarrow> bool)" and ts s x x1 y e yb r st res s'
  assume a: "yyparse ts parse_start = Some x" "(x1, y) = x" "(e, yb) = y" "(r, st) = yb"
    "shell_round (fst (env 0)) (snd (env 0)) (parsed_line e st) s = Some res" "res = Inr s'"
  then have "\<not> e" using shell_round_eof by (cases e) auto
  then show "(((\<lambda>i. env (Suc i)), r, s'), env, ts, s) \<in> measure (\<lambda>(env, ts, s). length ts)"
    using a yyparse_shorter [of ts parse_start x1 r st] by auto
qed simp

declare shell_main.simps [simp del]

subsection \<open>Well-formed lines\<close>

definition vec_ok :: "arg_vec \<Rightarrow> bool" where
  "vec_ok v \<longleftrightarrow> 0 < argc v \<and> argc v < length (cells v) \<and> length (cells v) = 8 \<and>
     None \<notin> set (take (argc v) (cells v)) \<and> cells v ! argc v = None"

text \<open>While a line is parsed: only the first command can be empty, and only at the start.\<close>

definition pstate_ok :: "pstate \<Rightarrow> bool" where
  "pstate_ok st \<longleftrightarrow> pcmds st = [new_command] \<and> current st \<or> pcmds st \<noteq> [] \<and> (\<forall>c \<in> set (pcmds st). vec_ok (args c))"

definition commands_ok :: "pstate \<Rightarrow> bool" where
  "commands_ok st \<longleftrightarrow> pcmds st \<noteq> [] \<and> (\<forall>c \<in> set (pcmds st). vec_ok (args c))"

lemma append_argv_vec_ok:
  assumes "append_argv w v = Some v'" and "v = \<lparr>cells = [], argc = 0\<rparr> \<or> vec_ok v"
  shows "vec_ok v'"
proof -
  have v: "argc v < 8" "cells v = [] \<and> argc v = 0 \<or> length (cells v) = 8" "None \<notin> set (take (argc v) (cells v))"
    using assms(2) by (auto simp: vec_ok_def)
  show ?thesis
  proof (cases "argc v = 7")
    case True
    then show ?thesis using append_argv_full [of v w] v assms(1) by auto
  next
    case False
    then show ?thesis using append_argv_word [of v w] v assms(1) by (auto simp: vec_ok_def)
  qed
qed

lemma on_word_ok:
  assumes "on_word w st = Some st'" "pstate_ok st"
  shows "commands_ok st'" "current st'" "current_builtin st' = current_builtin st"
proof -
  let ?st = "if current st then st else st\<lparr>pcmds := pcmds st @ [new_command], current := True\<rparr>"
  obtain v where v: "append_argv w (args (last (pcmds ?st))) = Some v" "st' = on_last (\<lambda>c. c\<lparr>args := v\<rparr>) ?st"
    using assms(1) by (auto simp: on_word_def Let_def split: option.splits)
  have last: "args (last (pcmds ?st)) = \<lparr>cells = [], argc = 0\<rparr> \<or> vec_ok (args (last (pcmds ?st)))"
    and front: "\<forall>c \<in> set (butlast (pcmds ?st)). vec_ok (args c)"
    using assms(2) by (auto simp: pstate_ok_def new_command_def dest: in_set_butlastD)
  show "commands_ok st'" using append_argv_vec_ok [OF v(1) last] front v(2) by (auto simp: commands_ok_def on_last_def)
  show "current st'" "current_builtin st' = current_builtin st" using v(2) by (auto simp: on_last_def)
qed

lemma commands_ok_pstate: "commands_ok st \<Longrightarrow> pstate_ok st"
  by (simp add: commands_ok_def pstate_ok_def)

lemma on_last_ok:
  "commands_ok st \<Longrightarrow> \<forall>c. args (f c) = args c \<Longrightarrow> commands_ok (on_last f st)"
  by (auto simp: commands_ok_def on_last_def dest: in_set_butlastD)

definition res_ok :: "parse_result \<Rightarrow> bool" where
  "res_ok res \<longleftrightarrow> (case res of None \<Rightarrow> True | Some (ok, e, r, st) \<Rightarrow> commands_ok st \<and> current_builtin st = BUILTIN_NONE)"

lemma parse_redirs_ok:
  assumes "commands_ok st" "current_builtin st = BUILTIN_NONE"
  shows "case parse_redirs ts st of Inl (r, st') \<Rightarrow> commands_ok st' \<and> current_builtin st' = BUILTIN_NONE
    | Inr (r, st') \<Rightarrow> commands_ok st' \<and> current_builtin st' = BUILTIN_NONE"
  using assms by (auto simp: parse_redirs_def Let_def on_last_ok split: sum.splits) (simp_all add: on_last_def)

lemma res_ok_end: "commands_ok st \<Longrightarrow> current_builtin st = BUILTIN_NONE \<Longrightarrow> res_ok (parse_end ts st) \<and> res_ok (syntax_error ts st)"
  by (auto simp: parse_end_def syntax_error_def res_ok_def)

lemma commands_ok_upd [simp]:
  "commands_ok (st\<lparr>current := x\<rparr>) = commands_ok st" "commands_ok (st\<lparr>in_background := b\<rparr>) = commands_ok st"
  by (simp_all add: commands_ok_def)

lemma parse_pipeline_ok:
  "commands_ok st \<Longrightarrow> current_builtin st = BUILTIN_NONE \<Longrightarrow> res_ok (parse_pipeline ts st)"
proof (induction ts st rule: parse_pipeline.induct)
  case (1 ts st)
  show ?case
  proof (cases "next_string ts")
    case (Some wr)
    obtain w r where wr: "wr = (w, r)" by fastforce
    have "res_ok (parse_pipeline r st')" if o: "on_word w st = Some st'" for st'
      using 1(2) [OF Some wr [symmetric] o] on_word_ok [OF o commands_ok_pstate] 1(3,4) by simp
    then show ?thesis using Some wr by (subst parse_pipeline.simps) (simp add: res_ok_def [of None] split: option.split)
  next
    case None
    note ro = parse_redirs_ok [OF 1(3,4), of ts]
    show ?thesis
    proof (cases "parse_redirs ts st")
      case (Inl e)
      then show ?thesis using None ro res_ok_end [of "snd e"] by (subst parse_pipeline.simps) (simp add: case_prod_beta)
    next
      case (Inr e)
      obtain r st1 where e: "e = (r, st1)" by fastforce
      let ?st = "st1\<lparr>current := False\<rparr>"
      have ok: "commands_ok ?st" "current_builtin ?st = BUILTIN_NONE" using ro Inr e by simp_all
      have "res_ok (parse_pipeline q st')" if "next_is PIPE r" "next_string (tl r) = Some (w, q)" "on_word w ?st = Some st'" for w q st'
        by (rule 1(1) [OF None Inr e [symmetric] refl that(1,2) refl that(3)])
          (use on_word_ok [OF that(3) commands_ok_pstate [OF ok(1)]] ok in simp_all)
      then show ?thesis using None Inr e ok res_ok_end
        by (subst parse_pipeline.simps) (simp add: Let_def res_ok_def [of None] split: option.split)
    qed
  qed
qed

lemma yyparse_ok:
  assumes "yyparse ts parse_start = Some (ok, e, r, st)"
  shows "pcmds st = [new_command] \<or> commands_ok st \<and> current_builtin st = BUILTIN_NONE"
proof -
  have b: "pcmds st = [new_command]" if "parse_builtin b ts' parse_start = Some (ok, e, r, st)" for b ts'
    using that by (auto simp: parse_builtin_def parse_end_def syntax_error_def set_builtin_def parse_start_def split: option.splits if_splits)
  have p: "commands_ok st \<and> current_builtin st = BUILTIN_NONE"
    if "on_word w parse_start = Some st1" "parse_pipeline r' st1 = Some (ok, e, r, st)" for w r' st1
  proof -
    have "pstate_ok parse_start" by (simp add: parse_start_def pstate_ok_def)
    then have "commands_ok st1" "current_builtin st1 = BUILTIN_NONE"
      using on_word_ok [OF that(1)] by (simp_all add: parse_start_def)
    then show ?thesis using parse_pipeline_ok [of st1 r'] that(2) by (simp add: res_ok_def)
  qed
  have "pcmds st = [new_command]" if "parse_end ts parse_start = Some (ok, e, r, st)"
    using that by (auto simp: parse_end_def syntax_error_def parse_start_def split: if_splits)
  then show ?thesis using assms b p by (auto simp: yyparse_def split: if_splits option.splits)
qed

subsection \<open>When the parser runs out of an argument vector\<close>

definition starts_words :: "nat \<Rightarrow> token list \<Rightarrow> bool" where
  "starts_words n ts \<longleftrightarrow> (\<exists>ws ys. ts = map STRING ws @ ys \<and> length ws = n)"

definition has_words :: "nat \<Rightarrow> token list \<Rightarrow> bool" where
  "has_words n ts \<longleftrightarrow> (\<exists>k. starts_words n (drop k ts))"

lemma starts_words_Suc: "starts_words n r \<Longrightarrow> starts_words (Suc n) (STRING w # r)"
  unfolding starts_words_def by (metis append_Cons length_Cons list.simps(9))

lemma has_words_drop: "has_words n (drop k ts) \<Longrightarrow> has_words n ts"
  unfolding has_words_def by (metis drop_drop)

lemma has_words_Cons: "has_words n r \<Longrightarrow> has_words n (t # r)"
  using has_words_drop [of n 1 "t # r"] by simp

lemma starts_has_words: "starts_words n ts \<Longrightarrow> has_words n ts"
  unfolding has_words_def by (metis drop0)

lemma parse_redir_suffix: "parse_redir t ts = Inr (f, r) \<Longrightarrow> \<exists>k. r = drop k ts"
  by (cases ts) (auto simp: parse_redir_def next_is_def next_string_Some split: option.splits if_splits
      intro: exI [of _ 0] exI [of _ 2])

lemma parse_redirs_suffix:
  assumes "parse_redirs ts st = Inr (r, st')"
  shows "\<exists>k. r = drop k ts"
proof -
  obtain f q g where "parse_redir INPUT_REDIR ts = Inr (f, q)" "parse_redir OUTPUT_REDIR q = Inr (g, r)"
    using assms by (auto simp: parse_redirs_def Let_def split: sum.splits)
  then show ?thesis using parse_redir_suffix by (metis drop_drop)
qed

text \<open>A word goes into the vector of the current command, or a new one; only the eighth does not fit.\<close>

definition word_count :: "pstate \<Rightarrow> nat" where
  "word_count st = (if current st then argc (args (last (pcmds st))) else 0)"

lemma on_word_count:
  assumes "pstate_ok st" "word_count st < 7"
  shows "\<exists>st'. on_word w st = Some st' \<and> word_count st' = Suc (word_count st)"
proof -
  let ?st = "if current st then st else st\<lparr>pcmds := pcmds st @ [new_command], current := True\<rparr>"
  let ?v = "args (last (pcmds ?st))"
  have "last (pcmds st) \<in> set (pcmds st)" using assms(1) by (auto simp: pstate_ok_def)
  then have "argc ?v = word_count st" "cells ?v = [] \<and> argc ?v = 0 \<or> length (cells ?v) = 8"
    using assms(1) by (auto simp: word_count_def pstate_ok_def new_command_def vec_ok_def)
  then obtain d where "append_argv w ?v = Some d" "argc d = Suc (word_count st)" using append_argv_word [of ?v w] assms(2) by auto
  then show ?thesis by (auto simp: on_word_def Let_def on_last_def word_count_def)
qed

lemma on_word_limit: "pstate_ok st \<Longrightarrow> on_word w st = None \<Longrightarrow> 7 \<le> word_count st"
  using on_word_count [of st w] by (cases "word_count st < 7") auto

lemma parse_redirs_None:
  assumes "commands_ok st" "parse_redirs ts st = Inr (r, st')"
  shows "commands_ok st'"
  using assms by (auto simp: parse_redirs_def Let_def on_last_ok split: sum.splits)

lemma word_count_le: "commands_ok st \<Longrightarrow> word_count st \<le> 7"
  unfolding word_count_def commands_ok_def by (auto simp: vec_ok_def dest!: last_in_set)

lemma on_word_Some_count:
  assumes "pstate_ok st" "on_word w st = Some st'"
  shows "word_count st' = Suc (word_count st)"
proof -
  have "word_count st' \<le> 7" "current st'" by (use word_count_le on_word_ok [OF assms(2,1)] in blast)+
  have "word_count st < 7"
  proof (rule ccontr)
    assume a: "\<not> word_count st < 7"
    then have c: "current st" "argc (args (last (pcmds st))) \<ge> 7" by (auto simp: word_count_def split: if_splits)
    then have "commands_ok st" using assms(1) by (auto simp: pstate_ok_def commands_ok_def new_command_def)
    then have "vec_ok (args (last (pcmds st)))" by (auto simp: commands_ok_def)
    then have "append_argv w (args (last (pcmds st))) = None" using c(2) by (intro append_argv_full) (auto simp: vec_ok_def)
    then show False using assms(2) c(1) by (simp add: on_word_def)
  qed
  then show ?thesis using on_word_count [OF assms(1), of w] assms(2) by auto
qed

lemma parse_pipeline_None:
  "parse_pipeline ts st = None \<Longrightarrow> commands_ok st \<Longrightarrow> current st \<Longrightarrow> starts_words (8 - word_count st) ts \<or> has_words 8 ts"
proof (induction ts st rule: parse_pipeline.induct)
  case (1 ts st)
  note ok = commands_ok_pstate [OF 1(4)] and le = word_count_le [OF 1(4)]
  show ?case
  proof (cases "next_string ts")
    case (Some wr)
    obtain w r where wr: "wr = (w, r)" by fastforce
    have ts: "ts = STRING w # r" using Some wr by (simp add: next_string_Some)
    show ?thesis
    proof (cases "on_word w st")
      case None
      then have "8 - word_count st = Suc 0" using on_word_limit [OF ok] le by fastforce
      then show ?thesis using starts_words_Suc [of 0 r w] ts by (simp add: starts_words_def)
    next
      case (Some st')
      have "parse_pipeline r st' = None" using 1(3) Some \<open>next_string ts = Some wr\<close> wr by (subst (asm) parse_pipeline.simps) simp
      from 1(2) [OF \<open>next_string ts = Some wr\<close> wr [symmetric] Some this]
      have "starts_words (8 - Suc (word_count st)) r \<or> has_words 8 r"
        using on_word_ok [OF Some ok] on_word_Some_count [OF ok Some] by simp
      moreover have "8 - word_count st = Suc (8 - Suc (word_count st))" using le by simp
      ultimately show ?thesis using starts_words_Suc has_words_Cons ts by auto
    qed
  next
    case None
    obtain r st1 where r: "parse_redirs ts st = Inr (r, st1)"
      using 1(3) None by (subst (asm) parse_pipeline.simps) (auto simp: syntax_error_def split: sum.splits)
    let ?st = "st1\<lparr>current := False\<rparr>"
    have e: "next_is PIPE r" "\<exists>w q. next_string (tl r) = Some (w, q)"
      using 1(3) None r by (subst (asm) parse_pipeline.simps,
          auto simp: syntax_error_def parse_end_def Let_def split: if_splits option.splits)+
    then obtain w q where w: "next_string (tl r) = Some (w, q)" by blast
    have ok1: "pstate_ok ?st" using parse_redirs_None [OF 1(4) r] by (simp add: commands_ok_pstate)
    obtain st2 where s2: "on_word w ?st = Some st2" "word_count st2 = 1" using on_word_count [OF ok1, of w] by (auto simp: word_count_def)
    have "parse_pipeline q st2 = None" using 1(3) None r e(1) w s2 by (subst (asm) parse_pipeline.simps) simp
    from 1(1) [OF None r refl refl e(1) w refl s2(1) this] have "starts_words 7 q \<or> has_words 8 q"
      using on_word_ok [OF s2(1) ok1] s2(2) by simp
    moreover have "tl r = STRING w # q" using w by (simp add: next_string_Some)
    ultimately have "has_words 8 (tl r)" using starts_words_Suc [of 7 q w] has_words_Cons starts_has_words by auto
    moreover obtain k where "r = drop k ts" using parse_redirs_suffix [OF r] by blast
    ultimately show ?thesis using has_words_drop [of 8 "Suc k" ts] by (simp add: drop_Suc tl_drop)
  qed
qed

lemma yyparse_None:
  assumes "yyparse ts parse_start = None"
  shows "has_words 8 ts"
proof -
  have nb: "(parse_builtin b r st = None) = False" "(parse_end r st = None) = False" for b r st
    by (auto simp: parse_builtin_def parse_end_def syntax_error_def split: option.splits)
  obtain w r where w: "next_string ts = Some (w, r)" "(case on_word w parse_start of None \<Rightarrow> None | Some st \<Rightarrow> parse_pipeline r st) = None"
    using assms by (auto simp: yyparse_def nb simp del: not_None_eq split: if_splits option.splits)
  have ok: "pstate_ok parse_start" "word_count parse_start = 0" by (simp_all add: parse_start_def pstate_ok_def word_count_def new_command_def)
  then obtain st where st: "on_word w parse_start = Some st" "word_count st = 1" using on_word_count [of parse_start w] by auto
  have "starts_words 7 r \<or> has_words 8 r"
    using parse_pipeline_None [of r st] on_word_ok [OF st(1) ok(1)] w(2) st by simp
  moreover have "ts = STRING w # r" using w(1) by (simp add: next_string_Some)
  ultimately show ?thesis using starts_words_Suc [of 7 r w] has_words_Cons starts_has_words by auto
qed

end
