(* ===== verification/Shell_Script.thy ===== *)
theory Shell_Script
  imports Shell_Parse
begin

section \<open>Command lines as text\<close>

text \<open>
  How a pipeline is written down, and that the scanner and the parser read it back: every token with a
  blank in front, words in double quotes when they have other characters than those of a plain
  word or are reserved. A script is a sequence of such lines.
\<close>

definition print_word :: "string \<Rightarrow> string" where
  "print_word w = (if plain_word w then w else dquote # w @ [dquote])"

definition good_word :: "string \<Rightarrow> bool" where
  "good_word w \<longleftrightarrow> w \<noteq> [] \<and> dquote \<notin> set w \<and> NUL \<notin> set w"

definition print_token :: "token \<Rightarrow> string" where
  "print_token t =
     (case t of EXIT \<Rightarrow> '' exit'' | WAIT \<Rightarrow> '' wait'' | KILL \<Rightarrow> '' kill'' | PIPE \<Rightarrow> '' |''
      | INPUT_REDIR \<Rightarrow> '' <'' | OUTPUT_REDIR \<Rightarrow> '' >'' | BACKGROUND \<Rightarrow> '' &'' | NL \<Rightarrow> [newline]
      | STRING w \<Rightarrow> CHR '' '' # print_word w)"

definition good_token :: "token \<Rightarrow> bool" where
  "good_token t \<longleftrightarrow> (case t of STRING w \<Rightarrow> good_word w | _ \<Rightarrow> True)"

definition print_tokens :: "token list \<Rightarrow> string" where
  "print_tokens ts = concat (map print_token ts)"

definition redir_tokens :: "command \<Rightarrow> token list" where
  "redir_tokens c =
     (case input_redir c of None \<Rightarrow> [] | Some f \<Rightarrow> [INPUT_REDIR, STRING f]) @
     (case output_redir c of None \<Rightarrow> [] | Some f \<Rightarrow> [OUTPUT_REDIR, STRING f])"

fun command_tokens :: "command list \<Rightarrow> token list" where
  "command_tokens [] = []"
| "command_tokens [c] = map STRING (argv c) @ redir_tokens c"
| "command_tokens (c # cs) = map STRING (argv c) @ redir_tokens c @ PIPE # command_tokens cs"

definition line_tokens :: "pipeline \<Rightarrow> token list" where
  "line_tokens p = command_tokens (commands p) @ (if background p then [BACKGROUND, NL] else [NL])"

definition good_command :: "command \<Rightarrow> bool" where
  "good_command c \<longleftrightarrow> argv c \<noteq> [] \<and> length (argv c) < 8 \<and> (\<forall>w \<in> set (argv c). good_word w) \<and>
     (\<forall>f. input_redir c = Some f \<longrightarrow> good_word f) \<and> (\<forall>f. output_redir c = Some f \<longrightarrow> good_word f)"

definition good_pipeline :: "pipeline \<Rightarrow> bool" where
  "good_pipeline p \<longleftrightarrow> commands p \<noteq> [] \<and> (\<forall>c \<in> set (commands p). good_command c)"

definition print_line :: "pipeline \<Rightarrow> string" where
  "print_line p = print_tokens (line_tokens p)"

subsection \<open>Scanning what was printed\<close>

text \<open>What follows a printed token starts with a blank or is the end of the line.\<close>

definition break :: "string \<Rightarrow> bool" where
  "break r \<longleftrightarrow> r = [] \<or> hd r = CHR '' '' \<or> hd r = newline"

lemma break_ends: "break r \<Longrightarrow> word_end r \<and> not_semicolon r"
proof -
  have "CHR '';'' \<noteq> newline" by (simp add: newline_def)
  then show "break r \<Longrightarrow> word_end r \<and> not_semicolon r"
    by (auto simp: break_def word_end_def not_semicolon_def special_not_CHAR)
qed

lemma scan_keyword:
  assumes "word_end r"
  shows "scan (''exit'' @ r) = EXIT # scan r" "scan (''wait'' @ r) = WAIT # scan r" "scan (''kill'' @ r) = KILL # scan r"
proof -
  have wl: "word_len (k @ r) = 4" if "keyword k" for k
    using word_len_append [of k r] that assms by (auto simp: keyword_def is_CHAR_def)
  show "scan (''exit'' @ r) = EXIT # scan r"
    using scan_rule [of "[]" "lit ''exit''" "\<lambda>_. Some EXIT" "drop 1 rules" "''exit'' @ r" 4] wl [of "''exit''"]
    by (simp add: rules_def keyword_def lens newline_def squote_def dquote_def)
  show "scan (''wait'' @ r) = WAIT # scan r"
    using scan_rule [of "take 1 rules" "lit ''wait''" "\<lambda>_. Some WAIT" "drop 2 rules" "''wait'' @ r" 4] wl [of "''wait''"]
    by (simp add: rules_def keyword_def lens newline_def squote_def dquote_def)
  show "scan (''kill'' @ r) = KILL # scan r"
    using scan_rule [of "take 2 rules" "lit ''kill''" "\<lambda>_. Some KILL" "drop 3 rules" "''kill'' @ r" 4] wl [of "''kill''"]
    by (simp add: rules_def keyword_def lens newline_def squote_def dquote_def)
qed

lemma print_word_head: "good_word w \<Longrightarrow> not_semicolon (print_word w @ r)"
  using special_not_CHAR(9) by (cases w) (auto simp: print_word_def not_semicolon_def plain_word_def good_word_def dquote_def)

lemma scan_print_token:
  assumes "good_token t" "break r"
  shows "scan (print_token t @ r) = t # scan r"
proof -
  note b = break_ends [OF assms(2)]
  have ns: "not_semicolon (c # r)" if "c \<noteq> CHR '';''" for c using that by (simp add: not_semicolon_def)
  have w: "scan (print_word w @ r) = STRING w # scan r" if "good_word w" for w
    using that b scan_word [of w r] scan_dquoted [of w r] by (auto simp: print_word_def good_word_def)
  have k: "not_semicolon (''exit'' @ r)" "not_semicolon (''wait'' @ r)" "not_semicolon (''kill'' @ r)"
    by (simp_all add: not_semicolon_def)
  show ?thesis
  proof (cases t)
    case (STRING w)
    then show ?thesis using assms(1) w [of w] print_word_head [of w r]
      by (simp add: print_token_def good_token_def scan_symbol(5))
  qed (use b ns k scan_keyword [of r] in \<open>simp_all add: print_token_def scan_symbol scan_newline\<close>)
qed

lemma break_print: "break r \<Longrightarrow> break (print_tokens ts @ r)"
  by (cases ts) (auto simp: print_tokens_def print_token_def break_def split: token.split)

lemma scan_print:
  "\<forall>t \<in> set ts. good_token t \<Longrightarrow> break r \<Longrightarrow> scan (print_tokens ts @ r) = ts @ scan r"
proof (induction ts)
  case (Cons t ts)
  then show ?case using scan_print_token [of t "print_tokens ts @ r"] break_print [of r ts]
    by (simp add: print_tokens_def)
qed (simp add: print_tokens_def)

subsection \<open>Parsing what was printed\<close>

lemma next_simps [simp]:
  "next_string (STRING w # r) = Some (w, r)" "next_is t (t' # r) \<longleftrightarrow> t' = t" "\<not> next_is t []" "next_string [] = None"
  by (auto simp: next_string_def next_is_def)

lemma next_string_None [simp]: "next_string (t # r) = None \<longleftrightarrow> (\<forall>w. t \<noteq> STRING w)"
  by (cases t) (simp_all add: next_string_def)

lemma c_str_good: "good_word w \<Longrightarrow> c_str w = w"
  by (auto simp: good_word_def c_str_def takeWhile_eq_all_conv)

lemma on_last_pcmds [simp]: "pcmds (on_last f st) = butlast (pcmds st) @ [f (last (pcmds st))]"
  by (simp add: on_last_def)

lemma on_last_other [simp]:
  "current (on_last f st) = current st" "in_background (on_last f st) = in_background st"
  "current_builtin (on_last f st) = current_builtin st" "arg_of_builtin (on_last f st) = arg_of_builtin st"
  by (simp_all add: on_last_def)

text \<open>The words of a command.\<close>

lemma parse_words:
  "append_all ws v = Some v' \<Longrightarrow> current st \<Longrightarrow> pcmds st = bs @ [c] \<Longrightarrow> args c = v \<Longrightarrow>
    parse_pipeline (map STRING ws @ ts) st = parse_pipeline ts (st\<lparr>pcmds := bs @ [c\<lparr>args := v'\<rparr>]\<rparr>)"
proof (induction ws arbitrary: st v c)
  case Nil
  then have "st\<lparr>pcmds := bs @ [c\<lparr>args := v'\<rparr>]\<rparr> = st" by (cases st, cases c) simp
  then show ?case by simp
next
  case (Cons w ws)
  obtain u where u: "append_argv w v = Some u" "append_all ws u = Some v'"
    using Cons.prems(1) by (auto split: option.splits)
  let ?st = "st\<lparr>pcmds := bs @ [c\<lparr>args := u\<rparr>]\<rparr>"
  have "on_word w st = Some ?st" using u(1) Cons.prems by (simp add: on_word_def on_last_def)
  then have "parse_pipeline (map STRING (w # ws) @ ts) st = parse_pipeline (map STRING ws @ ts) ?st"
    by (subst parse_pipeline.simps) simp
  also have "\<dots> = parse_pipeline ts (?st\<lparr>pcmds := bs @ [c\<lparr>args := u, args := v'\<rparr>]\<rparr>)"
    by (rule Cons.IH [OF u(2)]) (use Cons.prems in simp_all)
  finally show ?case by simp
qed

text \<open>Where the next command goes: into the last one, which is new, or behind all others.\<close>

definition at :: "pstate \<Rightarrow> pcommand list \<Rightarrow> bool" where
  "at st bs \<longleftrightarrow> current st \<and> pcmds st = bs @ [new_command] \<or> \<not> current st \<and> pcmds st = bs"

lemma parse_command_words:
  assumes "at st bs" "good_command cmd" "argv cmd = w # ws"
  shows "\<exists>st1 v. on_word w st = Some st1 \<and>
    parse_pipeline (map STRING ws @ ts) st1 = parse_pipeline ts (st\<lparr>current := True, pcmds := bs @ [new_command\<lparr>args := v\<rparr>]\<rparr>) \<and>
    map the (take (argc v) (cells v)) = argv cmd"
proof -
  obtain v where v: "append_all (argv cmd) \<lparr>cells = [], argc = 0\<rparr> = Some v" "argc v = length (argv cmd)"
    "take (argc v) (cells v) = map (\<lambda>w. Some (c_str w)) (argv cmd)"
    using append_all_words [of "\<lparr>cells = [], argc = 0\<rparr>" "argv cmd"] assms(2) by (auto simp: good_command_def)
  obtain u where u: "append_argv w \<lparr>cells = [], argc = 0\<rparr> = Some u" "append_all ws u = Some v"
    using v(1) assms(3) by (auto split: option.splits)
  let ?st = "st\<lparr>current := True, pcmds := bs @ [new_command\<lparr>args := u\<rparr>]\<rparr>"
  have "on_word w st = Some ?st"
    using u(1) assms(1) by (cases st) (auto simp: at_def on_word_def on_last_def new_command_def)
  moreover have "parse_pipeline (map STRING ws @ ts) ?st = parse_pipeline ts (?st\<lparr>pcmds := bs @ [new_command\<lparr>args := u, args := v\<rparr>]\<rparr>)"
    by (rule parse_words [OF u(2)]) simp_all
  moreover have "map the (take (argc v) (cells v)) = argv cmd"
    using v(3) assms(2) c_str_good by (auto simp: good_command_def intro!: map_idI)
  ultimately show ?thesis by auto
qed

text \<open>What happens behind the last command of a line, when no further command follows.\<close>

definition line_end :: "token list \<Rightarrow> pstate \<Rightarrow> parse_result" where
  "line_end es st =
     (if next_is PIPE es then syntax_error (tl es) st
      else if next_is BACKGROUND es then parse_end (tl es) (st\<lparr>in_background := True\<rparr>)
      else parse_end es (st\<lparr>in_background := False\<rparr>))"

definition no_command :: "token list \<Rightarrow> bool" where
  "no_command es \<longleftrightarrow> es \<noteq> [] \<and> next_string es = None \<and> hd es \<notin> {INPUT_REDIR, OUTPUT_REDIR} \<and>
     (next_is PIPE es \<longrightarrow> next_string (tl es) = None)"

lemma parse_redirs_print:
  assumes "pcmds st = bs @ [c]" "good_command cmd" "ts \<noteq> []" "hd ts \<notin> {INPUT_REDIR, OUTPUT_REDIR}"
  shows "parse_redirs (redir_tokens cmd @ ts) st =
    Inr (ts, st\<lparr>pcmds := bs @ [c\<lparr>in_redir := input_redir cmd, out_redir := output_redir cmd\<rparr>]\<rparr>)"
  using assms c_str_good
  by (cases ts) (auto simp: parse_redirs_def parse_redir_def redir_tokens_def on_last_def good_command_def split: option.split)

lemma next_string_redir: "next_string ts = None \<Longrightarrow> next_string (redir_tokens c @ ts) = None"
  by (auto simp: redir_tokens_def next_string_def split: option.split)

text \<open>One command with what follows it: from where its first word is parsed to where it is complete.\<close>

lemma parse_command:
  assumes "at st bs" "good_command c" "argv c = w # ws" "ts \<noteq> []" "hd ts \<notin> {INPUT_REDIR, OUTPUT_REDIR}" "next_string ts = None"
  shows "\<exists>st1 pc. on_word w st = Some st1 \<and> command_of pc = c \<and>
    parse_pipeline (map STRING ws @ redir_tokens c @ ts) st1 =
      (let st = st\<lparr>pcmds := bs @ [pc], current := False\<rparr> in
       if next_is PIPE ts
       then (case next_string (tl ts) of None \<Rightarrow> syntax_error (tl ts) st
             | Some (w, q) \<Rightarrow> (case on_word w st of None \<Rightarrow> None | Some st \<Rightarrow> parse_pipeline q st))
       else line_end ts st)"
proof -
  obtain st1 v where v: "on_word w st = Some st1"
      "parse_pipeline (map STRING ws @ redir_tokens c @ ts) st1 =
        parse_pipeline (redir_tokens c @ ts) (st\<lparr>current := True, pcmds := bs @ [new_command\<lparr>args := v\<rparr>]\<rparr>)"
      "map the (take (argc v) (cells v)) = argv c"
    using parse_command_words [OF assms(1-3), of "redir_tokens c @ ts"] by blast
  let ?st = "st\<lparr>current := True, pcmds := bs @ [new_command\<lparr>args := v\<rparr>]\<rparr>"
  let ?pc = "new_command\<lparr>args := v, in_redir := input_redir c, out_redir := output_redir c\<rparr>"
  have "parse_redirs (redir_tokens c @ ts) ?st = Inr (ts, ?st\<lparr>pcmds := bs @ [?pc]\<rparr>)"
    using parse_redirs_print [of ?st bs "new_command\<lparr>args := v\<rparr>" c ts] assms by simp
  then have "parse_pipeline (redir_tokens c @ ts) ?st =
      (let st = st\<lparr>pcmds := bs @ [?pc], current := False\<rparr> in
       if next_is PIPE ts
       then (case next_string (tl ts) of None \<Rightarrow> syntax_error (tl ts) st
             | Some (w, q) \<Rightarrow> (case on_word w st of None \<Rightarrow> None | Some st \<Rightarrow> parse_pipeline q st))
       else line_end ts st)"
    using next_string_redir [OF assms(6), of c] by (subst parse_pipeline.simps) (simp add: Let_def line_end_def split: option.split)
  moreover have "command_of ?pc = c" using v(3) by (cases c) (simp add: command_of_def)
  ultimately show ?thesis using v by metis
qed

lemma parse_commands:
  "at st bs \<Longrightarrow> cs \<noteq> [] \<Longrightarrow> \<forall>c \<in> set cs. good_command c \<Longrightarrow> no_command es \<Longrightarrow>
    \<exists>w ws st1 pcs. command_tokens cs @ es = STRING w # ws \<and> on_word w st = Some st1 \<and>
      parse_pipeline ws st1 = line_end es (st\<lparr>pcmds := pcs, current := False\<rparr>) \<and>
      map command_of pcs = map command_of bs @ cs"
proof (induction cs arbitrary: st bs rule: command_tokens.induct)
  case (2 c)
  obtain w ws where w: "argv c = w # ws" using 2(3) by (cases "argv c") (auto simp: good_command_def)
  obtain st1 pc where pc: "on_word w st = Some st1" "command_of pc = c"
    "parse_pipeline (map STRING ws @ redir_tokens c @ es) st1 = line_end es (st\<lparr>pcmds := bs @ [pc], current := False\<rparr>)"
    using parse_command [OF 2(1) _ w, of es] 2(3,4) by (auto simp: no_command_def line_end_def Let_def)
  then show ?case using w by (intro exI [of _ w] exI [of _ "map STRING ws @ redir_tokens c @ es"] exI [of _ st1] exI [of _ "bs @ [pc]"]) simp
next
  case (3 c d cs)
  obtain w ws where w: "argv c = w # ws" using 3(4) by (cases "argv c") (auto simp: good_command_def)
  let ?ts = "PIPE # command_tokens (d # cs) @ es"
  have nn: "next_string ?ts = None" by (simp add: next_string_def)
  obtain st1 pc where pc: "on_word w st = Some st1" "command_of pc = c"
    "parse_pipeline (map STRING ws @ redir_tokens c @ ?ts) st1 =
      (case next_string (command_tokens (d # cs) @ es) of None \<Rightarrow> syntax_error (tl ?ts) (st\<lparr>pcmds := bs @ [pc], current := False\<rparr>)
       | Some (w, q) \<Rightarrow> (case on_word w (st\<lparr>pcmds := bs @ [pc], current := False\<rparr>) of None \<Rightarrow> None | Some st \<Rightarrow> parse_pipeline q st))"
    using parse_command [OF 3(2) _ w _ _ nn] 3(4) by (auto simp: Let_def)
  let ?st = "st\<lparr>pcmds := bs @ [pc], current := False\<rparr>"
  have "at ?st (bs @ [pc])" by (simp add: at_def)
  then obtain x xs st3 pcs where x: "command_tokens (d # cs) @ es = STRING x # xs" "on_word x ?st = Some st3"
      "parse_pipeline xs st3 = line_end es (?st\<lparr>pcmds := pcs, current := False\<rparr>)"
      "map command_of pcs = map command_of (bs @ [pc]) @ d # cs"
    using 3(1) [of ?st "bs @ [pc]"] 3(4,5) by auto
  have "parse_pipeline (map STRING ws @ redir_tokens c @ ?ts) st1 = line_end es (st\<lparr>pcmds := pcs, current := False\<rparr>)"
    using pc(3) x(1-3) by simp
  then show ?case using pc(1,2) x(4) w
    by (intro exI [of _ w] exI [of _ "map STRING ws @ redir_tokens c @ ?ts"] exI [of _ st1] exI [of _ pcs]) simp
qed simp

lemma yyparse_commands:
  assumes "cs \<noteq> []" "\<forall>c \<in> set cs. good_command c" "no_command es"
  shows "\<exists>pcs. yyparse (command_tokens cs @ es) parse_start = line_end es (parse_start\<lparr>pcmds := pcs, current := False\<rparr>) \<and>
    map command_of pcs = cs"
proof -
  have "at parse_start []" by (simp add: at_def parse_start_def)
  from parse_commands [OF this assms] show ?thesis by (auto simp: yyparse_def)
qed

lemma parse_line:
  assumes "good_pipeline p"
  shows "\<exists>st. yyparse (line_tokens p @ ts) parse_start = Some (True, False, ts, st) \<and>
    parsed_line False st = \<lparr>eof = False, builtin = BUILTIN_NONE, builtin_arg = None, current_pipeline = p\<rparr>"
proof -
  let ?es = "(if background p then [BACKGROUND, NL] else [NL]) @ ts"
  have "no_command ?es" by (auto simp: no_command_def next_string_def)
  then obtain pcs where "yyparse (command_tokens (commands p) @ ?es) parse_start = line_end ?es (parse_start\<lparr>pcmds := pcs, current := False\<rparr>)"
      "map command_of pcs = commands p"
    using yyparse_commands [of "commands p" ?es] assms by (auto simp: good_pipeline_def)
  then show ?thesis
    by (cases p) (auto simp: line_tokens_def line_end_def parse_end_def parsed_line_def parse_start_def)
qed

lemma good_tokens: "good_pipeline p \<Longrightarrow> \<forall>t \<in> set (line_tokens p). good_token t"
proof -
  have "\<forall>c \<in> set cs. good_command c \<Longrightarrow> \<forall>t \<in> set (command_tokens cs). good_token t" for cs
    by (induction cs rule: command_tokens.induct)
      (auto simp: good_command_def redir_tokens_def good_token_def split: option.splits)
  then show "good_pipeline p \<Longrightarrow> \<forall>t \<in> set (line_tokens p). good_token t"
    by (auto simp: good_pipeline_def line_tokens_def good_token_def)
qed

lemma scan_line:
  assumes "good_pipeline p"
  shows "scan (print_line p @ r) = line_tokens p @ scan r"
proof -
  obtain ts where ts: "line_tokens p = ts @ [NL]" by (cases "background p") (auto simp: line_tokens_def)
  have "scan (print_tokens ts @ newline # r) = ts @ scan (newline # r)"
    using good_tokens [OF assms] ts by (intro scan_print) (auto simp: break_def)
  then show ?thesis using ts by (simp add: print_line_def print_tokens_def print_token_def scan_newline)
qed

end
