(* ===== verification/Script_Properties.thy ===== *)
theory Script_Properties
  imports Shell_Script Shell_Properties
begin

section \<open>Properties of the command language\<close>

text \<open>
  From the text of a script to what the shell does: reading back what was written, well-formed results
  of the parser for every input, scripts run line by line, and what becomes of lines with syntax errors.
\<close>

text \<open>
  C9: Reading a command line. A pipeline of any commands of one to seven words, with any redirections, in
  the foreground or the background, is read back from its text exactly as it was: the scanner
  and the parser accept the line, build this pipeline and leave the text behind the line. Words may
  contain every character but NUL and the double quote.
\<close>

theorem line_roundtrip:
  assumes "good_pipeline p"
  shows "\<exists>st. yyparse (scan (print_line p @ rest)) parse_start = Some (True, False, scan rest, st) \<and>
    parsed_line False st = \<lparr>eof = False, builtin = BUILTIN_NONE, builtin_arg = None, current_pipeline = p\<rparr>"
  using parse_line [OF assms] scan_line [OF assms] by simp

definition sample_line :: pipeline where
  "sample_line = \<lparr>commands = [\<lparr>argv = [''cat'', ''a b; c''], input_redir = Some ''f'', output_redir = None\<rparr>,
     \<lparr>argv = [''wc'', ''-l''], input_redir = None, output_redir = Some ''exit''\<rparr>], background = True\<rparr>"

lemma sample_line_good: "good_pipeline sample_line"
  by (simp add: sample_line_def good_pipeline_def good_command_def good_word_def dquote_def NUL_def)

theorem line_roundtrip_witness:
  "print_line sample_line =
     '' cat '' @ [dquote] @ ''a b; c'' @ [dquote] @ '' < f | wc -l > '' @ [dquote] @ ''exit'' @ [dquote] @ '' &'' @ [newline] \<and>
   (\<exists>st. yyparse (scan (print_line sample_line @ ''next'')) parse_start = Some (True, False, scan ''next'', st) \<and>
     current_pipeline (parsed_line False st) = sample_line)"
proof
  show "print_line sample_line =
     '' cat '' @ [dquote] @ ''a b; c'' @ [dquote] @ '' < f | wc -l > '' @ [dquote] @ ''exit'' @ [dquote] @ '' &'' @ [newline]"
    by (simp add: sample_line_def print_line_def print_tokens_def line_tokens_def redir_tokens_def print_token_def print_word_def
        plain_word_def is_CHAR_def keyword_def)
  show "\<exists>st. yyparse (scan (print_line sample_line @ ''next'')) parse_start = Some (True, False, scan ''next'', st) \<and>
     current_pipeline (parsed_line False st) = sample_line"
    using line_roundtrip [OF sample_line_good, of "''next''"] by auto
qed

text \<open>
  C33: What the parser hands over. Whatever the tokens are, a call of \<^verbatim>\<open>yyparse\<close> stores outside an argument vector only if there are eight words in a
  row among them. Otherwise it takes at least one token or
  meets the end of the input, and leaves no command at all, or a pipeline in which every command has one
  to seven words, and then no builtin: \<^verbatim>\<open>run_pipeline\<close> never calls \<^verbatim>\<open>execvp\<close> without a program name.
\<close>

theorem parsed_well_formed:
  "case yyparse ts parse_start of
     None \<Rightarrow> \<exists>xs ws ys. ts = xs @ map STRING ws @ ys \<and> length ws = 8
   | Some (accepted, e, rest, st) \<Rightarrow>
       (if e then rest = [] else length rest < length ts) \<and>
       (commands (current_pipeline (parsed_line e st)) = [\<lparr>argv = [], input_redir = None, output_redir = None\<rparr>] \<or>
        builtin (parsed_line e st) = BUILTIN_NONE \<and> commands (current_pipeline (parsed_line e st)) \<noteq> [] \<and>
        (\<forall>c \<in> set (commands (current_pipeline (parsed_line e st))). 1 \<le> length (argv c) \<and> length (argv c) \<le> 7))"
proof (cases "yyparse ts parse_start")
  case None
  then obtain k ws ys where "drop k ts = map STRING ws @ ys" "length ws = 8"
    using yyparse_None [OF None] by (auto simp: has_words_def starts_words_def)
  then show ?thesis using None append_take_drop_id [of k ts] by (simp, metis)
next
  case (Some res)
  obtain accepted e rest st where res: "res = (accepted, e, rest, st)" by (cases res) auto
  have v: "1 \<le> length (argv (command_of c)) \<and> length (argv (command_of c)) \<le> 7" if "vec_ok (args c)" for c
    using that by (auto simp: vec_ok_def command_of_def)
  have n: "command_of new_command = \<lparr>argv = [], input_redir = None, output_redir = None\<rparr>"
    by (simp add: command_of_def new_command_def)
  show ?thesis
    using yyparse_ok [of ts accepted e rest st] shrunk_yyparse [of ts parse_start] Some res v n
    by (auto simp: parsed_line_def commands_ok_def shrunk_def)
qed

text \<open>At the witness, the printed sample line is parsed again.\<close>

theorem parsed_well_formed_witness:
  "\<exists>accepted rest st. yyparse (scan (print_line sample_line)) parse_start = Some (accepted, False, rest, st) \<and>
    (\<forall>c \<in> set (commands (current_pipeline (parsed_line False st))). 1 \<le> length (argv c))"
proof -
  obtain st where st: "yyparse (scan (print_line sample_line)) parse_start = Some (True, False, scan [], st)"
    "current_pipeline (parsed_line False st) = sample_line"
    using scan_line [OF sample_line_good, of "[]"] parse_line [OF sample_line_good, of "scan []"] by auto
  have "commands sample_line \<noteq> [\<lparr>argv = [], input_redir = None, output_redir = None\<rparr>]" by (simp add: sample_line_def)
  then show ?thesis using parsed_well_formed [of "scan (print_line sample_line)"] st by auto
qed

text \<open>
  C18: Scripts. A text of any number of printed pipelines, each of which can be started and has no output
  redirection in front of a pipe, is run line by line in order: the shell ends at the end of the
  text, and its exit status is what the last pipeline returned.
\<close>

definition consistent :: "pipeline \<Rightarrow> bool" where
  "consistent p \<longleftrightarrow> (\<forall>i. Suc i < length (commands p) \<longrightarrow> output_redir (commands p ! i) = None)"

lemma check_consistency_iff: "check_consistency (commands p) \<longleftrightarrow> consistent p"
proof -
  have "check_consistency cs \<longleftrightarrow> (\<forall>i. Suc i < length cs \<longrightarrow> output_redir (cs ! i) = None)" for cs
  proof (induction cs)
    case (Cons c cs)
    have "(\<forall>i. Suc i < length (c # cs) \<longrightarrow> output_redir ((c # cs) ! i) = None) \<longleftrightarrow>
        (cs \<noteq> [] \<longrightarrow> output_redir c = None) \<and> (\<forall>i. Suc i < length cs \<longrightarrow> output_redir (cs ! i) = None)"
      by (auto simp: nth_Cons' split: if_splits)
    then show ?case using Cons by (auto simp: Let_def)
  qed simp
  then show ?thesis by (simp add: consistent_def)
qed

lemma script_round:
  assumes "good_pipeline p" "consistent p" "runnable (fst (env 0)) p"
  shows "\<exists>r. run_pipeline (fst (env 0)) p = Some r \<and>
    shell_main env (line_tokens p @ ts) s = shell_main (\<lambda>i. env (Suc i)) ts (s\<lparr>last_status := ret r\<rparr>)"
proof -
  obtain st where st: "yyparse (line_tokens p @ ts) parse_start = Some (True, False, ts, st)"
    "parsed_line False st = \<lparr>eof = False, builtin = BUILTIN_NONE, builtin_arg = None, current_pipeline = p\<rparr>"
    using parse_line [OF assms(1)] by blast
  obtain r where r: "run_pipeline (fst (env 0)) p = Some r" using run_pipeline_runnable [OF assms(3)] by blast
  have "shell_round (fst (env 0)) (snd (env 0)) (parsed_line False st) s = Some (Inr (s\<lparr>last_status := ret r\<rparr>))"
    using st(2) r assms(2,3) by (simp add: shell_round_def check_consistency_iff runnable_def Let_def)
  then show ?thesis using st(1) r by (subst shell_main.simps) simp
qed

lemma shell_main_eof: "shell_main env [] s = Some (last_status s)"
  by (subst shell_main.simps) (simp add: yyparse_def parse_end_def shell_round_eof)

theorem script_runs:
  assumes "\<forall>i < length ps. good_pipeline (ps ! i) \<and> consistent (ps ! i) \<and> runnable (fst (env i)) (ps ! i)"
  shows "\<exists>rs. length rs = length ps \<and> (\<forall>i < length ps. run_pipeline (fst (env i)) (ps ! i) = Some (rs ! i)) \<and>
    shell_main env (scan (concat (map print_line ps))) s = Some (if ps = [] then last_status s else ret (last rs))"
  using assms
proof (induction ps arbitrary: env s)
  case Nil
  then show ?case by (simp add: shell_main_eof)
next
  case (Cons p ps)
  have p: "good_pipeline p" "consistent p" "runnable (fst (env 0)) p" using Cons.prems by (auto dest: spec [of _ 0])
  obtain r where r: "run_pipeline (fst (env 0)) p = Some r"
    "\<And>ts. shell_main env (line_tokens p @ ts) s = shell_main (\<lambda>i. env (Suc i)) ts (s\<lparr>last_status := ret r\<rparr>)"
    using script_round [of p env _ s, OF p] by (metis option.inject)
  obtain rs where rs: "length rs = length ps" "\<forall>i < length ps. run_pipeline (fst (env (Suc i))) (ps ! i) = Some (rs ! i)"
    "shell_main (\<lambda>i. env (Suc i)) (scan (concat (map print_line ps))) (s\<lparr>last_status := ret r\<rparr>) =
      Some (if ps = [] then ret r else ret (last rs))"
    using Cons.IH [of "\<lambda>i. env (Suc i)" "s\<lparr>last_status := ret r\<rparr>"] Cons.prems by fastforce
  have "shell_main env (scan (concat (map print_line (p # ps)))) s = Some (ret (last (r # rs)))"
    using r(2) rs(1,3) scan_line [OF p(1)] by auto
  moreover have "\<forall>i < length (p # ps). run_pipeline (fst (env i)) ((p # ps) ! i) = Some ((r # rs) ! i)"
    using r(1) rs(2) by (auto simp: nth_Cons split: nat.split)
  ultimately show ?case using rs(1) by (intro exI [of _ "r # rs"]) simp
qed

theorem script_runs_witness:
  "\<exists>r. run_pipeline plain_os (cat_wc False) = Some r \<and>
    shell_main (\<lambda>_. (plain_os, \<lambda>_. True)) (scan (print_line (cat_wc True) @ print_line (cat_wc False))) \<lparr>last_status = 9, unfreed = []\<rparr> =
      Some (ret r)"
proof -
  let ?ps = "[cat_wc True, cat_wc False]"
  have ok: "good_pipeline (cat_wc b) \<and> consistent (cat_wc b) \<and> runnable plain_os (cat_wc b)" for b
    by (simp add: cat_wc_def good_pipeline_def good_command_def good_word_def dquote_def NUL_def consistent_def
        runnable_def plain_os_def)
  have "\<forall>i < length ?ps. good_pipeline (?ps ! i) \<and> consistent (?ps ! i) \<and> runnable (fst (plain_os, \<lambda>_ :: int32. True)) (?ps ! i)"
    using ok by (auto simp: nth_Cons split: nat.split)
  from script_runs [OF this [folded fst_conv [of plain_os "\<lambda>_. True"]], of "\<lparr>last_status = 9, unfreed = []\<rparr>"]
  obtain rs where "length rs = 2" "\<forall>i < 2. run_pipeline plain_os (?ps ! i) = Some (rs ! i)"
    "shell_main (\<lambda>_. (plain_os, \<lambda>_. True)) (scan (print_line (cat_wc True) @ print_line (cat_wc False))) \<lparr>last_status = 9, unfreed = []\<rparr> =
      Some (ret (last rs))" by (auto simp: numeral_2_eq_2)
  moreover from this(1) obtain a b where "rs = [a, b]" by (auto simp: numeral_2_eq_2 length_Suc_conv)
  ultimately show ?thesis by (auto dest: spec [of _ 1])
qed

text \<open>
  C40: Syntax errors. A line is executed up to the error, and the rest of the same line is taken for the
  next one: when a pipe is followed by something that is not a word, or when a reserved word stands where
  an argument could be, the parser gives up behind the offending token, all commands before it are in
  the pipeline that the main loop then runs, and parsing goes on with the remaining tokens.
\<close>

theorem syntax_error_runs_prefix:
  assumes "cs \<noteq> []" "\<forall>c \<in> set cs. good_command c"
    and "(\<exists>t. es = [PIPE, t] \<and> (\<forall>w. t \<noteq> STRING w)) \<or> (\<exists>t \<in> {EXIT, WAIT, KILL}. es = [t])"
  shows "\<exists>st. yyparse (command_tokens cs @ es @ ts) parse_start = Some (False, False, ts, st) \<and>
    parsed_line False st = \<lparr>eof = False, builtin = BUILTIN_NONE, builtin_arg = None,
      current_pipeline = \<lparr>commands = cs, background = False\<rparr>\<rparr>"
proof -
  have "no_command (es @ ts)" using assms(3) by (auto simp: no_command_def)
  from yyparse_commands [OF assms(1,2) this] obtain pcs
    where "yyparse (command_tokens cs @ es @ ts) parse_start = line_end (es @ ts) (parse_start\<lparr>pcmds := pcs, current := False\<rparr>)"
      "map command_of pcs = cs" by blast
  then show ?thesis using assms(3)
    by (auto simp: line_end_def syntax_error_def parse_end_def parsed_line_def parse_start_def)
qed

theorem syntax_error_runs_prefix_witness:
  "scan ''echo exit b'' = [STRING ''echo'', EXIT, STRING ''b''] \<and>
   (\<exists>st. yyparse (scan ''echo exit b'') parse_start = Some (False, False, [STRING ''b''], st) \<and>
     commands (current_pipeline (parsed_line False st)) = [\<lparr>argv = [''echo''], input_redir = None, output_redir = None\<rparr>])"
proof -
  have b: "not_semicolon ''exit b''" "word_end '' exit b''" "not_semicolon ''b''" "word_end '' b''" "word_end []"
    by (simp_all add: not_semicolon_def word_end_def is_CHAR_def)
  have s: "scan ''echo exit b'' = [STRING ''echo'', EXIT, STRING ''b'']"
    using scan_word [of "''echo''" "'' exit b''"] scan_symbol(5) [OF b(1)] scan_keyword(1) [OF b(4)] scan_symbol(5) [OF b(3)]
      scan_word [of "''b''" "[]"] b(2,5)
    by (simp add: plain_word_def keyword_def is_CHAR_def)
  let ?c = "\<lparr>argv = [''echo''], input_redir = None, output_redir = None\<rparr>"
  have "good_command ?c" by (simp add: good_command_def good_word_def dquote_def NUL_def)
  then show ?thesis using s syntax_error_runs_prefix [of "[?c]" "[EXIT]" "[STRING ''b'']"] by (auto simp: redir_tokens_def)
qed

text \<open>
  Two oddities of the scanner: a single character in front of a semicolon is dropped together with it,
  and two words in single quotes are one, with everything between them.
\<close>

theorem scanner_drops_and_joins:
  "scan ''a;b'' = [STRING ''b''] \<and>
   scan ([squote] @ ''a'' @ [squote] @ '' c '' @ [squote] @ ''b'' @ [squote]) =
     [STRING (''a'' @ [squote] @ '' c '' @ [squote] @ ''b'')]"
  by (simp add: scan.simps rules_def lens newline_def is_CHAR_def squote_def dquote_def QUOTED_CHAR_def unquote_def Let_def)

end
