(* ===== verification/Lf_Map.thy ===== *)
theory Lf_Map
  imports Sys_Prelude
begin

section \<open>The lock-free hash map\<close>

text \<open>
  \<^verbatim>\<open>task04-concurrency/src/lockfreehashmap.c\<close> as an interleaving of threads: every atomic
  access of \<^verbatim>\<open>insert_item\<close>, \<^verbatim>\<open>remove_item\<close> and \<^verbatim>\<open>lookup_item\<close> is one step, and any
  number of threads take steps in any order (the memory orders of the source are taken to
  give sequential consistency). A weak compare-and-swap may fail without reason. Nodes are
  not freed before \<^verbatim>\<open>free_hashmap\<close>, so a node pointer is a number that is used once. The
  threads share a map that \<^verbatim>\<open>alloc_hashmap\<close> returned, so the checks for NULL and for no
  buckets at the start of the operations do not fire.

  \<open>published\<close> is a history variable that no step reads: per bucket, the nodes whose
  insertion was completed, latest first. Likewise the traversals carry the history as it was
  when they read the bucket's head.
\<close>

type_synonym node_ptr = "nat option"
type_synonym long = "64 word"

record Node_HM =
  m_val :: long
  m_next :: node_ptr
  is_deleted :: bool

record lf_map =
  n_buckets :: size_t
  sentinel :: "nat \<Rightarrow> node_ptr"
  nodes :: "nat \<Rightarrow> Node_HM"
  fresh :: nat
  published :: "nat \<Rightarrow> nat list"

text \<open>A link: the head of a bucket or the \<^verbatim>\<open>m_next\<close> field of a node.\<close>

datatype link = Sentinel nat | Next nat

definition load_link :: "link \<Rightarrow> lf_map \<Rightarrow> node_ptr" where
  "load_link l s = (case l of Sentinel b \<Rightarrow> sentinel s b | Next x \<Rightarrow> m_next (nodes s x))"

definition store_link :: "link \<Rightarrow> node_ptr \<Rightarrow> lf_map \<Rightarrow> lf_map" where
  "store_link l p s =
     (case l of Sentinel b \<Rightarrow> s\<lparr>sentinel := (sentinel s)(b := p)\<rparr>
      | Next x \<Rightarrow> s\<lparr>nodes := (nodes s)(x := (nodes s x)\<lparr>m_next := p\<rparr>)\<rparr>)"

definition bucket_of :: "lf_map \<Rightarrow> long \<Rightarrow> nat" where
  "bucket_of s v = unat (v mod n_buckets s)"

text \<open>Where a thread is: the locals of the three operations at each of their atomic
  accesses, and the result of the last operation.\<close>

datatype pc =
  Idle "int option"
| Ins_load long nat
| Ins_store long nat node_ptr
| Ins_cas long nat node_ptr
| Rem_load long
| Rem_loop long link node_ptr "nat list"
| Rem_mark long link nat node_ptr "nat list"
| Rem_unlink long link nat node_ptr "nat list"
| Look_load long
| Look_loop long node_ptr "nat list"
| Look_next long nat "nat list"

text \<open>One step of a thread. \<open>ok\<close> is the outcome of what the environment decides: whether
  \<^verbatim>\<open>malloc\<close> succeeds, and whether a weak compare-and-swap that could succeed does.\<close>

definition new_node :: "long \<Rightarrow> lf_map \<Rightarrow> lf_map" where
  "new_node v s =
     s\<lparr>nodes := (nodes s)(fresh s := \<lparr>m_val = v, m_next = None, is_deleted = False\<rparr>),
       fresh := Suc (fresh s)\<rparr>"

definition start_insert :: "bool \<Rightarrow> long \<Rightarrow> lf_map \<Rightarrow> pc \<times> lf_map" where
  "start_insert ok v s = (if ok then (Ins_load v (fresh s), new_node v s) else (Idle (Some 1), s))"

definition mark_node :: "nat \<Rightarrow> lf_map \<Rightarrow> lf_map" where
  "mark_node x s = s\<lparr>nodes := (nodes s)(x := (nodes s x)\<lparr>is_deleted := True\<rparr>)\<rparr>"

definition publish :: "nat \<Rightarrow> nat \<Rightarrow> lf_map \<Rightarrow> lf_map" where
  "publish b x s = s\<lparr>sentinel := (sentinel s)(b := Some x),
     published := (published s)(b := x # published s b)\<rparr>"

fun thread_step :: "bool \<Rightarrow> pc \<Rightarrow> lf_map \<Rightarrow> pc \<times> lf_map" where
  "thread_step ok (Idle r) s = (Idle r, s)"
| "thread_step ok (Ins_load v x) s = (Ins_store v x (sentinel s (bucket_of s v)), s)"
| "thread_step ok (Ins_store v x old) s = (Ins_cas v x old, store_link (Next x) old s)"
| "thread_step ok (Ins_cas v x old) s =
     (let b = bucket_of s v in
      if sentinel s b = old \<and> ok then (Idle (Some 0), publish b x s)
      else (Ins_store v x (sentinel s b), s))"
| "thread_step ok (Rem_load v) s =
     (let b = bucket_of s v in (Rem_loop v (Sentinel b) (sentinel s b) (published s b), s))"
| "thread_step ok (Rem_loop v cur_ptr cur h) s =
     (case cur of None \<Rightarrow> (Idle (Some 1), s)
      | Some x \<Rightarrow>
          let nxt = m_next (nodes s x) in
          if m_val (nodes s x) = v then (Rem_mark v cur_ptr x nxt h, s)
          else (Rem_loop v (Next x) nxt h, s))"
| "thread_step ok (Rem_mark v cur_ptr x nxt h) s =
     (if \<not> is_deleted (nodes s x) then (Rem_unlink v cur_ptr x nxt h, mark_node x s)
      else (Rem_loop v (Next x) nxt h, s))"
| "thread_step ok (Rem_unlink v cur_ptr x nxt h) s =
     (if load_link cur_ptr s = Some x \<and> ok then (Idle (Some 0), store_link cur_ptr nxt s)
      else (Idle (Some 0), s))"
| "thread_step ok (Look_load v) s =
     (let b = bucket_of s v in (Look_loop v (sentinel s b) (published s b), s))"
| "thread_step ok (Look_loop v cur h) s =
     (case cur of None \<Rightarrow> (Idle (Some 1), s)
      | Some x \<Rightarrow>
          if m_val (nodes s x) = v \<and> \<not> is_deleted (nodes s x) then (Idle (Some 0), s)
          else (Look_next v x h, s))"
| "thread_step ok (Look_next v x h) s = (Look_loop v (m_next (nodes s x)) h, s)"

text \<open>The whole system: the map and the threads. A thread that is idle may start an
  operation; a thread in an operation may take its next step.\<close>

record lf_sys =
  hm :: lf_map
  threads :: "nat \<Rightarrow> pc"

inductive lf_step :: "lf_sys \<Rightarrow> lf_sys \<Rightarrow> bool" where
  insert: "threads c t = Idle r \<Longrightarrow> start_insert ok v (hm c) = (p, s) \<Longrightarrow>
    lf_step c \<lparr>hm = s, threads = (threads c)(t := p)\<rparr>"
| remove: "threads c t = Idle r \<Longrightarrow> lf_step c (c\<lparr>threads := (threads c)(t := Rem_load v)\<rparr>)"
| lookup: "threads c t = Idle r \<Longrightarrow> lf_step c (c\<lparr>threads := (threads c)(t := Look_load v)\<rparr>)"
| run: "thread_step ok (threads c t) (hm c) = (p, s) \<Longrightarrow>
    lf_step c \<lparr>hm = s, threads = (threads c)(t := p)\<rparr>"

text \<open>\<^verbatim>\<open>alloc_hashmap\<close>: \<open>oks i\<close> says whether its \<open>i\<close>-th allocation succeeds (the map, the bucket
  array, then one list head per bucket); after a failure what was allocated is freed.\<close>

definition alloc_hashmap :: "(nat \<Rightarrow> bool) \<Rightarrow> size_t \<Rightarrow> lf_map option" where
  "alloc_hashmap oks n =
     (if n = 0 then None
      else if \<not> oks 0 then None
      else if \<not> oks 1 then None
      else if \<exists>i < unat n. \<not> oks (i + 2) then None
      else Some \<lparr>n_buckets = n, sentinel = (\<lambda>_. None),
                 nodes = (\<lambda>_. \<lparr>m_val = 0, m_next = None, is_deleted = False\<rparr>),
                 fresh = 0, published = (\<lambda>_. [])\<rparr>)"

inductive lf_reachable :: "lf_sys \<Rightarrow> bool" where
  start: "alloc_hashmap oks n = Some s \<Longrightarrow> lf_reachable \<lparr>hm = s, threads = (\<lambda>_. Idle None)\<rparr>"
| step: "lf_reachable c \<Longrightarrow> lf_step c c' \<Longrightarrow> lf_reachable c'"

end
