(* ===== verification/Lf_Invariant.thy ===== *)
theory Lf_Invariant
  imports Lf_Map
begin

section \<open>The lock-free hash map: no live node is ever skipped\<close>

text \<open>
  \<open>after s l\<close> are the published nodes behind a link, \<open>skip s L p\<close> says that a link that
  leads over the nodes \<open>L\<close> to \<open>p\<close> jumps over deleted nodes only. The invariant is that
  this holds for every link of the map at all times, although unlinking uses a successor
  that was read before the node was marked.
\<close>

definition dead :: "lf_map \<Rightarrow> nat \<Rightarrow> bool" where
  "dead s x = is_deleted (nodes s x)"

definition home :: "lf_map \<Rightarrow> nat \<Rightarrow> nat" where
  "home s x = bucket_of s (m_val (nodes s x))"

definition behind :: "nat \<Rightarrow> nat list \<Rightarrow> nat list" where
  "behind x xs = tl (dropWhile (\<lambda>y. y \<noteq> x) xs)"

definition after :: "lf_map \<Rightarrow> link \<Rightarrow> nat list" where
  "after s l = (case l of Sentinel b \<Rightarrow> published s b | Next x \<Rightarrow> behind x (published s (home s x)))"

definition skip :: "lf_map \<Rightarrow> nat list \<Rightarrow> node_ptr \<Rightarrow> bool" where
  "skip s L p \<longleftrightarrow>
     (case p of None \<Rightarrow> \<forall>y \<in> set L. dead s y
      | Some y \<Rightarrow> \<exists>as bs. L = as @ y # bs \<and> (\<forall>z \<in> set as. dead s z))"

text \<open>The nodes a traversal at \<open>p\<close> still has to visit, at most.\<close>

definition rest :: "lf_map \<Rightarrow> node_ptr \<Rightarrow> nat list" where
  "rest s p = (case p of None \<Rightarrow> [] | Some x \<Rightarrow> x # after s (Next x))"

definition link_ok :: "lf_map \<Rightarrow> nat \<Rightarrow> link \<Rightarrow> bool" where
  "link_ok s b l \<longleftrightarrow> (case l of Sentinel b' \<Rightarrow> b' = b | Next x \<Rightarrow> x \<in> set (published s b))"

definition map_inv :: "lf_map \<Rightarrow> bool" where
  "map_inv s \<longleftrightarrow> n_buckets s \<noteq> 0 \<and>
     (\<forall>b. distinct (published s b)) \<and>
     (\<forall>b. \<forall>x \<in> set (published s b). x < fresh s \<and> home s x = b) \<and>
     (\<forall>b l. link_ok s b l \<longrightarrow> skip s (after s l) (load_link l s))"

text \<open>A node that a running insertion has not published yet.\<close>

definition unpublished :: "lf_map \<Rightarrow> nat \<Rightarrow> bool" where
  "unpublished s x \<longleftrightarrow> x < fresh s \<and> (\<forall>b. x \<notin> set (published s b))"

text \<open>All nodes of the history \<open>h\<close> with value \<open>v\<close> that are not among \<open>L\<close> are deleted.\<close>

definition passed :: "lf_map \<Rightarrow> long \<Rightarrow> nat list \<Rightarrow> nat list \<Rightarrow> bool" where
  "passed s v h L \<longleftrightarrow> (\<forall>x \<in> set h. x \<in> set (published s (bucket_of s v))) \<and>
     (\<forall>x \<in> set h. x \<notin> set L \<longrightarrow> m_val (nodes s x) = v \<longrightarrow> dead s x)"

definition at_node :: "lf_map \<Rightarrow> long \<Rightarrow> node_ptr \<Rightarrow> bool" where
  "at_node s v p \<longleftrightarrow> (case p of None \<Rightarrow> True | Some x \<Rightarrow> x \<in> set (published s (bucket_of s v)))"

fun pc_inv :: "lf_map \<Rightarrow> pc \<Rightarrow> bool" where
  "pc_inv s (Idle r) \<longleftrightarrow> True"
| "pc_inv s (Ins_load v x) \<longleftrightarrow> unpublished s x \<and> m_val (nodes s x) = v \<and> \<not> dead s x"
| "pc_inv s (Ins_store v x old) \<longleftrightarrow> unpublished s x \<and> m_val (nodes s x) = v \<and> \<not> dead s x"
| "pc_inv s (Ins_cas v x old) \<longleftrightarrow> unpublished s x \<and> m_val (nodes s x) = v \<and> \<not> dead s x \<and> m_next (nodes s x) = old"
| "pc_inv s (Rem_load v) \<longleftrightarrow> True"
| "pc_inv s (Rem_loop v l cur h) \<longleftrightarrow>
     link_ok s (bucket_of s v) l \<and> at_node s v cur \<and> passed s v h (rest s cur)"
| "pc_inv s (Rem_mark v l x nxt h) \<longleftrightarrow>
     link_ok s (bucket_of s v) l \<and> at_node s v (Some x) \<and> m_val (nodes s x) = v \<and>
     skip s (after s (Next x)) nxt \<and> passed s v h (rest s (Some x))"
| "pc_inv s (Rem_unlink v l x nxt h) \<longleftrightarrow>
     link_ok s (bucket_of s v) l \<and> at_node s v (Some x) \<and> dead s x \<and> skip s (after s (Next x)) nxt"
| "pc_inv s (Look_load v) \<longleftrightarrow> True"
| "pc_inv s (Look_loop v cur h) \<longleftrightarrow> at_node s v cur \<and> passed s v h (rest s cur)"
| "pc_inv s (Look_next v x h) \<longleftrightarrow>
     at_node s v (Some x) \<and> (m_val (nodes s x) = v \<longrightarrow> dead s x) \<and> passed s v h (rest s (Some x))"

fun owned :: "pc \<Rightarrow> nat set" where
  "owned (Ins_load v x) = {x}"
| "owned (Ins_store v x old) = {x}"
| "owned (Ins_cas v x old) = {x}"
| "owned _ = {}"

definition sys_inv :: "lf_sys \<Rightarrow> bool" where
  "sys_inv c \<longleftrightarrow> map_inv (hm c) \<and> (\<forall>t. pc_inv (hm c) (threads c t)) \<and>
     (\<forall>t u. t \<noteq> u \<longrightarrow> owned (threads c t) \<inter> owned (threads c u) = {})"

text \<open>What a step may do to the map: \<open>X\<close> are the private nodes of the thread that moves.\<close>

definition lf_evolves :: "nat set \<Rightarrow> lf_map \<Rightarrow> lf_map \<Rightarrow> bool" where
  "lf_evolves X s s' \<longleftrightarrow> n_buckets s' = n_buckets s \<and> fresh s \<le> fresh s' \<and>
     (\<forall>b. \<exists>pre. published s' b = pre @ published s b \<and> set pre \<subseteq> X) \<and>
     (\<forall>b. \<forall>x \<in> set (published s b). m_val (nodes s' x) = m_val (nodes s x) \<and> (dead s x \<longrightarrow> dead s' x)) \<and>
     (\<forall>x. unpublished s x \<longrightarrow> x \<notin> X \<longrightarrow> nodes s' x = nodes s x)"

subsection \<open>Lists behind a node\<close>

lemma behind_split: "x \<notin> set as \<Longrightarrow> behind x (as @ x # bs) = bs"
  by (simp add: behind_def dropWhile_append)

lemma behind_suffix: "x \<in> set xs \<Longrightarrow> x \<notin> set pre \<Longrightarrow> behind x (pre @ xs) = behind x xs"
  by (simp add: behind_def dropWhile_append)

lemma behind_shorter: "x \<in> set xs \<Longrightarrow> length (behind x xs) < length xs"
  by (induction xs) (auto simp: behind_def)

lemma behind_subset: "set (behind x xs) \<subseteq> set xs"
  by (induction xs) (auto simp: behind_def)

subsection \<open>The invariant is stable under the steps of other threads\<close>

lemma map_invD:
  assumes "map_inv s"
  shows "n_buckets s \<noteq> 0" "distinct (published s b)" "x \<in> set (published s b) \<Longrightarrow> x < fresh s \<and> home s x = b"
    "link_ok s b l \<Longrightarrow> skip s (after s l) (load_link l s)"
  using assms by (auto simp: map_inv_def)

lemma evolvesD:
  assumes "lf_evolves X s s'"
  shows "n_buckets s' = n_buckets s" "fresh s \<le> fresh s'"
    "\<exists>pre. published s' b = pre @ published s b \<and> set pre \<subseteq> X"
    "x \<in> set (published s b) \<Longrightarrow> m_val (nodes s' x) = m_val (nodes s x)"
    "x \<in> set (published s b) \<Longrightarrow> dead s x \<Longrightarrow> dead s' x"
    "unpublished s x \<Longrightarrow> x \<notin> X \<Longrightarrow> nodes s' x = nodes s x"
    "bucket_of s' v = bucket_of s v"
  using assms by (auto simp: lf_evolves_def bucket_of_def)

lemma evolves_published:
  "lf_evolves X s s' \<Longrightarrow> x \<in> set (published s b) \<Longrightarrow> x \<in> set (published s' b)"
  using evolvesD(3) [of X s s' b] by auto

lemma evolves_home:
  "lf_evolves X s s' \<Longrightarrow> x \<in> set (published s b) \<Longrightarrow> home s' x = home s x"
  by (simp add: home_def evolvesD)

lemma evolves_after:
  assumes inv: "map_inv s" and e: "lf_evolves X s s'" and X: "\<And>x b. x \<in> X \<Longrightarrow> x \<notin> set (published s b)"
    and x: "x \<in> set (published s b)"
  shows "after s' (Next x) = after s (Next x)"
proof -
  have h: "home s x = b" using map_invD(3) [OF inv x] by simp
  obtain pre where pre: "published s' b = pre @ published s b" "set pre \<subseteq> X" using evolvesD(3) [OF e] by blast
  have "x \<notin> set pre" using X x pre(2) by blast
  then show ?thesis using behind_suffix [OF x] h evolves_home [OF e x] pre(1) by (simp add: after_def)
qed

lemma after_published:
  "map_inv s \<Longrightarrow> x \<in> set (published s b) \<Longrightarrow> y \<in> set (after s (Next x)) \<Longrightarrow> y \<in> set (published s b)"
  using behind_subset [of x "published s b"] map_invD(3) [of s x b] by (auto simp: after_def)

lemma skip_mono:
  assumes k: "skip s L p" and m: "\<And>y. y \<in> set L \<Longrightarrow> dead s y \<Longrightarrow> dead s' y"
  shows "skip s' L p"
proof (cases p)
  case None
  then show ?thesis using k m by (simp add: skip_def)
next
  case (Some y)
  then obtain as bs where "L = as @ y # bs" "\<forall>z \<in> set as. dead s z" using k by (auto simp: skip_def)
  then have "L = as @ y # bs \<and> (\<forall>z \<in> set as. dead s' z)" using m by simp
  then show ?thesis unfolding skip_def Some option.case by blast
qed

lemma pc_inv_stable:
  assumes inv: "map_inv s" and e: "lf_evolves X s s'" and X: "\<And>x b. x \<in> X \<Longrightarrow> x \<notin> set (published s b)"
    and own: "owned p \<inter> X = {}" and p: "pc_inv s p"
  shows "pc_inv s' p"
proof -
  note d = evolvesD [OF e]
  have un: "unpublished s' x \<and> nodes s' x = nodes s x" if "unpublished s x" "x \<notin> X" for x
  proof -
    have "x \<notin> set (published s' b)" for b using d(3) [of b] that by (auto simp: unpublished_def)
    then show ?thesis using that d(2,6) by (auto simp: unpublished_def)
  qed
  have lk: "link_ok s' b l" if "link_ok s b l" for b l
    using that evolves_published [OF e] by (auto simp: link_ok_def split: link.splits)
  have at: "at_node s' v q" if "at_node s v q" for v q
    using that evolves_published [OF e] d(7) by (auto simp: at_node_def split: option.splits)
  have rs: "rest s' q = rest s q" if "at_node s v q" for v q
    using that evolves_after [OF inv e X] by (auto simp: rest_def at_node_def split: option.splits)
  have ps: "passed s' v h L" if "passed s v h L" for v h L
    using that evolves_published [OF e] d(4,5,7) by (auto simp: passed_def)
  have sk: "skip s' (after s' (Next x)) q" if "at_node s v (Some x)" "skip s (after s (Next x)) q" for v x q
  proof -
    have x: "x \<in> set (published s (bucket_of s v))" using that(1) by (simp add: at_node_def)
    have "skip s' (after s (Next x)) q"
      using that(2) by (rule skip_mono) (use after_published [OF inv x] d(5) in blast)
    then show ?thesis using evolves_after [OF inv e X x] by simp
  qed
  have vl: "m_val (nodes s' x) = m_val (nodes s x)" "dead s x \<Longrightarrow> dead s' x" if "at_node s v (Some x)" for v x
    using that d(4,5) by (auto simp: at_node_def)
  show ?thesis
  proof (cases p)
    case (Rem_loop v l cur h)
    then show ?thesis using p lk at rs [of v cur] ps d(7) by simp
  next
    case (Rem_mark v l x nxt h)
    then show ?thesis using p lk at rs [of v "Some x"] ps sk [of v x] vl [of v x] d(7) by simp
  next
    case (Rem_unlink v l x nxt h)
    then show ?thesis using p lk at sk [of v x] vl [of v x] d(7) by simp
  next
    case (Look_loop v cur h)
    then show ?thesis using p at rs [of v cur] ps by simp
  next
    case (Look_next v x h)
    then show ?thesis using p at rs [of v "Some x"] ps vl [of v x] by simp
  qed (use p own un in \<open>auto simp: dead_def\<close>)
qed

subsection \<open>The steps of one thread\<close>

text \<open>A change that publishes nothing keeps the map invariant when each link is unchanged or
  leads over deleted nodes only.\<close>

lemma map_inv_frame:
  assumes inv: "map_inv s" and same: "published s' = published s"
    and e: "lf_evolves X s s'" and X: "\<And>x b. x \<in> X \<Longrightarrow> x \<notin> set (published s b)"
    and ld: "\<And>b l. link_ok s b l \<Longrightarrow> load_link l s' = load_link l s \<or> skip s (after s l) (load_link l s')"
  shows "map_inv s'"
proof -
  note d = evolvesD [OF e]
  have "skip s' (after s' l) (load_link l s')" if l': "link_ok s' b l" for b l
  proof -
    have l: "link_ok s b l" using l' same by (cases l) (simp_all add: link_ok_def)
    have k: "skip s (after s l) (load_link l s')" using ld [OF l] map_invD(4) [OF inv l] by auto
    have mono: "dead s' y" if "y \<in> set (after s l)" "dead s y" for y
    proof -
      have "\<exists>b. y \<in> set (published s b)"
        using that(1) l after_published [OF inv] by (cases l) (auto simp: after_def link_ok_def)
      then show ?thesis using d(5) that(2) by blast
    qed
    have "after s' l = after s l"
      using l evolves_after [OF inv e X] by (cases l) (auto simp: link_ok_def after_def same)
    with skip_mono [OF k mono] show ?thesis by simp
  qed
  moreover have "x < fresh s' \<and> home s' x = b" if "x \<in> set (published s' b)" for b x
    using that map_invD(3) [OF inv, of x b] d(2) evolves_home [OF e, of x b] by (simp add: same)
  ultimately show ?thesis using inv d(1) by (auto simp: map_inv_def same)
qed

lemma new_node_inv:
  assumes inv: "map_inv s"
  shows "map_inv (new_node v s)" "lf_evolves {} s (new_node v s)" "unpublished (new_node v s) (fresh s)"
proof -
  have out: "fresh s \<notin> set (published s b)" for b using map_invD(3) [OF inv, of "fresh s" b] by auto
  then have nodes: "nodes (new_node v s) x = nodes s x" if "x \<in> set (published s b)" for x b
    using that by (auto simp: new_node_def)
  show e: "lf_evolves {} s (new_node v s)"
    using nodes by (auto simp: lf_evolves_def dead_def new_node_def unpublished_def)
  show "map_inv (new_node v s)"
    by (rule map_inv_frame [OF inv _ e])
      (use out in \<open>auto simp: new_node_def link_ok_def load_link_def split: link.splits\<close>)
  show "unpublished (new_node v s) (fresh s)" using out by (simp add: unpublished_def new_node_def)
qed

lemma store_private_inv:
  assumes inv: "map_inv s" and x: "unpublished s x"
  shows "map_inv (store_link (Next x) p s)" "lf_evolves {x} s (store_link (Next x) p s)"
proof -
  let ?s = "store_link (Next x) p s"
  have nodes: "nodes ?s y = nodes s y" if "y \<in> set (published s b)" for y b
    using that x by (auto simp: store_link_def unpublished_def)
  show e: "lf_evolves {x} s ?s"
    using nodes by (auto simp: lf_evolves_def dead_def store_link_def)
  show "map_inv ?s"
    by (rule map_inv_frame [OF inv _ e])
      (use nodes x in \<open>auto simp: store_link_def link_ok_def load_link_def unpublished_def split: link.splits\<close>)
qed

lemma mark_node_inv:
  assumes inv: "map_inv s" and x: "x \<in> set (published s b)"
  shows "map_inv (mark_node x s)" "lf_evolves {} s (mark_node x s)"
proof -
  show e: "lf_evolves {} s (mark_node x s)"
    using x by (auto simp: lf_evolves_def dead_def mark_node_def unpublished_def)
  show "map_inv (mark_node x s)"
    by (rule map_inv_frame [OF inv _ e]) (auto simp: mark_node_def load_link_def split: link.splits)
qed

text \<open>Unlinking with a successor that was read earlier: the nodes between the link and the
  successor are the deleted ones up to the node, the node, and the deleted ones behind it.\<close>

lemma unlink_inv:
  assumes inv: "map_inv s" and l: "link_ok s b l" and x: "x \<in> set (published s b)" and dx: "dead s x"
    and cur: "load_link l s = Some x" and nxt: "skip s (after s (Next x)) nxt"
  shows "map_inv (store_link l nxt s)" "lf_evolves {} s (store_link l nxt s)"
proof -
  let ?s = "store_link l nxt s"
  obtain as bs where a: "after s l = as @ x # bs" "\<forall>z \<in> set as. dead s z"
    using map_invD(4) [OF inv l] cur by (auto simp: skip_def)
  have hx: "home s x = b" using map_invD(3) [OF inv x] by simp
  have "\<exists>pre. published s b = pre @ after s l"
  proof (cases l)
    case (Sentinel b')
    then show ?thesis using l by (simp add: after_def link_ok_def)
  next
    case (Next y)
    then have y: "y \<in> set (published s b)" "home s y = b" using l map_invD(3) [OF inv, of y b] by (simp_all add: link_ok_def)
    then obtain us vs where "published s b = us @ y # vs" "y \<notin> set us" by (meson split_list_first)
    then show ?thesis using y Next behind_split [of y us vs] by (simp add: after_def)
  qed
  then obtain pre where pre: "published s b = (pre @ as) @ x # bs" using a(1) by auto
  then have "x \<notin> set (pre @ as)" using map_invD(2) [OF inv, of b] by auto
  then have bs: "after s (Next x) = bs" using hx pre behind_split [of x "pre @ as" bs] by (simp add: after_def)
  have k: "skip s (after s l) nxt"
  proof (cases nxt)
    case None
    then show ?thesis using nxt bs a dx by (auto simp: skip_def)
  next
    case (Some y)
    then obtain us vs where "bs = us @ y # vs" "\<forall>z \<in> set us. dead s z" using nxt bs by (auto simp: skip_def)
    then have "after s l = (as @ x # us) @ y # vs \<and> (\<forall>z \<in> set (as @ x # us). dead s z)" using a dx by auto
    then show ?thesis unfolding skip_def Some option.case by blast
  qed
  show e: "lf_evolves {} s ?s"
    using l by (auto simp: lf_evolves_def dead_def store_link_def unpublished_def link_ok_def split: link.splits)
  show "map_inv ?s"
  proof (rule map_inv_frame [OF inv _ e])
    show "published ?s = published s" by (simp add: store_link_def split: link.splits)
    fix b' l'
    assume "link_ok s b' l'"
    show "load_link l' ?s = load_link l' s \<or> skip s (after s l') (load_link l' ?s)"
    proof (cases "l' = l")
      case True
      have "load_link l ?s = nxt" by (simp add: load_link_def store_link_def split: link.splits)
      then show ?thesis using k True by simp
    next
      case False
      then have "load_link l' ?s = load_link l' s" by (auto simp: load_link_def store_link_def split: link.splits)
      then show ?thesis ..
    qed
  qed simp
qed

lemma publish_inv:
  assumes inv: "map_inv s" and x: "unpublished s x" and b: "home s x = b" and nx: "m_next (nodes s x) = sentinel s b"
  shows "map_inv (publish b x s)" "lf_evolves {x} s (publish b x s)"
proof -
  let ?s = "publish b x s"
  show e: "lf_evolves {x} s ?s"
    by (auto simp: lf_evolves_def dead_def publish_def)
  have X: "\<And>y b. y \<in> {x} \<Longrightarrow> y \<notin> set (published s b)" using x by (simp add: unpublished_def)
  have p: "published ?s b = x # published s b" "b' \<noteq> b \<Longrightarrow> published ?s b' = published s b'" for b'
    by (simp_all add: publish_def)
  have h: "home ?s y = home s y" "dead ?s y = dead s y" for y by (simp_all add: home_def dead_def publish_def bucket_of_def)
  have sk: "skip ?s L q = skip s L q" for L q by (simp add: skip_def h split: option.splits)
  have fr: "fresh ?s = fresh s" by (simp add: publish_def)
  have ml: "load_link (Next y) ?s = load_link (Next y) s" for y by (simp add: load_link_def publish_def)
  have ax: "after ?s (Next x) = published s b" using b p by (simp add: after_def h behind_def)
  have link: "skip ?s (after ?s l) (load_link l ?s)" if l: "link_ok ?s b' l" for b' l
  proof (cases l)
    case (Sentinel b'')
    have "skip s (published s b'') (sentinel s b'')"
      using map_invD(4) [OF inv, of b'' "Sentinel b''"] by (simp add: link_ok_def after_def load_link_def)
    moreover have "skip s (x # L) (Some x)" for L
      unfolding skip_def option.case by (intro exI [of _ "[]"] exI [of _ L]) simp
    ultimately show ?thesis using Sentinel p sk
      by (cases "b'' = b") (simp_all add: after_def load_link_def, simp_all add: publish_def)
  next
    case (Next y)
    show ?thesis
    proof (cases "y = x")
      case True
      have "skip s (published s b) (sentinel s b)"
        using map_invD(4) [OF inv, of b "Sentinel b"] by (simp add: link_ok_def after_def load_link_def)
      then show ?thesis unfolding Next True sk ax ml using nx by (simp add: load_link_def)
    next
      case False
      then have y: "y \<in> set (published s b')" using l Next p by (cases "b' = b") (simp_all add: link_ok_def)
      have "skip s (after s (Next y)) (load_link (Next y) s)"
        using map_invD(4) [OF inv, of b' "Next y"] y by (simp add: link_ok_def)
      then show ?thesis unfolding Next sk ml using evolves_after [OF inv e X y] by simp
    qed
  qed
  have "distinct (published ?s b')" for b'
    using map_invD(2) [OF inv, of b'] x p by (cases "b' = b") (simp_all add: unpublished_def)
  moreover have "y < fresh ?s \<and> home ?s y = b'" if "y \<in> set (published ?s b')" for y b'
    using that p map_invD(3) [OF inv, of y b'] x b
    by (cases "b' = b") (auto simp: h fr unpublished_def)
  moreover have "n_buckets ?s \<noteq> 0" using map_invD(1) [OF inv] by (simp add: publish_def)
  ultimately show "map_inv ?s" using link by (simp add: map_inv_def)
qed

subsection \<open>Traversals\<close>

lemma skip_at:
  assumes inv: "map_inv s" and L: "set L \<subseteq> set (published s (bucket_of s v))" and k: "skip s L p"
  shows "at_node s v p"
  using k L by (auto simp: skip_def at_node_def split: option.splits)

text \<open>The nodes that a link with a target jumps over, and what is behind the target.\<close>

lemma skip_split:
  assumes inv: "map_inv s" and l: "link_ok s b l" and k: "skip s (after s l) (Some z)"
  obtains as where "after s l = as @ z # after s (Next z)" "\<forall>u \<in> set as. dead s u" "z \<in> set (published s b)"
proof -
  obtain as bs where ab: "after s l = as @ z # bs" "\<forall>u \<in> set as. dead s u" using k by (auto simp: skip_def)
  obtain us where u: "published s b = us @ after s l"
  proof (cases l)
    case (Sentinel b')
    then show ?thesis using l that [of "[]"] by (simp add: after_def link_ok_def)
  next
    case (Next y)
    then have y: "y \<in> set (published s b)" "home s y = b" using l map_invD(3) [OF inv, of y b] by (simp_all add: link_ok_def)
    then obtain us vs where "published s b = us @ y # vs" "y \<notin> set us" by (meson split_list_first)
    then show ?thesis using y Next behind_split [of y us vs] that [of "us @ [y]"] by (simp add: after_def)
  qed
  have pz: "published s b = (us @ as) @ z # bs" using u ab(1) by simp
  then have "z \<notin> set (us @ as)" "home s z = b" "z \<in> set (published s b)"
    using map_invD(2) [OF inv, of b] map_invD(3) [OF inv, of z b] by auto
  then show ?thesis using behind_split [of z "us @ as" bs] pz ab that by (simp add: after_def)
qed

lemma skip_dead:
  assumes inv: "map_inv s" and l: "link_ok s b l" and k: "skip s (after s l) p"
    and y: "y \<in> set (after s l)" "y \<notin> set (rest s p)"
  shows "dead s y"
proof (cases p)
  case None
  then show ?thesis using k y by (simp add: skip_def)
next
  case (Some z)
  then obtain as where "after s l = as @ z # after s (Next z)" "\<forall>u \<in> set as. dead s u"
    using skip_split [OF inv l] k by metis
  then show ?thesis using y Some by (auto simp: rest_def)
qed

lemma node_link: "at_node s v (Some x) \<Longrightarrow> link_ok s (bucket_of s v) (Next x)"
  by (simp add: at_node_def link_ok_def)

text \<open>Following a link from a node that is done with leaves only deleted nodes behind.\<close>

lemma passed_next:
  assumes inv: "map_inv s" and x: "at_node s v (Some x)" and ps: "passed s v h (rest s (Some x))"
    and don: "m_val (nodes s x) = v \<longrightarrow> dead s x" and k: "skip s (after s (Next x)) p"
  shows "at_node s v p" "passed s v h (rest s p)"
proof -
  have "set (after s (Next x)) \<subseteq> set (published s (bucket_of s v))"
    using after_published [OF inv, of x] x by (auto simp: at_node_def)
  then show "at_node s v p" by (rule skip_at [OF inv _ k])
  show "passed s v h (rest s p)"
    using ps don skip_dead [OF inv node_link [OF x] k] by (auto simp: passed_def rest_def)
qed

lemma passed_head:
  assumes inv: "map_inv s"
  shows "at_node s v (sentinel s (bucket_of s v))"
    "passed s v (published s (bucket_of s v)) (rest s (sentinel s (bucket_of s v)))"
proof -
  let ?b = "bucket_of s v"
  have l: "link_ok s ?b (Sentinel ?b)" and a: "after s (Sentinel ?b) = published s ?b"
    by (simp_all add: link_ok_def after_def)
  have k: "skip s (after s (Sentinel ?b)) (sentinel s ?b)"
    using map_invD(4) [OF inv l] by (simp add: load_link_def)
  show "at_node s v (sentinel s ?b)" by (rule skip_at [OF inv _ k]) (simp add: a)
  show "passed s v (published s ?b) (rest s (sentinel s ?b))"
    using skip_dead [OF inv l k] by (auto simp: passed_def a)
qed

lemma next_skip:
  "map_inv s \<Longrightarrow> at_node s v (Some x) \<Longrightarrow> skip s (after s (Next x)) (m_next (nodes s x))"
  using map_invD(4) [of s "bucket_of s v" "Next x"] by (simp add: link_ok_def at_node_def load_link_def)

subsection \<open>Every step keeps the invariant\<close>

lemma thread_step_inv:
  assumes inv: "map_inv s" and p: "pc_inv s p" and st: "thread_step ok p s = (p', s')"
  shows "map_inv s' \<and> pc_inv s' p' \<and> lf_evolves (owned p) s s' \<and> owned p' \<subseteq> owned p"
proof -
  have refl: "lf_evolves X s s" for X by (simp add: lf_evolves_def)
  show ?thesis
  proof (cases p)
    case (Ins_store v x old)
    then have x: "unpublished s x" using p by simp
    show ?thesis using store_private_inv [OF inv x, of old] st p Ins_store
      by (auto simp: store_link_def unpublished_def dead_def)
  next
    case (Ins_cas v x old)
    then have x: "unpublished s x" "home s x = bucket_of s v" "m_next (nodes s x) = old"
      using p by (simp_all add: home_def)
    show ?thesis using publish_inv [OF inv x(1,2)] x(3) st p Ins_cas inv refl
      by (auto simp: Let_def split: if_splits)
  next
    case (Rem_load v)
    then show ?thesis using passed_head [OF inv] st inv refl by (auto simp: Let_def link_ok_def)
  next
    case (Rem_loop v l cur h)
    show ?thesis
    proof (cases cur)
      case None
      then show ?thesis using Rem_loop st inv refl by auto
    next
      case (Some x)
      then have at: "at_node s v (Some x)" "passed s v h (rest s (Some x))" using p Rem_loop by simp_all
      note nk = next_skip [OF inv at(1)]
      show ?thesis
      proof (cases "m_val (nodes s x) = v")
        case True
        then show ?thesis using Rem_loop Some st inv refl p nk by auto
      next
        case False
        then have "p' = Rem_loop v (Next x) (m_next (nodes s x)) h" "s' = s" using Rem_loop Some st by auto
        moreover have "link_ok s (bucket_of s v) (Next x)" using at(1) by (simp add: link_ok_def at_node_def)
        ultimately show ?thesis using passed_next [OF inv at _ nk] False inv refl Rem_loop by simp
      qed
    qed
  next
    case (Rem_mark v l x nxt h)
    then have at: "at_node s v (Some x)" "passed s v h (rest s (Some x))" and k: "skip s (after s (Next x)) nxt"
      and l: "link_ok s (bucket_of s v) l" using p by simp_all
    have xp: "x \<in> set (published s (bucket_of s v))" using at(1) by (simp add: at_node_def)
    show ?thesis
    proof (cases "dead s x")
      case True
      then have "p' = Rem_loop v (Next x) nxt h" "s' = s" using Rem_mark st by (auto simp: dead_def)
      moreover have "link_ok s (bucket_of s v) (Next x)" using xp by (simp add: link_ok_def)
      ultimately show ?thesis using passed_next [OF inv at _ k] True inv refl Rem_mark by simp
    next
      case False
      then have q: "p' = Rem_unlink v l x nxt h" "s' = mark_node x s" using Rem_mark st by (auto simp: dead_def)
      note m = mark_node_inv [OF inv xp]
      have "pc_inv (mark_node x s) p"
        by (rule pc_inv_stable [OF inv m(2) _ _ p]) simp_all
      moreover have "dead (mark_node x s) x" by (simp add: dead_def mark_node_def)
      ultimately show ?thesis using m q Rem_mark by simp
    qed
  next
    case (Rem_unlink v l x nxt h)
    then have at: "x \<in> set (published s (bucket_of s v))" "dead s x" "skip s (after s (Next x)) nxt"
      "link_ok s (bucket_of s v) l" using p by (simp_all add: at_node_def)
    show ?thesis using unlink_inv [OF inv at(4,1,2) _ at(3)] st inv refl Rem_unlink
      by (auto split: if_splits)
  next
    case (Look_load v)
    then show ?thesis using passed_head [OF inv] st inv refl by (auto simp: Let_def)
  next
    case (Look_loop v cur h)
    then show ?thesis using p st inv refl by (auto simp: dead_def split: option.splits if_splits)
  next
    case (Look_next v x h)
    then have at: "at_node s v (Some x)" "passed s v h (rest s (Some x))" "m_val (nodes s x) = v \<longrightarrow> dead s x"
      using p by simp_all
    show ?thesis using passed_next [OF inv at next_skip [OF inv at(1)]] st inv refl Look_next by auto
  qed (use st inv refl p in auto)
qed

lemma sys_inv_thread:
  assumes inv: "sys_inv c" and m: "map_inv s'" and p: "pc_inv s' p'"
    and e: "lf_evolves X (hm c) s'" and X: "\<And>x b. x \<in> X \<Longrightarrow> x \<notin> set (published (hm c) b)"
    and own: "X \<subseteq> owned (threads c t)" "owned p' \<subseteq> owned (threads c t) \<union> {x. fresh (hm c) \<le> x}"
  shows "sys_inv \<lparr>hm = s', threads = (threads c)(t := p')\<rparr>"
proof -
  have mi: "map_inv (hm c)" and pi: "pc_inv (hm c) (threads c u)" for u using inv by (simp_all add: sys_inv_def)
  have dis: "owned (threads c t) \<inter> owned (threads c u) = {}" if "u \<noteq> t" for u
    using inv that unfolding sys_inv_def by metis
  have low: "x < fresh (hm c)" if "x \<in> owned (threads c u)" for x u
    using pi [of u] that by (cases "threads c u") (auto simp: unpublished_def)
  have "pc_inv s' (threads c u)" if u: "u \<noteq> t" for u
    by (rule pc_inv_stable [OF mi e X _ pi]) (use dis [OF u] own(1) in auto)
  moreover have "owned p' \<inter> owned (threads c u) = {}" if "u \<noteq> t" for u
    using dis [OF that] own(2) low [of _ u] by fastforce
  ultimately show ?thesis using m p inv by (auto simp: sys_inv_def)
qed

lemma lf_step_inv:
  assumes st: "lf_step c c'" and inv: "sys_inv c"
  shows "sys_inv c'"
  using st
proof cases
  case (insert t r ok v p s)
  have mi: "map_inv (hm c)" using inv by (simp add: sys_inv_def)
  note n = new_node_inv [OF mi, of v]
  show ?thesis
  proof (cases ok)
    case True
    then have "p = Ins_load v (fresh (hm c))" "s = new_node v (hm c)" using insert(3) by (simp_all add: start_insert_def)
    then show ?thesis unfolding insert(1)
      by (intro sys_inv_thread [OF inv, of _ _ "{}"]) (use n in \<open>auto simp: new_node_def dead_def\<close>)
  next
    case False
    then have "p = Idle (Some 1)" "s = hm c" using insert(3) by (simp_all add: start_insert_def)
    then show ?thesis unfolding insert(1)
      by (intro sys_inv_thread [OF inv, of _ _ "{}"]) (use mi in \<open>auto simp: lf_evolves_def\<close>)
  qed
next
  case (remove t r v)
  then have c': "c' = \<lparr>hm = hm c, threads = (threads c)(t := Rem_load v)\<rparr>" by simp
  show ?thesis unfolding c'
    by (intro sys_inv_thread [OF inv, of _ _ "{}"]) (use inv in \<open>auto simp: lf_evolves_def sys_inv_def\<close>)
next
  case (lookup t r v)
  then have c': "c' = \<lparr>hm = hm c, threads = (threads c)(t := Look_load v)\<rparr>" by simp
  show ?thesis unfolding c'
    by (intro sys_inv_thread [OF inv, of _ _ "{}"]) (use inv in \<open>auto simp: lf_evolves_def sys_inv_def\<close>)
next
  case (run ok t p s)
  have mi: "map_inv (hm c)" and pi: "pc_inv (hm c) (threads c t)" using inv by (simp_all add: sys_inv_def)
  note s = thread_step_inv [OF mi pi run(2)]
  have "x \<notin> set (published (hm c) b)" if "x \<in> owned (threads c t)" for x b
    using pi that by (cases "threads c t") (auto simp: unpublished_def)
  then show ?thesis unfolding run(1)
    by (intro sys_inv_thread [OF inv, of _ _ "owned (threads c t)"]) (use s in auto)
qed

lemma lf_reachable_inv: "lf_reachable c \<Longrightarrow> sys_inv c"
proof (induction rule: lf_reachable.induct)
  case (start oks n s)
  then show ?case
    by (auto simp: sys_inv_def map_inv_def alloc_hashmap_def link_ok_def skip_def after_def load_link_def
        split: if_splits link.splits)
next
  case (step c c')
  then show ?case using lf_step_inv by blast
qed

end
