(* ===== verification/Hashmap_Spec.thy ===== *)
theory Hashmap_Spec
  imports Sys_Prelude
begin

section \<open>The hash-map interface\<close>

text \<open>
  The contract of \<^verbatim>\<open>task04-concurrency/include/chashmap.h\<close>, which both implementations
  export: the map is a multiset of values, given by how often each value is in it.
  \<^verbatim>\<open>insert_item\<close> adds one occurrence (or fails when memory is out), \<^verbatim>\<open>remove_item\<close>
  takes one out and reports whether there was one, \<^verbatim>\<open>lookup_item\<close> reports whether there
  is one. A client that makes any sequence of calls sees exactly what it would see of a
  multiset.
\<close>

datatype map_call = Insert bool "64 word" | Remove "64 word" | Lookup "64 word"

fun spec_call :: "map_call \<Rightarrow> (64 word \<Rightarrow> nat) \<Rightarrow> int \<times> (64 word \<Rightarrow> nat)" where
  "spec_call (Insert ok v) M = (if ok then (0, M(v := M v + 1)) else (1, M))"
| "spec_call (Remove v) M = (if M v = 0 then (1, M) else (0, M(v := M v - 1)))"
| "spec_call (Lookup v) M = (if M v = 0 then 1 else 0, M)"

fun spec_run :: "map_call list \<Rightarrow> (64 word \<Rightarrow> nat) \<Rightarrow> int list \<times> (64 word \<Rightarrow> nat)" where
  "spec_run [] M = ([], M)"
| "spec_run (c # cs) M =
     (let (r, M1) = spec_call c M; (rs, M2) = spec_run cs M1 in (r # rs, M2))"

text \<open>The calls on an implementation, \<open>None\<close> when a call does not return.\<close>

fun run_calls ::
  "(bool \<Rightarrow> 64 word \<Rightarrow> 'm \<Rightarrow> (int \<times> 'm) option) \<Rightarrow> (64 word \<Rightarrow> 'm \<Rightarrow> (int \<times> 'm) option) \<Rightarrow>
   (64 word \<Rightarrow> 'm \<Rightarrow> (int \<times> 'm) option) \<Rightarrow> map_call list \<Rightarrow> 'm \<Rightarrow> (int list \<times> 'm) option" where
  "run_calls ins rem look [] m = Some ([], m)"
| "run_calls ins rem look (c # cs) m =
     (case (case c of Insert ok v \<Rightarrow> ins ok v m | Remove v \<Rightarrow> rem v m | Lookup v \<Rightarrow> look v m) of
        None \<Rightarrow> None
      | Some (r, m') \<Rightarrow> map_option (\<lambda>(rs, m''). (r # rs, m'')) (run_calls ins rem look cs m'))"

locale chashmap =
  fixes inv :: "'m \<Rightarrow> bool"
    and count :: "'m \<Rightarrow> 64 word \<Rightarrow> nat"
    and insert_item :: "bool \<Rightarrow> 64 word \<Rightarrow> 'm \<Rightarrow> (int \<times> 'm) option"
    and remove_item :: "64 word \<Rightarrow> 'm \<Rightarrow> (int \<times> 'm) option"
    and lookup_item :: "64 word \<Rightarrow> 'm \<Rightarrow> (int \<times> 'm) option"
  assumes insert_law: "inv m \<Longrightarrow> \<exists>m'. insert_item ok v m = Some (if ok then 0 else 1, m') \<and> inv m' \<and>
      count m' = (if ok then (count m)(v := count m v + 1) else count m)"
    and remove_law: "inv m \<Longrightarrow> \<exists>m'. remove_item v m = Some (if count m v = 0 then 1 else 0, m') \<and> inv m' \<and>
      count m' = (if count m v = 0 then count m else (count m)(v := count m v - 1))"
    and lookup_law: "inv m \<Longrightarrow> \<exists>m'. lookup_item v m = Some (if count m v = 0 then 1 else 0, m') \<and> inv m' \<and>
      count m' = count m"
begin

lemma call_refines:
  assumes "inv m"
  shows "\<exists>m'. (case c of Insert ok v \<Rightarrow> insert_item ok v m | Remove v \<Rightarrow> remove_item v m | Lookup v \<Rightarrow> lookup_item v m) =
      Some (fst (spec_call c (count m)), m') \<and> inv m' \<and> count m' = snd (spec_call c (count m))"
proof (cases c)
  case (Insert ok v)
  then show ?thesis using insert_law [OF assms, of ok v] by (cases ok) auto
next
  case (Remove v)
  then show ?thesis using remove_law [OF assms, of v] by auto
next
  case (Lookup v)
  then show ?thesis using lookup_law [OF assms, of v] by auto
qed

lemma run_refines:
  "inv m \<Longrightarrow> \<exists>m'. run_calls insert_item remove_item lookup_item cs m = Some (fst (spec_run cs (count m)), m') \<and>
    inv m' \<and> count m' = snd (spec_run cs (count m))"
proof (induction cs arbitrary: m)
  case Nil
  then show ?case by simp
next
  case (Cons c cs)
  obtain m1 where m1: "(case c of Insert ok v \<Rightarrow> insert_item ok v m | Remove v \<Rightarrow> remove_item v m | Lookup v \<Rightarrow> lookup_item v m) =
      Some (fst (spec_call c (count m)), m1)" "inv m1" "count m1 = snd (spec_call c (count m))"
    using call_refines [OF Cons.prems, of c] by blast
  obtain m2 where m2: "run_calls insert_item remove_item lookup_item cs m1 = Some (fst (spec_run cs (count m1)), m2)"
      "inv m2" "count m2 = snd (spec_run cs (count m1))"
    using Cons.IH [OF m1(2)] by blast
  show ?case using m1 m2 by (simp add: split_beta Let_def)
qed

end

end
