(* ===== verification/Lf_Seq.thy ===== *)
theory Lf_Seq
  imports Lf_Invariant Hashmap_Spec
begin

section \<open>The lock-free hash map: counts, chains and sequential calls\<close>

text \<open>
  \<open>lf_count\<close> is the abstract content of the map: how many published, unmarked nodes hold a
  value. A call that runs alone is the iteration of its thread's steps; it ends, and meets
  the hash-map contract. \<open>chain\<close> is what \<^verbatim>\<open>free_hashmap\<close> and \<^verbatim>\<open>print_hashmap\<close> walk.
\<close>

definition lf_count :: "lf_map \<Rightarrow> long \<Rightarrow> nat" where
  "lf_count s v = length (filter (\<lambda>x. m_val (nodes s x) = v \<and> \<not> dead s x) (published s (bucket_of s v)))"

partial_function (option) chain :: "lf_map \<Rightarrow> node_ptr \<Rightarrow> nat list option" where
  "chain s p =
     (case p of None \<Rightarrow> Some []
      | Some x \<Rightarrow> do { xs \<leftarrow> chain s (m_next (nodes s x)); Some (x # xs) })"

text \<open>The nodes that \<^verbatim>\<open>free_hashmap\<close> frees, bucket by bucket.\<close>

fun free_buckets :: "nat \<Rightarrow> lf_map \<Rightarrow> nat list option" where
  "free_buckets 0 s = Some []"
| "free_buckets (Suc n) s =
     do { xs \<leftarrow> free_buckets n s; ys \<leftarrow> chain s (sentinel s n); Some (xs @ ys) }"

definition free_hashmap :: "lf_map \<Rightarrow> nat list option" where
  "free_hashmap s = free_buckets (unat (n_buckets s)) s"

text \<open>The values \<^verbatim>\<open>print_hashmap\<close> prints for a bucket.\<close>

definition print_bucket :: "lf_map \<Rightarrow> nat \<Rightarrow> long list option" where
  "print_bucket s b =
     map_option (\<lambda>xs. map (\<lambda>x. m_val (nodes s x)) (filter (\<lambda>x. \<not> is_deleted (nodes s x)) xs))
       (chain s (sentinel s b))"

fun print_buckets :: "nat list \<Rightarrow> lf_map \<Rightarrow> (nat \<times> long list) list option" where
  "print_buckets [] s = Some []"
| "print_buckets (b # bs) s =
     do { vs \<leftarrow> print_bucket s b; out \<leftarrow> print_buckets bs s; Some ((b, vs) # out) }"

definition print_hashmap :: "lf_map \<Rightarrow> (nat \<times> long list) list option" where
  "print_hashmap s = (if n_buckets s = 0 then Some [] else print_buckets [0..<unat (n_buckets s)] s)"

partial_function (option) run_alone :: "pc \<Rightarrow> lf_map \<Rightarrow> (int \<times> lf_map) option" where
  "run_alone p s =
     (case p of Idle r \<Rightarrow> map_option (\<lambda>r. (r, s)) r
      | _ \<Rightarrow> (case thread_step True p s of (p', s') \<Rightarrow> run_alone p' s'))"

definition insert_item :: "bool \<Rightarrow> long \<Rightarrow> lf_map \<Rightarrow> (int \<times> lf_map) option" where
  "insert_item ok v s =
     (if n_buckets s = 0 then Some (1, s) else case start_insert ok v s of (p, s') \<Rightarrow> run_alone p s')"

definition remove_item :: "long \<Rightarrow> lf_map \<Rightarrow> (int \<times> lf_map) option" where
  "remove_item v s = (if n_buckets s = 0 then Some (1, s) else run_alone (Rem_load v) s)"

definition lookup_item :: "long \<Rightarrow> lf_map \<Rightarrow> (int \<times> lf_map) option" where
  "lookup_item v s = (if n_buckets s = 0 then Some (1, s) else run_alone (Look_load v) s)"

subsection \<open>Counts\<close>

lemma bucket_of_simps [simp]:
  "bucket_of (new_node v s) = bucket_of s" "bucket_of (mark_node x s) = bucket_of s"
  "bucket_of (publish b x s) = bucket_of s" "bucket_of (store_link l p s) = bucket_of s"
  by (simp_all add: fun_eq_iff bucket_of_def new_node_def mark_node_def publish_def store_link_def split: link.splits)

lemma published_simps [simp]:
  "published (new_node v s) = published s" "published (mark_node x s) = published s"
  "published (store_link l p s) = published s"
  "published (publish b x s) = (published s)(b := x # published s b)"
  by (simp_all add: new_node_def mark_node_def store_link_def publish_def split: link.splits)

lemma sentinel_store_Next [simp]: "sentinel (store_link (Next x) p s) = sentinel s"
  by (simp add: store_link_def)

lemma val_dead_simps [simp]:
  "m_val (nodes (mark_node x s) y) = m_val (nodes s y)" "dead (mark_node x s) y \<longleftrightarrow> y = x \<or> dead s y"
  "m_val (nodes (store_link l p s) y) = m_val (nodes s y)" "dead (store_link l p s) y = dead s y"
  "nodes (publish b x s) = nodes s" "dead (publish b x s) y = dead s y"
  by (auto simp: mark_node_def store_link_def publish_def dead_def split: link.splits)

lemma count_new: "map_inv s \<Longrightarrow> lf_count (new_node v s) = lf_count s"
proof
  fix w
  assume inv: "map_inv s"
  have "nodes (new_node v s) x = nodes s x" if "x \<in> set (published s b)" for x b
    using map_invD(3) [OF inv that] by (auto simp: new_node_def)
  then show "lf_count (new_node v s) w = lf_count s w"
    unfolding lf_count_def by (auto simp: dead_def intro!: arg_cong [where f = length] filter_cong)
qed

lemma count_store: "lf_count (store_link l p s) = lf_count s"
  by (simp add: fun_eq_iff lf_count_def)

lemma count_publish:
  assumes "m_val (nodes s x) = v" and "\<not> dead s x"
  shows "lf_count (publish (bucket_of s v) x s) = (lf_count s)(v := lf_count s v + 1)"
  using assms by (auto simp: fun_eq_iff lf_count_def)

lemma count_mark:
  assumes inv: "map_inv s" and x: "x \<in> set (published s (bucket_of s v))" "m_val (nodes s x) = v" "\<not> dead s x"
  shows "0 < lf_count s v" "lf_count (mark_node x s) = (lf_count s)(v := lf_count s v - 1)"
proof -
  let ?L = "published s (bucket_of s v)"
  obtain as bs where ab: "?L = as @ x # bs" "x \<notin> set as" using x(1) by (meson split_list_first)
  then have nb: "x \<notin> set bs" using map_invD(2) [OF inv, of "bucket_of s v"] by auto
  show "0 < lf_count s v" using x ab by (simp add: lf_count_def)
  have f: "filter (\<lambda>y. m_val (nodes s y) = v \<and> y \<noteq> x \<and> \<not> dead s y) zs = filter (\<lambda>y. m_val (nodes s y) = v \<and> \<not> dead s y) zs"
    if "x \<notin> set zs" for zs
    using that by (intro filter_cong) auto
  have "lf_count (mark_node x s) v = lf_count s v - 1"
    using x(2,3) f [OF ab(2)] f [OF nb] by (simp add: lf_count_def ab(1))
  moreover have "lf_count (mark_node x s) w = lf_count s w" if "w \<noteq> v" for w
    using that x(2) unfolding lf_count_def by (auto intro!: arg_cong [where f = length] filter_cong)
  ultimately show "lf_count (mark_node x s) = (lf_count s)(v := lf_count s v - 1)" by auto
qed

lemma count_zero_iff:
  "lf_count s v = 0 \<longleftrightarrow> (\<forall>x \<in> set (published s (bucket_of s v)). m_val (nodes s x) = v \<longrightarrow> dead s x)"
  by (auto simp: lf_count_def filter_empty_conv)

subsection \<open>Calls that run alone\<close>

lemma rest_shorter:
  assumes inv: "map_inv s" and x: "at_node s v (Some x)" and k: "skip s (after s (Next x)) p"
  shows "length (rest s p) < length (rest s (Some x))"
proof (cases p)
  case None
  then show ?thesis by (simp add: rest_def)
next
  case (Some z)
  then obtain as where "after s (Next x) = as @ z # after s (Next z)"
    using skip_split [OF inv node_link [OF x]] k by metis
  then show ?thesis using Some by (simp add: rest_def)
qed

lemma run_alone_step:
  "run_alone (Idle (Some r)) s = Some (r, s)"
  "\<forall>r. p \<noteq> Idle r \<Longrightarrow> thread_step True p s = (p', s') \<Longrightarrow> run_alone p s = run_alone p' s'"
proof -
  show "run_alone (Idle (Some r)) s = Some (r, s)" by (simp add: run_alone.simps)
  show "\<forall>r. p \<noteq> Idle r \<Longrightarrow> thread_step True p s = (p', s') \<Longrightarrow> run_alone p s = run_alone p' s'"
    by (subst run_alone.simps, cases p) (simp_all del: thread_step.simps)
qed

lemma count_zero_passed:
  "passed s v (published s (bucket_of s v)) [] \<Longrightarrow> lf_count s v = 0"
  by (simp add: count_zero_iff passed_def)

lemma remove_alone:
  "map_inv s \<Longrightarrow> pc_inv s (Rem_loop v l cur (published s (bucket_of s v))) \<Longrightarrow>
    \<exists>s'. run_alone (Rem_loop v l cur (published s (bucket_of s v))) s = Some (if lf_count s v = 0 then 1 else 0, s') \<and>
      map_inv s' \<and> lf_count s' = (if lf_count s v = 0 then lf_count s else (lf_count s)(v := lf_count s v - 1))"
proof (induction "length (rest s cur)" arbitrary: l cur rule: less_induct)
  case less
  note inv = less.prems(1) and pc = less.prems(2)
  let ?h = "published s (bucket_of s v)"
  show ?case
  proof (cases cur)
    case None
    then have "lf_count s v = 0" using pc by (intro count_zero_passed) (simp add: rest_def)
    then show ?thesis using None inv by (simp add: run_alone_step)
  next
    case (Some x)
    then have at: "at_node s v (Some x)" using pc by simp
    have again: ?thesis if "run_alone (Rem_loop v l cur ?h) s = run_alone (Rem_loop v (Next x) nxt ?h) s"
        and "pc_inv s (Rem_loop v (Next x) nxt ?h)" "skip s (after s (Next x)) nxt" for nxt
      using less.hyps [of nxt "Next x"] rest_shorter [OF inv at that(3)] that(1,2) inv Some by simp
    note k = next_skip [OF inv at]
    show ?thesis
    proof (cases "m_val (nodes s x) = v")
      case False
      then have st: "thread_step True (Rem_loop v l cur ?h) s = (Rem_loop v (Next x) (m_next (nodes s x)) ?h, s)"
        using Some by simp
      then show ?thesis
        using again [OF run_alone_step(2) [OF _ st]] thread_step_inv [OF inv pc st] k by simp
    next
      case True
      then have st: "thread_step True (Rem_loop v l cur ?h) s = (Rem_mark v l x (m_next (nodes s x)) ?h, s)"
        using Some by simp
      note pm = thread_step_inv [OF inv pc st, THEN conjunct2, THEN conjunct1]
      have r1: "run_alone (Rem_loop v l cur ?h) s = run_alone (Rem_mark v l x (m_next (nodes s x)) ?h) s"
        by (rule run_alone_step(2) [OF _ st]) simp
      show ?thesis
      proof (cases "dead s x")
        case True
        then have sm: "thread_step True (Rem_mark v l x (m_next (nodes s x)) ?h) s =
            (Rem_loop v (Next x) (m_next (nodes s x)) ?h, s)" by (simp add: dead_def)
        then have "run_alone (Rem_mark v l x (m_next (nodes s x)) ?h) s =
            run_alone (Rem_loop v (Next x) (m_next (nodes s x)) ?h) s"
          by (intro run_alone_step(2)) simp_all
        then show ?thesis using again r1 thread_step_inv [OF inv pm sm] k by simp
      next
        case False
        have xp: "x \<in> set ?h" using at by (simp add: at_node_def)
        note cm = count_mark [OF inv xp \<open>m_val (nodes s x) = v\<close> False]
        let ?s1 = "mark_node x s" and ?p1 = "Rem_unlink v l x (m_next (nodes s x)) ?h"
        have sm: "thread_step True (Rem_mark v l x (m_next (nodes s x)) ?h) s = (?p1, ?s1)"
          using False by (simp add: dead_def)
        note i1 = thread_step_inv [OF inv pm sm]
        define s2 where "s2 = snd (thread_step True ?p1 ?s1)"
        have s2: "thread_step True ?p1 ?s1 = (Idle (Some 0), s2)" "lf_count s2 = lf_count ?s1"
          by (simp_all add: s2_def count_store)
        have "run_alone (Rem_mark v l x (m_next (nodes s x)) ?h) s = run_alone ?p1 ?s1"
          by (rule run_alone_step(2) [OF _ sm]) simp
        also have "\<dots> = run_alone (Idle (Some 0)) s2" by (rule run_alone_step(2) [OF _ s2(1)]) simp
        finally have "run_alone (Rem_loop v l cur ?h) s = Some (0, s2)" using r1 by (simp add: run_alone_step(1))
        moreover have "map_inv s2" using thread_step_inv [of ?s1 ?p1 True] i1 s2(1) by blast
        ultimately show ?thesis using cm s2(2) by auto
      qed
    qed
  qed
qed

lemma lookup_alone:
  "map_inv s \<Longrightarrow> pc_inv s (Look_loop v cur (published s (bucket_of s v))) \<Longrightarrow>
    run_alone (Look_loop v cur (published s (bucket_of s v))) s = Some (if lf_count s v = 0 then 1 else 0, s)"
proof (induction "length (rest s cur)" arbitrary: cur rule: less_induct)
  case less
  note inv = less.prems(1) and pc = less.prems(2)
  let ?h = "published s (bucket_of s v)"
  show ?case
  proof (cases cur)
    case None
    then have "lf_count s v = 0" using pc by (intro count_zero_passed) (simp add: rest_def)
    then show ?thesis using None by (simp add: run_alone_step)
  next
    case (Some x)
    then have at: "at_node s v (Some x)" using pc by simp
    show ?thesis
    proof (cases "m_val (nodes s x) = v \<and> \<not> dead s x")
      case True
      then have "lf_count s v \<noteq> 0" using at by (auto simp: count_zero_iff at_node_def)
      then show ?thesis using True Some by (simp add: run_alone_step dead_def)
    next
      case False
      then have st: "thread_step True (Look_loop v cur ?h) s = (Look_next v x ?h, s)" using Some by (auto simp: dead_def)
      have sn: "thread_step True (Look_next v x ?h) s = (Look_loop v (m_next (nodes s x)) ?h, s)" by simp
      note i1 = thread_step_inv [OF inv pc st]
      note i2 = thread_step_inv [OF inv i1 [THEN conjunct2, THEN conjunct1] sn]
      have "run_alone (Look_loop v cur ?h) s = run_alone (Look_loop v (m_next (nodes s x)) ?h) s"
        using run_alone_step(2) [OF _ st] run_alone_step(2) [OF _ sn] by simp
      then show ?thesis
        using less.hyps [of "m_next (nodes s x)"] rest_shorter [OF inv at next_skip [OF inv at]] i2 inv Some by simp
    qed
  qed
qed

lemma insert_alone:
  assumes inv: "map_inv s"
  shows "\<exists>s'. insert_item ok v s = Some (if ok then 0 else 1, s') \<and> map_inv s' \<and>
    lf_count s' = (if ok then (lf_count s)(v := lf_count s v + 1) else lf_count s)"
proof (cases ok)
  case False
  then show ?thesis using inv map_invD(1) [OF inv] by (simp add: insert_item_def start_insert_def run_alone_step)
next
  case True
  let ?x = "fresh s" and ?b = "bucket_of s v"
  let ?s1 = "new_node v s"
  let ?s2 = "store_link (Next ?x) (sentinel ?s1 ?b) ?s1"
  let ?s3 = "publish ?b ?x ?s2"
  have "run_alone (Ins_load v ?x) ?s1 = run_alone (Ins_store v ?x (sentinel ?s1 ?b)) ?s1"
    by (rule run_alone_step(2)) simp_all
  also have "\<dots> = run_alone (Ins_cas v ?x (sentinel ?s1 ?b)) ?s2" by (rule run_alone_step(2)) simp_all
  also have "\<dots> = run_alone (Idle (Some 0)) ?s3"
    by (rule run_alone_step(2)) (simp_all add: Let_def)
  finally have r: "insert_item ok v s = Some (0, ?s3)"
    using True map_invD(1) [OF inv] by (simp add: insert_item_def start_insert_def run_alone_step(1))
  note n = new_node_inv [OF inv, of v]
  note m2 = store_private_inv [OF n(1,3), of "sentinel ?s1 ?b"]
  have v: "m_val (nodes ?s2 ?x) = v" "\<not> dead ?s2 ?x" "m_next (nodes ?s2 ?x) = sentinel ?s2 ?b" "unpublished ?s2 ?x"
    using n(3) by (simp_all add: new_node_def store_link_def dead_def unpublished_def)
  then have "map_inv ?s3" by (intro publish_inv(1) [OF m2(1)]) (simp_all add: home_def)
  moreover have "lf_count ?s3 = (lf_count s)(v := lf_count s v + 1)"
    using count_publish [OF v(1,2)] count_new [OF inv] by (simp add: count_store)
  ultimately show ?thesis using r True by simp
qed

interpretation lockfree: chashmap map_inv lf_count insert_item remove_item lookup_item
proof unfold_locales
  fix m :: lf_map and v
  assume inv: "map_inv m"
  show "\<exists>m'. insert_item ok v m = Some (if ok then 0 else 1, m') \<and> map_inv m' \<and>
      lf_count m' = (if ok then (lf_count m)(v := lf_count m v + 1) else lf_count m)" for ok
    by (rule insert_alone [OF inv])
  have "run_alone (Rem_load v) m = run_alone (Rem_loop v (Sentinel (bucket_of m v)) (sentinel m (bucket_of m v)) (published m (bucket_of m v))) m"
    by (rule run_alone_step(2)) (simp_all add: Let_def)
  then show "\<exists>m'. remove_item v m = Some (if lf_count m v = 0 then 1 else 0, m') \<and> map_inv m' \<and>
      lf_count m' = (if lf_count m v = 0 then lf_count m else (lf_count m)(v := lf_count m v - 1))"
    using remove_alone [OF inv, of v] passed_head [OF inv, of v] map_invD(1) [OF inv] by (simp add: remove_item_def link_ok_def)
  have "run_alone (Look_load v) m = run_alone (Look_loop v (sentinel m (bucket_of m v)) (published m (bucket_of m v))) m"
    by (rule run_alone_step(2)) (simp_all add: Let_def)
  then show "\<exists>m'. lookup_item v m = Some (if lf_count m v = 0 then 1 else 0, m') \<and> map_inv m' \<and> lf_count m' = lf_count m"
    using lookup_alone [OF inv, of v] passed_head [OF inv, of v] map_invD(1) [OF inv] inv by (simp add: lookup_item_def)
qed

subsection \<open>Walking a bucket\<close>

lemma chain_simps [simp]:
  "chain s None = Some []"
  "chain s (Some x) = do { xs \<leftarrow> chain s (m_next (nodes s x)); Some (x # xs) }"
  by (simp_all add: chain.simps)

lemma chain_walk:
  assumes inv: "map_inv s"
  shows "link_ok s b l \<Longrightarrow> \<exists>xs. chain s (load_link l s) = Some xs \<and> set xs \<subseteq> set (after s l) \<and>
    (distinct (after s l) \<longrightarrow> distinct xs) \<and>
    filter (\<lambda>y. \<not> dead s y) xs = filter (\<lambda>y. \<not> dead s y) (after s l)"
proof (induction "length (after s l)" arbitrary: l rule: less_induct)
  case less
  note k = map_invD(4) [OF inv less.prems]
  show ?case
  proof (cases "load_link l s")
    case None
    then show ?thesis using k by (auto simp: skip_def filter_empty_conv)
  next
    case (Some z)
    obtain as where a: "after s l = as @ z # after s (Next z)" "\<forall>u \<in> set as. dead s u" "z \<in> set (published s b)"
      using skip_split [OF inv less.prems] k Some by metis
    have lz: "link_ok s b (Next z)" using a(3) by (simp add: link_ok_def)
    obtain xs where xs: "chain s (load_link (Next z) s) = Some xs" "set xs \<subseteq> set (after s (Next z))"
      "distinct (after s (Next z)) \<longrightarrow> distinct xs"
      "filter (\<lambda>y. \<not> dead s y) xs = filter (\<lambda>y. \<not> dead s y) (after s (Next z))"
      using less.hyps [OF _ lz] a(1) by auto
    have "filter (\<lambda>y. \<not> dead s y) as = []" using a(2) by (simp add: filter_empty_conv)
    then show ?thesis using Some xs a(1) by (auto simp: load_link_def)
  qed
qed

lemma chain_bucket:
  assumes inv: "map_inv s"
  obtains xs where "chain s (sentinel s b) = Some xs" "distinct xs" "set xs \<subseteq> set (published s b)"
    "filter (\<lambda>y. \<not> dead s y) xs = filter (\<lambda>y. \<not> dead s y) (published s b)"
proof -
  have "link_ok s b (Sentinel b)" by (simp add: link_ok_def)
  from chain_walk [OF inv this] show ?thesis
    using map_invD(2) [OF inv, of b] that by (auto simp: load_link_def after_def)
qed

lemma free_buckets_ok:
  assumes inv: "map_inv s"
  shows "\<exists>xs. free_buckets n s = Some xs \<and> distinct xs \<and> set xs \<subseteq> (\<Union>b < n. set (published s b)) \<and>
    (\<forall>b < n. \<forall>x \<in> set (published s b). \<not> dead s x \<longrightarrow> x \<in> set xs)"
proof (induction n)
  case 0
  then show ?case by simp
next
  case (Suc n)
  then obtain xs where xs: "free_buckets n s = Some xs" "distinct xs" "set xs \<subseteq> (\<Union>b < n. set (published s b))"
    "\<forall>b < n. \<forall>x \<in> set (published s b). \<not> dead s x \<longrightarrow> x \<in> set xs" by blast
  obtain ys where ys: "chain s (sentinel s n) = Some ys" "distinct ys" "set ys \<subseteq> set (published s n)"
    "filter (\<lambda>y. \<not> dead s y) ys = filter (\<lambda>y. \<not> dead s y) (published s n)"
    by (rule chain_bucket [OF inv])
  have "b = n" if "x \<in> set (published s b)" "x \<in> set (published s n)" for x b
    using map_invD(3) [OF inv, of x] that by metis
  then have "set xs \<inter> set ys = {}" using xs(3) ys(3) by (fastforce)
  moreover have "x \<in> set ys" if "x \<in> set (published s n)" "\<not> dead s x" for x
    using arg_cong [OF ys(4), of set] that by auto
  moreover have "set (xs @ ys) \<subseteq> (\<Union>b < Suc n. set (published s b))" using xs(3) ys(3) by (auto simp: lessThan_Suc)
  ultimately show ?case using xs(1,2,4) ys(1,2) by (intro exI [of _ "xs @ ys"]) (auto simp: less_Suc_eq)
qed

text \<open>\<^verbatim>\<open>print_hashmap\<close> prints the values of the live nodes, newest first.\<close>

lemma print_buckets_live:
  assumes inv: "map_inv s"
  shows "print_buckets bs s =
    Some (map (\<lambda>b. (b, map (\<lambda>x. m_val (nodes s x)) (filter (\<lambda>x. \<not> dead s x) (published s b)))) bs)"
proof (induction bs)
  case Nil
  then show ?case by simp
next
  case (Cons b bs)
  obtain xs where "chain s (sentinel s b) = Some xs"
    "filter (\<lambda>y. \<not> dead s y) xs = filter (\<lambda>y. \<not> dead s y) (published s b)"
    by (rule chain_bucket [OF inv])
  then have "print_bucket s b = Some (map (\<lambda>x. m_val (nodes s x)) (filter (\<lambda>x. \<not> dead s x) (published s b)))"
    by (simp add: print_bucket_def dead_def)
  then show ?case using Cons by simp
qed

lemma alloc_hashmap_ok:
  assumes "alloc_hashmap oks n = Some s"
  shows "map_inv s" "lf_count s = (\<lambda>_. 0)"
proof -
  have "sys_inv \<lparr>hm = s, threads = (\<lambda>_. Idle None)\<rparr>" by (rule lf_reachable_inv [OF lf_reachable.start [OF assms]])
  then show "map_inv s" by (simp add: sys_inv_def)
  show "lf_count s = (\<lambda>_. 0)" using assms by (auto simp: alloc_hashmap_def lf_count_def split: if_splits)
qed

subsection \<open>Schedules\<close>

text \<open>A schedule says which thread moves, and how; it leads from reachable to reachable states.\<close>

datatype lf_move = Call_insert bool long | Call_remove long | Call_lookup long | Go bool

fun lf_do :: "nat \<Rightarrow> lf_move \<Rightarrow> lf_sys \<Rightarrow> lf_sys" where
  "lf_do t (Go ok) c = (case thread_step ok (threads c t) (hm c) of (p, s) \<Rightarrow> \<lparr>hm = s, threads = (threads c)(t := p)\<rparr>)"
| "lf_do t a c =
     (case threads c t of
        Idle r \<Rightarrow>
          (case a of
             Call_insert ok v \<Rightarrow> (case start_insert ok v (hm c) of (p, s) \<Rightarrow> \<lparr>hm = s, threads = (threads c)(t := p)\<rparr>)
           | Call_remove v \<Rightarrow> c\<lparr>threads := (threads c)(t := Rem_load v)\<rparr>
           | Call_lookup v \<Rightarrow> c\<lparr>threads := (threads c)(t := Look_load v)\<rparr>
           | Go ok \<Rightarrow> c)
      | _ \<Rightarrow> c)"

fun lf_schedule :: "(nat \<times> lf_move) list \<Rightarrow> lf_sys \<Rightarrow> lf_sys" where
  "lf_schedule [] c = c"
| "lf_schedule ((t, a) # as) c = lf_schedule as (lf_do t a c)"

lemma lf_do_reachable: "lf_reachable c \<Longrightarrow> lf_reachable (lf_do t a c)"
proof (cases a)
  case (Go ok)
  then show "lf_reachable c \<Longrightarrow> ?thesis"
    by (auto split: prod.split intro: lf_reachable.step lf_step.run)
qed (cases "threads c t"; auto split: prod.split intro: lf_reachable.step lf_step.insert lf_step.remove lf_step.lookup)+

lemma lf_schedule_reachable: "lf_reachable c \<Longrightarrow> lf_reachable (lf_schedule as c)"
  by (induction as c rule: lf_schedule.induct) (simp_all add: lf_do_reachable)

definition empty_sys :: "size_t \<Rightarrow> lf_sys" where
  "empty_sys n = \<lparr>hm = the (alloc_hashmap (\<lambda>_. True) n), threads = (\<lambda>_. Idle None)\<rparr>"

lemma empty_sys_reachable: "n \<noteq> 0 \<Longrightarrow> lf_reachable (lf_schedule as (empty_sys n))"
  unfolding empty_sys_def
  by (intro lf_schedule_reachable lf_reachable.start [of "\<lambda>_. True" n]) (simp add: alloc_hashmap_def)

lemmas schedule_eval = empty_sys_def alloc_hashmap_def start_insert_def new_node_def mark_node_def publish_def
  store_link_def load_link_def bucket_of_def

end
