(* ===== verification/Spin_Lock.thy ===== *)
theory Spin_Lock
  imports Sys_Prelude
begin

section \<open>The spinlock\<close>

text \<open>
  \<^verbatim>\<open>task04-concurrency/src/cspinlock.c\<close>. A lock pointer is \<open>None\<close> for NULL. The functions
  describe a call without interference; the step relation below lets any number of threads
  run \<^verbatim>\<open>cspin_lock\<close>, \<^verbatim>\<open>cspin_trylock\<close> and \<^verbatim>\<open>cspin_unlock\<close> on one lock, with each
  \<^verbatim>\<open>atomic_flag\<close> operation as a step.
\<close>

record cspinlock =
  is_locked :: bool

definition test_and_set :: "cspinlock \<Rightarrow> bool \<times> cspinlock" where
  "test_and_set l = (is_locked l, l\<lparr>is_locked := True\<rparr>)"

definition clear :: "cspinlock \<Rightarrow> cspinlock" where
  "clear l = l\<lparr>is_locked := False\<rparr>"

partial_function (option) spin :: "cspinlock \<Rightarrow> cspinlock option" where
  "spin l = (case test_and_set l of (busy, l') \<Rightarrow> if busy then spin l' else Some l')"

definition cspin_lock :: "cspinlock option \<Rightarrow> (int \<times> cspinlock option) option" where
  "cspin_lock slock =
     (case slock of None \<Rightarrow> Some (1, None)
      | Some l \<Rightarrow> map_option (\<lambda>l'. (0, Some l')) (spin l))"

definition cspin_trylock :: "cspinlock option \<Rightarrow> int \<times> cspinlock option" where
  "cspin_trylock slock =
     (case slock of None \<Rightarrow> (1, None)
      | Some l \<Rightarrow> (case test_and_set l of (busy, l') \<Rightarrow> (if busy then 1 else 0, Some l')))"

definition cspin_unlock :: "cspinlock option \<Rightarrow> int \<times> cspinlock option" where
  "cspin_unlock slock = (case slock of None \<Rightarrow> (1, None) | Some l \<Rightarrow> (0, Some (clear l)))"

definition cspin_alloc :: "bool \<Rightarrow> cspinlock option" where
  "cspin_alloc malloc_ok = (if malloc_ok then Some (clear \<lparr>is_locked = True\<rparr>) else None)"

subsection \<open>Threads on one lock\<close>

datatype spin_pc = Outside | Spinning | Inside

record spin_sys =
  lock :: cspinlock
  spinners :: "nat \<Rightarrow> spin_pc"

inductive spin_step :: "spin_sys \<Rightarrow> spin_sys \<Rightarrow> bool" where
  call: "spinners c t = Outside \<Longrightarrow> spin_step c (c\<lparr>spinners := (spinners c)(t := Spinning)\<rparr>)"
| attempt: "spinners c t = Spinning \<Longrightarrow> test_and_set (lock c) = (busy, l) \<Longrightarrow>
    spin_step c \<lparr>lock = l, spinners = (spinners c)(t := if busy then Spinning else Inside)\<rparr>"
| trylock: "spinners c t = Outside \<Longrightarrow> cspin_trylock (Some (lock c)) = (r, Some l) \<Longrightarrow>
    spin_step c \<lparr>lock = l, spinners = (spinners c)(t := if r = 0 then Inside else Outside)\<rparr>"
| release: "spinners c t = Inside \<Longrightarrow> cspin_unlock (Some (lock c)) = (r, Some l) \<Longrightarrow>
    spin_step c \<lparr>lock = l, spinners = (spinners c)(t := Outside)\<rparr>"

inductive spin_reachable :: "spin_sys \<Rightarrow> bool" where
  start: "cspin_alloc True = Some l \<Longrightarrow> spin_reachable \<lparr>lock = l, spinners = (\<lambda>_. Outside)\<rparr>"
| step: "spin_reachable c \<Longrightarrow> spin_step c c' \<Longrightarrow> spin_reachable c'"

definition insiders :: "spin_sys \<Rightarrow> nat set" where
  "insiders c = {t. spinners c t = Inside}"

definition spin_inv :: "spin_sys \<Rightarrow> bool" where
  "spin_inv c \<longleftrightarrow> (if is_locked (lock c) then \<exists>u. insiders c = {u} else insiders c = {})"

lemmas spin_defs = test_and_set_def clear_def cspin_trylock_def cspin_unlock_def cspin_alloc_def

lemma insiders_upd:
  "insiders \<lparr>lock = l, spinners = (spinners c)(t := p)\<rparr> =
    (if p = Inside then insert t (insiders c) else insiders c - {t})"
  by (auto simp: insiders_def)

lemma spin_step_inv: "spin_step c c' \<Longrightarrow> spin_inv c \<Longrightarrow> spin_inv c'"
proof (induction rule: spin_step.induct)
  case (call c t)
  then have "insiders (c\<lparr>spinners := (spinners c)(t := Spinning)\<rparr>) = insiders c"
    by (auto simp: insiders_def)
  then show ?case using call by (simp add: spin_inv_def)
next
  case (attempt c t busy l)
  have "t \<notin> insiders c" using attempt(1) by (simp add: insiders_def)
  moreover have "busy = is_locked (lock c)" "is_locked l" using attempt(2) by (auto simp: spin_defs)
  ultimately show ?case using attempt(3) by (simp add: spin_inv_def insiders_upd)
next
  case (trylock c t r l)
  have "t \<notin> insiders c" using trylock(1) by (simp add: insiders_def)
  moreover have "r = (if is_locked (lock c) then 1 else 0)" "is_locked l" using trylock(2) by (auto simp: spin_defs)
  ultimately show ?case using trylock(3) by (simp add: spin_inv_def insiders_upd)
next
  case (release c t r l)
  then have "t \<in> insiders c" by (simp add: insiders_def)
  then show ?case using release by (auto simp: spin_inv_def insiders_upd spin_defs split: if_splits)
qed

lemma spin_reachable_inv: "spin_reachable c \<Longrightarrow> spin_inv c"
proof (induction rule: spin_reachable.induct)
  case (start l)
  then show ?case by (auto simp: spin_inv_def insiders_def spin_defs)
next
  case (step c c')
  then show ?case using spin_step_inv by blast
qed

lemma spin_free: "\<not> is_locked l \<Longrightarrow> spin l = Some (l\<lparr>is_locked := True\<rparr>)"
  by (simp add: spin.simps test_and_set_def)

text \<open>A call of \<^verbatim>\<open>cspin_lock\<close> that runs alone on a taken lock does not return.\<close>

lemma spin_taken: "is_locked l \<Longrightarrow> spin l = None"
proof -
  have "\<not> is_locked l" if "spin l = Some l'" for l'
    by (rule spin.raw_induct [OF _ that, where P = "\<lambda>l _. \<not> is_locked l"])
      (fastforce simp: test_and_set_def split: if_splits)
  then show "is_locked l \<Longrightarrow> spin l = None" by (cases "spin l") auto
qed

end
