(* ===== verification/Lock_Map.thy ===== *)
theory Lock_Map
  imports Hashmap_Spec Spin_Lock
begin

section \<open>The lock-based hash map\<close>

text \<open>
  \<^verbatim>\<open>task04-concurrency/src/lockhashmap.c\<close>: buckets are singly linked lists of nodes in a
  heap, each with its spinlock. The heap maps node pointers to nodes that are allocated; a
  freed or never allocated node is \<open>None\<close>, and so is the result of an operation that touches
  one. An operation works under the lock of its bucket, so it is one function on the state.
  \<^verbatim>\<open>remove_item\<close> walks the list with a pointer to the link that leads to the current node.
\<close>

type_synonym lk_ptr = "nat option"

record lk_node =
  lk_val :: "64 word"
  lk_next :: lk_ptr

record lk_bucket =
  slock :: "cspinlock option"
  lk_head :: lk_ptr

record lk_map =
  lk_n :: size_t
  lk_buckets :: "lk_bucket list"
  lk_heap :: "nat \<Rightarrow> lk_node option"
  lk_fresh :: nat

datatype lk_link = Head nat | Link nat

definition lk_bucket_of :: "lk_map \<Rightarrow> 64 word \<Rightarrow> nat" where
  "lk_bucket_of s v = unat (v mod lk_n s)"

definition lk_load :: "lk_link \<Rightarrow> lk_map \<Rightarrow> lk_ptr option" where
  "lk_load l s =
     (case l of Head b \<Rightarrow> if b < length (lk_buckets s) then Some (lk_head (lk_buckets s ! b)) else None
      | Link x \<Rightarrow> map_option lk_next (lk_heap s x))"

definition lk_store :: "lk_link \<Rightarrow> lk_ptr \<Rightarrow> lk_map \<Rightarrow> lk_map option" where
  "lk_store l p s =
     (case l of Head b \<Rightarrow>
        if b < length (lk_buckets s)
        then Some (s\<lparr>lk_buckets := (lk_buckets s)[b := (lk_buckets s ! b)\<lparr>lk_head := p\<rparr>]\<rparr>) else None
      | Link x \<Rightarrow>
        (case lk_heap s x of None \<Rightarrow> None
         | Some n \<Rightarrow> Some (s\<lparr>lk_heap := (lk_heap s)(x := Some (n\<lparr>lk_next := p\<rparr>))\<rparr>)))"

definition lk_free :: "nat \<Rightarrow> lk_map \<Rightarrow> lk_map option" where
  "lk_free x s = (case lk_heap s x of None \<Rightarrow> None | Some _ \<Rightarrow> Some (s\<lparr>lk_heap := (lk_heap s)(x := None)\<rparr>))"

definition lk_lock :: "nat \<Rightarrow> lk_map \<Rightarrow> lk_map option" where
  "lk_lock b s =
     (case cspin_lock (slock (lk_buckets s ! b)) of None \<Rightarrow> None
      | Some (_, k) \<Rightarrow> Some (s\<lparr>lk_buckets := (lk_buckets s)[b := (lk_buckets s ! b)\<lparr>slock := k\<rparr>]\<rparr>))"

definition lk_unlock :: "nat \<Rightarrow> lk_map \<Rightarrow> lk_map" where
  "lk_unlock b s =
     s\<lparr>lk_buckets := (lk_buckets s)[b := (lk_buckets s ! b)\<lparr>slock := snd (cspin_unlock (slock (lk_buckets s ! b)))\<rparr>]\<rparr>"

definition lk_insert_item :: "bool \<Rightarrow> 64 word \<Rightarrow> lk_map \<Rightarrow> (int \<times> lk_map) option" where
  "lk_insert_item malloc_ok v s =
     (if lk_n s = 0 then Some (1, s)
      else
        let b = lk_bucket_of s v in
        if slock (lk_buckets s ! b) = None then Some (1, s)
        else if \<not> malloc_ok then Some (1, s)
        else do {
          let x = lk_fresh s;
          let s = s\<lparr>lk_heap := (lk_heap s)(x \<mapsto> \<lparr>lk_val = v, lk_next = None\<rparr>), lk_fresh := Suc x\<rparr>;
          s \<leftarrow> lk_lock b s;
          p \<leftarrow> lk_load (Head b) s;
          s \<leftarrow> lk_store (Link x) p s;
          s \<leftarrow> lk_store (Head b) (Some x) s;
          Some (0, lk_unlock b s)
        })"

partial_function (option) lk_remove_loop ::
  "nat \<Rightarrow> 64 word \<Rightarrow> lk_link \<Rightarrow> lk_map \<Rightarrow> (int \<times> lk_map) option" where
  "lk_remove_loop b v cur_ptr s = do {
     p \<leftarrow> lk_load cur_ptr s;
     (case p of None \<Rightarrow> Some (1, lk_unlock b s)
      | Some cur \<Rightarrow> do {
          n \<leftarrow> lk_heap s cur;
          if lk_val n = v
          then do {
            s \<leftarrow> lk_store cur_ptr (lk_next n) s;
            s \<leftarrow> lk_free cur (lk_unlock b s);
            Some (0, s)
          }
          else lk_remove_loop b v (Link cur) s
        })
   }"

definition lk_remove_item :: "64 word \<Rightarrow> lk_map \<Rightarrow> (int \<times> lk_map) option" where
  "lk_remove_item v s =
     (if lk_n s = 0 then Some (1, s)
      else
        let b = lk_bucket_of s v in
        if slock (lk_buckets s ! b) = None then Some (1, s)
        else do {
          s \<leftarrow> lk_lock b s;
          lk_remove_loop b v (Head b) s
        })"

partial_function (option) lk_lookup_loop :: "64 word \<Rightarrow> lk_ptr \<Rightarrow> lk_map \<Rightarrow> int option" where
  "lk_lookup_loop v cur s =
     (case cur of None \<Rightarrow> Some 1
      | Some x \<Rightarrow> do {
          n \<leftarrow> lk_heap s x;
          if lk_val n = v then Some 0 else lk_lookup_loop v (lk_next n) s
        })"

definition lk_lookup_item :: "64 word \<Rightarrow> lk_map \<Rightarrow> (int \<times> lk_map) option" where
  "lk_lookup_item v s =
     (if lk_n s = 0 then Some (1, s)
      else
        let b = lk_bucket_of s v in
        if slock (lk_buckets s ! b) = None then Some (1, s)
        else do {
          s \<leftarrow> lk_lock b s;
          p \<leftarrow> lk_load (Head b) s;
          r \<leftarrow> lk_lookup_loop v p s;
          Some (r, lk_unlock b s)
        })"

text \<open>\<^verbatim>\<open>alloc_hashmap\<close>: \<open>oks i\<close> says whether the \<open>i\<close>-th allocation succeeds: the map, the bucket
  array, and for each bucket its list and its lock. The result is \<open>Some None\<close> for NULL. When a
  list cannot be allocated, \<^verbatim>\<open>free_hashmap\<close> frees the buckets built so far, which are
  empty. When a lock cannot be allocated, it also follows the list head of the current
  bucket, which is not initialised yet: this is \<open>None\<close>.\<close>

fun lk_alloc_buckets :: "(nat \<Rightarrow> bool) \<Rightarrow> nat \<Rightarrow> nat \<Rightarrow> lk_bucket list option option" where
  "lk_alloc_buckets oks i 0 = Some (Some [])"
| "lk_alloc_buckets oks i (Suc k) =
     (if \<not> oks (2 * i + 2) then Some None
      else if cspin_alloc (oks (2 * i + 3)) = None then None
      else map_option (map_option (Cons \<lparr>slock = cspin_alloc (oks (2 * i + 3)), lk_head = None\<rparr>))
             (lk_alloc_buckets oks (Suc i) k))"

definition lk_alloc_hashmap :: "(nat \<Rightarrow> bool) \<Rightarrow> size_t \<Rightarrow> lk_map option option" where
  "lk_alloc_hashmap oks n =
     (if n = 0 then Some None
      else if \<not> oks 0 then Some None
      else if \<not> oks 1 then Some None
      else map_option (map_option (\<lambda>bs. \<lparr>lk_n = n, lk_buckets = bs, lk_heap = (\<lambda>_. None), lk_fresh = 0\<rparr>))
             (lk_alloc_buckets oks 0 (unat n)))"

partial_function (option) lk_free_list :: "lk_ptr \<Rightarrow> lk_map \<Rightarrow> lk_map option" where
  "lk_free_list cur s =
     (case cur of None \<Rightarrow> Some s
      | Some x \<Rightarrow> do {
          n \<leftarrow> lk_heap s x;
          s \<leftarrow> lk_free x s;
          lk_free_list (lk_next n) s
        })"

fun lk_free_buckets :: "lk_bucket list \<Rightarrow> lk_map \<Rightarrow> lk_map option" where
  "lk_free_buckets [] s = Some s"
| "lk_free_buckets (b # bs) s = do { s \<leftarrow> lk_free_list (lk_head b) s; lk_free_buckets bs s }"

text \<open>\<^verbatim>\<open>free_hashmap\<close>: the nodes bucket by bucket; the locks and lists go with the buckets.\<close>

definition lk_free_hashmap :: "lk_map \<Rightarrow> lk_map option" where
  "lk_free_hashmap s = map_option (\<lambda>s. s\<lparr>lk_buckets := []\<rparr>) (lk_free_buckets (lk_buckets s) s)"

text \<open>\<^verbatim>\<open>print_hashmap\<close>: the values printed for each bucket, taken under its lock. A bucket
  without a lock is skipped.\<close>

partial_function (option) lk_print_list :: "lk_ptr \<Rightarrow> lk_map \<Rightarrow> 64 word list option" where
  "lk_print_list cur s =
     (case cur of None \<Rightarrow> Some []
      | Some x \<Rightarrow> do {
          n \<leftarrow> lk_heap s x;
          vs \<leftarrow> lk_print_list (lk_next n) s;
          Some (lk_val n # vs)
        })"

fun lk_print_buckets :: "nat list \<Rightarrow> lk_map \<Rightarrow> ((nat \<times> 64 word list) list \<times> lk_map) option" where
  "lk_print_buckets [] s = Some ([], s)"
| "lk_print_buckets (b # bs) s =
     (if slock (lk_buckets s ! b) = None then lk_print_buckets bs s
      else do {
        s \<leftarrow> lk_lock b s;
        vs \<leftarrow> lk_print_list (lk_head (lk_buckets s ! b)) s;
        (out, s) \<leftarrow> lk_print_buckets bs (lk_unlock b s);
        Some ((b, vs) # out, s)
      })"

definition lk_print_hashmap :: "lk_map \<Rightarrow> ((nat \<times> 64 word list) list \<times> lk_map) option" where
  "lk_print_hashmap s =
     (if lk_n s = 0 then Some ([], s) else lk_print_buckets [0..<unat (lk_n s)] s)"

end
