(* ===== verification/Lock_Invariant.thy ===== *)
theory Lock_Invariant
  imports Lock_Map
begin

section \<open>The lock-based hash map: lists, counts and the contract\<close>

text \<open>
  \<open>lk_seg h p xs q\<close>: the heap holds the nodes \<open>xs\<close> as a list segment from \<open>p\<close> to \<open>q\<close>.
  \<open>lk_ok s L\<close>: bucket \<open>b\<close> is the list \<open>L b\<close>, all locks are free and every allocated node is
  in its bucket. The content of the map is the number of allocated nodes with a value.
\<close>

primrec lk_seg :: "(nat \<Rightarrow> lk_node option) \<Rightarrow> lk_ptr \<Rightarrow> nat list \<Rightarrow> lk_ptr \<Rightarrow> bool" where
  "lk_seg h p [] q \<longleftrightarrow> p = q"
| "lk_seg h p (x # xs) q \<longleftrightarrow> p = Some x \<and> (\<exists>n. h x = Some n \<and> lk_seg h (lk_next n) xs q)"

lemma lk_seg_append:
  "lk_seg h p (xs @ ys) q \<longleftrightarrow> (\<exists>r. lk_seg h p xs r \<and> lk_seg h r ys q)"
  by (induction xs arbitrary: p) auto

lemma lk_seg_frame:
  "lk_seg h p xs q \<Longrightarrow> (\<And>x. x \<in> set xs \<Longrightarrow> h' x = h x) \<Longrightarrow> lk_seg h' p xs q"
  by (induction xs arbitrary: p) auto

definition unlocked :: "lk_bucket \<Rightarrow> bool" where
  "unlocked b \<longleftrightarrow> slock b = Some \<lparr>is_locked = False\<rparr>"

definition lk_lists :: "lk_map \<Rightarrow> (nat \<Rightarrow> nat list) \<Rightarrow> bool" where
  "lk_lists s L \<longleftrightarrow> lk_n s \<noteq> 0 \<and> length (lk_buckets s) = unat (lk_n s) \<and>
     (\<forall>b < length (lk_buckets s). lk_seg (lk_heap s) (lk_head (lk_buckets s ! b)) (L b) None \<and> distinct (L b)) \<and>
     (\<forall>b x. x \<in> set (L b) \<longrightarrow> x < lk_fresh s \<and> (\<exists>n. lk_heap s x = Some n \<and> lk_bucket_of s (lk_val n) = b)) \<and>
     (\<forall>x n. lk_heap s x = Some n \<longrightarrow> x \<in> set (L (lk_bucket_of s (lk_val n))))"

definition lk_inv :: "lk_map \<Rightarrow> bool" where
  "lk_inv s \<longleftrightarrow> (\<forall>k \<in> set (lk_buckets s). unlocked k) \<and> (\<exists>L. lk_lists s L)"

definition lk_count :: "lk_map \<Rightarrow> 64 word \<Rightarrow> nat" where
  "lk_count s v = card {x. \<exists>n. lk_heap s x = Some n \<and> lk_val n = v}"

lemma lk_listsD:
  assumes "lk_lists s L"
  shows "lk_n s \<noteq> 0" "length (lk_buckets s) = unat (lk_n s)" "lk_bucket_of s v < length (lk_buckets s)"
    "b < length (lk_buckets s) \<Longrightarrow> lk_seg (lk_heap s) (lk_head (lk_buckets s ! b)) (L b) None"
    "b < length (lk_buckets s) \<Longrightarrow> distinct (L b)"
    "x \<in> set (L b) \<Longrightarrow> x < lk_fresh s" "x \<in> set (L b) \<Longrightarrow> \<exists>n. lk_heap s x = Some n \<and> lk_bucket_of s (lk_val n) = b"
    "lk_heap s x = Some n \<Longrightarrow> x \<in> set (L (lk_bucket_of s (lk_val n)))"
proof -
  show n: "lk_n s \<noteq> 0" and l: "length (lk_buckets s) = unat (lk_n s)" using assms by (simp_all add: lk_lists_def)
  have "unat (v mod lk_n s) < unat (lk_n s)" using n by (simp add: unat_mod unat_gt_0)
  then show "lk_bucket_of s v < length (lk_buckets s)" unfolding lk_bucket_of_def l .
  show "b < length (lk_buckets s) \<Longrightarrow> lk_seg (lk_heap s) (lk_head (lk_buckets s ! b)) (L b) None"
    "b < length (lk_buckets s) \<Longrightarrow> distinct (L b)"
    "x \<in> set (L b) \<Longrightarrow> x < lk_fresh s" "x \<in> set (L b) \<Longrightarrow> \<exists>n. lk_heap s x = Some n \<and> lk_bucket_of s (lk_val n) = b"
    "lk_heap s x = Some n \<Longrightarrow> x \<in> set (L (lk_bucket_of s (lk_val n)))"
    using assms by (simp_all add: lk_lists_def)
qed

lemma lk_holders: "{y. \<exists>m. h y = Some m \<and> lk_val m = w} = {y. map_option lk_val (h y) = Some w}"
  by auto

lemma lk_finite: "lk_lists s L \<Longrightarrow> finite {x. \<exists>n. lk_heap s x = Some n \<and> lk_val n = v}"
  by (rule finite_subset [of _ "{..< lk_fresh s}"]) (auto dest: lk_listsD(8) lk_listsD(6))

text \<open>The lists of different buckets have no node in common.\<close>

lemma lk_disjoint:
  "lk_lists s L \<Longrightarrow> x \<in> set (L b) \<Longrightarrow> x \<in> set (L b') \<Longrightarrow> b = b'"
  using lk_listsD(7) [of s L x b] lk_listsD(7) [of s L x b'] by auto

lemma lock_ok:
  assumes "b < length (lk_buckets s)" and "unlocked (lk_buckets s ! b)"
  shows "lk_lock b s = Some (s\<lparr>lk_buckets := (lk_buckets s)[b := (lk_buckets s ! b)\<lparr>slock := Some \<lparr>is_locked = True\<rparr>\<rparr>]\<rparr>)"
  using assms spin_free [of "\<lparr>is_locked = False\<rparr>"] by (simp add: lk_lock_def cspin_lock_def unlocked_def)

text \<open>\<open>taken b s\<close>: the state with the lock of bucket \<open>b\<close> held.\<close>

definition taken :: "nat \<Rightarrow> lk_map \<Rightarrow> lk_map" where
  "taken b s = s\<lparr>lk_buckets := (lk_buckets s)[b := (lk_buckets s ! b)\<lparr>slock := Some \<lparr>is_locked = True\<rparr>\<rparr>]\<rparr>"

lemma lk_bucket_of_upd [simp]:
  "lk_bucket_of (s\<lparr>lk_buckets := x\<rparr>) = lk_bucket_of s" "lk_bucket_of (s\<lparr>lk_heap := h\<rparr>) = lk_bucket_of s"
  "lk_bucket_of (s\<lparr>lk_heap := h, lk_fresh := f\<rparr>) = lk_bucket_of s"
  by (simp_all add: fun_eq_iff lk_bucket_of_def)

lemma unlock_lists:
  assumes "lk_lists s L" and "\<forall>k < length (lk_buckets s). k \<noteq> b \<longrightarrow> unlocked (lk_buckets s ! k)"
    and "b < length (lk_buckets s)" "slock (lk_buckets s ! b) \<noteq> None"
  shows "lk_inv (lk_unlock b s)" "lk_heap (lk_unlock b s) = lk_heap s"
proof -
  obtain l where l: "slock (lk_buckets s ! b) = Some l" using assms(4) by blast
  have "lk_lists (lk_unlock b s) L"
    using assms(1,3) unfolding lk_lists_def lk_unlock_def by (simp add: nth_list_update)
  moreover have "\<forall>k \<in> set (lk_buckets (lk_unlock b s)). unlocked k"
    using assms(2,3) l by (auto simp: lk_unlock_def in_set_conv_nth nth_list_update unlocked_def cspin_unlock_def clear_def)
  ultimately show "lk_inv (lk_unlock b s)" by (auto simp: lk_inv_def)
  show "lk_heap (lk_unlock b s) = lk_heap s" by (simp add: lk_unlock_def)
qed

subsection \<open>insert\<close>

lemma lk_insert_ok:
  assumes inv: "lk_inv s"
  shows "\<exists>s'. lk_insert_item ok v s = Some (if ok then 0 else 1, s') \<and> lk_inv s' \<and>
    lk_count s' = (if ok then (lk_count s)(v := lk_count s v + 1) else lk_count s)"
proof -
  obtain L where L: "lk_lists s L" and un: "\<forall>k \<in> set (lk_buckets s). unlocked k" using inv by (auto simp: lk_inv_def)
  note d = lk_listsD [OF L]
  define b where "b = lk_bucket_of s v"
  have b: "b < length (lk_buckets s)" using d(3) by (simp add: b_def)
  have ub: "unlocked (lk_buckets s ! b)" using un b by simp
  show ?thesis
  proof (cases ok)
    case False
    then show ?thesis using inv d(1) ub by (simp add: lk_insert_item_def Let_def b_def [symmetric] unlocked_def)
  next
    case True
    define x where "x = lk_fresh s"
    define hd0 where "hd0 = lk_head (lk_buckets s ! b)"
    define h where "h = (lk_heap s)(x \<mapsto> \<lparr>lk_val = v, lk_next = hd0\<rparr>)"
    define s1 where "s1 = s\<lparr>lk_fresh := Suc x, lk_heap := h, lk_buckets := (lk_buckets s)
      [b := (lk_buckets s ! b)\<lparr>slock := Some \<lparr>is_locked = True\<rparr>, lk_head := Some x\<rparr>]\<rparr>"
    have new: "lk_heap s x = None" using d(6,8) by (metis less_irrefl not_Some_eq x_def)
    have xL: "x \<notin> set (L k)" for k using d(6) [of x k] by (auto simp: x_def)
    have r: "lk_insert_item ok v s = Some (0, lk_unlock b s1)"
      using True d(1) ub b lock_ok [of b] unfolding lk_insert_item_def Let_def b_def [symmetric]
      by (simp add: unlocked_def lk_load_def lk_store_def s1_def h_def hd0_def x_def [symmetric])
    have bo: "lk_bucket_of s1 = lk_bucket_of s" by (simp add: s1_def fun_eq_iff lk_bucket_of_def)
    have lists: "lk_lists s1 (L(b := x # L b))"
    proof -
      have "lk_seg h (lk_head (lk_buckets s1 ! k)) ((L(b := x # L b)) k) None" if k: "k < length (lk_buckets s)" for k
      proof -
        have "lk_seg h (lk_head (lk_buckets s ! k)) (L k) None"
          by (rule lk_seg_frame [OF d(4) [OF k]]) (use xL in \<open>auto simp: h_def\<close>)
        then show ?thesis using b k by (cases "k = b") (auto simp: s1_def h_def hd0_def)
      qed
      moreover have "distinct ((L(b := x # L b)) k)" if "k < length (lk_buckets s)" for k
        using d(5) [OF that] xL by (cases "k = b") simp_all
      moreover have "y < lk_fresh s1 \<and> (\<exists>n. h y = Some n \<and> lk_bucket_of s (lk_val n) = k)"
        if "y \<in> set ((L(b := x # L b)) k)" for y k
      proof (cases "y = x")
        case True
        then show ?thesis using that xL by (cases "k = b") (auto simp: s1_def h_def b_def)
      next
        case False
        then have "y \<in> set (L k)" using that by (cases "k = b") simp_all
        then show ?thesis using d(6,7) False by (fastforce simp: s1_def h_def x_def)
      qed
      moreover have "y \<in> set ((L(b := x # L b)) (lk_bucket_of s (lk_val n)))" if "h y = Some n" for y n
        using that d(8) [of y n] by (cases "y = x") (auto simp: h_def b_def)
      ultimately show ?thesis using d(1,2) unfolding lk_lists_def bo by (simp add: s1_def)
    qed
    have "lk_inv (lk_unlock b s1)" "lk_heap (lk_unlock b s1) = h"
      using unlock_lists [OF lists, of b] un b by (simp_all add: s1_def)
    moreover have "lk_count (lk_unlock b s1) = (lk_count s)(v := lk_count s v + 1)"
    proof
      fix w
      have "{y. \<exists>n. h y = Some n \<and> lk_val n = w} =
          (if w = v then insert x else id) {y. \<exists>n. lk_heap s y = Some n \<and> lk_val n = w}"
        using new by (auto simp: h_def)
      then show "lk_count (lk_unlock b s1) w = ((lk_count s)(v := lk_count s v + 1)) w"
        using lk_finite [OF L, of w] new
        by (auto simp: lk_count_def \<open>lk_heap (lk_unlock b s1) = h\<close>)
    qed
    ultimately show ?thesis using r True by simp
  qed
qed

subsection \<open>remove\<close>

text \<open>The link that leads to what follows the nodes \<open>as\<close> of a bucket.\<close>

definition link_after :: "nat \<Rightarrow> nat list \<Rightarrow> lk_link" where
  "link_after b as = (if as = [] then Head b else Link (last as))"

text \<open>Storing a pointer to a link changes the list segment that ends there, and no node's value.\<close>

lemma store_link_after:
  assumes b: "b < length (lk_buckets s)" and seg: "lk_seg (lk_heap s) (lk_head (lk_buckets s ! b)) as r" and dis: "distinct as"
  obtains s' where "lk_store (link_after b as) q s = Some s'"
    "lk_seg (lk_heap s') (lk_head (lk_buckets s' ! b)) as q"
    "\<And>y. y \<notin> set as \<Longrightarrow> lk_heap s' y = lk_heap s y"
    "\<And>y. map_option lk_val (lk_heap s' y) = map_option lk_val (lk_heap s y)"
    "length (lk_buckets s') = length (lk_buckets s)" "\<And>k. slock (lk_buckets s' ! k) = slock (lk_buckets s ! k)"
    "\<And>k. k \<noteq> b \<Longrightarrow> lk_buckets s' ! k = lk_buckets s ! k" "lk_n s' = lk_n s" "lk_fresh s' = lk_fresh s"
proof (cases as rule: rev_cases)
  case Nil
  then show ?thesis using b
    by (intro that [of "s\<lparr>lk_buckets := (lk_buckets s)[b := (lk_buckets s ! b)\<lparr>lk_head := q\<rparr>]\<rparr>"])
      (simp_all add: link_after_def lk_store_def nth_list_update)
next
  case (snoc us x)
  obtain n where n: "lk_heap s x = Some n" and us: "lk_seg (lk_heap s) (lk_head (lk_buckets s ! b)) us (Some x)"
    using seg snoc by (auto simp: lk_seg_append)
  let ?s = "s\<lparr>lk_heap := (lk_heap s)(x \<mapsto> n\<lparr>lk_next := q\<rparr>)\<rparr>"
  have "lk_seg (lk_heap ?s) (lk_head (lk_buckets s ! b)) us (Some x)"
    by (rule lk_seg_frame [OF us]) (use dis snoc in auto)
  then have "lk_seg (lk_heap ?s) (lk_head (lk_buckets ?s ! b)) as q" using snoc by (simp add: lk_seg_append)
  then show ?thesis using n snoc
    by (intro that [of ?s]) (auto simp: link_after_def lk_store_def)
qed

lemma load_link_after:
  assumes b: "b < length (lk_buckets s)" and seg: "lk_seg (lk_heap s) (lk_head (lk_buckets s ! b)) as r"
  shows "lk_load (link_after b as) s = Some r"
proof (cases as rule: rev_cases)
  case Nil
  then show ?thesis using assms by (simp add: link_after_def lk_load_def)
next
  case (snoc us x)
  then show ?thesis using seg by (auto simp: link_after_def lk_load_def lk_seg_append)
qed

text \<open>Taking one node out of a list and freeing it.\<close>

lemma unlink_lists:
  assumes L: "lk_lists s L" and b: "b < length (lk_buckets s)" and Lb: "L b = as @ x # bs" and n: "lk_heap s x = Some n"
    and tail: "lk_seg (lk_heap s) (lk_next n) bs None"
    and s1: "lk_seg (lk_heap s1) (lk_head (lk_buckets s1 ! b)) as (lk_next n)"
      "\<And>y. y \<notin> set as \<Longrightarrow> lk_heap s1 y = lk_heap s y"
      "\<And>y. map_option lk_val (lk_heap s1 y) = map_option lk_val (lk_heap s y)"
      "length (lk_buckets s1) = length (lk_buckets s)"
      "\<And>k. k \<noteq> b \<Longrightarrow> lk_buckets s1 ! k = lk_buckets s ! k" "lk_n s1 = lk_n s" "lk_fresh s1 = lk_fresh s"
    and s2: "s2 = s1\<lparr>lk_heap := (lk_heap s1)(x := None)\<rparr>"
  shows "lk_lists s2 (L(b := as @ bs))"
proof -
  note d = lk_listsD [OF L]
  have dis: "distinct (as @ x # bs)" using d(5) [OF b] Lb by simp
  have vals: "map_option lk_val (lk_heap s2 y) = (if y = x then None else map_option lk_val (lk_heap s y))" for y
    using s1(3) by (simp add: s2)
  have bo: "lk_bucket_of s2 = lk_bucket_of s" using s1(6) by (simp add: s2 fun_eq_iff lk_bucket_of_def)
  have same: "lk_heap s2 y = lk_heap s y" if "y \<notin> set (as @ [x])" for y using that s1(2) by (simp add: s2)
  have "lk_seg (lk_heap s2) (lk_head (lk_buckets s2 ! k)) ((L(b := as @ bs)) k) None \<and> distinct ((L(b := as @ bs)) k)"
    if k: "k < length (lk_buckets s)" for k
  proof (cases "k = b")
    case True
    have "lk_seg (lk_heap s2) (lk_head (lk_buckets s1 ! b)) as (lk_next n)"
      by (rule lk_seg_frame [OF s1(1)]) (use dis in \<open>auto simp: s2\<close>)
    moreover have "lk_seg (lk_heap s2) (lk_next n) bs None"
      by (rule lk_seg_frame [OF tail], rule same) (use dis in auto)
    ultimately show ?thesis using True dis by (auto simp: lk_seg_append s2)
  next
    case False
    have "y \<notin> set (as @ [x])" if "y \<in> set (L k)" for y
      using lk_disjoint [OF L that, of b] False Lb by auto
    then have "lk_seg (lk_heap s2) (lk_head (lk_buckets s ! k)) (L k) None"
      by (intro lk_seg_frame [OF d(4) [OF k]] same)
    then show ?thesis using False d(5) [OF k] s1(5) by (simp add: s2)
  qed
  moreover have "y < lk_fresh s2 \<and> (\<exists>m. lk_heap s2 y = Some m \<and> lk_bucket_of s (lk_val m) = k)"
    if "y \<in> set ((L(b := as @ bs)) k)" for y k
  proof -
    have y: "y \<in> set (L k)" "y \<noteq> x"
      using that Lb dis lk_disjoint [OF L, of x k b] by (auto split: if_splits)
    obtain m where m: "lk_heap s y = Some m" "lk_bucket_of s (lk_val m) = k" using d(7) [OF y(1)] by blast
    obtain m' where "lk_heap s2 y = Some m'" "lk_val m' = lk_val m" using vals [of y] y(2) m(1) by auto
    then show ?thesis using m(2) d(6) [OF y(1)] s1(7) by (simp add: s2)
  qed
  moreover have "y \<in> set ((L(b := as @ bs)) (lk_bucket_of s (lk_val m)))" if hy: "lk_heap s2 y = Some m" for y m
  proof -
    have y: "y \<noteq> x" using hy by (auto simp: s2)
    then obtain m' where m': "lk_heap s y = Some m'" "lk_val m' = lk_val m" using vals [of y] hy by (cases "lk_heap s y") auto
    then show ?thesis using d(8) [OF m'(1)] y Lb by (auto simp del: fun_upd_apply simp: fun_upd_def)
  qed
  ultimately show ?thesis using d(1,2) s1(4,6) unfolding lk_lists_def bo by (simp add: s2)
qed

lemma remove_loop_ok:
  assumes L: "lk_lists s L" and b: "b < length (lk_buckets s)" and bv: "lk_bucket_of s v = b"
    and lk: "\<forall>k < length (lk_buckets s). k \<noteq> b \<longrightarrow> unlocked (lk_buckets s ! k)" "slock (lk_buckets s ! b) \<noteq> None"
  shows "L b = as @ bs \<Longrightarrow> \<forall>x \<in> set as. \<forall>n. lk_heap s x = Some n \<longrightarrow> lk_val n \<noteq> v \<Longrightarrow>
    \<exists>s'. lk_remove_loop b v (link_after b as) s = Some (if lk_count s v = 0 then 1 else 0, s') \<and> lk_inv s' \<and>
      lk_count s' = (if lk_count s v = 0 then lk_count s else (lk_count s)(v := lk_count s v - 1))"
proof (induction bs arbitrary: as)
  case Nil
  note d = lk_listsD [OF L]
  have e: "{x. \<exists>n. lk_heap s x = Some n \<and> lk_val n = v} = {}" using Nil d(8) bv by auto
  then have "lk_count s v = 0" unfolding lk_count_def e by simp
  moreover have "lk_load (link_after b as) s = Some None"
    using load_link_after [OF b, of as None] d(4) [OF b] Nil by simp
  then have "lk_remove_loop b v (link_after b as) s = Some (1, lk_unlock b s)"
    by (simp add: lk_remove_loop.simps)
  moreover note unlock_lists [OF L lk(1) b lk(2)]
  ultimately show ?case by (auto simp: lk_count_def fun_eq_iff)
next
  case (Cons x bs)
  note d = lk_listsD [OF L]
  obtain n where seg: "lk_seg (lk_heap s) (lk_head (lk_buckets s ! b)) as (Some x)" and n: "lk_heap s x = Some n"
    and tail: "lk_seg (lk_heap s) (lk_next n) bs None"
    using d(4) [OF b] Cons.prems(1) by (auto simp: lk_seg_append)
  have dis: "distinct (as @ x # bs)" using d(5) [OF b] Cons.prems(1) by simp
  have ld: "lk_load (link_after b as) s = Some (Some x)" by (rule load_link_after [OF b seg])
  show ?case
  proof (cases "lk_val n = v")
    case False
    have "lk_remove_loop b v (link_after b as) s = lk_remove_loop b v (link_after b (as @ [x])) s"
      using ld n False by (subst lk_remove_loop.simps) (simp add: link_after_def)
    then show ?thesis using Cons.IH [of "as @ [x]"] Cons.prems n False by auto
  next
    case True
    obtain s1 where s1: "lk_store (link_after b as) (lk_next n) s = Some s1"
      "lk_seg (lk_heap s1) (lk_head (lk_buckets s1 ! b)) as (lk_next n)"
      "\<And>y. y \<notin> set as \<Longrightarrow> lk_heap s1 y = lk_heap s y"
      "\<And>y. map_option lk_val (lk_heap s1 y) = map_option lk_val (lk_heap s y)"
      "length (lk_buckets s1) = length (lk_buckets s)" "\<And>k. slock (lk_buckets s1 ! k) = slock (lk_buckets s ! k)"
      "\<And>k. k \<noteq> b \<Longrightarrow> lk_buckets s1 ! k = lk_buckets s ! k" "lk_n s1 = lk_n s" "lk_fresh s1 = lk_fresh s"
      using store_link_after [OF b seg] dis by (metis distinct_append)
    define s2 where "s2 = s1\<lparr>lk_heap := (lk_heap s1)(x := None)\<rparr>"
    have vals: "map_option lk_val (lk_heap s2 y) = (if y = x then None else map_option lk_val (lk_heap s y))" for y
      using s1(4) by (simp add: s2_def)
    note lists = unlink_lists [OF L b Cons.prems(1) n tail s1(2-5,7-9) s2_def]
    have un: "lk_free x (lk_unlock b s1) = Some (lk_unlock b s2)"
      using s1(3) [of x] n dis by (cases s1) (simp add: lk_free_def lk_unlock_def s2_def)
    have "lk_remove_loop b v (link_after b as) s = Some (0, lk_unlock b s2)"
      using ld n True s1(1) un by (subst lk_remove_loop.simps) simp
    moreover have "lk_inv (lk_unlock b s2)" "lk_heap (lk_unlock b s2) = lk_heap s2"
      using unlock_lists [OF lists, of b] lk b s1(5,6,7) by (simp_all add: s2_def)
    moreover have "lk_count (lk_unlock b s2) = (lk_count s)(v := lk_count s v - 1)" "lk_count s v \<noteq> 0"
    proof -
      have e: "{y. \<exists>m. lk_heap s2 y = Some m \<and> lk_val m = w} = {y. \<exists>m. lk_heap s y = Some m \<and> lk_val m = w} - {x}" for w
        unfolding lk_holders vals by auto
      have x: "x \<in> {y. \<exists>m. lk_heap s y = Some m \<and> lk_val m = w} \<longleftrightarrow> w = v" for w using n True by auto
      show "lk_count s v \<noteq> 0" using lk_finite [OF L, of v] x [of v] by (auto simp: lk_count_def card_eq_0_iff)
      show "lk_count (lk_unlock b s2) = (lk_count s)(v := lk_count s v - 1)"
        using x by (auto simp: lk_count_def \<open>lk_heap (lk_unlock b s2) = lk_heap s2\<close> e fun_eq_iff)
    qed
    ultimately show ?thesis by (simp del: fun_upd_apply)
  qed
qed

lemma taken_lists:
  assumes inv: "lk_inv s" and b: "b < length (lk_buckets s)"
  obtains L where "lk_lists s L" "lk_lists (taken b s) L" "lk_lock b s = Some (taken b s)"
    "\<forall>k < length (lk_buckets (taken b s)). k \<noteq> b \<longrightarrow> unlocked (lk_buckets (taken b s) ! k)"
    "slock (lk_buckets (taken b s) ! b) \<noteq> None" "lk_count (taken b s) = lk_count s"
proof -
  obtain L where L: "lk_lists s L" and un: "\<forall>k \<in> set (lk_buckets s). unlocked k" using inv by (auto simp: lk_inv_def)
  have "lk_lists (taken b s) L"
    using L b unfolding lk_lists_def taken_def by (simp add: nth_list_update)
  moreover have "lk_lock b s = Some (taken b s)" using lock_ok [OF b] un b by (simp add: taken_def)
  ultimately show ?thesis using L un b that [of L]
    by (simp add: taken_def nth_list_update lk_count_def fun_eq_iff)
qed

lemma lk_remove_ok:
  assumes inv: "lk_inv s"
  shows "\<exists>s'. lk_remove_item v s = Some (if lk_count s v = 0 then 1 else 0, s') \<and> lk_inv s' \<and>
    lk_count s' = (if lk_count s v = 0 then lk_count s else (lk_count s)(v := lk_count s v - 1))"
proof -
  obtain L0 where L0: "lk_lists s L0" using inv by (auto simp: lk_inv_def)
  note b = lk_listsD(3) [OF L0, of v] and n = lk_listsD(1) [OF L0]
  have u: "slock (lk_buckets s ! lk_bucket_of s v) \<noteq> None" using inv b by (auto simp: lk_inv_def unlocked_def)
  obtain L where L: "lk_lists s L" "lk_lists (taken (lk_bucket_of s v) s) L"
    "lk_lock (lk_bucket_of s v) s = Some (taken (lk_bucket_of s v) s)"
    "\<forall>k < length (lk_buckets (taken (lk_bucket_of s v) s)). k \<noteq> lk_bucket_of s v \<longrightarrow> unlocked (lk_buckets (taken (lk_bucket_of s v) s) ! k)"
    "slock (lk_buckets (taken (lk_bucket_of s v) s) ! lk_bucket_of s v) \<noteq> None"
    "lk_count (taken (lk_bucket_of s v) s) = lk_count s"
    by (rule taken_lists [OF inv b])
  have "lk_bucket_of s v < length (lk_buckets (taken (lk_bucket_of s v) s))"
    "lk_bucket_of (taken (lk_bucket_of s v) s) v = lk_bucket_of s v" using b by (simp_all add: taken_def)
  from remove_loop_ok [OF L(2) this L(4,5), of "[]" "L (lk_bucket_of s v)", unfolded L(6)] show ?thesis
    using n u L(3) by (auto simp: lk_remove_item_def Let_def link_after_def)
qed

subsection \<open>lookup and free\<close>

lemma lookup_loop_ok:
  "lk_seg (lk_heap s) p xs None \<Longrightarrow>
    lk_lookup_loop v p s = Some (if \<exists>x \<in> set xs. \<exists>n. lk_heap s x = Some n \<and> lk_val n = v then 0 else 1)"
proof (induction xs arbitrary: p)
  case Nil
  then show ?case by (simp add: lk_lookup_loop.simps)
next
  case (Cons x xs)
  then obtain n where n: "p = Some x" "lk_heap s x = Some n" "lk_seg (lk_heap s) (lk_next n) xs None" by auto
  show ?case using Cons.IH [OF n(3)] n(1,2) by (subst lk_lookup_loop.simps) auto
qed

lemma lk_lookup_ok:
  assumes inv: "lk_inv s"
  shows "\<exists>s'. lk_lookup_item v s = Some (if lk_count s v = 0 then 1 else 0, s') \<and> lk_inv s' \<and> lk_count s' = lk_count s"
proof -
  obtain L0 where L0: "lk_lists s L0" using inv by (auto simp: lk_inv_def)
  define b where "b = lk_bucket_of s v"
  have b: "b < length (lk_buckets s)" unfolding b_def by (rule lk_listsD(3) [OF L0])
  have n: "lk_n s \<noteq> 0" by (rule lk_listsD(1) [OF L0])
  have u: "slock (lk_buckets s ! b) \<noteq> None" using inv b by (auto simp: lk_inv_def unlocked_def)
  obtain L where L: "lk_lists s L" "lk_lists (taken b s) L" "lk_lock b s = Some (taken b s)"
    "\<forall>k < length (lk_buckets (taken b s)). k \<noteq> b \<longrightarrow> unlocked (lk_buckets (taken b s) ! k)"
    "slock (lk_buckets (taken b s) ! b) \<noteq> None" "lk_count (taken b s) = lk_count s"
    by (rule taken_lists [OF inv b])
  have bt: "b < length (lk_buckets (taken b s))" "lk_heap (taken b s) = lk_heap s" using b by (simp_all add: taken_def)
  have "lk_load (Head b) (taken b s) = Some (lk_head (lk_buckets (taken b s) ! b))" using bt by (simp add: lk_load_def)
  moreover have "(\<exists>x \<in> set (L b). \<exists>n. lk_heap s x = Some n \<and> lk_val n = v) \<longleftrightarrow> lk_count s v \<noteq> 0"
    using lk_finite [OF L(1), of v] lk_listsD(8) [OF L(1)] by (auto simp: lk_count_def card_eq_0_iff b_def)
  ultimately have "lk_lookup_item v s = Some (if lk_count s v = 0 then 1 else 0, lk_unlock b (taken b s))"
    using n u L(3) lookup_loop_ok [OF lk_listsD(4) [OF L(2) bt(1)], of v] bt(2)
    by (auto simp: lk_lookup_item_def Let_def b_def [symmetric])
  moreover note unlock_lists [OF L(2,4) bt(1) L(5)]
  ultimately show ?thesis using bt(2) by (auto simp: lk_count_def fun_eq_iff)
qed

interpretation locked: chashmap lk_inv lk_count lk_insert_item lk_remove_item lk_lookup_item
  by unfold_locales (rule lk_insert_ok lk_remove_ok lk_lookup_ok; assumption)+

lemma free_list_ok:
  "lk_seg (lk_heap s) p xs None \<Longrightarrow> distinct xs \<Longrightarrow>
    lk_free_list p s = Some (s\<lparr>lk_heap := (\<lambda>y. if y \<in> set xs then None else lk_heap s y)\<rparr>)"
proof (induction xs arbitrary: p s)
  case Nil
  then show ?case by (simp add: lk_free_list.simps)
next
  case (Cons x xs)
  obtain n where n: "p = Some x" "lk_heap s x = Some n" "lk_seg (lk_heap s) (lk_next n) xs None" using Cons.prems by auto
  let ?s = "s\<lparr>lk_heap := (lk_heap s)(x := None)\<rparr>"
  have "lk_seg (lk_heap ?s) (lk_next n) xs None" by (rule lk_seg_frame [OF n(3)]) (use Cons.prems(2) in auto)
  then have "lk_free_list (lk_next n) ?s = Some (?s\<lparr>lk_heap := (\<lambda>y. if y \<in> set xs then None else lk_heap ?s y)\<rparr>)"
    by (rule Cons.IH) (use Cons.prems(2) in simp)
  moreover have "lk_free_list p s = lk_free_list (lk_next n) ?s"
    using n by (subst lk_free_list.simps) (simp add: lk_free_def)
  ultimately show ?case by (auto intro!: arg_cong [where f = "\<lambda>h. s\<lparr>lk_heap := h\<rparr>"])
qed

lemma free_list_disjoint:
  assumes L: "lk_lists s L"
  shows "n \<le> length (lk_buckets s) \<Longrightarrow>
    lk_free_buckets (drop n (lk_buckets s)) (s\<lparr>lk_heap := (\<lambda>y. if \<exists>b < n. y \<in> set (L b) then None else lk_heap s y)\<rparr>) =
      Some (s\<lparr>lk_heap := (\<lambda>y. if \<exists>b < length (lk_buckets s). y \<in> set (L b) then None else lk_heap s y)\<rparr>)"
proof (induction "length (lk_buckets s) - n" arbitrary: n)
  case 0
  then show ?case by simp
next
  case (Suc m)
  let ?h = "\<lambda>n y. if \<exists>b < n. y \<in> set (L b) then None else lk_heap s y"
  let ?s = "s\<lparr>lk_heap := ?h n\<rparr>"
  have n: "n < length (lk_buckets s)" using Suc.hyps(2) by simp
  have "lk_seg (lk_heap ?s) (lk_head (lk_buckets s ! n)) (L n) None"
    by (rule lk_seg_frame [OF lk_listsD(4) [OF L n]]) (auto dest: lk_disjoint [OF L])
  from free_list_ok [OF this lk_listsD(5) [OF L n]]
  have "lk_free_list (lk_head (lk_buckets s ! n)) ?s = Some (s\<lparr>lk_heap := ?h (Suc n)\<rparr>)"
    by (simp add: less_Suc_eq) (auto simp: fun_eq_iff intro!: arg_cong [where f = "\<lambda>h. s\<lparr>lk_heap := h\<rparr>"])
  then show ?case using Suc.hyps(1) [of "Suc n"] Suc.hyps(2) n
    by (simp add: Cons_nth_drop_Suc [OF n, symmetric])
qed

text \<open>\<^verbatim>\<open>free_hashmap\<close> frees every node once and leaves none.\<close>

lemma lk_free_hashmap_ok:
  assumes "lk_inv s"
  obtains s' where "lk_free_hashmap s = Some s'" "lk_heap s' = (\<lambda>_. None)" "lk_buckets s' = []"
proof -
  obtain L where L: "lk_lists s L" using assms by (auto simp: lk_inv_def)
  have "lk_heap s y = None" if "\<forall>b < length (lk_buckets s). y \<notin> set (L b)" for y
    using that lk_listsD(3,8) [OF L] by (cases "lk_heap s y") auto
  then have "(\<lambda>y. if \<exists>b < length (lk_buckets s). y \<in> set (L b) then None else lk_heap s y) = (\<lambda>_. None)" by auto
  then show ?thesis using free_list_disjoint [OF L, of 0] that by (simp add: lk_free_hashmap_def)
qed

text \<open>\<^verbatim>\<open>alloc_hashmap\<close> gives an empty map.\<close>

lemma lk_alloc_buckets_ok:
  "lk_alloc_buckets oks i k = Some (Some bs) \<Longrightarrow> bs = replicate k \<lparr>slock = Some \<lparr>is_locked = False\<rparr>, lk_head = None\<rparr>"
  by (induction k arbitrary: i bs) (auto simp: cspin_alloc_def clear_def split: if_splits)

lemma lk_alloc_succeeds:
  assumes "n \<noteq> 0"
  shows "\<exists>s. lk_alloc_hashmap (\<lambda>_. True) n = Some (Some s)"
proof -
  have "\<exists>bs. lk_alloc_buckets (\<lambda>_. True) i k = Some (Some bs)" for i k
  proof (induction k arbitrary: i)
    case (Suc k)
    show ?case using Suc.IH [of "Suc i"] by (auto simp: cspin_alloc_def)
  qed simp
  from this [of 0 "unat n"] show ?thesis using assms by (auto simp: lk_alloc_hashmap_def)
qed

lemma lk_alloc_ok:
  assumes "lk_alloc_hashmap oks n = Some (Some s)"
  shows "lk_inv s" "lk_count s = (\<lambda>_. 0)"
proof -
  have s: "n \<noteq> 0" "s = \<lparr>lk_n = n, lk_buckets = replicate (unat n) \<lparr>slock = Some \<lparr>is_locked = False\<rparr>, lk_head = None\<rparr>,
      lk_heap = (\<lambda>_. None), lk_fresh = 0\<rparr>"
    using assms by (auto simp: lk_alloc_hashmap_def dest: lk_alloc_buckets_ok split: if_splits)
  have "lk_lists s (\<lambda>_. [])" using s by (simp add: lk_lists_def)
  then show "lk_inv s" using s(2) by (auto simp: lk_inv_def unlocked_def)
  show "lk_count s = (\<lambda>_. 0)" using s(2) by (simp add: lk_count_def fun_eq_iff)
qed

subsection \<open>Printing\<close>

lemma print_list_ok:
  "lk_seg (lk_heap s) p xs None \<Longrightarrow> lk_print_list p s = Some (map (\<lambda>x. lk_val (the (lk_heap s x))) xs)"
  by (induction xs arbitrary: p) (auto simp: lk_print_list.simps)

lemma unlock_taken:
  "b < length (lk_buckets s) \<Longrightarrow> unlocked (lk_buckets s ! b) \<Longrightarrow> lk_unlock b (taken b s) = s"
  by (cases "lk_buckets s ! b")
    (auto simp: lk_unlock_def taken_def unlocked_def cspin_unlock_def clear_def intro: lk_map.equality
      dest: list_update_same_conv [THEN iffD2])

lemma print_buckets_ok:
  assumes inv: "lk_inv s" and L: "lk_lists s L"
  shows "set bs \<subseteq> {..< length (lk_buckets s)} \<Longrightarrow>
    lk_print_buckets bs s = Some (map (\<lambda>b. (b, map (\<lambda>x. lk_val (the (lk_heap s x))) (L b))) bs, s)"
proof (induction bs)
  case Nil
  then show ?case by simp
next
  case (Cons b bs)
  then have b: "b < length (lk_buckets s)" by simp
  then have u: "unlocked (lk_buckets s ! b)" using inv by (simp add: lk_inv_def)
  have hp: "lk_head (lk_buckets (taken b s) ! b) = lk_head (lk_buckets s ! b)" "lk_heap (taken b s) = lk_heap s"
    using b by (simp_all add: taken_def)
  have "lk_print_list (lk_head (lk_buckets (taken b s) ! b)) (taken b s) =
      Some (map (\<lambda>x. lk_val (the (lk_heap s x))) (L b))"
    using print_list_ok [of "taken b s"] lk_listsD(4) [OF L b] hp by simp
  then show ?case
    using Cons lock_ok [OF b u] unlock_taken [OF b u] u by (simp add: unlocked_def taken_def [symmetric])
qed

end
