(* ===== verification/Conc_Properties.thy ===== *)
theory Conc_Properties
  imports Lf_Seq Lock_Invariant
begin

section \<open>Properties of the spinlock and the hash maps\<close>

text \<open>
  The claims about \<^verbatim>\<open>task04-concurrency\<close>: mutual exclusion and progress of the spinlock, the
  linearization of the lock-free map's operations, the shape of its buckets, and the
  agreement of both maps with a multiset under any sequence of calls.
\<close>

subsection \<open>The spinlock\<close>

text \<open>
  C28: Mutual exclusion. In every reachable state of any number of threads that call
  \<^verbatim>\<open>cspin_lock\<close>, \<^verbatim>\<open>cspin_trylock\<close> and \<^verbatim>\<open>cspin_unlock\<close> on one lock, at most one thread is
  between a successful acquisition and its release, and the flag is set exactly when there is one.
\<close>

theorem spin_mutual_exclusion:
  assumes "spin_reachable c"
  shows "(\<forall>t u. t \<in> insiders c \<longrightarrow> u \<in> insiders c \<longrightarrow> t = u) \<and> (is_locked (lock c) \<longleftrightarrow> insiders c \<noteq> {})"
  using spin_reachable_inv [OF assms] by (auto simp: spin_inv_def split: if_splits)

theorem spin_mutual_exclusion_witness:
  "\<exists>c. spin_reachable c \<and> insiders c = {7} \<and> is_locked (lock c)"
proof -
  let ?l = "\<lparr>is_locked = False\<rparr>" and ?l' = "\<lparr>is_locked = True\<rparr>"
  let ?c0 = "\<lparr>lock = ?l, spinners = (\<lambda>_. Outside)\<rparr>"
  let ?c1 = "\<lparr>lock = ?l', spinners = (\<lambda>_. Outside)(7 := Inside)\<rparr>"
  have "spin_reachable ?c0" by (rule spin_reachable.start) (simp add: spin_defs)
  moreover have "spin_step ?c0 ?c1"
    using spin_step.trylock [of ?c0 7 0 ?l'] by (simp add: spin_defs)
  ultimately have r: "spin_reachable ?c1" by (rule spin_reachable.step)
  have i: "insiders ?c1 = {7}" by (auto simp: insiders_def)
  then show ?thesis using r spin_mutual_exclusion [OF r] by blast
qed

text \<open>
  Progress. Whenever no thread holds the lock, the next attempt of any spinning thread
  succeeds, and so does a \<^verbatim>\<open>cspin_trylock\<close>: the lock is never stuck. While it is held, a
  \<^verbatim>\<open>cspin_trylock\<close> returns 1 at once and a lone \<^verbatim>\<open>cspin_lock\<close> spins for ever.
\<close>

theorem spin_progress:
  assumes "spin_reachable c"
  shows "if insiders c = {}
    then (\<exists>l'. cspin_lock (Some (lock c)) = Some (0, Some l') \<and> is_locked l' \<and>
               cspin_trylock (Some (lock c)) = (0, Some l') \<and>
               (\<forall>t. spinners c t = Spinning \<longrightarrow>
                  spin_step c \<lparr>lock = l', spinners = (spinners c)(t := Inside)\<rparr>))
    else cspin_lock (Some (lock c)) = None \<and> cspin_trylock (Some (lock c)) = (1, Some (lock c))"
proof (cases "insiders c = {}")
  case True
  then have free: "\<not> is_locked (lock c)" using spin_reachable_inv [OF assms] by (auto simp: spin_inv_def split: if_splits)
  let ?l = "(lock c)\<lparr>is_locked := True\<rparr>"
  have "spin_step c \<lparr>lock = ?l, spinners = (spinners c)(t := Inside)\<rparr>" if "spinners c t = Spinning" for t
    using spin_step.attempt [OF that, of False ?l] free by (simp add: test_and_set_def)
  then show ?thesis using True free by (simp add: cspin_lock_def spin_free cspin_trylock_def test_and_set_def)
next
  case False
  then have "is_locked (lock c)" using spin_reachable_inv [OF assms] by (auto simp: spin_inv_def split: if_splits)
  then show ?thesis using False by (simp add: cspin_lock_def spin_taken cspin_trylock_def test_and_set_def)
qed

theorem spin_progress_witness:
  "cspin_lock (Some \<lparr>is_locked = False\<rparr>) = Some (0, Some \<lparr>is_locked = True\<rparr>)"
proof -
  let ?c = "\<lparr>lock = \<lparr>is_locked = False\<rparr>, spinners = (\<lambda>_. Outside)\<rparr>"
  have r: "spin_reachable ?c" by (rule spin_reachable.start) (simp add: spin_defs)
  show ?thesis using spin_progress [OF r] by (auto simp: insiders_def)
qed

subsection \<open>The lock-free map under interleaving\<close>

lemma reachable_invs: "lf_reachable c \<Longrightarrow> map_inv (hm c) \<and> pc_inv (hm c) (threads c t)"
  using lf_reachable_inv by (simp add: sys_inv_def)

text \<open>
  C3: Linearization. Along every interleaving of the three operations by any number of threads,
  the abstract multiset changes only at two kinds of steps, by exactly the specified amount: the
  compare-and-swap that publishes a node adds one occurrence of its value and makes
  \<^verbatim>\<open>insert_item\<close> return 0; the compare-and-swap that marks a node removes one occurrence, which
  was present, and \<^verbatim>\<open>remove_item\<close> then returns 0 whether or not the physical unlinking works. A
  failed mark makes the traversal go on. No other step changes the multiset, nor does the start
  of a call.
\<close>

theorem lf_linearizes:
  assumes r: "lf_reachable c" and st: "thread_step ok (threads c t) (hm c) = (p', s')"
  shows "(case threads c t of
      Ins_cas v x old \<Rightarrow> lf_count s' = (if p' = Idle (Some 0) then (lf_count (hm c))(v := lf_count (hm c) v + 1) else lf_count (hm c))
    | Rem_mark v l x nxt h \<Rightarrow>
        (p' = Rem_unlink v l x nxt h \<and> 0 < lf_count (hm c) v \<and> lf_count s' = (lf_count (hm c))(v := lf_count (hm c) v - 1)) \<or>
        (p' = Rem_loop v (Next x) nxt h \<and> lf_count s' = lf_count (hm c))
    | Rem_unlink v l x nxt h \<Rightarrow> p' = Idle (Some 0) \<and> lf_count s' = lf_count (hm c)
    | _ \<Rightarrow> lf_count s' = lf_count (hm c)) \<and>
    lf_count (snd (start_insert ok v (hm c))) = lf_count (hm c)"
proof -
  note iv = reachable_invs [OF r, of t]
  have new: "lf_count (snd (start_insert ok v (hm c))) = lf_count (hm c)"
    using count_new iv by (simp add: start_insert_def)
  show ?thesis
  proof (cases "threads c t")
    case (Idle r)
    have "s' = hm c" using st unfolding Idle by simp
    then show ?thesis unfolding Idle using new by simp
  next
    case (Ins_cas v x old)
    then have "m_val (nodes (hm c) x) = v" "\<not> dead (hm c) x" using iv by simp_all
    from count_publish [OF this] show ?thesis using Ins_cas st new by (auto simp: Let_def split: if_splits)
  next
    case (Rem_mark v l x nxt h)
    then have x: "x \<in> set (published (hm c) (bucket_of (hm c) v))" "m_val (nodes (hm c) x) = v"
      using iv by (auto simp: at_node_def)
    show ?thesis
      using Rem_mark st new count_mark [OF conjunct1 [OF iv] x] by (auto simp: dead_def split: if_splits)
  qed (use st new in \<open>auto simp: Let_def count_store split: if_splits option.splits\<close>)
qed

theorem lf_linearizes_witness:
  "lf_count (hm (lf_schedule [(0, Call_insert True 5), (0, Go True), (0, Go True), (0, Go True)] (empty_sys 2))) 5 = 1"
proof -
  let ?c = "lf_schedule [(0, Call_insert True 5), (0, Go True), (0, Go True)] (empty_sys 2)"
  have r: "lf_reachable ?c" by (rule empty_sys_reachable) simp
  have st: "thread_step True (threads ?c 0) (hm ?c) = (Idle (Some 0), publish 1 0 (hm ?c))"
    and p: "threads ?c 0 = Ins_cas 5 0 None" by (simp_all add: schedule_eval)
  have z: "lf_count (hm ?c) 5 = 0" by (simp add: schedule_eval lf_count_def)
  have e: "hm (lf_schedule [(0, Call_insert True 5), (0, Go True), (0, Go True), (0, Go True)] (empty_sys 2)) = publish 1 0 (hm ?c)"
    by (simp add: schedule_eval)
  have "lf_count (publish 1 0 (hm ?c)) = (lf_count (hm ?c))(5 := lf_count (hm ?c) 5 + 1)"
    using lf_linearizes [OF r st, of 0] unfolding p by simp
  then show ?thesis using z unfolding e by simp
qed

text \<open>
  C29: A traversal that ends without a hit is right. When \<^verbatim>\<open>lookup_item\<close> or \<^verbatim>\<open>remove_item\<close> for a
  value reaches the end of its bucket, whatever other threads did meanwhile, every node
  with that value that was published when the traversal read the bucket's head (the history
  \<open>h\<close>) is deleted; and when \<^verbatim>\<open>lookup_item\<close> stops at a node and returns 0, the value is in the
  map at that moment.
\<close>

theorem lf_traversal_complete:
  assumes r: "lf_reachable c"
  shows "(\<forall>t v h. threads c t = Look_loop v None h \<or> (\<exists>l. threads c t = Rem_loop v l None h) \<longrightarrow>
            (\<forall>x \<in> set h. m_val (nodes (hm c) x) = v \<longrightarrow> is_deleted (nodes (hm c) x))) \<and>
    (\<forall>ok t v x h. threads c t = Look_loop v (Some x) h \<longrightarrow>
       fst (thread_step ok (threads c t) (hm c)) = Idle (Some 0) \<longrightarrow> 0 < lf_count (hm c) v)"
proof (intro conjI allI impI)
  fix t v h
  assume "threads c t = Look_loop v None h \<or> (\<exists>l. threads c t = Rem_loop v l None h)"
  then have "passed (hm c) v h []" using reachable_invs [OF r, of t] by (auto simp: rest_def)
  then show "\<forall>x \<in> set h. m_val (nodes (hm c) x) = v \<longrightarrow> is_deleted (nodes (hm c) x)"
    by (simp add: passed_def dead_def)
next
  fix ok t v x h
  assume t: "threads c t = Look_loop v (Some x) h"
    and st: "fst (thread_step ok (threads c t) (hm c)) = Idle (Some 0)"
  then have "m_val (nodes (hm c) x) = v \<and> \<not> is_deleted (nodes (hm c) x)" by (auto split: if_splits)
  then show "0 < lf_count (hm c) v" using reachable_invs [OF r, of t] t count_zero_iff [of "hm c" v]
    by (auto simp: at_node_def dead_def)
qed

text \<open>At the witness, thread 1 looks for 5 while thread 0 inserts and removes it.\<close>

theorem lf_traversal_complete_witness:
  "is_deleted (nodes (hm (lf_schedule
     [(0, Call_insert True 5), (0, Go True), (0, Go True), (0, Go True), (1, Call_lookup 5), (1, Go True),
      (0, Call_remove 5), (0, Go True), (0, Go True), (0, Go True), (1, Go True), (1, Go True)] (empty_sys 2))) 0)"
  (is "is_deleted (nodes (hm ?c) 0)")
proof -
  have r: "lf_reachable ?c" by (rule empty_sys_reachable) simp
  have "threads ?c 1 = Look_loop 5 None [0]" "m_val (nodes (hm ?c) 0) = 5" by (simp_all add: schedule_eval)
  then show ?thesis using lf_traversal_complete [OF r] by (meson list.set_intros(1))
qed

text \<open>
  C16: The shape of the buckets. In every reachable state, even in the middle of operations, the
  list of every bucket ends, visits no node twice, and visits the published nodes that are
  not deleted in the order of their insertion, newest first; so \<^verbatim>\<open>free_hashmap\<close> frees no node
  twice and every node in use, and \<^verbatim>\<open>print_hashmap\<close> prints exactly the live values.
\<close>

theorem lf_buckets_sound:
  assumes r: "lf_reachable c"
  shows "(\<exists>xs. free_hashmap (hm c) = Some xs \<and> distinct xs \<and>
           (\<forall>b < unat (n_buckets (hm c)). \<forall>x \<in> set (published (hm c) b). \<not> is_deleted (nodes (hm c) x) \<longrightarrow> x \<in> set xs)) \<and>
    print_hashmap (hm c) = Some (map (\<lambda>b. (b, map (\<lambda>x. m_val (nodes (hm c) x))
        (filter (\<lambda>x. \<not> is_deleted (nodes (hm c) x)) (published (hm c) b)))) [0..<unat (n_buckets (hm c))])"
proof -
  have inv: "map_inv (hm c)" using reachable_invs [OF r] by blast
  obtain xs where "free_hashmap (hm c) = Some xs" "distinct xs"
      "\<forall>b < unat (n_buckets (hm c)). \<forall>x \<in> set (published (hm c) b). \<not> dead (hm c) x \<longrightarrow> x \<in> set xs"
    using free_buckets_ok [OF inv, of "unat (n_buckets (hm c))"] unfolding free_hashmap_def by blast
  then show ?thesis
    using print_buckets_live [OF inv] map_invD(1) [OF inv] by (auto simp: print_hashmap_def dead_def)
qed

theorem lf_buckets_sound_witness:
  "print_hashmap (hm (lf_schedule
     [(0, Call_insert True 5), (0, Go True), (0, Go True), (0, Go True)] (empty_sys 2))) = Some [(0, []), (1, [5])]"
  (is "print_hashmap (hm ?c) = _")
proof -
  define c where "c = ?c"
  have r: "lf_reachable c" unfolding c_def by (rule empty_sys_reachable) simp
  have e: "n_buckets (hm c) = 2" "published (hm c) = (\<lambda>_. [])(1 := [0])" "m_val (nodes (hm c) 0) = 5"
    "\<not> is_deleted (nodes (hm c) 0)" by (simp_all add: schedule_eval c_def)
  have u: "[0..<unat (2 :: size_t)] = [0, 1]" by (simp add: upt_rec)
  have "print_hashmap (hm c) = Some [(0, []), (1, [5])]"
    using lf_buckets_sound [OF r, THEN conjunct2] unfolding e(1,2) u by (simp add: e(3,4))
  then show ?thesis unfolding c_def .
qed

text \<open>
  Deleted nodes are not reclaimed. After one value was inserted into a new map and removed
  again, one node was allocated and \<^verbatim>\<open>free_hashmap\<close> frees none: a node that \<^verbatim>\<open>remove_item\<close>
  unlinked is on no list any more, and its memory is lost.
\<close>

theorem lf_removed_node_leaks:
  assumes n: "n \<noteq> 0"
  shows "\<exists>s1 s2. insert_item True v (hm (empty_sys n)) = Some (0, s1) \<and> remove_item v s1 = Some (0, s2) \<and>
    fresh s2 = 1 \<and> (\<forall>b. sentinel s2 b = None) \<and> free_hashmap s2 = Some []"
proof -
  let ?m = "hm (empty_sys n)" and ?b = "unat (v mod n)"
  let ?s1 = "publish ?b 0 (store_link (Next 0) None (new_node v ?m))"
  let ?s2 = "store_link (Sentinel ?b) None (mark_node 0 ?s1)"
  have m: "sentinel ?m = (\<lambda>_. None)" "fresh ?m = 0" "n_buckets ?m = n" using n by (simp_all add: schedule_eval)
  have "insert_item True v ?m = Some (0, ?s1)"
    unfolding insert_item_def start_insert_def
    using n by (simp add: run_alone.simps [of "Ins_load a b" for a b] run_alone.simps [of "Ins_store a b d" for a b d]
        run_alone.simps [of "Ins_cas a b d" for a b d] run_alone_step(1) Let_def bucket_of_def m new_node_def)
  moreover have "remove_item v ?s1 = Some (0, ?s2)"
    unfolding remove_item_def
    using n by (simp add: run_alone.simps [of "Rem_load a" for a] run_alone.simps [of "Rem_loop a b d e" for a b d e]
        run_alone.simps [of "Rem_mark a b d e f" for a b d e f] run_alone.simps [of "Rem_unlink a b d e f" for a b d e f]
        run_alone_step(1) Let_def m new_node_def store_link_def load_link_def publish_def mark_node_def bucket_of_def)
  moreover have e: "fresh ?s2 = 1" "sentinel ?s2 = (\<lambda>_. None)" "n_buckets ?s2 = n"
    using m by (simp_all add: new_node_def store_link_def publish_def mark_node_def fun_eq_iff)
  moreover have "free_buckets k ?s2 = Some []" for k by (induction k) (simp_all add: e)
  ultimately show ?thesis by (auto simp: free_hashmap_def)
qed

theorem lf_removed_node_leaks_witness:
  "\<exists>s1 s2. insert_item True 5 (hm (empty_sys 2)) = Some (0, s1) \<and> remove_item 5 s1 = Some (0, s2) \<and>
    fresh s2 = 1 \<and> free_hashmap s2 = Some []"
  using lf_removed_node_leaks [of 2 5] by auto

subsection \<open>Both maps are multisets\<close>

text \<open>
  C13: Both implementations agree with the specification and with each other. For every sequence
  of \<^verbatim>\<open>insert_item\<close>, \<^verbatim>\<open>remove_item\<close> and \<^verbatim>\<open>lookup_item\<close> calls (each insertion with the outcome of its
  \<^verbatim>\<open>malloc\<close>) on newly allocated maps, with any numbers of buckets, all calls return, and both
  libraries give the results of the multiset that starts empty.
\<close>

theorem hashmaps_agree:
  assumes "alloc_hashmap oks n = Some s" and "lk_alloc_hashmap oks' n' = Some (Some k)"
  shows "\<exists>s' k'. run_calls insert_item remove_item lookup_item cs s = Some (fst (spec_run cs (\<lambda>_. 0)), s') \<and>
    run_calls lk_insert_item lk_remove_item lk_lookup_item cs k = Some (fst (spec_run cs (\<lambda>_. 0)), k') \<and>
    lf_count s' = snd (spec_run cs (\<lambda>_. 0)) \<and> lk_count k' = snd (spec_run cs (\<lambda>_. 0))"
proof -
  note a = alloc_hashmap_ok [OF assms(1)] and b = lk_alloc_ok [OF assms(2)]
  show ?thesis using lockfree.run_refines [OF a(1), of cs] locked.run_refines [OF b(1), of cs] a(2) b(2) by auto
qed

theorem hashmaps_agree_witness:
  "\<exists>s' k'. run_calls insert_item remove_item lookup_item [Insert True 5, Lookup 5, Remove 5, Lookup 5]
       (the (alloc_hashmap (\<lambda>_. True) 2)) = Some ([0, 0, 0, 1], s') \<and>
     run_calls lk_insert_item lk_remove_item lk_lookup_item [Insert True 5, Lookup 5, Remove 5, Lookup 5]
       (the (the (lk_alloc_hashmap (\<lambda>_. True) 3))) = Some ([0, 0, 0, 1], k')"
proof -
  have "\<exists>s. alloc_hashmap (\<lambda>_. True) 2 = Some s" by (simp add: alloc_hashmap_def)
  moreover have "\<exists>k. lk_alloc_hashmap (\<lambda>_. True) 3 = Some (Some k)" by (rule lk_alloc_succeeds) simp
  ultimately obtain s k where sk: "alloc_hashmap (\<lambda>_. True) 2 = Some s" "lk_alloc_hashmap (\<lambda>_. True) 3 = Some (Some k)" by blast
  have "fst (spec_run [Insert True 5, Lookup 5, Remove 5, Lookup 5] (\<lambda>_. 0)) = [0, 0, 0, 1]" by simp
  then show ?thesis using hashmaps_agree [OF sk, of "[Insert True 5, Lookup 5, Remove 5, Lookup 5]"] unfolding sk by auto
qed

text \<open>
  \<^verbatim>\<open>free_hashmap\<close> of the lock-based map. After any sequence of calls on a new map,
  \<^verbatim>\<open>free_hashmap\<close> ends, frees no node twice and leaves no node allocated; in between,
  \<^verbatim>\<open>print_hashmap\<close> ends, releases every lock and changes nothing.
\<close>

theorem lk_reclaims_all:
  assumes "lk_alloc_hashmap oks n = Some (Some k)"
    and "run_calls lk_insert_item lk_remove_item lk_lookup_item cs k = Some (rs, k')"
  shows "(\<exists>out. lk_print_hashmap k' = Some (out, k')) \<and>
    (\<exists>k''. lk_free_hashmap k' = Some k'' \<and> lk_heap k'' = (\<lambda>_. None) \<and> lk_buckets k'' = [])"
proof -
  have inv: "lk_inv k'" using locked.run_refines [OF lk_alloc_ok(1) [OF assms(1)], of cs] assms(2) by auto
  obtain L where L: "lk_lists k' L" using inv by (auto simp: lk_inv_def)
  have "\<exists>out. lk_print_hashmap k' = Some (out, k')"
    using print_buckets_ok [OF inv L, of "[0..<unat (lk_n k')]"] lk_listsD(2) [OF L]
    by (auto simp: lk_print_hashmap_def atLeast0LessThan)
  moreover obtain k'' where "lk_free_hashmap k' = Some k''" "lk_heap k'' = (\<lambda>_. None)" "lk_buckets k'' = []"
    by (rule lk_free_hashmap_ok [OF inv])
  ultimately show ?thesis by blast
qed

theorem lk_reclaims_all_witness:
  "\<exists>k' k''. run_calls lk_insert_item lk_remove_item lk_lookup_item [Insert True 5, Insert True 8, Remove 5]
       (the (the (lk_alloc_hashmap (\<lambda>_. True) 3))) = Some ([0, 0, 0], k') \<and>
     lk_free_hashmap k' = Some k'' \<and> lk_heap k'' = (\<lambda>_. None)"
proof -
  obtain k where k: "lk_alloc_hashmap (\<lambda>_. True) 3 = Some (Some k)"
    using lk_alloc_succeeds [of 3] by auto
  obtain k' where r: "run_calls lk_insert_item lk_remove_item lk_lookup_item [Insert True 5, Insert True 8, Remove 5] k = Some ([0, 0, 0], k')"
    using locked.run_refines [OF lk_alloc_ok(1) [OF k], of "[Insert True 5, Insert True 8, Remove 5]"] lk_alloc_ok(2) [OF k] by auto
  show ?thesis using lk_reclaims_all [OF k r] r unfolding k by auto
qed

text \<open>
  A failing lock allocation. When the lock of a bucket cannot be allocated, \<^verbatim>\<open>alloc_hashmap\<close>
  of the lock-based map has no defined outcome: it calls \<^verbatim>\<open>free_hashmap\<close>, which follows the
  list head of that bucket before it was set. When any other allocation fails first, the
  result is NULL.
\<close>

lemma lk_alloc_buckets_fail:
  "(\<forall>j < i. oks (2 * (i0 + j) + 2) \<and> oks (2 * (i0 + j) + 3)) \<Longrightarrow> i < k \<Longrightarrow>
    \<not> oks (2 * (i0 + i) + 2) \<or> \<not> oks (2 * (i0 + i) + 3) \<Longrightarrow>
    lk_alloc_buckets oks i0 k = (if oks (2 * (i0 + i) + 2) then None else Some None)"
proof (induction k arbitrary: i0 i)
  case 0
  then show ?case by simp
next
  case (Suc k)
  show ?case
  proof (cases i)
    case 0
    then show ?thesis using Suc.prems by (auto simp: cspin_alloc_def)
  next
    case (Suc j)
    have "\<forall>l < j. oks (2 * (Suc i0 + l) + 2) \<and> oks (2 * (Suc i0 + l) + 3)" using Suc.prems(1) Suc by auto
    then have "lk_alloc_buckets oks (Suc i0) k = (if oks (2 * (Suc i0 + j) + 2) then None else Some None)"
      using Suc.prems(2,3) Suc by (intro Suc.IH) auto
    then show ?thesis using Suc.prems(1) Suc by (auto simp: cspin_alloc_def)
  qed
qed

theorem lk_alloc_lock_fails:
  assumes "oks 0" "oks 1" "\<forall>j < i. oks (2 * j + 2) \<and> oks (2 * j + 3)" "i < unat n"
  shows "(\<not> oks (2 * i + 2) \<longrightarrow> lk_alloc_hashmap oks n = Some None) \<and>
    (oks (2 * i + 2) \<and> \<not> oks (2 * i + 3) \<longrightarrow> lk_alloc_hashmap oks n = None)"
  using lk_alloc_buckets_fail [of i oks 0 "unat n"] assms by (auto simp: lk_alloc_hashmap_def)

theorem lk_alloc_lock_fails_witness: "lk_alloc_hashmap (\<lambda>i. i \<noteq> 5) 2 = None"
  using lk_alloc_lock_fails [of "\<lambda>i. i \<noteq> 5" 1 2] by simp

end
