(* ===== verification/Lock_Conc.thy ===== *)
theory Lock_Conc
  imports Lock_Invariant
begin

section \<open>The lock-based hash map under interleaving\<close>

text \<open>
  The operations of \<^verbatim>\<open>lockhashmap.c\<close> run by any number of threads: every attempt on the flag of a spinlock, every access to
  a link and every \<^verbatim>\<open>free\<close> is a step, and the threads take steps in any order. A step that touches a node that is not
  allocated is \<open>None\<close>. A run is accompanied by the invocations, effects and responses of the calls.
\<close>

datatype lk_pc =
  K_idle "int option"
| K_ins_spin "64 word" nat
| K_ins_next "64 word" nat
| K_ins_head "64 word" nat
| K_ins_rel "64 word"
| K_rem_spin "64 word"
| K_rem_at "64 word" lk_link
| K_rem_cut "64 word" lk_link nat
| K_rem_rel "64 word" "nat option"
| K_rem_free "64 word" nat
| K_look_spin "64 word"
| K_look_head "64 word"
| K_look_at "64 word" lk_ptr
| K_look_rel "64 word" int

text \<open>One attempt of \<^verbatim>\<open>cspin_lock\<close> on the lock of a bucket.\<close>

definition lk_try :: "nat \<Rightarrow> lk_map \<Rightarrow> bool \<times> lk_map" where
  "lk_try b s =
     (case slock (lk_buckets s ! b) of
        None \<Rightarrow> (False, s)
      | Some l \<Rightarrow> (case test_and_set l of (busy, l') \<Rightarrow>
          (busy, s\<lparr>lk_buckets := (lk_buckets s)[b := (lk_buckets s ! b)\<lparr>slock := Some l'\<rparr>]\<rparr>)))"

text \<open>The start of a call, up to its first access to shared memory that changes.\<close>

definition lk_begin :: "map_call \<Rightarrow> lk_map \<Rightarrow> lk_pc \<times> lk_map" where
  "lk_begin k s =
     (case k of
        Insert malloc_ok v \<Rightarrow>
          if lk_n s = 0 \<or> slock (lk_buckets s ! lk_bucket_of s v) = None \<or> \<not> malloc_ok then (K_idle (Some 1), s)
          else (K_ins_spin v (lk_fresh s),
                s\<lparr>lk_heap := (lk_heap s)(lk_fresh s \<mapsto> \<lparr>lk_val = v, lk_next = None\<rparr>), lk_fresh := Suc (lk_fresh s)\<rparr>)
      | Remove v \<Rightarrow>
          (if lk_n s = 0 \<or> slock (lk_buckets s ! lk_bucket_of s v) = None then K_idle (Some 1) else K_rem_spin v, s)
      | Lookup v \<Rightarrow>
          (if lk_n s = 0 \<or> slock (lk_buckets s ! lk_bucket_of s v) = None then K_idle (Some 1) else K_look_spin v, s))"

fun lk_go :: "lk_pc \<Rightarrow> lk_map \<Rightarrow> (lk_pc \<times> lk_map) option" where
  "lk_go (K_idle r) s = Some (K_idle r, s)"
| "lk_go (K_ins_spin v x) s =
     (case lk_try (lk_bucket_of s v) s of (busy, s) \<Rightarrow> Some (if busy then K_ins_spin v x else K_ins_next v x, s))"
| "lk_go (K_ins_next v x) s = do {
     p \<leftarrow> lk_load (Head (lk_bucket_of s v)) s;
     s \<leftarrow> lk_store (Link x) p s;
     Some (K_ins_head v x, s)
   }"
| "lk_go (K_ins_head v x) s = do {
     s \<leftarrow> lk_store (Head (lk_bucket_of s v)) (Some x) s;
     Some (K_ins_rel v, s)
   }"
| "lk_go (K_ins_rel v) s = Some (K_idle (Some 0), lk_unlock (lk_bucket_of s v) s)"
| "lk_go (K_rem_spin v) s =
     (case lk_try (lk_bucket_of s v) s of (busy, s) \<Rightarrow>
        Some (if busy then K_rem_spin v else K_rem_at v (Head (lk_bucket_of s v)), s))"
| "lk_go (K_rem_at v cur_ptr) s = do {
     p \<leftarrow> lk_load cur_ptr s;
     (case p of None \<Rightarrow> Some (K_rem_rel v None, s)
      | Some cur \<Rightarrow> do {
          n \<leftarrow> lk_heap s cur;
          Some (if lk_val n = v then K_rem_cut v cur_ptr cur else K_rem_at v (Link cur), s)
        })
   }"
| "lk_go (K_rem_cut v cur_ptr cur) s = do {
     n \<leftarrow> lk_heap s cur;
     s \<leftarrow> lk_store cur_ptr (lk_next n) s;
     Some (K_rem_rel v (Some cur), s)
   }"
| "lk_go (K_rem_rel v None) s = Some (K_idle (Some 1), lk_unlock (lk_bucket_of s v) s)"
| "lk_go (K_rem_rel v (Some cur)) s = Some (K_rem_free v cur, lk_unlock (lk_bucket_of s v) s)"
| "lk_go (K_rem_free v cur) s = do { s \<leftarrow> lk_free cur s; Some (K_idle (Some 0), s) }"
| "lk_go (K_look_spin v) s =
     (case lk_try (lk_bucket_of s v) s of (busy, s) \<Rightarrow> Some (if busy then K_look_spin v else K_look_head v, s))"
| "lk_go (K_look_head v) s = do { p \<leftarrow> lk_load (Head (lk_bucket_of s v)) s; Some (K_look_at v p, s) }"
| "lk_go (K_look_at v None) s = Some (K_look_rel v 1, s)"
| "lk_go (K_look_at v (Some cur)) s = do {
     n \<leftarrow> lk_heap s cur;
     Some (if lk_val n = v then K_look_rel v 0 else K_look_at v (lk_next n), s)
   }"
| "lk_go (K_look_rel v r) s = Some (K_idle (Some r), lk_unlock (lk_bucket_of s v) s)"

text \<open>The memory that the next step of a thread reads, writes or frees, other than the atomic flag of a lock.\<close>

datatype lk_cell = In_head nat | In_val nat | In_next nat

fun link_cell :: "lk_link \<Rightarrow> lk_cell" where
  "link_cell (Head b) = In_head b" | "link_cell (Link x) = In_next x"

fun touched :: "lk_map \<Rightarrow> lk_pc \<Rightarrow> lk_cell set" where
  "touched s (K_ins_next v x) = {In_head (lk_bucket_of s v), In_next x}"
| "touched s (K_ins_head v x) = {In_head (lk_bucket_of s v)}"
| "touched s (K_rem_at v cur_ptr) =
     insert (link_cell cur_ptr) (case lk_load cur_ptr s of Some (Some cur) \<Rightarrow> {In_val cur} | _ \<Rightarrow> {})"
| "touched s (K_rem_cut v cur_ptr cur) = {In_next cur, link_cell cur_ptr}"
| "touched s (K_rem_free v cur) = {In_val cur, In_next cur}"
| "touched s (K_look_head v) = {In_head (lk_bucket_of s v)}"
| "touched s (K_look_at v (Some cur)) = {In_val cur, In_next cur}"
| "touched s _ = {}"

subsection \<open>Calls and their effects\<close>

text \<open>The call a thread is in, and its result once that is settled.\<close>

fun call_of :: "lk_pc \<Rightarrow> map_call option" where
  "call_of (K_idle r) = None"
| "call_of (K_ins_spin v x) = Some (Insert True v)"
| "call_of (K_ins_next v x) = Some (Insert True v)"
| "call_of (K_ins_head v x) = Some (Insert True v)"
| "call_of (K_ins_rel v) = Some (Insert True v)"
| "call_of (K_rem_spin v) = Some (Remove v)"
| "call_of (K_rem_at v l) = Some (Remove v)"
| "call_of (K_rem_cut v l x) = Some (Remove v)"
| "call_of (K_rem_rel v x) = Some (Remove v)"
| "call_of (K_rem_free v x) = Some (Remove v)"
| "call_of (K_look_spin v) = Some (Lookup v)"
| "call_of (K_look_head v) = Some (Lookup v)"
| "call_of (K_look_at v p) = Some (Lookup v)"
| "call_of (K_look_rel v r) = Some (Lookup v)"

fun decided :: "lk_pc \<Rightarrow> int option" where
  "decided (K_ins_rel v) = Some 0"
| "decided (K_rem_rel v x) = Some (if x = None then 1 else 0)"
| "decided (K_rem_free v x) = Some 0"
| "decided (K_look_rel v r) = Some r"
| "decided (K_idle r) = r"
| "decided p = None"

datatype lk_event = Inv nat map_call | Eff nat map_call int | Res nat int

definition begin_events :: "nat \<Rightarrow> map_call \<Rightarrow> lk_pc \<Rightarrow> lk_event list" where
  "begin_events t k p = (case p of K_idle (Some r) \<Rightarrow> [Inv t k, Eff t k r, Res t r] | _ \<Rightarrow> [Inv t k])"

definition go_events :: "nat \<Rightarrow> lk_pc \<Rightarrow> lk_pc \<Rightarrow> lk_event list" where
  "go_events t p p' =
     (case call_of p of
        None \<Rightarrow> []
      | Some k \<Rightarrow>
          (case (decided p, decided p') of (None, Some r) \<Rightarrow> [Eff t k r] | _ \<Rightarrow> []) @
          (case p' of K_idle (Some r) \<Rightarrow> [Res t r] | _ \<Rightarrow> []))"

record lk_sys =
  lk_hm :: lk_map
  lk_threads :: "nat \<Rightarrow> lk_pc"

inductive lk_step :: "lk_sys \<Rightarrow> lk_event list \<Rightarrow> lk_sys \<Rightarrow> bool" where
  lk_call: "lk_threads c t = K_idle r \<Longrightarrow> lk_begin k (lk_hm c) = (p, s) \<Longrightarrow>
    lk_step c (begin_events t k p) \<lparr>lk_hm = s, lk_threads = (lk_threads c)(t := p)\<rparr>"
| lk_access: "lk_go (lk_threads c t) (lk_hm c) = Some (p, s) \<Longrightarrow>
    lk_step c (go_events t (lk_threads c t) p) \<lparr>lk_hm = s, lk_threads = (lk_threads c)(t := p)\<rparr>"

inductive lk_run :: "lk_sys \<Rightarrow> lk_event list \<Rightarrow> lk_sys \<Rightarrow> bool" where
  lk_stop: "lk_run c [] c"
| lk_more: "lk_run c es c' \<Longrightarrow> lk_step c' fs c'' \<Longrightarrow> lk_run c (es @ fs) c''"

text \<open>A run along a schedule: which thread is next, and the call it starts or \<open>None\<close> to go on with its call.\<close>

fun lk_exec :: "(nat \<times> map_call option) list \<Rightarrow> lk_sys \<Rightarrow> (lk_event list \<times> lk_sys) option" where
  "lk_exec [] c = Some ([], c)"
| "lk_exec ((t, Some k) # ts) c =
     (case lk_threads c t of
        K_idle r \<Rightarrow> (case lk_begin k (lk_hm c) of (p, s) \<Rightarrow>
          map_option (\<lambda>(es, d). (begin_events t k p @ es, d)) (lk_exec ts \<lparr>lk_hm = s, lk_threads = (lk_threads c)(t := p)\<rparr>))
      | _ \<Rightarrow> None)"
| "lk_exec ((t, None) # ts) c =
     (case lk_go (lk_threads c t) (lk_hm c) of
        None \<Rightarrow> None
      | Some (p, s) \<Rightarrow>
          map_option (\<lambda>(es, d). (go_events t (lk_threads c t) p @ es, d)) (lk_exec ts \<lparr>lk_hm = s, lk_threads = (lk_threads c)(t := p)\<rparr>))"

text \<open>What the specification says about a run: the effects, in their order, are the calls of a multiset.\<close>

fun effects :: "lk_event list \<Rightarrow> (map_call \<times> int) list" where
  "effects [] = []"
| "effects (Eff t k r # es) = (k, r) # effects es"
| "effects (_ # es) = effects es"

fun thread_of :: "lk_event \<Rightarrow> nat" where
  "thread_of (Inv t k) = t" | "thread_of (Eff t k r) = t" | "thread_of (Res t r) = t"

definition events_of :: "nat \<Rightarrow> lk_event list \<Rightarrow> lk_event list" where
  "events_of t es = filter (\<lambda>e. thread_of e = t) es"

definition no_call :: "lk_event list \<Rightarrow> bool" where
  "no_call es = list_all (\<lambda>e. case e of Inv t k \<Rightarrow> False | _ \<Rightarrow> True) es"

text \<open>A thread's events: one call after the other, each with one effect between its invocation and its response,
  which has the result of the effect.\<close>

inductive history :: "nat \<Rightarrow> lk_event list \<Rightarrow> bool" for t where
  history_none: "history t []"
| history_call: "history t es \<Longrightarrow> history t (es @ [Inv t k, Eff t k r, Res t r])"

definition in_history :: "nat \<Rightarrow> lk_pc \<Rightarrow> lk_event list \<Rightarrow> bool" where
  "in_history t p es \<longleftrightarrow>
     (case call_of p of
        None \<Rightarrow> history t es
      | Some k \<Rightarrow>
          (case decided p of
             None \<Rightarrow> \<exists>h. history t h \<and> es = h @ [Inv t k]
           | Some r \<Rightarrow> \<exists>h. history t h \<and> es = h @ [Inv t k, Eff t k r]))"

end
