(* ===== verification/Lock_Conc_Inv.thy ===== *)
theory Lock_Conc_Inv
  imports Lock_Conc
begin

section \<open>The lock-based hash map: the invariant of its threads\<close>

text \<open>
  Every allocated node is in the list of its bucket or owned by one thread, which is about to link or to free it. A bucket's lock
  is taken exactly when one thread is in its critical section. What a thread knows about its bucket is kept by all
  other threads. The content of the map are the nodes that nobody owns.
\<close>

fun owned :: "lk_pc \<Rightarrow> nat option" where
  "owned (K_ins_spin v x) = Some x"
| "owned (K_ins_next v x) = Some x"
| "owned (K_ins_head v x) = Some x"
| "owned (K_rem_rel v x) = x"
| "owned (K_rem_free v x) = Some x"
| "owned _ = None"

fun held :: "lk_pc \<Rightarrow> 64 word option" where
  "held (K_ins_next v x) = Some v"
| "held (K_ins_head v x) = Some v"
| "held (K_ins_rel v) = Some v"
| "held (K_rem_at v l) = Some v"
| "held (K_rem_cut v l x) = Some v"
| "held (K_rem_rel v x) = Some v"
| "held (K_look_head v) = Some v"
| "held (K_look_at v p) = Some v"
| "held (K_look_rel v r) = Some v"
| "held _ = None"

definition holds :: "lk_map \<Rightarrow> lk_pc \<Rightarrow> nat option" where
  "holds s p = map_option (lk_bucket_of s) (held p)"

definition node_val :: "lk_map \<Rightarrow> nat \<Rightarrow> 64 word option" where
  "node_val s x = map_option lk_val (lk_heap s x)"

definition lists_ok :: "lk_map \<Rightarrow> (nat \<Rightarrow> nat option) \<Rightarrow> (nat \<Rightarrow> nat list) \<Rightarrow> bool" where
  "lists_ok s own L \<longleftrightarrow> lk_n s \<noteq> 0 \<and> length (lk_buckets s) = unat (lk_n s) \<and>
     (\<forall>b < length (lk_buckets s). lk_seg (lk_heap s) (lk_head (lk_buckets s ! b)) (L b) None \<and> distinct (L b)) \<and>
     (\<forall>b x. x \<in> set (L b) \<longrightarrow> x < lk_fresh s \<and> (\<exists>v. node_val s x = Some v \<and> lk_bucket_of s v = b)) \<and>
     (\<forall>t x. own t = Some x \<longrightarrow> x < lk_fresh s \<and> node_val s x \<noteq> None \<and> (\<forall>b. x \<notin> set (L b))) \<and>
     (\<forall>t u x. own t = Some x \<longrightarrow> own u = Some x \<longrightarrow> u = t) \<and>
     (\<forall>x v. node_val s x = Some v \<longrightarrow> x \<in> set (L (lk_bucket_of s v)) \<or> x \<in> ran own)"

definition locks_ok :: "lk_map \<Rightarrow> (nat \<Rightarrow> nat option) \<Rightarrow> bool" where
  "locks_ok s H \<longleftrightarrow>
     (\<forall>b < length (lk_buckets s). \<exists>l. slock (lk_buckets s ! b) = Some l \<and> (is_locked l \<longleftrightarrow> b \<in> ran H)) \<and>
     (\<forall>t u b. H t = Some b \<longrightarrow> H u = Some b \<longrightarrow> u = t)"

definition first_node :: "nat list \<Rightarrow> lk_ptr" where
  "first_node xs = (case xs of [] \<Rightarrow> None | x # _ \<Rightarrow> Some x)"

definition lacks :: "lk_map \<Rightarrow> 64 word \<Rightarrow> nat list \<Rightarrow> bool" where
  "lacks s v xs \<longleftrightarrow> (\<forall>x \<in> set xs. node_val s x \<noteq> Some v)"

fun pc_ok :: "lk_map \<Rightarrow> (nat \<Rightarrow> nat list) \<Rightarrow> lk_pc \<Rightarrow> bool" where
  "pc_ok s L (K_ins_spin v x) = (node_val s x = Some v)"
| "pc_ok s L (K_ins_next v x) = (node_val s x = Some v)"
| "pc_ok s L (K_ins_head v x) =
     (lk_heap s x = Some \<lparr>lk_val = v, lk_next = lk_head (lk_buckets s ! lk_bucket_of s v)\<rparr>)"
| "pc_ok s L (K_rem_at v l) =
     (\<exists>as bs. L (lk_bucket_of s v) = as @ bs \<and> l = link_after (lk_bucket_of s v) as \<and> lacks s v as)"
| "pc_ok s L (K_rem_cut v l x) =
     (\<exists>as bs. L (lk_bucket_of s v) = as @ x # bs \<and> l = link_after (lk_bucket_of s v) as \<and> node_val s x = Some v)"
| "pc_ok s L (K_look_at v p) =
     (\<exists>as bs. L (lk_bucket_of s v) = as @ bs \<and> p = first_node bs \<and> lacks s v as)"
| "pc_ok s L _ = True"

definition conc_ok :: "lk_map \<Rightarrow> (nat \<Rightarrow> lk_pc) \<Rightarrow> (nat \<Rightarrow> nat list) \<Rightarrow> bool" where
  "conc_ok s P L \<longleftrightarrow> lists_ok s (\<lambda>t. owned (P t)) L \<and> locks_ok s (\<lambda>t. holds s (P t)) \<and> (\<forall>t. pc_ok s L (P t))"

text \<open>How often a value is in the map.\<close>

definition content :: "lk_map \<Rightarrow> (nat \<Rightarrow> nat list) \<Rightarrow> 64 word \<Rightarrow> nat" where
  "content s L v = length (filter (\<lambda>x. node_val s x = Some v) (L (lk_bucket_of s v)))"

fun spinning :: "lk_pc \<Rightarrow> 64 word option" where
  "spinning (K_ins_spin v x) = Some v"
| "spinning (K_rem_spin v) = Some v"
| "spinning (K_look_spin v) = Some v"
| "spinning _ = None"

text \<open>A bound of the steps that are left once no lock is busy.\<close>

definition rest_after :: "lk_link \<Rightarrow> nat list \<Rightarrow> nat list" where
  "rest_after l xs = (case l of Head b \<Rightarrow> xs | Link x \<Rightarrow> tl (dropWhile (\<lambda>y. y \<noteq> x) xs))"

definition rest_from :: "lk_ptr \<Rightarrow> nat list \<Rightarrow> nat list" where
  "rest_from p xs = (case p of None \<Rightarrow> [] | Some x \<Rightarrow> dropWhile (\<lambda>y. y \<noteq> x) xs)"

fun work :: "lk_map \<Rightarrow> (nat \<Rightarrow> nat list) \<Rightarrow> lk_pc \<Rightarrow> nat" where
  "work s L (K_idle r) = 0"
| "work s L (K_ins_spin v x) = 4"
| "work s L (K_ins_next v x) = 3"
| "work s L (K_ins_head v x) = 2"
| "work s L (K_ins_rel v) = 1"
| "work s L (K_rem_spin v) = length (L (lk_bucket_of s v)) + 5"
| "work s L (K_rem_at v l) = length (rest_after l (L (lk_bucket_of s v))) + 4"
| "work s L (K_rem_cut v l x) = 3"
| "work s L (K_rem_rel v x) = 2"
| "work s L (K_rem_free v x) = 1"
| "work s L (K_look_spin v) = length (L (lk_bucket_of s v)) + 4"
| "work s L (K_look_head v) = length (L (lk_bucket_of s v)) + 3"
| "work s L (K_look_at v p) = length (rest_from p (L (lk_bucket_of s v))) + 2"
| "work s L (K_look_rel v r) = 1"

lemma work_same: "lk_bucket_of s' = lk_bucket_of s \<Longrightarrow> work s' L p = work s L p"
  by (cases p) simp_all

lemma rest_after_link: "distinct (as @ bs) \<Longrightarrow> rest_after (link_after b as) (as @ bs) = bs"
proof (cases as rule: rev_cases)
  case (snoc us x)
  assume "distinct (as @ bs)"
  then have "dropWhile (\<lambda>y. y \<noteq> x) (us @ x # bs) = x # bs" using snoc by (subst dropWhile_append2) auto
  then show ?thesis using snoc by (simp add: rest_after_def link_after_def)
qed (simp add: rest_after_def link_after_def)

lemma rest_from_node: "distinct (as @ bs) \<Longrightarrow> rest_from (first_node bs) (as @ bs) = bs"
proof (cases bs)
  case (Cons x cs)
  assume "distinct (as @ bs)"
  then have "dropWhile (\<lambda>y. y \<noteq> x) (as @ x # cs) = x # cs" using Cons by (subst dropWhile_append2) auto
  then show ?thesis using Cons by (simp add: rest_from_def first_node_def)
qed (simp add: rest_from_def first_node_def)

lemma lists_okD:
  assumes "lists_ok s own L"
  shows "lk_n s \<noteq> 0" "length (lk_buckets s) = unat (lk_n s)" "lk_bucket_of s v < length (lk_buckets s)"
    "b < length (lk_buckets s) \<Longrightarrow> lk_seg (lk_heap s) (lk_head (lk_buckets s ! b)) (L b) None"
    "b < length (lk_buckets s) \<Longrightarrow> distinct (L b)"
    "x \<in> set (L b) \<Longrightarrow> x < lk_fresh s" "x \<in> set (L b) \<Longrightarrow> \<exists>v. node_val s x = Some v \<and> lk_bucket_of s v = b"
    "own t = Some x \<Longrightarrow> x < lk_fresh s" "own t = Some x \<Longrightarrow> node_val s x \<noteq> None" "own t = Some x \<Longrightarrow> x \<notin> set (L b)"
    "own t = Some x \<Longrightarrow> own u = Some x \<Longrightarrow> u = t"
    "node_val s x = Some v \<Longrightarrow> x \<in> set (L (lk_bucket_of s v)) \<or> x \<in> ran own"
proof -
  show n: "lk_n s \<noteq> 0" and l: "length (lk_buckets s) = unat (lk_n s)" using assms by (simp_all add: lists_ok_def)
  have "unat (v mod lk_n s) < unat (lk_n s)" using n by (simp add: unat_mod unat_gt_0)
  then show "lk_bucket_of s v < length (lk_buckets s)" unfolding lk_bucket_of_def l .
  show "own t = Some x \<Longrightarrow> own u = Some x \<Longrightarrow> u = t" using assms unfolding lists_ok_def by blast
qed (use assms in \<open>simp_all add: lists_ok_def\<close>)

lemma lists_okI:
  assumes "lk_n s \<noteq> 0" "length (lk_buckets s) = unat (lk_n s)"
    and "\<And>b. b < length (lk_buckets s) \<Longrightarrow> lk_seg (lk_heap s) (lk_head (lk_buckets s ! b)) (L b) None"
    and "\<And>b. b < length (lk_buckets s) \<Longrightarrow> distinct (L b)"
    and "\<And>x b. x \<in> set (L b) \<Longrightarrow> x < lk_fresh s \<and> (\<exists>v. node_val s x = Some v \<and> lk_bucket_of s v = b)"
    and "\<And>t x. own t = Some x \<Longrightarrow> x < lk_fresh s \<and> node_val s x \<noteq> None \<and> (\<forall>b. x \<notin> set (L b))"
    and "\<And>t u x. own t = Some x \<Longrightarrow> own u = Some x \<Longrightarrow> u = t"
    and "\<And>x v. node_val s x = Some v \<Longrightarrow> x \<in> set (L (lk_bucket_of s v)) \<or> x \<in> ran own"
  shows "lists_ok s own L"
  unfolding lists_ok_def using assms by blast

lemma locks_okD:
  assumes "locks_ok s H"
  shows "b < length (lk_buckets s) \<Longrightarrow> \<exists>l. slock (lk_buckets s ! b) = Some l \<and> (is_locked l \<longleftrightarrow> b \<in> ran H)"
    "H t = Some b \<Longrightarrow> H u = Some b \<Longrightarrow> u = t"
  using assms by (simp_all add: locks_ok_def)

lemma node_val_Some: "node_val s x = Some v \<longleftrightarrow> (\<exists>n. lk_heap s x = Some n \<and> lk_val n = v)"
  by (auto simp: node_val_def)

lemma in_one_list: "lists_ok s own L \<Longrightarrow> x \<in> set (L b) \<Longrightarrow> x \<in> set (L b') \<Longrightarrow> b = b'"
  using lists_okD(7) [of s own L x b] lists_okD(7) [of s own L x b'] by auto

lemma new_node: assumes "lists_ok s own L" shows "lk_heap s (lk_fresh s) = None"
proof (rule ccontr)
  assume "lk_heap s (lk_fresh s) \<noteq> None"
  then obtain v where "node_val s (lk_fresh s) = Some v" by (auto simp: node_val_def)
  then show False using lists_okD(6,8,12) [OF assms] by (fastforce simp: ran_def)
qed

lemma content_zero: "content s L v = 0 \<longleftrightarrow> lacks s v (L (lk_bucket_of s v))"
  by (simp add: content_def lacks_def filter_empty_conv)

subsection \<open>Changes of the lists\<close>

lemma same_n: "lk_n s' = lk_n s \<Longrightarrow> lk_bucket_of s' = lk_bucket_of s"
  by (simp add: fun_eq_iff lk_bucket_of_def)

lemma node_val_same: "lk_heap s' x = lk_heap s x \<Longrightarrow> node_val s' x = node_val s x"
  by (simp add: node_val_def)

text \<open>Nothing changes but locks and the links of nodes that are in no list.\<close>

lemma lists_frame:
  assumes ok: "lists_ok s own L"
    and same: "lk_n s' = lk_n s" "lk_fresh s' = lk_fresh s" "length (lk_buckets s') = length (lk_buckets s)"
      "\<And>b. b < length (lk_buckets s) \<Longrightarrow> lk_head (lk_buckets s' ! b) = lk_head (lk_buckets s ! b)"
      "\<And>x. node_val s' x = node_val s x" "\<And>b x. x \<in> set (L b) \<Longrightarrow> lk_heap s' x = lk_heap s x"
  shows "lists_ok s' own L" "content s' L = content s L"
proof -
  have "lk_seg (lk_heap s') (lk_head (lk_buckets s' ! b)) (L b) None" if "b < length (lk_buckets s)" for b
    using lk_seg_frame [OF lists_okD(4) [OF ok that]] same(4) [OF that] same(6) by simp
  then show "lists_ok s' own L" using ok unfolding lists_ok_def same(1-3,5) same_n [OF same(1)] by blast
  show "content s' L = content s L" by (simp add: fun_eq_iff content_def same(5) same_n [OF same(1)])
qed

text \<open>A thread gives up its node, or gets one that nobody has.\<close>

lemma owner_unique:
  assumes ok: "lists_ok s own L" and q: "\<And>y w. q = Some y \<Longrightarrow> own w \<noteq> Some y"
    and u: "(own(t := q)) u = Some x" "(own(t := q)) u' = Some x"
  shows "u' = u"
  using u q lists_okD(11) [OF ok, of u x u'] by (cases "u = t"; cases "u' = t") simp_all

lemma ran_owner: "own t \<noteq> Some y \<Longrightarrow> y \<in> ran (own(t := q)) \<longleftrightarrow> q = Some y \<or> y \<in> ran own"
  by (auto simp: ran_def split: if_splits)

text \<open>A new node.\<close>

lemma lists_new:
  assumes ok: "lists_ok s own L" and t: "own t = None"
    and s': "s' = s\<lparr>lk_heap := (lk_heap s)(lk_fresh s \<mapsto> n), lk_fresh := Suc (lk_fresh s)\<rparr>"
  shows "lists_ok s' (own(t := Some (lk_fresh s))) L" "content s' L = content s L"
proof -
  note d = lists_okD [OF ok]
  let ?x = "lk_fresh s"
  have xL: "?x \<notin> set (L b)" for b using d(6) [of ?x b] by auto
  have xown: "own u \<noteq> Some ?x" for u using d(8) [of u ?x] by auto
  have bo: "lk_bucket_of s' = lk_bucket_of s" by (simp add: s')
  have nv: "node_val s' y = (if y = ?x then Some (lk_val n) else node_val s y)" for y by (simp add: s' node_val_def)
  have fr: "lk_fresh s' = Suc ?x" "lk_n s' = lk_n s" "lk_buckets s' = lk_buckets s" by (simp_all add: s')
  show "lists_ok s' (own(t := Some ?x)) L"
  proof (rule lists_okI, unfold fr bo)
    show "lk_seg (lk_heap s') (lk_head (lk_buckets s ! b)) (L b) None" if "b < length (lk_buckets s)" for b
      using lk_seg_frame [OF d(4) [OF that], of "lk_heap s'"] xL [of b] by (force simp: s')
    show "x < Suc ?x \<and> (\<exists>v. node_val s' x = Some v \<and> lk_bucket_of s v = b)" if "x \<in> set (L b)" for x b
      using d(6,7) [OF that] by (auto simp: nv)
    show "x < Suc ?x \<and> node_val s' x \<noteq> None \<and> (\<forall>b. x \<notin> set (L b))" if "(own(t := Some ?x)) u = Some x" for u x
      using that xL d(8,9,10) [of u x] by (cases "u = t") (simp_all add: nv)
    show "x \<in> set (L (lk_bucket_of s v)) \<or> x \<in> ran (own(t := Some ?x))" if "node_val s' x = Some v" for x v
      using that d(12) [of x v] t ran_owner [of own t x "Some ?x"] by (cases "x = ?x") (auto simp: nv)
    show "u' = u" if "(own(t := Some ?x)) u = Some y" "(own(t := Some ?x)) u' = Some y" for u u' y
      by (rule owner_unique [OF ok _ that]) (use xown in auto)
  qed (use d(1,2,5) in auto)
  have "filter (\<lambda>x. node_val s' x = Some v) (L b) = filter (\<lambda>x. node_val s x = Some v) (L b)" for v b
    using xL by (auto intro!: filter_cong simp: nv)
  then show "content s' L = content s L" by (simp add: fun_eq_iff content_def bo)
qed

text \<open>A thread links its node at the head of a bucket.\<close>

lemma lists_link:
  assumes ok: "lists_ok s own L" and t: "own t = Some x"
    and n: "lk_heap s x = Some \<lparr>lk_val = v, lk_next = lk_head (lk_buckets s ! lk_bucket_of s v)\<rparr>" and b: "b = lk_bucket_of s v"
    and s': "s' = s\<lparr>lk_buckets := (lk_buckets s)[b := (lk_buckets s ! b)\<lparr>lk_head := Some x\<rparr>]\<rparr>"
  shows "lists_ok s' (own(t := None)) (L(b := x # L b))"
    "content s' (L(b := x # L b)) = (content s L)(v := content s L v + 1)"
proof -
  note d = lists_okD [OF ok]
  let ?L = "L(b := x # L b)"
  have bo: "lk_bucket_of s' = lk_bucket_of s" by (simp add: s')
  have nv: "node_val s' = node_val s" by (simp add: s' node_val_def fun_eq_iff)
  have fr: "lk_fresh s' = lk_fresh s" "lk_n s' = lk_n s" "lk_heap s' = lk_heap s"
    "length (lk_buckets s') = length (lk_buckets s)" by (simp_all add: s')
  have xv: "node_val s x = Some v" using n by (simp add: node_val_def)
  have xL: "x \<notin> set (L k)" for k by (rule d(10) [of t, OF t])
  show "lists_ok s' (own(t := None)) ?L"
  proof (rule lists_okI, unfold fr bo nv)
    show "lk_seg (lk_heap s) (lk_head (lk_buckets s' ! k)) (?L k) None" if "k < length (lk_buckets s)" for k
      using d(4) [OF that] that n b by (cases "k = b") (simp_all add: s')
    show "distinct (?L k)" if "k < length (lk_buckets s)" for k using d(5) [OF that] xL by (cases "k = b") simp_all
    show "y < lk_fresh s \<and> (\<exists>w. node_val s y = Some w \<and> lk_bucket_of s w = k)" if "y \<in> set (?L k)" for y k
      using that d(6,7) [of y k] d(8) [of t, OF t] xv b by (cases "k = b") auto
    show "y < lk_fresh s \<and> node_val s y \<noteq> None \<and> (\<forall>k. y \<notin> set (?L k))" if u: "(own(t := None)) u = Some y" for u y
    proof -
      have "u \<noteq> t" "own u = Some y" using u by (simp_all split: if_splits)
      then show ?thesis using d(8-10) [of u y] d(11) [of t x u, OF t] by auto
    qed
    show "y \<in> set (?L (lk_bucket_of s w)) \<or> y \<in> ran (own(t := None))" if "node_val s y = Some w" for y w
      using d(12) [OF that] that xv b [symmetric] t ran_owner [of own t y None] by (cases "y = x"; cases "lk_bucket_of s w = b") simp_all
    show "u' = u" if "(own(t := None)) u = Some y" "(own(t := None)) u' = Some y" for u u' y
      by (rule owner_unique [OF ok _ that]) simp
  qed (use d(1,2) in auto)
  show "content s' ?L = (content s L)(v := content s L v + 1)"
    using xv b by (auto simp: fun_eq_iff content_def bo nv)
qed

text \<open>A thread takes a node out of a bucket.\<close>

lemma lists_unlink:
  assumes ok: "lists_ok s own L" and t: "own t = None" and n: "lk_heap s x = Some n" "lk_val n = v" and b: "b = lk_bucket_of s v"
    and Lb: "L b = as @ x # bs"
  obtains s' where "lk_store (link_after b as) (lk_next n) s = Some s'" "lists_ok s' (own(t := Some x)) (L(b := as @ bs))"
    "content s' (L(b := as @ bs)) = (content s L)(v := content s L v - 1)" "content s L v \<noteq> 0"
    "\<And>y. y \<notin> set (L b) \<Longrightarrow> lk_heap s' y = lk_heap s y" "node_val s' = node_val s"
    "length (lk_buckets s') = length (lk_buckets s)" "\<And>k. slock (lk_buckets s' ! k) = slock (lk_buckets s ! k)"
    "\<And>k. k \<noteq> b \<Longrightarrow> lk_buckets s' ! k = lk_buckets s ! k" "lk_n s' = lk_n s"
proof -
  note d = lists_okD [OF ok]
  let ?L = "L(b := as @ bs)"
  have bl: "b < length (lk_buckets s)" using d(3) b by simp
  have dis: "distinct (as @ x # bs)" using d(5) [OF bl] Lb by simp
  have seg: "lk_seg (lk_heap s) (lk_head (lk_buckets s ! b)) as (Some x)" "lk_seg (lk_heap s) (lk_next n) bs None"
    using d(4) [OF bl] n Lb by (auto simp: lk_seg_append)
  obtain s' where s': "lk_store (link_after b as) (lk_next n) s = Some s'"
    "lk_seg (lk_heap s') (lk_head (lk_buckets s' ! b)) as (lk_next n)"
    "\<And>y. y \<notin> set as \<Longrightarrow> lk_heap s' y = lk_heap s y"
    "\<And>y. map_option lk_val (lk_heap s' y) = map_option lk_val (lk_heap s y)"
    "length (lk_buckets s') = length (lk_buckets s)" "\<And>k. slock (lk_buckets s' ! k) = slock (lk_buckets s ! k)"
    "\<And>k. k \<noteq> b \<Longrightarrow> lk_buckets s' ! k = lk_buckets s ! k" "lk_n s' = lk_n s" "lk_fresh s' = lk_fresh s"
    using store_link_after [OF bl seg(1)] dis by (metis distinct_append)
  have nv: "node_val s' = node_val s" using s'(4) by (simp add: node_val_def fun_eq_iff)
  note bo = same_n [OF s'(8)]
  have xv: "node_val s x = Some v" using n by (simp add: node_val_def)
  have xb: "x \<in> set (L b)" using Lb by simp
  have xown: "own u \<noteq> Some x" for u using d(10) [of u x b] xb by blast
  have "lists_ok s' (own(t := Some x)) ?L"
  proof (rule lists_okI, unfold bo nv s'(5,8,9))
    show "lk_seg (lk_heap s') (lk_head (lk_buckets s' ! k)) (?L k) None" if k: "k < length (lk_buckets s)" for k
    proof (cases "k = b")
      case True
      have "lk_seg (lk_heap s') (lk_next n) bs None" by (rule lk_seg_frame [OF seg(2)]) (use s'(3) dis in auto)
      then show ?thesis using True s'(2) by (auto simp: lk_seg_append)
    next
      case False
      then have "y \<notin> set as" if "y \<in> set (L k)" for y using in_one_list [OF ok that, of b] Lb by auto
      then show ?thesis using lk_seg_frame [OF d(4) [OF k], of "lk_heap s'"] s'(3,7) False by simp
    qed
    show "distinct (?L k)" if "k < length (lk_buckets s)" for k using d(5) [OF that] dis by (cases "k = b") simp_all
    show "y < lk_fresh s \<and> (\<exists>w. node_val s y = Some w \<and> lk_bucket_of s w = k)" if "y \<in> set (?L k)" for y k
      using that d(6,7) [of y k] Lb by (cases "k = b") auto
    show "y < lk_fresh s \<and> node_val s y \<noteq> None \<and> (\<forall>k. y \<notin> set (?L k))" if u: "(own(t := Some x)) u = Some y" for u y
    proof (cases "u = t")
      case True
      have "x \<notin> set (?L k)" for k using in_one_list [OF ok xb, of k] dis by (cases "k = b") auto
      then show ?thesis using True u d(6) [OF xb] xv by simp
    next
      case False
      then have y: "own u = Some y" using u by simp
      have "y \<notin> set (?L k)" for k using d(10) [OF y, of k] d(10) [OF y, of b] Lb by simp
      then show ?thesis using d(8,9) [OF y] by blast
    qed
    show "y \<in> set (?L (lk_bucket_of s w)) \<or> y \<in> ran (own(t := Some x))" if "node_val s y = Some w" for y w
      using d(12) [OF that] Lb t ran_owner [of own t y "Some x"] by (cases "y = x"; cases "lk_bucket_of s w = b") auto
    show "u' = u" if "(own(t := Some x)) u = Some y" "(own(t := Some x)) u' = Some y" for u u' y
      by (rule owner_unique [OF ok _ that]) (use xown in auto)
  qed (use d(1,2) in auto)
  moreover have "content s' ?L = (content s L)(v := content s L v - 1)" "content s L v \<noteq> 0"
    using xv b Lb by (auto simp: fun_eq_iff content_def bo nv)
  moreover have "lk_heap s' y = lk_heap s y" if "y \<notin> set (L b)" for y using that s'(3) Lb by simp
  ultimately show thesis by (rule that [OF s'(1) _ _ _ _ nv s'(5,6,7,8)])
qed

text \<open>A thread frees its node.\<close>

lemma lists_free:
  assumes ok: "lists_ok s own L" and t: "own t = Some x" and s': "s' = s\<lparr>lk_heap := (lk_heap s)(x := None)\<rparr>"
  shows "lists_ok s' (own(t := None)) L" "content s' L = content s L"
proof -
  note d = lists_okD [OF ok]
  have bo: "lk_bucket_of s' = lk_bucket_of s" by (simp add: s')
  have nv: "node_val s' y = (if y = x then None else node_val s y)" for y by (simp add: s' node_val_def)
  have fr: "lk_fresh s' = lk_fresh s" "lk_n s' = lk_n s" "lk_buckets s' = lk_buckets s" by (simp_all add: s')
  have xL: "x \<notin> set (L k)" for k by (rule d(10) [of t, OF t])
  show "lists_ok s' (own(t := None)) L"
  proof (rule lists_okI, unfold fr bo)
    show "lk_seg (lk_heap s') (lk_head (lk_buckets s ! b)) (L b) None" if "b < length (lk_buckets s)" for b
      using lk_seg_frame [OF d(4) [OF that], of "lk_heap s'"] xL [of b] by (force simp: s')
    show "y < lk_fresh s \<and> (\<exists>v. node_val s' y = Some v \<and> lk_bucket_of s v = b)" if "y \<in> set (L b)" for y b
      using d(6,7) [OF that] that xL [of b] by (auto simp: nv)
    show "y < lk_fresh s \<and> node_val s' y \<noteq> None \<and> (\<forall>k. y \<notin> set (L k))" if u: "(own(t := None)) u = Some y" for u y
    proof -
      have "u \<noteq> t" "own u = Some y" using u by (simp_all split: if_splits)
      then show ?thesis using d(8-10) [of u y] d(11) [of t x u, OF t] by (auto simp: nv)
    qed
    show "y \<in> set (L (lk_bucket_of s v)) \<or> y \<in> ran (own(t := None))" if "node_val s' y = Some v" for y v
    proof -
      have "y \<noteq> x" "node_val s y = Some v" using that by (simp_all add: nv split: if_splits)
      then show ?thesis using d(12) [of y v] t ran_owner [of own t y None] by simp
    qed
    show "u' = u" if "(own(t := None)) u = Some y" "(own(t := None)) u' = Some y" for u u' y
      by (rule owner_unique [OF ok _ that]) simp
  qed (use d(1,2,5) in auto)
  have "filter (\<lambda>x. node_val s' x = Some v) (L b) = filter (\<lambda>x. node_val s x = Some v) (L b)" for v b
    using xL [of b] by (auto intro!: filter_cong simp: nv)
  then show "content s' L = content s L" by (simp add: fun_eq_iff content_def bo)
qed

end
