(* ===== verification/Lock_Conc_Steps.thy ===== *)
theory Lock_Conc_Steps
  imports Lock_Conc_Inv
begin

section \<open>The lock-based hash map: every step keeps the invariant\<close>

text \<open>
  A step of one thread keeps the invariant of all threads, never touches a node that is not allocated, and changes the
  content exactly when it settles the result of its call, in the way the multiset of \<open>spec_call\<close> changes.
\<close>

definition eff_ok :: "lk_pc \<Rightarrow> lk_pc \<Rightarrow> (64 word \<Rightarrow> nat) \<Rightarrow> (64 word \<Rightarrow> nat) \<Rightarrow> bool" where
  "eff_ok p p' M M' \<longleftrightarrow>
     (case (call_of p, decided p, decided p') of (Some k, None, Some r) \<Rightarrow> spec_call k M = (r, M') | _ \<Rightarrow> M' = M)"

subsection \<open>Other threads\<close>

lemma pc_frame:
  assumes "pc_ok s L p" and n: "lk_n s' = lk_n s"
    and own: "\<And>x. owned p = Some x \<Longrightarrow> lk_heap s' x = lk_heap s x"
    and hold: "\<And>b. holds s p = Some b \<Longrightarrow>
      L' b = L b \<and> lk_head (lk_buckets s' ! b) = lk_head (lk_buckets s ! b) \<and> (\<forall>x \<in> set (L b). node_val s' x = node_val s x)"
  shows "pc_ok s' L' p"
proof -
  have nv: "owned p = Some x \<Longrightarrow> node_val s' x = node_val s x" for x using own node_val_same by blast
  show ?thesis
    using assms(1) own nv hold by (cases p) (fastforce simp: same_n [OF n] holds_def lacks_def)+
qed

lemma conc_step:
  assumes ok: "conc_ok s P L" and n: "lk_n s' = lk_n s"
    and lists: "lists_ok s' ((\<lambda>t. owned (P t))(t := owned p)) L'"
    and locks: "locks_ok s' ((\<lambda>t. holds s (P t))(t := holds s p))" and pc: "pc_ok s' L' p"
    and own: "\<And>u x. u \<noteq> t \<Longrightarrow> owned (P u) = Some x \<Longrightarrow> lk_heap s' x = lk_heap s x"
    and oth: "\<And>b. b < length (lk_buckets s) \<Longrightarrow> holds s (P t) \<noteq> Some b \<Longrightarrow>
      L' b = L b \<and> lk_head (lk_buckets s' ! b) = lk_head (lk_buckets s ! b) \<and> (\<forall>x \<in> set (L b). node_val s' x = node_val s x)"
  shows "conc_ok s' (P(t := p)) L'"
proof -
  have ok': "lists_ok s (\<lambda>t. owned (P t)) L" "locks_ok s (\<lambda>t. holds s (P t))" "\<And>u. pc_ok s L (P u)"
    using ok by (simp_all add: conc_ok_def)
  have "pc_ok s' L' (P u)" if u: "u \<noteq> t" for u
  proof (rule pc_frame [OF ok'(3) n own [OF u]])
    fix b assume b: "holds s (P u) = Some b"
    then have "b < length (lk_buckets s)" using lists_okD(3) [OF ok'(1)] by (auto simp: holds_def)
    moreover have "holds s (P t) \<noteq> Some b" using locks_okD(2) [OF ok'(2) b] u by auto
    ultimately show "L' b = L b \<and> lk_head (lk_buckets s' ! b) = lk_head (lk_buckets s ! b) \<and> (\<forall>x \<in> set (L b). node_val s' x = node_val s x)"
      by (rule oth)
  qed
  moreover have "(\<lambda>u. owned ((P(t := p)) u)) = (\<lambda>t. owned (P t))(t := owned p)"
    "(\<lambda>u. holds s' ((P(t := p)) u)) = (\<lambda>t. holds s (P t))(t := holds s p)"
    by (auto simp: fun_eq_iff holds_def same_n [OF n])
  ultimately show ?thesis using lists locks pc by (simp add: conc_ok_def)
qed

subsection \<open>Locks\<close>

lemma locks_same:
  assumes "locks_ok s H" "length (lk_buckets s') = length (lk_buckets s)"
    "\<And>b. slock (lk_buckets s' ! b) = slock (lk_buckets s ! b)"
  shows "locks_ok s' H"
  using assms by (simp add: locks_ok_def)

lemma head_lock_upd: "lk_head (bs[b := (bs ! b)\<lparr>slock := q\<rparr>] ! k) = lk_head (bs ! k)"
  by (cases "k = b"; cases "b < length bs") (simp_all add: list_update_beyond)

lemma try_lock:
  assumes ok: "locks_ok s H" and b: "b < length (lk_buckets s)" and t: "H t = None"
  obtains u where "lk_try b s = (True, s)" "H u = Some b"
  | s' where "lk_try b s = (False, s')" "locks_ok s' (H(t := Some b))" "lk_n s' = lk_n s" "lk_fresh s' = lk_fresh s"
    "lk_heap s' = lk_heap s" "length (lk_buckets s') = length (lk_buckets s)"
    "\<And>k. lk_head (lk_buckets s' ! k) = lk_head (lk_buckets s ! k)"
proof -
  obtain l where l: "slock (lk_buckets s ! b) = Some l" "is_locked l \<longleftrightarrow> b \<in> ran H" using locks_okD(1) [OF ok b] by blast
  let ?s = "s\<lparr>lk_buckets := (lk_buckets s)[b := (lk_buckets s ! b)\<lparr>slock := Some (l\<lparr>is_locked := True\<rparr>)\<rparr>]\<rparr>"
  have r: "lk_try b s = (is_locked l, ?s)" using l(1) by (simp add: lk_try_def test_and_set_def)
  show thesis
  proof (cases "is_locked l")
    case True
    then have "(lk_buckets s ! b)\<lparr>slock := Some (l\<lparr>is_locked := True\<rparr>)\<rparr> = lk_buckets s ! b" using l(1) by simp
    then show thesis using r True l(2) that(1) by (auto simp: ran_def)
  next
    case False
    then have free: "H u \<noteq> Some b" for u using l(2) by (auto simp: ran_def)
    have "locks_ok ?s (H(t := Some b))"
      unfolding locks_ok_def using locks_okD [OF ok] b free t ran_owner [of H t _ "Some b"]
      by (auto simp: nth_list_update split: if_splits)
    then show thesis using r False by (intro that(2) [of ?s]) (auto simp: head_lock_upd)
  qed
qed

lemma release_lock:
  assumes ok: "locks_ok s H" and b: "b < length (lk_buckets s)" and t: "H t = Some b"
  shows "locks_ok (lk_unlock b s) (H(t := None))"
proof -
  obtain l where l: "slock (lk_buckets s ! b) = Some l" using locks_okD(1) [OF ok b] by blast
  have "u = t" if "H u = Some b" for u using locks_okD(2) [OF ok t that] .
  then have "b \<notin> ran (H(t := None))" by (auto simp: ran_def)
  then show ?thesis unfolding locks_ok_def using locks_okD [OF ok] b l t ran_owner [of H t _ None]
    by (auto simp: lk_unlock_def nth_list_update cspin_unlock_def clear_def split: if_splits)
qed

lemma unlock_frame:
  "lk_n (lk_unlock b s) = lk_n s" "lk_fresh (lk_unlock b s) = lk_fresh s" "lk_heap (lk_unlock b s) = lk_heap s"
  "length (lk_buckets (lk_unlock b s)) = length (lk_buckets s)"
  "lk_head (lk_buckets (lk_unlock b s) ! k) = lk_head (lk_buckets s ! k)"
  by (simp_all add: lk_unlock_def head_lock_upd)

subsection \<open>Steps that change no list\<close>

lemma conc_okD:
  assumes "conc_ok s P L"
  shows "lists_ok s (\<lambda>t. owned (P t)) L" "locks_ok s (\<lambda>t. holds s (P t))" "pc_ok s L (P t)"
  using assms by (simp_all add: conc_ok_def)

lemma step_quiet:
  assumes ok: "conc_ok s P L" and p: "owned p = owned (P t)" "held p = held (P t)" "pc_ok s L p"
  shows "conc_ok s (P(t := p)) L"
proof (rule conc_step [OF ok])
  have "(\<lambda>t. owned (P t))(t := owned p) = (\<lambda>t. owned (P t))" "(\<lambda>t. holds s (P t))(t := holds s p) = (\<lambda>t. holds s (P t))"
    using p by (auto simp: fun_eq_iff holds_def)
  then show "lists_ok s ((\<lambda>t. owned (P t))(t := owned p)) L" "locks_ok s ((\<lambda>t. holds s (P t))(t := holds s p))"
    using conc_okD(1,2) [OF ok] by simp_all
qed (use p in simp_all)

lemma locks_kept:
  assumes "conc_ok s P L" "held p = held (P t)" "length (lk_buckets s') = length (lk_buckets s)"
    "\<And>b. slock (lk_buckets s' ! b) = slock (lk_buckets s ! b)"
  shows "locks_ok s' ((\<lambda>t. holds s (P t))(t := holds s p))"
proof -
  have "(\<lambda>t. holds s (P t))(t := holds s p) = (\<lambda>t. holds s (P t))" using assms(2) by (auto simp: fun_eq_iff holds_def)
  then show ?thesis using locks_same [OF conc_okD(2) [OF assms(1)] assms(3,4)] by simp
qed

text \<open>Only locks change.\<close>

lemma step_locks:
  assumes ok: "conc_ok s P L" and p: "owned p = owned (P t)" "pc_ok s L p"
    and same: "lk_n s' = lk_n s" "lk_fresh s' = lk_fresh s" "lk_heap s' = lk_heap s" "length (lk_buckets s') = length (lk_buckets s)"
      "\<And>k. lk_head (lk_buckets s' ! k) = lk_head (lk_buckets s ! k)"
    and locks: "locks_ok s' ((\<lambda>t. holds s (P t))(t := holds s p))"
  shows "conc_ok s' (P(t := p)) L" "content s' L = content s L"
proof -
  have nv: "node_val s' x = node_val s x" for x by (simp add: node_val_def same)
  have own: "(\<lambda>t. owned (P t))(t := owned p) = (\<lambda>t. owned (P t))" using p by (auto simp: fun_eq_iff)
  note fr = lists_frame [OF conc_okD(1) [OF ok] same(1,2,4,5) nv]
  show "content s' L = content s L" by (rule fr(2)) (simp add: same)
  show "conc_ok s' (P(t := p)) L"
  proof (rule conc_step [OF ok same(1) _ locks], unfold own)
    show "lists_ok s' (\<lambda>t. owned (P t)) L" by (rule fr(1)) (simp add: same)
    show "pc_ok s' L p" by (rule pc_frame [OF p(2)]) (simp_all add: same nv)
  qed (simp_all add: same nv)
qed

lemma step_lock:
  assumes ok: "conc_ok s P L" and p: "held (P t) = None" "owned p = owned (P t)" "held p = Some v" "pc_ok s L p"
  obtains busy s' where "lk_try (lk_bucket_of s v) s = (busy, s')"
    "conc_ok s' (P(t := if busy then P t else p)) L" "content s' L = content s L" "lk_n s' = lk_n s"
    "busy \<longrightarrow> (\<exists>u. holds s (P u) = Some (lk_bucket_of s v))"
proof -
  note d = conc_okD [OF ok]
  have t: "holds s (P t) = None" "holds s p = Some (lk_bucket_of s v)" using p by (simp_all add: holds_def)
  from try_lock [where H = "\<lambda>t. holds s (P t)", OF d(2) lists_okD(3) [OF d(1), of v] t(1)] show thesis
  proof cases
    case (1 u)
    then show thesis using that [of True s] ok by auto
  next
    case (2 s')
    have "locks_ok s' ((\<lambda>t. holds s (P t))(t := holds s p))" using 2(2) t(2) by simp
    from step_locks [OF ok p(2,4) 2(3-7) this] show thesis using that [of False s'] 2(1,3) by simp
  qed
qed

lemma step_unlock:
  assumes ok: "conc_ok s P L" and p: "held (P t) = Some v" "owned p = owned (P t)" "held p = None" "pc_ok s L p"
  shows "conc_ok (lk_unlock (lk_bucket_of s v) s) (P(t := p)) L" "content (lk_unlock (lk_bucket_of s v) s) L = content s L"
proof -
  note d = conc_okD [OF ok]
  have "locks_ok (lk_unlock (lk_bucket_of s v) s) ((\<lambda>t. holds s (P t))(t := holds s p))"
    using release_lock [where H = "\<lambda>t. holds s (P t)", OF d(2) lists_okD(3) [OF d(1), of v], of t] p by (simp add: holds_def)
  from step_locks [OF ok p(2,4) unlock_frame this]
  show "conc_ok (lk_unlock (lk_bucket_of s v) s) (P(t := p)) L" "content (lk_unlock (lk_bucket_of s v) s) L = content s L" .
qed

subsection \<open>Steps of a call\<close>

text \<open>A thread waits when another one has the lock that it needs.\<close>

definition waits :: "lk_map \<Rightarrow> (nat \<Rightarrow> lk_pc) \<Rightarrow> nat \<Rightarrow> bool" where
  "waits s P t \<longleftrightarrow> (\<exists>v u. spinning (P t) = Some v \<and> holds s (P u) = Some (lk_bucket_of s v))"

definition good_step :: "lk_map \<Rightarrow> (nat \<Rightarrow> lk_pc) \<Rightarrow> (nat \<Rightarrow> nat list) \<Rightarrow> nat \<Rightarrow> bool" where
  "good_step s P L t \<longleftrightarrow> (\<exists>p s' L'. lk_go (P t) s = Some (p, s') \<and> conc_ok s' (P(t := p)) L' \<and>
     eff_ok (P t) p (content s L) (content s' L') \<and> lk_n s' = lk_n s \<and>
     ((\<exists>r. P t = K_idle r) \<or> waits s P t \<or> work s' L' p < work s L (P t)))"

lemma good_stepI:
  "lk_go (P t) s = Some (p, s') \<Longrightarrow> conc_ok s' (P(t := p)) L' \<Longrightarrow> eff_ok (P t) p (content s L) (content s' L') \<Longrightarrow>
    lk_n s' = lk_n s \<Longrightarrow> (\<exists>r. P t = K_idle r) \<or> waits s P t \<or> work s' L' p < work s L (P t) \<Longrightarrow> good_step s P L t"
  by (auto simp: good_step_def)

lemma go_ins_next:
  assumes ok: "conc_ok s P L" and P: "P t = K_ins_next v x"
  shows "good_step s P L t"
proof -
  note d = conc_okD [OF ok] and l = lists_okD [OF conc_okD(1) [OF ok]]
  have own: "owned (P t) = Some x" by (simp add: P)
  obtain n where n: "lk_heap s x = Some n" "lk_val n = v" using d(3) [of t] by (auto simp: P node_val_Some)
  define q where "q = lk_head (lk_buckets s ! lk_bucket_of s v)"
  define s' where "s' = s\<lparr>lk_heap := (lk_heap s)(x \<mapsto> n\<lparr>lk_next := q\<rparr>)\<rparr>"
  have go: "lk_go (P t) s = Some (K_ins_head v x, s')"
    using n l(3) [of v] by (simp add: P lk_load_def lk_store_def s'_def q_def)
  have nv: "node_val s' y = node_val s y" for y using n by (simp add: node_val_def s'_def)
  have fr: "lk_n s' = lk_n s" "lk_fresh s' = lk_fresh s" "lk_buckets s' = lk_buckets s" by (simp_all add: s'_def)
  have xL: "x \<notin> set (L b)" for b by (rule l(10) [of t, OF own])
  have same: "lk_heap s' y = lk_heap s y" if "y \<noteq> x" for y using that by (simp add: s'_def)
  have heads: "length (lk_buckets s') = length (lk_buckets s)" "lk_head (lk_buckets s' ! b) = lk_head (lk_buckets s ! b)" for b
    by (simp_all add: fr)
  have inL: "lk_heap s' y = lk_heap s y" if "y \<in> set (L b)" for b y using that xL [of b] by (intro same) auto
  note lists = lists_frame [OF d(1) fr(1,2) heads nv inL]
  have conc: "conc_ok s' (P(t := K_ins_head v x)) L"
  proof (rule conc_step [OF ok fr(1)])
    have "(\<lambda>t. owned (P t))(t := owned (K_ins_head v x)) = (\<lambda>t. owned (P t))" using own by (auto simp: fun_eq_iff)
    then show "lists_ok s' ((\<lambda>t. owned (P t))(t := owned (K_ins_head v x))) L" using lists(1) by simp
    show "locks_ok s' ((\<lambda>t. holds s (P t))(t := holds s (K_ins_head v x)))"
      by (rule locks_kept [OF ok]) (simp_all add: P fr)
    show "pc_ok s' L (K_ins_head v x)" using n by (cases n) (simp add: s'_def q_def)
    show "lk_heap s' y = lk_heap s y" if "u \<noteq> t" "owned (P u) = Some y" for u y
      using l(11) [of t, OF own, of u] that by (intro same) auto
  qed (simp_all add: fr nv)
  show ?thesis by (rule good_stepI [where P = P and t = t, OF go conc]) (simp_all add: eff_ok_def P lists(2) fr)
qed

lemma go_ins_head:
  assumes ok: "conc_ok s P L" and P: "P t = K_ins_head v x"
  shows "good_step s P L t"
proof -
  note d = conc_okD [OF ok] and l = lists_okD [OF conc_okD(1) [OF ok]]
  have own: "owned (P t) = Some x" by (simp add: P)
  define b where "b = lk_bucket_of s v"
  define s' where "s' = s\<lparr>lk_buckets := (lk_buckets s)[b := (lk_buckets s ! b)\<lparr>lk_head := Some x\<rparr>]\<rparr>"
  have go: "lk_go (P t) s = Some (K_ins_rel v, s')" using l(3) [of v] by (simp add: P lk_store_def s'_def b_def)
  have n: "lk_heap s x = Some \<lparr>lk_val = v, lk_next = lk_head (lk_buckets s ! lk_bucket_of s v)\<rparr>" using d(3) [of t] by (simp add: P)
  note link = lists_link [where own = "\<lambda>t. owned (P t)", OF d(1) own n b_def s'_def]
  have fr: "lk_n s' = lk_n s" "lk_heap s' = lk_heap s" "length (lk_buckets s') = length (lk_buckets s)"
    "node_val s' = node_val s" "\<And>k. k \<noteq> b \<Longrightarrow> lk_head (lk_buckets s' ! k) = lk_head (lk_buckets s ! k)"
    "\<And>k. slock (lk_buckets s' ! k) = slock (lk_buckets s ! k)"
    using l(3) [of v] by (auto simp: s'_def node_val_def fun_eq_iff b_def nth_list_update)
  have conc: "conc_ok s' (P(t := K_ins_rel v)) (L(b := x # L b))"
  proof (rule conc_step [OF ok fr(1)])
    show "lists_ok s' ((\<lambda>t. owned (P t))(t := owned (K_ins_rel v))) (L(b := x # L b))" using link(1) by simp
    show "locks_ok s' ((\<lambda>t. holds s (P t))(t := holds s (K_ins_rel v)))"
      by (rule locks_kept [OF ok]) (simp_all add: P fr)
    show "(L(b := x # L b)) k = L k \<and> lk_head (lk_buckets s' ! k) = lk_head (lk_buckets s ! k) \<and> (\<forall>x \<in> set (L k). node_val s' x = node_val s x)"
      if "holds s (P t) \<noteq> Some k" for k
      using that fr by (auto simp: P holds_def b_def)
  qed (simp_all add: fr)
  show ?thesis by (rule good_stepI [where P = P and t = t, OF go conc]) (simp_all add: eff_ok_def P link(2) fr)
qed

lemma go_rem_cut:
  assumes ok: "conc_ok s P L" and P: "P t = K_rem_cut v l x"
  shows "good_step s P L t"
proof -
  note d = conc_okD [OF ok]
  define b where "b = lk_bucket_of s v"
  obtain as bs n where Lb: "L b = as @ x # bs" "l = link_after b as" and n: "lk_heap s x = Some n" "lk_val n = v"
    using d(3) [of t] by (auto simp: P b_def node_val_Some)
  have own: "owned (P t) = None" by (simp add: P)
  obtain s' where s': "lk_store (link_after b as) (lk_next n) s = Some s'"
    "lists_ok s' ((\<lambda>t. owned (P t))(t := Some x)) (L(b := as @ bs))"
    "content s' (L(b := as @ bs)) = (content s L)(v := content s L v - 1)" "content s L v \<noteq> 0"
    "\<And>y. y \<notin> set (L b) \<Longrightarrow> lk_heap s' y = lk_heap s y" "node_val s' = node_val s"
    "length (lk_buckets s') = length (lk_buckets s)" "\<And>k. slock (lk_buckets s' ! k) = slock (lk_buckets s ! k)"
    "\<And>k. k \<noteq> b \<Longrightarrow> lk_buckets s' ! k = lk_buckets s ! k" "lk_n s' = lk_n s"
    by (rule lists_unlink [where own = "\<lambda>t. owned (P t)", OF d(1) own n b_def Lb(1)]) blast
  have go: "lk_go (P t) s = Some (K_rem_rel v (Some x), s')" using n s'(1) Lb(2) by (simp add: P)
  have conc: "conc_ok s' (P(t := K_rem_rel v (Some x))) (L(b := as @ bs))"
  proof (rule conc_step [OF ok s'(10)])
    show "lists_ok s' ((\<lambda>t. owned (P t))(t := owned (K_rem_rel v (Some x)))) (L(b := as @ bs))" using s'(2) by simp
    show "locks_ok s' ((\<lambda>t. holds s (P t))(t := holds s (K_rem_rel v (Some x))))"
      by (rule locks_kept [OF ok]) (simp_all add: P s'(7,8))
    show "lk_heap s' y = lk_heap s y" if "owned (P u) = Some y" for u y
      by (rule s'(5), rule lists_okD(10) [OF d(1) that])
    show "(L(b := as @ bs)) k = L k \<and> lk_head (lk_buckets s' ! k) = lk_head (lk_buckets s ! k) \<and> (\<forall>x \<in> set (L k). node_val s' x = node_val s x)"
      if "holds s (P t) \<noteq> Some k" for k
      using that s'(6,9) by (auto simp: P holds_def b_def)
  qed simp
  show ?thesis by (rule good_stepI [where P = P and t = t, OF go conc]) (simp_all add: eff_ok_def P s'(3,4,10))
qed

lemma go_rem_free:
  assumes ok: "conc_ok s P L" and P: "P t = K_rem_free v x"
  shows "good_step s P L t"
proof -
  note d = conc_okD [OF ok] and l = lists_okD [OF conc_okD(1) [OF ok]]
  have own: "owned (P t) = Some x" by (simp add: P)
  define s' where "s' = s\<lparr>lk_heap := (lk_heap s)(x := None)\<rparr>"
  have "lk_heap s x \<noteq> None" using l(9) [of t, OF own] by (simp add: node_val_def)
  then have go: "lk_go (P t) s = Some (K_idle (Some 0), s')" by (auto simp: P lk_free_def s'_def)
  note free = lists_free [where own = "\<lambda>t. owned (P t)", OF d(1) own s'_def]
  have fr: "lk_n s' = lk_n s" "lk_buckets s' = lk_buckets s" "\<And>y. y \<noteq> x \<Longrightarrow> lk_heap s' y = lk_heap s y" by (simp_all add: s'_def)
  have conc: "conc_ok s' (P(t := K_idle (Some 0))) L"
  proof (rule conc_step [OF ok fr(1)])
    show "lists_ok s' ((\<lambda>t. owned (P t))(t := owned (K_idle (Some 0)))) L" using free(1) by simp
    show "locks_ok s' ((\<lambda>t. holds s (P t))(t := holds s (K_idle (Some 0))))"
      by (rule locks_kept [OF ok]) (simp_all add: P fr)
    show "lk_heap s' y = lk_heap s y" if "u \<noteq> t" "owned (P u) = Some y" for u y
      using l(11) [of t, OF own, of u] that by (intro fr(3)) auto
    show "L k = L k \<and> lk_head (lk_buckets s' ! k) = lk_head (lk_buckets s ! k) \<and> (\<forall>x \<in> set (L k). node_val s' x = node_val s x)" for k
    proof -
      have "node_val s' y = node_val s y" if "y \<in> set (L k)" for y
        using l(10) [of t, OF own, of k] that by (intro node_val_same fr(3)) auto
      then show ?thesis by (simp add: fr)
    qed
  qed simp
  show ?thesis by (rule good_stepI [where P = P and t = t, OF go conc]) (simp_all add: eff_ok_def P free(2) fr)
qed

text \<open>The walks.\<close>

lemma go_rem_at:
  assumes ok: "conc_ok s P L" and P: "P t = K_rem_at v l"
  shows "good_step s P L t"
proof -
  note d = conc_okD [OF ok]
  define b where "b = lk_bucket_of s v"
  have bl: "b < length (lk_buckets s)" using lists_okD(3) [OF d(1)] by (simp add: b_def)
  obtain as bs where Lb: "L b = as @ bs" "l = link_after b as" "lacks s v as" using d(3) [of t] by (auto simp: P b_def)
  obtain r where r: "lk_seg (lk_heap s) (lk_head (lk_buckets s ! b)) as r" "lk_seg (lk_heap s) r bs None"
    using lists_okD(4) [OF d(1) bl] Lb by (auto simp: lk_seg_append)
  have rest: "rest_after l (L b) = bs" using rest_after_link [of as bs b] lists_okD(5) [OF d(1) bl] Lb by simp
  have load: "lk_load l s = Some r" using load_link_after [OF bl r(1)] Lb(2) by simp
  show ?thesis
  proof (cases bs)
    case Nil
    then have go: "lk_go (P t) s = Some (K_rem_rel v None, s)" using load r(2) by (simp add: P)
    have "content s L v = 0" using Lb Nil by (simp add: content_zero b_def)
    then show ?thesis
      by (intro good_stepI [where P = P and t = t, OF go step_quiet [OF ok]]) (simp_all add: P eff_ok_def b_def [symmetric])
  next
    case (Cons x cs)
    then obtain n where n: "r = Some x" "lk_heap s x = Some n" using r(2) by auto
    show ?thesis
    proof (cases "lk_val n = v")
      case True
      then have go: "lk_go (P t) s = Some (K_rem_cut v l x, s)" using load n by (simp add: P)
      have "pc_ok s L (K_rem_cut v l x)" using Lb Cons True n by (auto simp: b_def node_val_Some)
      then show ?thesis
        by (intro good_stepI [where P = P and t = t, OF go step_quiet [OF ok]]) (simp_all add: P eff_ok_def b_def [symmetric])
    next
      case False
      then have go: "lk_go (P t) s = Some (K_rem_at v (Link x), s)" using load n by (simp add: P)
      have *: "L b = (as @ [x]) @ cs" "Link x = link_after b (as @ [x])" "lacks s v (as @ [x])"
        using Lb Cons False n by (auto simp: link_after_def lacks_def node_val_Some)
      then have "pc_ok s L (K_rem_at v (Link x))" unfolding pc_ok.simps b_def by blast
      moreover have "rest_after (Link x) (L b) = cs"
        using rest_after_link [of "as @ [x]" cs b] lists_okD(5) [OF d(1) bl] * by simp
      ultimately show ?thesis using rest Cons
        by (intro good_stepI [where P = P and t = t, OF go step_quiet [OF ok]]) (simp_all add: P eff_ok_def b_def [symmetric])
    qed
  qed
qed

lemma seg_first: "lk_seg h p xs None \<Longrightarrow> p = first_node xs"
  by (cases xs) (auto simp: first_node_def)

lemma go_look_head:
  assumes ok: "conc_ok s P L" and P: "P t = K_look_head v"
  shows "good_step s P L t"
proof -
  note d = conc_okD [OF ok]
  let ?p = "lk_head (lk_buckets s ! lk_bucket_of s v)"
  have b: "lk_bucket_of s v < length (lk_buckets s)" using lists_okD(3) [OF d(1)] .
  then have go: "lk_go (P t) s = Some (K_look_at v ?p, s)" by (simp add: P lk_load_def)
  have "L (lk_bucket_of s v) = [] @ L (lk_bucket_of s v)" "?p = first_node (L (lk_bucket_of s v))" "lacks s v []"
    using seg_first [OF lists_okD(4) [OF d(1) b]] by (simp_all add: lacks_def)
  moreover from calculation have "pc_ok s L (K_look_at v ?p)" unfolding pc_ok.simps by blast
  moreover from calculation have "rest_from ?p (L (lk_bucket_of s v)) = L (lk_bucket_of s v)"
    using rest_from_node [of "[]" "L (lk_bucket_of s v)"] lists_okD(5) [OF d(1) b] by simp
  ultimately show ?thesis
    by (intro good_stepI [where P = P and t = t, OF go step_quiet [OF ok]]) (simp_all add: P eff_ok_def)
qed

lemma go_look_at:
  assumes ok: "conc_ok s P L" and P: "P t = K_look_at v p"
  shows "good_step s P L t"
proof -
  note d = conc_okD [OF ok]
  define b where "b = lk_bucket_of s v"
  have bl: "b < length (lk_buckets s)" using lists_okD(3) [OF d(1)] by (simp add: b_def)
  obtain as bs where Lb: "L b = as @ bs" "p = first_node bs" "lacks s v as" using d(3) [of t] by (auto simp: P b_def)
  have rest: "rest_from p (L b) = bs" using rest_from_node [of as bs] lists_okD(5) [OF d(1) bl] Lb by simp
  show ?thesis
  proof (cases bs)
    case Nil
    then have go: "lk_go (P t) s = Some (K_look_rel v 1, s)" using Lb(2) by (simp add: P first_node_def)
    have "content s L v = 0" using Lb Nil by (simp add: content_zero b_def)
    then show ?thesis
      by (intro good_stepI [where P = P and t = t, OF go step_quiet [OF ok]]) (simp_all add: P eff_ok_def b_def [symmetric])
  next
    case (Cons x cs)
    then have p: "p = Some x" using Lb(2) by (simp add: first_node_def)
    obtain n where n: "lk_heap s x = Some n" "lk_seg (lk_heap s) (lk_next n) cs None"
      using lists_okD(4) [OF d(1) bl] Lb(1) Cons by (auto simp: lk_seg_append)
    show ?thesis
    proof (cases "lk_val n = v")
      case True
      then have go: "lk_go (P t) s = Some (K_look_rel v 0, s)" using n p by (simp add: P)
      have "content s L v \<noteq> 0" using Lb Cons True n by (auto simp: content_zero b_def [symmetric] lacks_def node_val_Some)
      then show ?thesis
        by (intro good_stepI [where P = P and t = t, OF go step_quiet [OF ok]]) (simp_all add: P eff_ok_def b_def [symmetric])
    next
      case False
      then have go: "lk_go (P t) s = Some (K_look_at v (lk_next n), s)" using n p by (simp add: P)
      have *: "L b = (as @ [x]) @ cs" "lk_next n = first_node cs" "lacks s v (as @ [x])"
        using Lb Cons False n seg_first [OF n(2)] by (auto simp: lacks_def node_val_Some)
      then have "pc_ok s L (K_look_at v (lk_next n))" unfolding pc_ok.simps b_def by blast
      moreover have "rest_from (lk_next n) (L b) = cs"
        using rest_from_node [of "as @ [x]" cs] lists_okD(5) [OF d(1) bl] * by simp
      ultimately show ?thesis using rest Cons
        by (intro good_stepI [where P = P and t = t, OF go step_quiet [OF ok]]) (simp_all add: P eff_ok_def b_def [symmetric])
    qed
  qed
qed

text \<open>Taking and releasing a lock.\<close>

lemma go_spin:
  assumes ok: "conc_ok s P L" and P: "held (P t) = None" "decided (P t) = None" "spinning (P t) = Some v"
    and p: "owned p = owned (P t)" "held p = Some v" "pc_ok s L p" "decided p = None" "work s L p < work s L (P t)"
    and go: "\<And>busy s'. lk_try (lk_bucket_of s v) s = (busy, s') \<Longrightarrow> lk_bucket_of s' = lk_bucket_of s \<Longrightarrow>
      lk_go (P t) s = Some (if busy then P t else p, s')"
  shows "good_step s P L t"
proof -
  obtain busy s' where s': "lk_try (lk_bucket_of s v) s = (busy, s')" "conc_ok s' (P(t := if busy then P t else p)) L"
    "content s' L = content s L" "lk_n s' = lk_n s" "busy \<longrightarrow> (\<exists>u. holds s (P u) = Some (lk_bucket_of s v))"
    by (rule step_lock [OF ok P(1) p(1-3)]) blast
  show ?thesis
    by (rule good_stepI [where P = P and t = t, OF go [OF s'(1) same_n [OF s'(4)]] s'(2)])
      (use P p s'(3-5) work_same [OF same_n [OF s'(4)]] in \<open>auto simp: eff_ok_def waits_def split: option.splits\<close>)
qed

lemma go_release:
  assumes ok: "conc_ok s P L" and P: "held (P t) = Some v" "decided (P t) \<noteq> None"
    and p: "owned p = owned (P t)" "held p = None" "pc_ok s L p" and w: "work s L p < work s L (P t)"
    and go: "lk_go (P t) s = Some (p, lk_unlock (lk_bucket_of s v) s)"
  shows "good_step s P L t"
  by (rule good_stepI [where P = P and t = t, OF go step_unlock(1) [OF ok P(1) p]])
    (use P w step_unlock(2) [OF ok P(1) p] work_same [OF same_n [OF unlock_frame(1)]] unlock_frame(1) in \<open>auto simp: eff_ok_def split: option.splits\<close>)

text \<open>Every step.\<close>

lemma go_good:
  assumes ok: "conc_ok s P L"
  shows "good_step s P L t"
proof (cases "P t")
  case (K_idle r)
  have "P(t := K_idle r) = P" using K_idle by (auto simp: fun_eq_iff)
  then show ?thesis using ok by (intro good_stepI [where P = P and t = t and p = "K_idle r" and s' = s and L' = L]) (simp_all add: K_idle eff_ok_def)
next
  case (K_ins_spin v x)
  then show ?thesis using conc_okD(3) [OF ok, of t] by (intro go_spin [OF ok, where t = t and v = v and p = "K_ins_next v x"]) simp_all
next
  case (K_rem_spin v)
  have "pc_ok s L (K_rem_at v (Head (lk_bucket_of s v)))"
    by (simp add: link_after_def lacks_def)
  then show ?thesis by (intro go_spin [OF ok, where t = t and v = v and p = "K_rem_at v (Head (lk_bucket_of s v))"]) (simp_all add: K_rem_spin rest_after_def)
next
  case (K_look_spin v)
  then show ?thesis by (intro go_spin [OF ok, where t = t and v = v and p = "K_look_head v"]) simp_all
next
  case (K_ins_rel v)
  then show ?thesis by (intro go_release [OF ok, of t v "K_idle (Some 0)"]) simp_all
next
  case (K_rem_rel v x)
  then show ?thesis
    by (cases x) (intro go_release [OF ok, of t v "case x of None \<Rightarrow> K_idle (Some 1) | Some y \<Rightarrow> K_rem_free v y"]; simp)+
next
  case (K_look_rel v r)
  then show ?thesis by (intro go_release [OF ok, of t v "K_idle (Some r)"]) simp_all
qed (use ok in \<open>simp_all add: go_ins_next go_ins_head go_rem_at go_rem_cut go_rem_free go_look_head go_look_at\<close>)

end
