(* ===== verification/Lock_Conc_Runs.thy ===== *)
theory Lock_Conc_Runs
  imports Lock_Conc_Steps
begin

section \<open>The lock-based hash map: runs\<close>

text \<open>
  The invariant of every run from a new map: what the threads know, the effects as calls of a multiset in their
  order, and each thread's history. From every state of a run each thread can be led back out of its call.
\<close>

subsection \<open>Calls\<close>

lemma begin_good:
  assumes ok: "conc_ok s P L" and t: "P t = K_idle r" and b: "lk_begin k s = (p, s')"
  shows "conc_ok s' (P(t := p)) L" "content s' L = content s L"
    "(\<exists>q. p = K_idle (Some q) \<and> spec_call k (content s L) = (q, content s L)) \<or> (call_of p = Some k \<and> decided p = None)"
proof -
  note d = conc_okD [OF ok]
  have lk: "slock (lk_buckets s ! lk_bucket_of s v) \<noteq> None" for v
    using locks_okD(1) [OF d(2) lists_okD(3) [OF d(1)]] by fastforce
  note n = lists_okD(1) [OF d(1)]
  have quiet: "conc_ok s (P(t := q)) L" if "owned q = None" "held q = None" "pc_ok s L q" for q
    using step_quiet [OF ok, of q t] that t by simp
  have "conc_ok s' (P(t := p)) L \<and> content s' L = content s L \<and>
    ((\<exists>q. p = K_idle (Some q) \<and> spec_call k (content s L) = (q, content s L)) \<or> (call_of p = Some k \<and> decided p = None))"
  proof (cases k)
    case (Insert m v)
    show ?thesis
    proof (cases m)
      case False
      then have "p = K_idle (Some 1)" "s' = s" using b Insert by (auto simp: lk_begin_def)
      then show ?thesis using quiet [of "K_idle (Some 1)"] Insert False by simp
    next
      case True
      define x where "x = lk_fresh s"
      have p: "p = K_ins_spin v x" and s': "s' = s\<lparr>lk_heap := (lk_heap s)(x \<mapsto> \<lparr>lk_val = v, lk_next = None\<rparr>), lk_fresh := Suc x\<rparr>"
        using b Insert True n lk by (auto simp: lk_begin_def x_def)
      have own: "owned (P t) = None" using t by simp
      note new = lists_new [where own = "\<lambda>t. owned (P t)", OF d(1) own s' [unfolded x_def], folded x_def]
      have fr: "lk_n s' = lk_n s" "lk_buckets s' = lk_buckets s" "\<And>y. y \<noteq> x \<Longrightarrow> lk_heap s' y = lk_heap s y" by (simp_all add: s')
      have below: "y \<noteq> x" if "y \<in> set (L c) \<or> owned (P u) = Some y" for y c u
        using that lists_okD(6,8) [OF d(1)] by (auto simp: x_def)
      have "conc_ok s' (P(t := p)) L"
      proof (rule conc_step [OF ok fr(1)])
        show "lists_ok s' ((\<lambda>t. owned (P t))(t := owned p)) L" using new(1) p by simp
        show "locks_ok s' ((\<lambda>t. holds s (P t))(t := holds s p))"
          by (rule locks_kept [OF ok]) (simp_all add: p t fr)
        show "pc_ok s' L p" by (simp add: p s' node_val_def)
        show "lk_heap s' y = lk_heap s y" if "owned (P u) = Some y" for u y using fr(3) below that by blast
        show "L c = L c \<and> lk_head (lk_buckets s' ! c) = lk_head (lk_buckets s ! c) \<and> (\<forall>y \<in> set (L c). node_val s' y = node_val s y)" for c
          using node_val_same [OF fr(3)] below by (simp add: fr) blast
      qed
      then show ?thesis using new(2) p Insert True by simp
    qed
  next
    case (Remove v)
    then have "p = K_rem_spin v" "s' = s" using b n lk by (auto simp: lk_begin_def)
    then show ?thesis using quiet [of "K_rem_spin v"] Remove by simp
  next
    case (Lookup v)
    then have "p = K_look_spin v" "s' = s" using b n lk by (auto simp: lk_begin_def)
    then show ?thesis using quiet [of "K_look_spin v"] Lookup by simp
  qed
  then show "conc_ok s' (P(t := p)) L" "content s' L = content s L"
    "(\<exists>q. p = K_idle (Some q) \<and> spec_call k (content s L) = (q, content s L)) \<or> (call_of p = Some k \<and> decided p = None)" by blast+
qed

text \<open>A call goes on, or ends with its settled result.\<close>

lemma go_call:
  assumes "lk_go p s = Some (p', s')" "call_of p = Some k"
  shows "(call_of p' = Some k \<and> (decided p = None \<or> decided p' = decided p)) \<or> (\<exists>r. decided p = Some r \<and> p' = K_idle (Some r))"
proof (cases p)
  case (K_rem_rel v x)
  then show ?thesis using assms by (cases x) auto
next
  case (K_look_at v x)
  then show ?thesis using assms by (cases x) (auto split: option.splits bind_splits if_splits)
qed (use assms in \<open>auto split: option.splits bind_splits prod.splits if_splits\<close>)

subsection \<open>Events\<close>

lemma effects_append: "effects (es @ fs) = effects es @ effects fs"
  by (induction es rule: effects.induct) simp_all

lemma spec_run_append:
  "spec_run (cs @ ds) M = (let (rs, M1) = spec_run cs M; (qs, M2) = spec_run ds M1 in (rs @ qs, M2))"
  by (induction cs arbitrary: M) (simp_all add: Let_def split_beta)

lemma events_of_append: "events_of t (es @ fs) = events_of t es @ events_of t fs"
  by (simp add: events_of_def)

lemma events_of_own:
  "events_of u (go_events t p p') = (if u = t then go_events t p p' else [])"
  "events_of u (begin_events t k p) = (if u = t then begin_events t k p else [])"
  by (auto simp: events_of_def go_events_def begin_events_def split: option.splits lk_pc.splits)

lemma go_history:
  assumes h: "in_history t p es" and go: "lk_go p s = Some (p', s')"
  shows "in_history t p' (es @ go_events t p p')"
proof (cases "call_of p")
  case None
  then have "p' = p" using go by (cases p) auto
  then show ?thesis using h None by (simp add: go_events_def)
next
  case (Some k)
  from go_call [OF go Some] show ?thesis
  proof
    assume p': "call_of p' = Some k \<and> (decided p = None \<or> decided p' = decided p)"
    then have "go_events t p p' = (case (decided p, decided p') of (None, Some r) \<Rightarrow> [Eff t k r] | _ \<Rightarrow> [])"
      using Some by (cases p') (simp_all add: go_events_def)
    then show ?thesis using h p' Some by (auto simp: in_history_def split: option.splits)
  next
    assume "\<exists>r. decided p = Some r \<and> p' = K_idle (Some r)"
    then obtain r where r: "decided p = Some r" "p' = K_idle (Some r)" by blast
    then obtain h0 where "history t h0" "es = h0 @ [Inv t k, Eff t k r]" using h Some by (auto simp: in_history_def)
    then show ?thesis using r Some history_call [of t h0 k r] by (simp add: in_history_def go_events_def)
  qed
qed

lemma begin_history:
  assumes h: "in_history t (K_idle r) es" and p: "(\<exists>q. p = K_idle (Some q)) \<or> (call_of p = Some k \<and> decided p = None)"
  shows "in_history t p (es @ begin_events t k p)"
  using p
proof
  assume "\<exists>q. p = K_idle (Some q)"
  then obtain q where "p = K_idle (Some q)" by blast
  then show ?thesis using h history_call [of t es k q] by (simp add: in_history_def begin_events_def)
next
  assume c: "call_of p = Some k \<and> decided p = None"
  then have "begin_events t k p = [Inv t k]" by (cases p) (simp_all add: begin_events_def)
  then show ?thesis using c h by (simp add: in_history_def)
qed

subsection \<open>The invariant of a run\<close>

definition run_ok :: "lk_sys \<Rightarrow> lk_event list \<Rightarrow> bool" where
  "run_ok c es \<longleftrightarrow> (\<exists>L. conc_ok (lk_hm c) (lk_threads c) L \<and>
     spec_run (map fst (effects es)) (\<lambda>_. 0) = (map snd (effects es), content (lk_hm c) L)) \<and>
     (\<forall>t. in_history t (lk_threads c t) (events_of t es))"

lemma effects_begin:
  "effects (begin_events t k p) = (case p of K_idle (Some q) \<Rightarrow> [(k, q)] | _ \<Rightarrow> [])"
  by (auto simp: begin_events_def split: lk_pc.splits option.splits)

lemma effects_go:
  "effects (go_events t p p') = (case (call_of p, decided p, decided p') of (Some k, None, Some r) \<Rightarrow> [(k, r)] | _ \<Rightarrow> [])"
  by (auto simp: go_events_def split: lk_pc.splits option.splits)

lemma spec_extend:
  assumes "spec_run (map fst (effects es)) M0 = (map snd (effects es), M)"
    and "effects fs = [] \<and> M' = M \<or> (\<exists>k r. effects fs = [(k, r)] \<and> spec_call k M = (r, M'))"
  shows "spec_run (map fst (effects (es @ fs))) M0 = (map snd (effects (es @ fs)), M')"
  using assms by (auto simp: effects_append spec_run_append)

lemma step_ok:
  assumes step: "lk_step c fs c'" and ok: "run_ok c es"
  shows "run_ok c' (es @ fs)"
proof -
  obtain L where L: "conc_ok (lk_hm c) (lk_threads c) L"
      "spec_run (map fst (effects es)) (\<lambda>_. 0) = (map snd (effects es), content (lk_hm c) L)"
    and h: "\<And>t. in_history t (lk_threads c t) (events_of t es)" using ok by (auto simp: run_ok_def)
  show ?thesis using step
  proof cases
    case (lk_call t r k p s)
    note b = begin_good [OF L(1) lk_call(3,4)]
    have "spec_run (map fst (effects (es @ fs))) (\<lambda>_. 0) = (map snd (effects (es @ fs)), content s L)"
      by (rule spec_extend [OF L(2)]) (use b(2,3) in \<open>cases p; auto simp: lk_call(1) effects_begin\<close>)
    moreover have "in_history t p (events_of t es @ begin_events t k p)"
      by (rule begin_history) (use h [of t] b(3) lk_call(3) in auto)
    ultimately show ?thesis using b(1) h by (auto simp: run_ok_def lk_call(1,2) events_of_append events_of_own)
  next
    case (lk_access t p s)
    obtain L' where L': "conc_ok s ((lk_threads c)(t := p)) L'" "eff_ok (lk_threads c t) p (content (lk_hm c) L) (content s L')"
      using go_good [OF L(1), of t] lk_access(3) by (auto simp: good_step_def)
    have "spec_run (map fst (effects (es @ fs))) (\<lambda>_. 0) = (map snd (effects (es @ fs)), content s L')"
      by (rule spec_extend [OF L(2)]) (use L'(2) in \<open>auto simp: lk_access(1) effects_go eff_ok_def split: option.splits\<close>)
    moreover note go_history [OF h lk_access(3)]
    ultimately show ?thesis using L'(1) h by (auto simp: run_ok_def lk_access(1,2) events_of_append events_of_own)
  qed
qed

text \<open>A new map, with no thread in a call.\<close>

lemma start_ok:
  assumes "lk_alloc_hashmap oks n = Some (Some s)"
  shows "run_ok \<lparr>lk_hm = s, lk_threads = (\<lambda>_. K_idle None)\<rparr> []"
proof -
  have s: "n \<noteq> 0" "s = \<lparr>lk_n = n, lk_buckets = replicate (unat n) \<lparr>slock = Some \<lparr>is_locked = False\<rparr>, lk_head = None\<rparr>,
      lk_heap = (\<lambda>_. None), lk_fresh = 0\<rparr>"
    using assms by (auto simp: lk_alloc_hashmap_def dest: lk_alloc_buckets_ok split: if_splits)
  have "conc_ok s (\<lambda>_. K_idle None) (\<lambda>_. [])"
    using s by (simp add: conc_ok_def lists_ok_def locks_ok_def node_val_def holds_def ran_def)
  moreover have "content s (\<lambda>_. []) = (\<lambda>_. 0)" by (simp add: content_def fun_eq_iff)
  ultimately show ?thesis by (auto simp: run_ok_def in_history_def events_of_def history_none intro!: exI [of _ "\<lambda>_. []"])
qed

lemma run_inv:
  assumes "lk_run c es c'" "run_ok c []"
  shows "run_ok c' es"
  using assms by (induction rule: lk_run.induct) (simp_all add: step_ok)

text \<open>With no thread in a call, the map is the one of the calls without interference.\<close>

lemma idle_map:
  assumes ok: "conc_ok s P L" and idle: "\<And>t. \<exists>r. P t = K_idle r"
  shows "lk_inv s" "lk_count s = content s L"
proof -
  note d = conc_okD [OF ok] and l = lists_okD [OF conc_okD(1) [OF ok]]
  have own: "owned (P t) = None" "holds s (P t) = None" for t using idle [of t] by (auto simp: holds_def)
  have inL: "x \<in> set (L (lk_bucket_of s (lk_val n)))" if "lk_heap s x = Some n" for x n
    using l(12) [of x "lk_val n"] that own by (auto simp: node_val_def ran_def)
  have "lk_lists s L"
    unfolding lk_lists_def using l(1,2,4,5,6,7) inL by (fastforce simp: node_val_Some)
  moreover have "unlocked k" if "k \<in> set (lk_buckets s)" for k
    using that locks_okD(1) [OF d(2)] own by (fastforce simp: in_set_conv_nth ran_def unlocked_def)
  ultimately show "lk_inv s" by (auto simp: lk_inv_def)
  show "lk_count s = content s L"
  proof
    fix v
    have "{x. \<exists>n. lk_heap s x = Some n \<and> lk_val n = v} = set (filter (\<lambda>x. node_val s x = Some v) (L (lk_bucket_of s v)))"
      using inL by (auto simp: node_val_Some)
    then show "lk_count s v = content s L v"
      unfolding lk_count_def content_def by (simp only: distinct_card distinct_filter l(5) [OF l(3)])
  qed
qed

subsection \<open>Progress\<close>

lemma go_spinning:
  assumes "lk_go p s = Some (p', s')"
  shows "p' = p \<or> spinning p' = None"
proof (cases p)
  case (K_rem_rel v x)
  then show ?thesis using assms by (cases x) auto
next
  case (K_look_at v x)
  then show ?thesis using assms by (cases x) (auto split: option.splits bind_splits if_splits)
qed (use assms in \<open>auto split: option.splits bind_splits prod.splits if_splits\<close>)

lemma spinning_holds: "spinning p = Some v \<Longrightarrow> holds s p = None"
  by (cases p) (simp_all add: holds_def)

lemma holds_same: "lk_n s' = lk_n s \<Longrightarrow> holds s' p = holds s p"
  unfolding holds_def by (drule same_n) simp

lemma lk_run_trans: "lk_run b fs c \<Longrightarrow> lk_run a es b \<Longrightarrow> lk_run a (es @ fs) c"
proof (induction rule: lk_run.induct)
  case (lk_more c es' c' fs c'')
  then show ?case using lk_run.lk_more by fastforce
qed simp

lemma exec_run: "lk_exec ts c = Some (es, d) \<Longrightarrow> lk_run c es d"
proof (induction ts c arbitrary: es d rule: lk_exec.induct)
  case (1 c)
  then show ?case using lk_stop by simp
next
  case (2 t k ts c)
  then obtain r p s fs where *: "lk_threads c t = K_idle r" "lk_begin k (lk_hm c) = (p, s)" "es = begin_events t k p @ fs"
      "lk_exec ts \<lparr>lk_hm = s, lk_threads = (lk_threads c)(t := p)\<rparr> = Some (fs, d)"
    by (auto split: lk_pc.splits prod.splits)
  have "lk_run c ([] @ begin_events t k p) \<lparr>lk_hm = s, lk_threads = (lk_threads c)(t := p)\<rparr>"
    by (rule lk_more [OF lk_stop lk_call [OF *(1,2)]])
  then show ?case using lk_run_trans [OF 2(1) [OF *(1) *(2) [symmetric] *(4)]] *(3) by simp
next
  case (3 t ts c)
  then obtain p s fs where *: "lk_go (lk_threads c t) (lk_hm c) = Some (p, s)" "es = go_events t (lk_threads c t) p @ fs"
      "lk_exec ts \<lparr>lk_hm = s, lk_threads = (lk_threads c)(t := p)\<rparr> = Some (fs, d)"
    by (auto split: option.splits)
  have "lk_run c ([] @ go_events t (lk_threads c t) p) \<lparr>lk_hm = s, lk_threads = (lk_threads c)(t := p)\<rparr>"
    by (rule lk_more [OF lk_stop lk_access [OF *(1)]])
  then show ?case using lk_run_trans [OF 3(1) [OF *(1) refl *(3)]] *(2) by simp
qed

lemma no_call_go: "no_call (go_events t p p')"
  by (simp add: no_call_def go_events_def split: option.splits lk_pc.splits)

lemma no_call_append: "no_call (es @ fs) \<longleftrightarrow> no_call es \<and> no_call fs"
  by (simp add: no_call_def)

text \<open>A thread that does not wait for another one ends its call alone.\<close>

lemma alone:
  assumes "conc_ok (lk_hm c) (lk_threads c) L" "\<not> waits (lk_hm c) (lk_threads c) t"
  shows "\<exists>es r L' s. lk_run c es \<lparr>lk_hm = s, lk_threads = (lk_threads c)(t := K_idle r)\<rparr> \<and> no_call es \<and>
    conc_ok s ((lk_threads c)(t := K_idle r)) L' \<and> lk_n s = lk_n (lk_hm c)"
  using assms
proof (induction "work (lk_hm c) L (lk_threads c t)" arbitrary: c L rule: less_induct)
  case less
  show ?case
  proof (cases "\<exists>r. lk_threads c t = K_idle r")
    case True
    then obtain r where "(lk_threads c)(t := K_idle r) = lk_threads c" by (metis fun_upd_triv)
    then show ?thesis using less.prems(1) lk_stop [of c]
      by (intro exI [of _ "[]"] exI [of _ r] exI [of _ L] exI [of _ "lk_hm c"]) (cases c; simp add: no_call_def)
  next
    case False
    obtain p s L' where go: "lk_go (lk_threads c t) (lk_hm c) = Some (p, s)" "conc_ok s ((lk_threads c)(t := p)) L'"
        "work s L' p < work (lk_hm c) L (lk_threads c t)" "lk_n s = lk_n (lk_hm c)"
      using go_good [OF less.prems(1), of t] False less.prems(2) by (auto simp: good_step_def)
    let ?c = "\<lparr>lk_hm = s, lk_threads = (lk_threads c)(t := p)\<rparr>"
    have "\<not> waits s ((lk_threads c)(t := p)) t"
      using go_spinning [OF go(1)] less.prems(2) holds_same [OF go(4)] same_n [OF go(4)] by (auto simp: waits_def)
    then obtain es r L2 s2 where ih: "lk_run ?c es \<lparr>lk_hm = s2, lk_threads = (lk_threads c)(t := K_idle r)\<rparr>"
        "conc_ok s2 ((lk_threads c)(t := K_idle r)) L2" "lk_n s2 = lk_n s" "no_call es"
      using less.hyps [of ?c L'] go(2,3) by auto
    have "lk_run c (go_events t (lk_threads c t) p) ?c"
      using lk_more [OF lk_stop lk_access [OF go(1)]] by simp
    moreover have "no_call (go_events t (lk_threads c t) p @ es)" using ih(4) by (simp add: no_call_append no_call_go)
    ultimately show ?thesis using lk_run_trans [OF ih(1)] ih(2,3) go(4) by fastforce
  qed
qed

text \<open>A thread that waits ends its call after the one that has the lock.\<close>

lemma thread_ends:
  assumes ok: "conc_ok (lk_hm c) (lk_threads c) L"
  shows "\<exists>es c' r. lk_run c es c' \<and> no_call es \<and> lk_threads c' t = K_idle r"
proof (cases "waits (lk_hm c) (lk_threads c) t")
  case False
  then show ?thesis using alone [OF ok] by (metis fun_upd_same lk_sys.select_convs(2))
next
  case True
  then obtain v u where u: "spinning (lk_threads c t) = Some v"
    "holds (lk_hm c) (lk_threads c u) = Some (lk_bucket_of (lk_hm c) v)" by (auto simp: waits_def)
  have "\<not> waits (lk_hm c) (lk_threads c) u"
    using u(2) spinning_holds [of "lk_threads c u" _ "lk_hm c"] by (auto simp: waits_def)
  from alone [OF ok this] obtain es r L' s where
    run: "lk_run c es \<lparr>lk_hm = s, lk_threads = (lk_threads c)(u := K_idle r)\<rparr>" and nc: "no_call es"
    and ok': "conc_ok s ((lk_threads c)(u := K_idle r)) L'" and n: "lk_n s = lk_n (lk_hm c)" by blast
  have tu: "t \<noteq> u" using u spinning_holds [OF u(1)] by auto
  have "w = u" if "holds (lk_hm c) (lk_threads c w) = Some (lk_bucket_of (lk_hm c) v)" for w
    using locks_okD(2) [OF conc_okD(2) [OF ok]] u(2) that by blast
  then have "\<not> waits s ((lk_threads c)(u := K_idle r)) t"
    using u(1) tu by (auto simp: waits_def holds_same [OF n] same_n [OF n]) (simp add: holds_def)
  with ok' obtain fs q c' where "lk_run \<lparr>lk_hm = s, lk_threads = (lk_threads c)(u := K_idle r)\<rparr> fs c'" "no_call fs"
      "lk_threads c' t = K_idle q"
    using alone [of "\<lparr>lk_hm = s, lk_threads = (lk_threads c)(u := K_idle r)\<rparr>" L' t] by fastforce
  then show ?thesis using lk_run_trans [OF _ run] nc by (metis no_call_append)
qed

subsection \<open>No data race\<close>

text \<open>A thread touches the bucket whose lock it has, and the node that it owns.\<close>

definition may_touch :: "lk_map \<Rightarrow> (nat \<Rightarrow> nat list) \<Rightarrow> lk_pc \<Rightarrow> lk_cell \<Rightarrow> bool" where
  "may_touch s L p a \<longleftrightarrow>
     (let node = (\<lambda>x. owned p = Some x \<or> (\<exists>b. holds s p = Some b \<and> x \<in> set (L b))) in
      case a of In_head b \<Rightarrow> holds s p = Some b | In_val x \<Rightarrow> node x | In_next x \<Rightarrow> node x)"

lemma may_touch_link: "holds s p = Some b \<Longrightarrow> set as \<subseteq> set (L b) \<Longrightarrow> may_touch s L p (link_cell (link_after b as))"
  by (cases as rule: rev_cases) (auto simp: may_touch_def link_after_def)

lemma touched_own:
  assumes ok: "conc_ok s P L" and a: "a \<in> touched s (P t)"
  shows "may_touch s L (P t) a"
proof -
  note d = conc_okD [OF ok]
  show ?thesis
  proof (cases "P t")
    case (K_rem_at v l)
    define b where "b = lk_bucket_of s v"
    have h: "holds s (P t) = Some b" by (simp add: K_rem_at holds_def b_def)
    have bl: "b < length (lk_buckets s)" using lists_okD(3) [OF d(1)] by (simp add: b_def)
    obtain as bs where Lb: "L b = as @ bs" "l = link_after b as" using d(3) [of t] by (auto simp: K_rem_at b_def)
    obtain r where r: "lk_seg (lk_heap s) (lk_head (lk_buckets s ! b)) as r" "lk_seg (lk_heap s) r bs None"
      using lists_okD(4) [OF d(1) bl] Lb by (auto simp: lk_seg_append)
    have "lk_load l s = Some (first_node bs)" using load_link_after [OF bl r(1)] seg_first [OF r(2)] Lb(2) by simp
    then have "a = link_cell l \<or> (\<exists>x \<in> set bs. a = In_val x)"
      using a by (cases bs) (auto simp: K_rem_at first_node_def)
    moreover have "may_touch s L (P t) (link_cell l)" using may_touch_link [OF h, of as L] Lb by simp
    moreover have "may_touch s L (P t) (In_val x)" if "x \<in> set bs" for x using h Lb that by (simp add: may_touch_def)
    ultimately show ?thesis by blast
  next
    case (K_rem_cut v l x)
    have h: "holds s (P t) = Some (lk_bucket_of s v)" by (simp add: K_rem_cut holds_def)
    obtain as bs where Lb: "L (lk_bucket_of s v) = as @ x # bs" "l = link_after (lk_bucket_of s v) as"
      using d(3) [of t] by (auto simp: K_rem_cut)
    have "a = link_cell l \<or> a = In_next x" using a by (auto simp: K_rem_cut)
    moreover have "may_touch s L (P t) (link_cell l)" using may_touch_link [OF h, of as L] Lb by auto
    moreover have "may_touch s L (P t) (In_next x)" using h Lb by (simp add: may_touch_def)
    ultimately show ?thesis by blast
  next
    case (K_look_at v p)
    obtain as bs where "L (lk_bucket_of s v) = as @ bs" "p = first_node bs" using d(3) [of t] by (auto simp: K_look_at)
    then show ?thesis using a by (cases bs) (auto simp: K_look_at first_node_def may_touch_def holds_def)
  qed (use a in \<open>auto simp: may_touch_def holds_def\<close>)
qed

lemma touched_apart:
  assumes ok: "conc_ok s P L" and tu: "t \<noteq> u"
  shows "touched s (P t) \<inter> touched s (P u) = {}"
proof -
  note d = conc_okD [OF ok]
  have lock: "holds s (P t) = Some b \<Longrightarrow> holds s (P u) \<noteq> Some b" for b using locks_okD(2) [OF d(2), of t b u] tu by auto
  have own: "owned (P t) = Some x \<Longrightarrow> owned (P u) \<noteq> Some x" for x using lists_okD(11) [OF d(1), of t x u] tu by auto
  have apart: "owned (P w) = Some x \<Longrightarrow> x \<notin> set (L b)" for w x b using lists_okD(10) [OF d(1)] .
  have "\<not> may_touch s L (P t) a \<or> \<not> may_touch s L (P u) a" for a
    using lock own apart in_one_list [OF d(1)] by (cases a) (auto simp: may_touch_def)
  then show ?thesis using touched_own [OF ok] by blast
qed

end
