(* ===== verification/Lock_Conc_Properties.thy ===== *)
theory Lock_Conc_Properties
  imports Lock_Conc_Runs
begin

section \<open>The lock-based hash map: theorems on its threads\<close>

text \<open>
  C4: the lock-based hash map is linearizable and safe. In every interleaving of any number of threads on a new map, no next
  step of a thread touches a node that is not allocated (so nothing is used after or freed twice). Every call has one effect,
  between its invocation and its response; the results of the calls, in the order of the effects, are those of a multiset,
  and every response gives the result of its effect. When no thread is in a call, the map is well-formed with all locks free
  and holds that multiset.
\<close>

theorem lk_linearizable:
  assumes "lk_alloc_hashmap oks n = Some (Some s)"
    and "lk_run \<lparr>lk_hm = s, lk_threads = (\<lambda>_. K_idle None)\<rparr> es c"
  shows "lk_go (lk_threads c t) (lk_hm c) \<noteq> None \<and>
    in_history t (lk_threads c t) (events_of t es) \<and>
    fst (spec_run (map fst (effects es)) (\<lambda>_. 0)) = map snd (effects es) \<and>
    ((\<forall>u. \<exists>r. lk_threads c u = K_idle r) \<longrightarrow>
      lk_inv (lk_hm c) \<and> lk_count (lk_hm c) = snd (spec_run (map fst (effects es)) (\<lambda>_. 0)))"
proof -
  have "run_ok c es" by (rule run_inv [OF assms(2) start_ok [OF assms(1)]])
  then obtain L where L: "conc_ok (lk_hm c) (lk_threads c) L"
      "spec_run (map fst (effects es)) (\<lambda>_. 0) = (map snd (effects es), content (lk_hm c) L)"
    and h: "in_history t (lk_threads c t) (events_of t es)" by (auto simp: run_ok_def)
  have "lk_go (lk_threads c t) (lk_hm c) \<noteq> None" using go_good [OF L(1), of t] by (auto simp: good_step_def)
  then show ?thesis using L(2) h idle_map [OF L(1)] by simp
qed

text \<open>Two threads on a map of one bucket: the second finds the lock taken, waits, and removes what the first has inserted.\<close>

definition lk_two :: "lk_sys" where
  "lk_two = \<lparr>lk_hm = \<lparr>lk_n = 1, lk_buckets = [\<lparr>slock = Some \<lparr>is_locked = False\<rparr>, lk_head = None\<rparr>], lk_heap = (\<lambda>_. None), lk_fresh = 0\<rparr>,
     lk_threads = (\<lambda>_. K_idle None)\<rparr>"

lemma lk_two_alloc: "lk_alloc_hashmap (\<lambda>_. True) 1 = Some (Some (lk_hm lk_two))"
  by (simp add: lk_alloc_hashmap_def lk_two_def cspin_alloc_def clear_def)

definition lk_two_schedule :: "(nat \<times> map_call option) list" where
  "lk_two_schedule = [(0, Some (Insert True 5)), (1, Some (Remove 5)), (0, None), (1, None), (0, None), (0, None), (0, None),
     (1, None), (1, None), (1, None), (1, None), (1, None)]"

definition lk_two_end :: "lk_sys" where
  "lk_two_end = \<lparr>lk_hm = \<lparr>lk_n = 1, lk_buckets = [\<lparr>slock = Some \<lparr>is_locked = False\<rparr>, lk_head = None\<rparr>], lk_heap = (\<lambda>_. None), lk_fresh = 1\<rparr>,
     lk_threads = (\<lambda>_. K_idle None)(0 := K_idle (Some 0), 1 := K_idle (Some 0))\<rparr>"

definition lk_two_events :: "lk_event list" where
  "lk_two_events = [Inv 0 (Insert True 5), Inv 1 (Remove 5), Eff 0 (Insert True 5) 0, Res 0 0, Eff 1 (Remove 5) 0, Res 1 0]"

lemmas lk_eval = lk_begin_def lk_try_def lk_bucket_of_def test_and_set_def lk_load_def lk_store_def lk_free_def lk_unlock_def
  cspin_unlock_def clear_def begin_events_def go_events_def

lemma lk_two_exec: "lk_exec lk_two_schedule lk_two = Some (lk_two_events, lk_two_end)"
  by (simp add: lk_two_schedule_def lk_two_def lk_two_end_def lk_two_events_def lk_eval fun_upd_twist)

theorem lk_linearizable_witness:
  "lk_go (lk_threads lk_two_end 1) (lk_hm lk_two_end) \<noteq> None \<and>
    in_history 1 (lk_threads lk_two_end 1) (events_of 1 lk_two_events) \<and>
    map snd (effects lk_two_events) = [0, 0] \<and> fst (spec_run [Insert True 5, Remove 5] (\<lambda>_. 0)) = [0, 0] \<and>
    lk_inv (lk_hm lk_two_end) \<and> lk_count (lk_hm lk_two_end) 5 = 0"
proof -
  have "lk_run \<lparr>lk_hm = lk_hm lk_two, lk_threads = (\<lambda>_. K_idle None)\<rparr> lk_two_events lk_two_end"
    using exec_run [OF lk_two_exec] by (simp add: lk_two_def)
  note r = lk_linearizable [OF lk_two_alloc this, of 1]
  have "\<forall>u. \<exists>r. lk_threads lk_two_end u = K_idle r" by (simp add: lk_two_end_def)
  with r show ?thesis by (simp add: lk_two_events_def)
qed

text \<open>
  C27: the threads of the lock-based hash map never block each other for good. From every state that an interleaving of any number
  of threads reaches, every thread can be led to the end of its call by steps of the calls under way: a thread that waits for
  a lock after the one that has it, which needs no other lock.
\<close>

theorem lk_no_deadlock:
  assumes "lk_alloc_hashmap oks n = Some (Some s)"
    and "lk_run \<lparr>lk_hm = s, lk_threads = (\<lambda>_. K_idle None)\<rparr> es c"
  shows "\<exists>fs c' r. lk_run c fs c' \<and> no_call fs \<and> lk_threads c' t = K_idle r"
  using run_inv [OF assms(2) start_ok [OF assms(1)]] thread_ends by (auto simp: run_ok_def)

text \<open>The second thread waits while the first has the lock.\<close>

theorem lk_no_deadlock_witness:
  "\<exists>es c fs c' r. lk_exec (take 4 lk_two_schedule) lk_two = Some (es, c) \<and> lk_threads c 1 = K_rem_spin 5 \<and>
    lk_run c fs c' \<and> no_call fs \<and> lk_threads c' 1 = K_idle r"
proof -
  obtain es c where c: "lk_exec (take 4 lk_two_schedule) lk_two = Some (es, c)" "lk_threads c 1 = K_rem_spin 5"
    by (simp add: lk_two_schedule_def lk_two_def lk_eval)
  have "lk_run \<lparr>lk_hm = lk_hm lk_two, lk_threads = (\<lambda>_. K_idle None)\<rparr> es c"
    using exec_run [OF c(1)] by (simp add: lk_two_def)
  from lk_no_deadlock [OF lk_two_alloc this, of 1] c show ?thesis by blast
qed

text \<open>
  C17: the lock-based hash map has no data race. In every state that an interleaving of any number of threads reaches, the memory that
  the next step of one thread reads, writes or frees and the memory that the next step of another thread touches have
  nothing in common, the atomic flags of the locks apart; and no two threads are inside the critical section of one bucket.
\<close>

theorem lk_race_free:
  assumes "lk_alloc_hashmap oks n = Some (Some s)"
    and "lk_run \<lparr>lk_hm = s, lk_threads = (\<lambda>_. K_idle None)\<rparr> es c" and "t \<noteq> u"
  shows "touched (lk_hm c) (lk_threads c t) \<inter> touched (lk_hm c) (lk_threads c u) = {} \<and>
    (holds (lk_hm c) (lk_threads c t) = None \<or> holds (lk_hm c) (lk_threads c t) \<noteq> holds (lk_hm c) (lk_threads c u))"
proof -
  obtain L where L: "conc_ok (lk_hm c) (lk_threads c) L"
    using run_inv [OF assms(2) start_ok [OF assms(1)]] by (auto simp: run_ok_def)
  show ?thesis
    using touched_apart [OF L assms(3)] locks_okD(2) [OF conc_okD(2) [OF L], of t _ u] assms(3)
    by (cases "holds (lk_hm c) (lk_threads c t)") auto
qed

text \<open>The first thread is about to free the node that it has taken out, the second one walks the same bucket.\<close>

definition lk_race_schedule :: "(nat \<times> map_call option) list" where
  "lk_race_schedule = [(0, Some (Insert True 5))] @ replicate 4 (0, None) @ [(0, Some (Insert True 7))] @ replicate 4 (0, None) @
     [(0, Some (Remove 7))] @ replicate 4 (0, None) @ [(1, Some (Lookup 5))] @ replicate 2 (1, None)"

theorem lk_race_free_witness:
  "\<exists>es c. lk_exec lk_race_schedule lk_two = Some (es, c) \<and> touched (lk_hm c) (lk_threads c 0) = {In_val 1, In_next 1} \<and>
    touched (lk_hm c) (lk_threads c 1) = {In_val 0, In_next 0} \<and>
    touched (lk_hm c) (lk_threads c 0) \<inter> touched (lk_hm c) (lk_threads c 1) = {}"
proof -
  obtain es c where c: "lk_exec lk_race_schedule lk_two = Some (es, c)" "touched (lk_hm c) (lk_threads c 0) = {In_val 1, In_next 1}"
      "touched (lk_hm c) (lk_threads c 1) = {In_val 0, In_next 0}"
    by (simp add: lk_race_schedule_def lk_two_def lk_eval numeral_eq_Suc)
  have "lk_run \<lparr>lk_hm = lk_hm lk_two, lk_threads = (\<lambda>_. K_idle None)\<rparr> es c"
    using exec_run [OF c(1)] by (simp add: lk_two_def)
  from lk_race_free [OF lk_two_alloc this, of 0 1] c show ?thesis by auto
qed

end
