(* ===== verification/Alloc_Heap.thy ===== *)
theory Alloc_Heap
  imports Sys_Prelude
begin

section \<open>The allocator: data and operations\<close>

text \<open>
  The arena allocator of \<^verbatim>\<open>task05-memory/src/allocator.c\<close>, routine by routine.

  Memory is kept at two types, as the C code uses it: \<open>hdrs\<close> holds the block
  headers the allocator has written and \<open>bytes\<close> the payload bytes. A store of
  one kind removes what it overlaps of the other kind (and of other headers), so
  a header can be read only where one was stored whole and not overwritten since.
  Accesses outside the region obtained from \<^verbatim>\<open>sbrk\<close> are \<open>None\<close>.

  A call runs under the lock of its arena, so the effect of one call is one
  function on the state. What other threads do in between shows up in three
  places only, and is an argument of the call: whether \<^verbatim>\<open>sbrk_mutex\<close> is busy
  when it is tried, whether another thread sets \<^verbatim>\<open>contention_detected\<close>
  between the trylock and its read, and which thread is calling.
\<close>

record BlockHeader =
  h_arena :: int
  h_freed :: int
  h_size :: size_t
  h_prev :: addr
  h_next :: addr

record Arena =
  a_lock :: bool
  a_head :: addr
  a_tail :: addr

record heap_state =
  hdrs :: "addr \<Rightarrow> BlockHeader option"
  bytes :: "addr \<Rightarrow> byte option"
  arena_pool :: "Arena list"
  sbrk_mutex :: bool
  next_arena_id :: int32
  thread_arena_id :: "nat \<Rightarrow> int32"
  contention_detected :: int
  brk_min :: addr
  brk :: addr
  brk_max :: addr

text \<open>What other threads do while a call extends the heap.\<close>

record sbrk_env =
  e_busy :: bool
  e_late :: bool

definition sizeof_BlockHeader :: size_t where
  "sizeof_BlockHeader = 32"

definition NUM_ARENAS :: nat where
  "NUM_ARENAS = 5"

definition CONTENTION_RESERVE_SIZE :: size_t where
  "CONTENTION_RESERVE_SIZE = 2048"

definition ALIGN8 :: "size_t \<Rightarrow> size_t" where
  "ALIGN8 n = (n + 7) AND NOT 7"

subsection \<open>Loads and stores\<close>

definition mapped :: "heap_state \<Rightarrow> addr \<Rightarrow> nat \<Rightarrow> bool" where
  "mapped s p n \<longleftrightarrow> unat (brk_min s) \<le> unat p \<and> unat p + n \<le> unat (brk s)"

text \<open>\<open>overlap p m x n\<close>: the \<open>m\<close> bytes at \<open>p\<close> and the \<open>n\<close> bytes at \<open>x\<close> meet.\<close>

definition overlap :: "addr \<Rightarrow> nat \<Rightarrow> addr \<Rightarrow> nat \<Rightarrow> bool" where
  "overlap p m x n \<longleftrightarrow> 0 < m \<and> 0 < n \<and> unat x < unat p + m \<and> unat p < unat x + n"

definition load_header :: "addr \<Rightarrow> heap_state \<Rightarrow> BlockHeader option" where
  "load_header p s = (if p = 0 then None else hdrs s p)"

definition store_header :: "addr \<Rightarrow> BlockHeader \<Rightarrow> heap_state \<Rightarrow> heap_state option" where
  "store_header p h s =
     (if mapped s p 32
      then Some (s\<lparr>hdrs := (\<lambda>x. if x = p then Some h
                              else if overlap p 32 x 32 then None else hdrs s x),
                  bytes := (\<lambda>x. if overlap p 32 x 1 then None else bytes s x)\<rparr>)
      else None)"

definition load_bytes :: "addr \<Rightarrow> nat \<Rightarrow> heap_state \<Rightarrow> byte option list option" where
  "load_bytes p n s =
     (if mapped s p n then Some (map (\<lambda>i. bytes s (p + of_nat i)) [0..<n]) else None)"

definition store_bytes :: "addr \<Rightarrow> byte option list \<Rightarrow> heap_state \<Rightarrow> heap_state option" where
  "store_bytes p xs s =
     (if mapped s p (length xs)
      then Some (s\<lparr>hdrs := (\<lambda>x. if overlap p (length xs) x 32 then None else hdrs s x),
                  bytes := (\<lambda>x. if overlap p (length xs) x 1 then xs ! (unat x - unat p)
                               else bytes s x)\<rparr>)
      else None)"

subsection \<open>Locks, the program break, arenas\<close>

definition set_arena :: "nat \<Rightarrow> Arena \<Rightarrow> heap_state \<Rightarrow> heap_state" where
  "set_arena k a s = s\<lparr>arena_pool := (arena_pool s)[k := a]\<rparr>"

definition lock_arena :: "nat \<Rightarrow> heap_state \<Rightarrow> heap_state option" where
  "lock_arena k s =
     (if a_lock (arena_pool s ! k) then None
      else Some (set_arena k ((arena_pool s ! k)\<lparr>a_lock := True\<rparr>) s))"

definition unlock_arena :: "nat \<Rightarrow> heap_state \<Rightarrow> heap_state" where
  "unlock_arena k s = set_arena k ((arena_pool s ! k)\<lparr>a_lock := False\<rparr>) s"

definition set_head :: "nat \<Rightarrow> addr \<Rightarrow> heap_state \<Rightarrow> heap_state" where
  "set_head k p s = set_arena k ((arena_pool s ! k)\<lparr>a_head := p\<rparr>) s"

definition set_tail :: "nat \<Rightarrow> addr \<Rightarrow> heap_state \<Rightarrow> heap_state" where
  "set_tail k p s = set_arena k ((arena_pool s ! k)\<lparr>a_tail := p\<rparr>) s"

text \<open>\<^verbatim>\<open>sbrk\<close> takes a signed increment, moves the break when the new break stays
  within the data segment and returns the old one; otherwise it returns -1.\<close>

definition sbrk :: "64 word \<Rightarrow> heap_state \<Rightarrow> addr \<times> heap_state" where
  "sbrk incr s =
     (let new = int (unat (brk s)) + sint incr
      in if int (unat (brk_min s)) \<le> new \<and> new \<le> int (unat (brk_max s))
         then (brk s, s\<lparr>brk := word_of_int new\<rparr>)
         else (- 1, s))"

definition get_thread_arena :: "nat \<Rightarrow> heap_state \<Rightarrow> int \<times> heap_state" where
  "get_thread_arena t s =
     (let s' = (if thread_arena_id s t = - 1
                then s\<lparr>thread_arena_id := (thread_arena_id s)
                          (t := word_of_int (sgn (sint (next_arena_id s)) *
                                             (\<bar>sint (next_arena_id s)\<bar> mod int NUM_ARENAS))),
                       next_arena_id := next_arena_id s + 1\<rparr>
                else s)
      in (sint (thread_arena_id s' t), s'))"

definition get_header :: "addr \<Rightarrow> addr" where
  "get_header p = p - sizeof_BlockHeader"

definition get_payload :: "addr \<Rightarrow> addr" where
  "get_payload b = b + sizeof_BlockHeader"

subsection \<open>Searching, splitting and merging blocks\<close>

partial_function (option) first_hit :: "addr \<Rightarrow> size_t \<Rightarrow> heap_state \<Rightarrow> addr option" where
  "first_hit block n s =
     (if block = 0 then Some 0
      else do {
        h \<leftarrow> load_header block s;
        if h_freed h \<noteq> 0 \<and> n \<le> h_size h then Some block
        else first_hit (h_next h) n s
      })"

text \<open>\<^verbatim>\<open>if (next) next->prev = p; else *tail = p;\<close>, the step that ends both the
  insertion of a remainder and the removal of a merged block.\<close>

definition set_prev_or_tail :: "nat \<Rightarrow> addr \<Rightarrow> addr \<Rightarrow> heap_state \<Rightarrow> heap_state option" where
  "set_prev_or_tail k nxt p s =
     (if nxt \<noteq> 0
      then do {
        h \<leftarrow> load_header nxt s;
        store_header nxt (h\<lparr>h_prev := p\<rparr>) s
      }
      else Some (set_tail k p s))"

definition split_block :: "nat \<Rightarrow> addr \<Rightarrow> size_t \<Rightarrow> heap_state \<Rightarrow> heap_state option" where
  "split_block k block n s = do {
     h \<leftarrow> load_header block s;
     if h_size h < n + sizeof_BlockHeader + 8 then Some s
     else do {
       let remainder = get_payload block + n;
       s \<leftarrow> store_header remainder
              \<lparr>h_arena = h_arena h, h_freed = 1, h_size = h_size h - n - sizeof_BlockHeader,
               h_prev = block, h_next = h_next h\<rparr> s;
       s \<leftarrow> set_prev_or_tail k (h_next h) remainder s;
       h \<leftarrow> load_header block s;
       store_header block (h\<lparr>h_next := remainder, h_size := n\<rparr>) s
     }
   }"

definition coalesce_with_next :: "nat \<Rightarrow> addr \<Rightarrow> heap_state \<Rightarrow> heap_state option" where
  "coalesce_with_next k block s = do {
     h \<leftarrow> load_header block s;
     if h_next h = 0 then Some s
     else do {
       hn \<leftarrow> load_header (h_next h) s;
       if h_freed hn \<noteq> 0 \<and> get_payload block + h_size h = h_next h
       then do {
         s \<leftarrow> store_header block
                (h\<lparr>h_size := h_size h + (sizeof_BlockHeader + h_size hn), h_next := h_next hn\<rparr>) s;
         set_prev_or_tail k (h_next hn) block s
       }
       else Some s
     }
   }"

definition merge_blocks :: "nat \<Rightarrow> addr \<Rightarrow> heap_state \<Rightarrow> heap_state option" where
  "merge_blocks k block s = do {
     s \<leftarrow> coalesce_with_next k block s;
     h \<leftarrow> load_header block s;
     if h_prev h = 0 then Some s
     else do {
       hp \<leftarrow> load_header (h_prev h) s;
       if h_freed hp \<noteq> 0 then coalesce_with_next k (h_prev h) s else Some s
     }
   }"

subsection \<open>Extending the heap\<close>

text \<open>The initialisation of a new block and its append to the arena's list.\<close>

definition append_block :: "nat \<Rightarrow> addr \<Rightarrow> size_t \<Rightarrow> heap_state \<Rightarrow> heap_state option" where
  "append_block k block n s = do {
     let a = arena_pool s ! k;
     s \<leftarrow> store_header block
            \<lparr>h_arena = int k, h_freed = 0, h_size = n, h_prev = a_tail a, h_next = 0\<rparr> s;
     s \<leftarrow> (if a_head a = 0 then Some (set_head k block s)
          else do {
            ht \<leftarrow> load_header (a_tail a) s;
            store_header (a_tail a) (ht\<lparr>h_next := block\<rparr>) s
          });
     Some (set_tail k block s)
   }"

definition extend_arena_heap ::
  "sbrk_env \<Rightarrow> nat \<Rightarrow> size_t \<Rightarrow> heap_state \<Rightarrow> (addr \<times> heap_state) option" where
  "extend_arena_heap e k n s = do {
     let s = (if contention_detected s \<noteq> 0 \<or> e_busy e then s\<lparr>contention_detected := 1\<rparr> else s);
     s \<leftarrow> (if sbrk_mutex s then None else Some (s\<lparr>sbrk_mutex := True\<rparr>));
     let s = (if e_late e then s\<lparr>contention_detected := 1\<rparr> else s);
     let reserve_size = word_of_int (contention_detected s) * CONTENTION_RESERVE_SIZE;
     let (block, s) = sbrk (sizeof_BlockHeader + n + reserve_size) s;
     let s = s\<lparr>sbrk_mutex := False\<rparr>;
     if block = - 1 then Some (0, s)
     else do {
       s \<leftarrow> append_block k block (n + reserve_size) s;
       s \<leftarrow> split_block k block n s;
       Some (block, s)
     }
   }"

definition arena_malloc ::
  "sbrk_env \<Rightarrow> nat \<Rightarrow> size_t \<Rightarrow> heap_state \<Rightarrow> (addr \<times> heap_state) option" where
  "arena_malloc e k n s = do {
     block \<leftarrow> first_hit (a_head (arena_pool s ! k)) n s;
     (block, s) \<leftarrow> (if block \<noteq> 0
       then do {
         s \<leftarrow> split_block k block n s;
         h \<leftarrow> load_header block s;
         s \<leftarrow> store_header block (h\<lparr>h_freed := 0\<rparr>) s;
         Some (block, s)
       }
       else extend_arena_heap e k n s);
     Some (if block \<noteq> 0 then get_payload block else 0, s)
   }"

subsection \<open>The four entry points\<close>

text \<open>An index outside \<^verbatim>\<open>arena_pool\<close> is an access outside the array.\<close>

definition arena_index :: "int \<Rightarrow> heap_state \<Rightarrow> nat option" where
  "arena_index k s = (if 0 \<le> k \<and> nat k < length (arena_pool s) then Some (nat k) else None)"

definition malloc ::
  "sbrk_env \<Rightarrow> nat \<Rightarrow> size_t \<Rightarrow> heap_state \<Rightarrow> (addr \<times> heap_state) option" where
  "malloc e t n s =
     (let n = ALIGN8 n
      in if n = 0 then Some (0, s)
         else do {
           let (i, s) = get_thread_arena t s;
           k \<leftarrow> arena_index i s;
           s \<leftarrow> lock_arena k s;
           (p, s) \<leftarrow> arena_malloc e k n s;
           Some (p, unlock_arena k s)
         })"

definition calloc ::
  "sbrk_env \<Rightarrow> nat \<Rightarrow> size_t \<Rightarrow> size_t \<Rightarrow> heap_state \<Rightarrow> (addr \<times> heap_state) option" where
  "calloc e t nitems nsize s =
     (if nitems \<noteq> 0 \<and> nsize > (- 1) div nitems then Some (0, s)
      else do {
        let n = nitems * nsize;
        (p, s) \<leftarrow> malloc e t n s;
        if p \<noteq> 0
        then do {
          s \<leftarrow> store_bytes p (replicate (unat n) (Some 0)) s;
          Some (p, s)
        }
        else Some (p, s)
      })"

definition arena_free :: "nat \<Rightarrow> addr \<Rightarrow> heap_state \<Rightarrow> heap_state option" where
  "arena_free k block s = do {
     h \<leftarrow> load_header block s;
     s \<leftarrow> store_header block (h\<lparr>h_freed := 1\<rparr>) s;
     merge_blocks k block s
   }"

definition free :: "addr \<Rightarrow> heap_state \<Rightarrow> heap_state option" where
  "free p s =
     (if p = 0 then Some s
      else do {
        let block = get_header p;
        h \<leftarrow> load_header block s;
        k \<leftarrow> arena_index (h_arena h) s;
        s \<leftarrow> lock_arena k s;
        s \<leftarrow> arena_free k block s;
        Some (unlock_arena k s)
      })"

definition arena_realloc ::
  "sbrk_env \<Rightarrow> nat \<Rightarrow> addr \<Rightarrow> size_t \<Rightarrow> heap_state \<Rightarrow> (addr \<times> heap_state) option" where
  "arena_realloc e k block n s = do {
     let old_ptr = get_payload block;
     h \<leftarrow> load_header block s;
     let copy_size = h_size h;
     s \<leftarrow> coalesce_with_next k block s;
     h \<leftarrow> load_header block s;
     if n \<le> h_size h
     then do {
       s \<leftarrow> split_block k block n s;
       Some (old_ptr, s)
     }
     else do {
       (new_ptr, s) \<leftarrow> arena_malloc e k n s;
       if new_ptr \<noteq> 0
       then do {
         old \<leftarrow> load_bytes old_ptr (unat copy_size) s;
         s \<leftarrow> store_bytes new_ptr old s;
         s \<leftarrow> arena_free k block s;
         Some (new_ptr, s)
       }
       else Some (new_ptr, s)
     }
   }"

definition realloc ::
  "sbrk_env \<Rightarrow> nat \<Rightarrow> addr \<Rightarrow> size_t \<Rightarrow> heap_state \<Rightarrow> (addr \<times> heap_state) option" where
  "realloc e t p n s =
     (let n = ALIGN8 n
      in if n = 0 then do { s \<leftarrow> free p s; Some (0, s) }
         else if p = 0 then malloc e t n s
         else do {
           let block = get_header p;
           h \<leftarrow> load_header block s;
           k \<leftarrow> arena_index (h_arena h) s;
           s \<leftarrow> lock_arena k s;
           (q, s) \<leftarrow> arena_realloc e k block n s;
           Some (q, unlock_arena k s)
         })"

text \<open>The state when the library is loaded, for a data segment \<open>[lo, hi]\<close>.\<close>

definition init_heap :: "addr \<Rightarrow> addr \<Rightarrow> heap_state" where
  "init_heap lo hi =
     \<lparr>hdrs = (\<lambda>_. None), bytes = (\<lambda>_. None),
      arena_pool = replicate NUM_ARENAS \<lparr>a_lock = False, a_head = 0, a_tail = 0\<rparr>,
      sbrk_mutex = False, next_arena_id = 0, thread_arena_id = (\<lambda>_. - 1),
      contention_detected = 0, brk_min = lo, brk = lo, brk_max = hi\<rparr>"

end
