(* ===== verification/Alloc_Lists.thy ===== *)
theory Alloc_Lists
  imports Alloc_Heap
begin

section \<open>The allocator: block lists\<close>

text \<open>
  The abstract view of an arena: the list of its blocks, each with its address,
  payload size and free flag. \<open>arena_ok\<close> says that the headers in memory are a
  doubly linked list of these blocks, \<open>layout\<close> that the blocks are aligned, lie
  inside the heap and follow one another in address order without overlap.
  Each list routine of \<^verbatim>\<open>allocator.c\<close> is then shown to have a result and to
  refine one function on block lists: splitting refines \<open>split_abs\<close>, merging
  refines \<open>coalesce_abs\<close> and \<open>merge_abs\<close>, the search refines \<open>first_fit_abs\<close>.
\<close>

datatype blk = Blk (adr: addr) (siz: size_t) (fre: bool)

definition lo :: "blk \<Rightarrow> nat" where
  "lo b = unat (adr b)"

definition hi :: "blk \<Rightarrow> nat" where
  "hi b = unat (adr b) + 32 + unat (siz b)"

definition first_adr :: "blk list \<Rightarrow> addr \<Rightarrow> addr" where
  "first_adr bs n = (case bs of [] \<Rightarrow> n | b # _ \<Rightarrow> adr b)"

definition last_adr :: "addr \<Rightarrow> blk list \<Rightarrow> addr" where
  "last_adr p bs = (if bs = [] then p else adr (last bs))"

definition header_of :: "int \<Rightarrow> blk \<Rightarrow> addr \<Rightarrow> addr \<Rightarrow> BlockHeader" where
  "header_of k b p n =
     \<lparr>h_arena = k, h_freed = (if fre b then 1 else 0), h_size = siz b, h_prev = p, h_next = n\<rparr>"

text \<open>\<open>linked H k p bs n\<close>: the headers \<open>H\<close> hold the blocks \<open>bs\<close> of arena \<open>k\<close> as a
  doubly linked segment, entered from \<open>p\<close> and left towards \<open>n\<close>.\<close>

primrec linked :: "(addr \<Rightarrow> BlockHeader option) \<Rightarrow> int \<Rightarrow> addr \<Rightarrow> blk list \<Rightarrow> addr \<Rightarrow> bool" where
  "linked H k p [] n \<longleftrightarrow> True"
| "linked H k p (b # bs) n \<longleftrightarrow>
     H (adr b) = Some (header_of k b p (first_adr bs n)) \<and> linked H k (adr b) bs n"

definition blk_ok :: "heap_state \<Rightarrow> blk \<Rightarrow> bool" where
  "blk_ok s b \<longleftrightarrow> unat (brk_min s) \<le> lo b \<and> hi b \<le> unat (brk s) \<and>
     8 dvd lo b \<and> 8 dvd unat (siz b) \<and> 8 \<le> unat (siz b)"

definition seg_ok :: "heap_state \<Rightarrow> bool" where
  "seg_ok s \<longleftrightarrow> 0 < unat (brk_min s) \<and> brk_min s \<le> brk s \<and> brk s \<le> brk_max s \<and>
     unat (brk_max s) < 2 ^ 62 \<and> 8 dvd unat (brk s)"

definition layout :: "heap_state \<Rightarrow> blk list \<Rightarrow> bool" where
  "layout s bs \<longleftrightarrow> seg_ok s \<and> (\<forall>b \<in> set bs. blk_ok s b) \<and> sorted_wrt (\<lambda>b c. hi b \<le> lo c) bs"

definition arena_ok :: "heap_state \<Rightarrow> nat \<Rightarrow> blk list \<Rightarrow> bool" where
  "arena_ok s k bs \<longleftrightarrow> k < length (arena_pool s) \<and>
     a_head (arena_pool s ! k) = first_adr bs 0 \<and> a_tail (arena_pool s ! k) = last_adr 0 bs \<and>
     linked (hdrs s) (int k) 0 bs 0"

subsection \<open>Abstract list operations\<close>

definition split_abs :: "size_t \<Rightarrow> blk \<Rightarrow> blk list" where
  "split_abs n b =
     (if unat (siz b) < unat n + 40 then [b]
      else [Blk (adr b) n (fre b), Blk (adr b + 32 + n) (siz b - n - 32) True])"

definition join :: "blk \<Rightarrow> blk \<Rightarrow> blk" where
  "join b c = Blk (adr b) (siz b + (32 + siz c)) (fre b)"

definition coalesce_abs :: "blk \<Rightarrow> blk list \<Rightarrow> blk list" where
  "coalesce_abs b cs =
     (case cs of [] \<Rightarrow> [b]
      | c # cs' \<Rightarrow> if fre c \<and> hi b = lo c then join b c # cs' else b # cs)"

definition merge_abs :: "blk list \<Rightarrow> blk \<Rightarrow> blk list \<Rightarrow> blk list" where
  "merge_abs as b cs =
     (if as = [] \<or> \<not> fre (last as) then as @ coalesce_abs b cs
      else butlast as @ coalesce_abs (last as) (coalesce_abs b cs))"

definition first_fit_abs :: "size_t \<Rightarrow> blk list \<Rightarrow> addr" where
  "first_fit_abs n bs =
     (case find (\<lambda>b. fre b \<and> n \<le> siz b) bs of None \<Rightarrow> 0 | Some b \<Rightarrow> adr b)"

text \<open>\<open>touches k R s s'\<close>: going from \<open>s\<close> to \<open>s'\<close> changes memory inside the byte
  addresses \<open>R\<close> only, and of the rest of the state only the list ends of arena \<open>k\<close>.\<close>

definition touches :: "nat \<Rightarrow> nat set \<Rightarrow> heap_state \<Rightarrow> heap_state \<Rightarrow> bool" where
  "touches k R s s' \<longleftrightarrow>
     (\<forall>x. {unat x ..< unat x + 32} \<inter> R = {} \<longrightarrow> hdrs s' x = hdrs s x) \<and>
     (\<forall>x. unat x \<notin> R \<longrightarrow> bytes s' x = bytes s x) \<and>
     brk_min s' = brk_min s \<and> brk s' = brk s \<and> brk_max s' = brk_max s \<and>
     sbrk_mutex s' = sbrk_mutex s \<and> next_arena_id s' = next_arena_id s \<and>
     thread_arena_id s' = thread_arena_id s \<and> contention_detected s' = contention_detected s \<and>
     length (arena_pool s') = length (arena_pool s) \<and>
     (\<forall>j. j \<noteq> k \<longrightarrow> arena_pool s' ! j = arena_pool s ! j) \<and>
     a_lock (arena_pool s' ! k) = a_lock (arena_pool s ! k)"

definition hdr_area :: "blk \<Rightarrow> nat set" where
  "hdr_area b = {lo b ..< lo b + 32}"

definition hdr_areas :: "blk list \<Rightarrow> nat set" where
  "hdr_areas bs = (\<Union>b \<in> set bs. hdr_area b)"

subsection \<open>Linked segments\<close>

lemma first_adr_simps [simp]:
  "first_adr [] n = n" "first_adr (b # bs) n = adr b"
  by (simp_all add: first_adr_def)

lemma first_adr_append [simp]: "first_adr (as @ bs) n = first_adr as (first_adr bs n)"
  by (cases as) simp_all

lemma last_adr_simps [simp]:
  "last_adr p [] = p" "last_adr p (as @ [b]) = adr b" "last_adr p (b # bs) = last_adr (adr b) bs"
  by (simp_all add: last_adr_def)

lemma last_adr_append [simp]: "last_adr p (as @ bs) = last_adr (last_adr p as) bs"
  by (induction as arbitrary: p) simp_all

lemma linked_append [simp]:
  "linked H k p (as @ bs) n \<longleftrightarrow>
     linked H k p as (first_adr bs n) \<and> linked H k (last_adr p as) bs n"
  by (induction as arbitrary: p) auto

lemma linked_frame:
  "linked H k p bs n \<Longrightarrow> (\<And>b. b \<in> set bs \<Longrightarrow> H' (adr b) = H (adr b)) \<Longrightarrow> linked H' k p bs n"
  by (induction bs arbitrary: p) auto

lemma header_of_simps [simp]:
  "h_arena (header_of k b p n) = k" "h_freed (header_of k b p n) = (if fre b then 1 else 0)"
  "h_size (header_of k b p n) = siz b" "h_prev (header_of k b p n) = p"
  "h_next (header_of k b p n) = n"
  by (simp_all add: header_of_def)

lemma header_of_upd [simp]:
  "(header_of k b p n)\<lparr>h_prev := p'\<rparr> = header_of k b p' n"
  "(header_of k b p n)\<lparr>h_next := n'\<rparr> = header_of k b p n'"
  "(header_of k (Blk a m f) p n)\<lparr>h_size := m'\<rparr> = header_of k (Blk a m' f) p n"
  "(header_of k (Blk a m f) p n)\<lparr>h_freed := 1\<rparr> = header_of k (Blk a m True) p n"
  "(header_of k (Blk a m f) p n)\<lparr>h_freed := 0\<rparr> = header_of k (Blk a m False) p n"
  by (simp_all add: header_of_def)

subsection \<open>Frames\<close>

lemma touches_refl [simp]: "touches k R s s"
  by (simp add: touches_def)

lemma touches_trans:
  "touches k R s s' \<Longrightarrow> touches k R s' s'' \<Longrightarrow> touches k R s s''"
  unfolding touches_def by simp

lemma touches_mono: "touches k R s s' \<Longrightarrow> R \<subseteq> R' \<Longrightarrow> touches k R' s s'"
  unfolding touches_def by blast

lemma touches_trans':
  "touches k R s s' \<Longrightarrow> touches k R' s' s'' \<Longrightarrow> R \<subseteq> Q \<Longrightarrow> R' \<subseteq> Q \<Longrightarrow> touches k Q s s''"
  by (meson touches_mono touches_trans)

lemma touches_hdrs:
  "touches k R s s' \<Longrightarrow> {unat x ..< unat x + 32} \<inter> R = {} \<Longrightarrow> hdrs s' x = hdrs s x"
  by (simp add: touches_def)

lemma touches_bytes: "touches k R s s' \<Longrightarrow> unat x \<notin> R \<Longrightarrow> bytes s' x = bytes s x"
  by (simp add: touches_def)

lemma touches_fields:
  assumes "touches k R s s'"
  shows "brk_min s' = brk_min s" "brk s' = brk s" "brk_max s' = brk_max s"
    "sbrk_mutex s' = sbrk_mutex s" "next_arena_id s' = next_arena_id s"
    "thread_arena_id s' = thread_arena_id s" "contention_detected s' = contention_detected s"
    "length (arena_pool s') = length (arena_pool s)"
    "j \<noteq> k \<Longrightarrow> arena_pool s' ! j = arena_pool s ! j"
    "a_lock (arena_pool s' ! k) = a_lock (arena_pool s ! k)"
  using assms by (simp_all add: touches_def)

lemma touches_seg_ok [simp]: "touches k R s s' \<Longrightarrow> seg_ok s' = seg_ok s"
  by (simp add: seg_ok_def touches_fields)

lemma touches_blk_ok: "touches k R s s' \<Longrightarrow> blk_ok s' = blk_ok s"
  by (simp add: blk_ok_def fun_eq_iff touches_fields)

lemma touches_layout [simp]: "touches k R s s' \<Longrightarrow> layout s' = layout s"
  by (simp add: layout_def fun_eq_iff touches_blk_ok)

lemma touches_mapped [simp]: "touches k R s s' \<Longrightarrow> mapped s' = mapped s"
  by (simp add: mapped_def fun_eq_iff touches_fields)

text \<open>Headers and payloads at a distance from a stored header are kept.\<close>

lemma store_header_Some:
  assumes "mapped s p 32"
  obtains s' where "store_header p h s = Some s'" and "hdrs s' p = Some h"
    and "touches k {unat p ..< unat p + 32} s s'" and "arena_pool s' = arena_pool s"
proof -
  have *: "\<not> overlap p 32 x 32" if "{unat x ..< unat x + 32} \<inter> {unat p ..< unat p + 32} = {}" for x
    using that by (auto simp: overlap_def disjoint_iff)
  show ?thesis
    by (rule that [of "the (store_header p h s)"])
      (use assms * in \<open>auto simp: store_header_def touches_def overlap_def\<close>)
qed

lemma store_blk:
  assumes "mapped s (adr b) 32"
  obtains s' where "store_header (adr b) h s = Some s'" and "hdrs s' (adr b) = Some h"
    and "touches k (hdr_area b) s s'" and "arena_pool s' = arena_pool s"
  using store_header_Some [OF assms] by (metis hdr_area_def lo_def)

lemma touches_hdr_other:
  "touches k (hdr_area y) s s' \<Longrightarrow> hi x \<le> lo y \<or> hi y \<le> lo x \<Longrightarrow> hdrs s' (adr x) = hdrs s (adr x)"
  by (erule touches_hdrs) (auto simp: hdr_area_def lo_def hi_def)

lemma set_tail_touches [simp]: "touches k R s (set_tail k p s)"
  by (cases "k < length (arena_pool s)")
    (simp_all add: touches_def set_tail_def set_arena_def list_update_beyond)

lemma set_head_touches [simp]: "touches k R s (set_head k p s)"
  by (cases "k < length (arena_pool s)")
    (simp_all add: touches_def set_head_def set_arena_def list_update_beyond)

lemma set_ends_simps [simp]:
  "hdrs (set_tail k p s) = hdrs s" "hdrs (set_head k p s) = hdrs s"
  "bytes (set_tail k p s) = bytes s" "bytes (set_head k p s) = bytes s"
  "k < length (arena_pool s) \<Longrightarrow> arena_pool (set_tail k p s) ! k = (arena_pool s ! k)\<lparr>a_tail := p\<rparr>"
  "k < length (arena_pool s) \<Longrightarrow> arena_pool (set_head k p s) ! k = (arena_pool s ! k)\<lparr>a_head := p\<rparr>"
  "length (arena_pool (set_tail k p s)) = length (arena_pool s)"
  "length (arena_pool (set_head k p s)) = length (arena_pool s)"
  by (simp_all add: set_tail_def set_head_def set_arena_def)

subsection \<open>Consequences of the layout\<close>

lemma layout_blkD:
  assumes "layout s bs" and "b \<in> set bs"
  shows "0 < lo b" "adr b \<noteq> 0" "hi b \<le> unat (brk s)" "hi b < 2 ^ 62" "mapped s (adr b) 32"
    "lo b + 40 \<le> hi b" "8 dvd lo b" "8 dvd unat (siz b)"
    "mapped s (adr b + 32) (unat (siz b))" "unat (adr b + 32) = lo b + 32"
proof -
  from assms have ok: "blk_ok s b" and sg: "seg_ok s" by (auto simp: layout_def)
  show "0 < lo b" "hi b \<le> unat (brk s)" "lo b + 40 \<le> hi b" "8 dvd lo b" "8 dvd unat (siz b)"
    using ok sg by (auto simp: blk_ok_def seg_ok_def lo_def hi_def)
  then show "adr b \<noteq> 0" by (auto simp: lo_def)
  show lt: "hi b < 2 ^ 62"
    using ok sg by (simp add: blk_ok_def seg_ok_def word_le_nat_alt)
  show "mapped s (adr b) 32" using ok by (simp add: blk_ok_def mapped_def lo_def hi_def)
  show *: "unat (adr b + 32) = lo b + 32"
    using lt by (subst unat_plus_no_wrap) (simp_all add: lo_def hi_def)
  show "mapped s (adr b + 32) (unat (siz b))"
    using ok unfolding mapped_def * by (simp add: blk_ok_def lo_def hi_def)
qed

lemma layout_split:
  "layout s (as @ b # cs) \<longleftrightarrow>
     layout s as \<and> layout s cs \<and> blk_ok s b \<and> (\<forall>x \<in> set as. hi x \<le> lo b) \<and>
     (\<forall>y \<in> set cs. hi b \<le> lo y) \<and> (\<forall>x \<in> set as. \<forall>y \<in> set cs. hi x \<le> lo y)"
  by (auto simp: layout_def sorted_wrt_append)

lemma layout_append:
  "layout s (as @ bs) \<longleftrightarrow> layout s as \<and> layout s bs \<and> (\<forall>x \<in> set as. \<forall>y \<in> set bs. hi x \<le> lo y)"
  by (auto simp: layout_def sorted_wrt_append)

lemma layout_distance:
  assumes "layout s (as @ bs)" and "x \<in> set as" and "y \<in> set bs"
  shows "lo x + 32 \<le> lo y"
proof -
  have "hi x \<le> lo y" using assms by (simp add: layout_append)
  then show ?thesis by (simp add: lo_def hi_def)
qed

lemma layout_replace:
  assumes lay: "layout s (as @ mid @ cs)" and mid': "layout s mid'"
    and span: "\<And>x. x \<in> set mid' \<Longrightarrow> \<exists>y \<in> set mid. \<exists>z \<in> set mid. lo y \<le> lo x \<and> hi x \<le> hi z"
  shows "layout s (as @ mid' @ cs)"
proof -
  have l: "hi x \<le> lo y" if "x \<in> set as" "y \<in> set mid \<union> set cs" for x y
    using lay that by (auto simp: layout_append)
  have r: "hi x \<le> lo y" if "x \<in> set mid" "y \<in> set cs" for x y
    using lay that by (auto simp: layout_append)
  have "hi x \<le> lo y" if "x \<in> set as" "y \<in> set mid'" for x y
    using span [OF that(2)] l [OF that(1)] by (meson UnI1 le_trans)
  moreover have "hi x \<le> lo y" if "x \<in> set mid'" "y \<in> set cs" for x y
    using span [OF that(1)] r that(2) by (meson le_trans)
  ultimately show ?thesis using lay mid' l by (auto simp: layout_append)
qed

lemma load_header_linked:
  assumes "arena_ok s k (as @ b # cs)" and "layout s (as @ b # cs)"
  shows "load_header (adr b) s = Some (header_of (int k) b (last_adr 0 as) (first_adr cs 0))"
  using assms layout_blkD(2) [OF assms(2), of b] by (simp add: arena_ok_def load_header_def)

lemma first_hit_linked:
  assumes "linked (hdrs s) k p bs 0" and "\<And>b. b \<in> set bs \<Longrightarrow> adr b \<noteq> 0"
  shows "first_hit (first_adr bs 0) n s = Some (first_fit_abs n bs)"
  using assms
proof (induction bs arbitrary: p)
  case Nil
  then show ?case by (simp add: first_hit.simps first_fit_abs_def)
next
  case (Cons b bs)
  then have IH: "first_hit (first_adr bs 0) n s = Some (first_fit_abs n bs)" by auto
  from Cons.prems show ?case
    by (auto simp: first_hit.simps [of "adr b"] load_header_def IH first_fit_abs_def)
qed

subsection \<open>Splitting a block\<close>

lemma split_abs_facts:
  assumes lay: "layout s (as @ b # cs)" and n: "unat n \<le> unat (siz b)"
    and big: "unat n + 40 \<le> unat (siz b)"
  defines "r \<equiv> Blk (adr b + 32 + n) (siz b - n - 32) True"
  shows "split_abs n b = [Blk (adr b) n (fre b), r]"
    and "lo r = lo b + 32 + unat n" and "hi r = hi b" and "unat (siz r) = unat (siz b) - unat n - 32"
proof -
  have lt: "hi b < 2 ^ 62" and a32: "unat (adr b + 32) = lo b + 32"
    using layout_blkD [OF lay, of b] by simp_all
  show "split_abs n b = [Blk (adr b) n (fre b), r]"
    using big by (simp add: split_abs_def r_def)
  have "unat (adr b + 32 + n) = lo b + 32 + unat n"
    using lt big by (subst unat_plus_no_wrap) (simp_all add: a32 hi_def lo_def)
  then show lo: "lo r = lo b + 32 + unat n" by (simp add: r_def lo_def)
  have "unat (siz b - n) = unat (siz b) - unat n" using n by (rule unat_minus_no_wrap)
  then have "unat (siz b - n - 32) = unat (siz b) - unat n - 32"
    using big by (subst unat_minus_no_wrap) simp_all
  then show sz: "unat (siz r) = unat (siz b) - unat n - 32" by (simp add: r_def)
  have "hi r = lo r + 32 + unat (siz r)" by (simp add: lo_def hi_def)
  also have "\<dots> = hi b" unfolding lo sz using big by (simp add: lo_def hi_def)
  finally show "hi r = hi b" .
qed

lemma split_abs_layout:
  assumes lay: "layout s (as @ b # cs)" and n: "unat n \<le> unat (siz b)"
    and al: "8 dvd unat n" "8 \<le> unat n"
  shows "layout s (as @ split_abs n b @ cs)"
proof (cases "unat n + 40 \<le> unat (siz b)")
  case True
  define b' where "b' = Blk (adr b) n (fre b)"
  define r where "r = Blk (adr b + 32 + n) (siz b - n - 32) True"
  note f = split_abs_facts [OF lay n True, folded r_def b'_def]
  have b': "lo b' = lo b" "hi b' = lo b + 32 + unat n" "siz b' = n"
    by (simp_all add: b'_def lo_def hi_def)
  have hb: "hi b = lo b + 32 + unat (siz b)" by (simp add: lo_def hi_def)
  have ok: "blk_ok s b" and sg: "seg_ok s" using lay by (auto simp: layout_def)
  have "8 dvd unat (siz b) - unat n - 32"
    using ok al True by (intro dvd_diff_nat) (auto simp: blk_ok_def)
  moreover have "8 dvd lo b + 32 + unat n"
    using ok al by (intro dvd_add) (auto simp: blk_ok_def)
  ultimately have "blk_ok s r" "blk_ok s b'"
    unfolding blk_ok_def f(2-4) b' using ok [unfolded blk_ok_def] al True hb
    by (elim conjE, intro conjI, (assumption | linarith)+)+
  with sg f(2) b' have "layout s [b', r]" by (simp add: layout_def)
  then show ?thesis
    unfolding f(1) using lay f(2,3) True b' hb
    by - (rule layout_replace [of s as "[b]" cs], auto)
qed (use lay in \<open>simp add: split_abs_def\<close>)

lemma hdr_areas_simps [simp]:
  "hdr_areas [] = {}" "hdr_areas (b # bs) = hdr_area b \<union> hdr_areas bs"
  "hdr_areas (as @ bs) = hdr_areas as \<union> hdr_areas bs"
  by (auto simp: hdr_areas_def)

text \<open>Both splitting and merging end by telling the successor of a block its new
  predecessor, or the arena its new tail.\<close>

lemma relink_next:
  assumes lk: "linked (hdrs s) i q cs 0" and lay: "layout s cs" and k: "k < length (arena_pool s)"
  obtains s' where
    "set_prev_or_tail k (first_adr cs 0) p s = Some s'"
    and "touches k (hdr_areas cs) s s'" and "linked (hdrs s') i p cs 0"
    and "a_head (arena_pool s' ! k) = a_head (arena_pool s ! k)"
    and "a_tail (arena_pool s' ! k) = (if cs = [] then p else a_tail (arena_pool s ! k))"
proof (cases cs)
  case Nil
  then show ?thesis using k by (intro that [of "set_tail k p s"]) (simp_all add: set_prev_or_tail_def)
next
  case (Cons c cs')
  have nz: "adr c \<noteq> 0" and m: "mapped s (adr c) 32"
    using layout_blkD [OF lay, of c] Cons by simp_all
  obtain s' where s': "store_header (adr c) (header_of i c p (first_adr cs' 0)) s = Some s'"
    "hdrs s' (adr c) = Some (header_of i c p (first_adr cs' 0))"
    "touches k (hdr_area c) s s'" "arena_pool s' = arena_pool s"
    by (rule store_blk [OF m])
  have "hdrs s' (adr y) = hdrs s (adr y)" if "y \<in> set cs'" for y
    using touches_hdr_other [OF s'(3)] lay that Cons by (auto simp: layout_def)
  with lk s' Cons have "linked (hdrs s') i p cs 0" by (auto intro: linked_frame)
  then show ?thesis using s' Cons nz lk
    by (intro that [of s']) (auto simp: load_header_def set_prev_or_tail_def intro: touches_mono)
qed

lemma linked_frame_touches:
  assumes "linked (hdrs s) i p bs n" and "touches k R s s'"
    and "\<And>b. b \<in> set bs \<Longrightarrow> hdr_area b \<inter> R = {}"
  shows "linked (hdrs s') i p bs n"
proof (rule linked_frame [OF assms(1)])
  fix b
  assume "b \<in> set bs"
  then have "{unat (adr b) ..< unat (adr b) + 32} \<inter> R = {}"
    using assms(3) by (simp add: hdr_area_def lo_def)
  then show "hdrs s' (adr b) = hdrs s (adr b)" by (rule touches_hdrs [OF assms(2)])
qed

lemma hdr_area_disjoint:
  "hdr_area x \<inter> hdr_area y = {} \<longleftrightarrow> lo x + 32 \<le> lo y \<or> lo y + 32 \<le> lo x"
  by (auto simp: hdr_area_def disjoint_iff)

lemma hdr_area_disjoint_areas:
  "hdr_area x \<inter> hdr_areas ys = {} \<longleftrightarrow> (\<forall>y \<in> set ys. lo x + 32 \<le> lo y \<or> lo y + 32 \<le> lo x)"
  by (auto simp: hdr_areas_def hdr_area_disjoint [symmetric])

lemma split_block_refines:
  assumes ok: "arena_ok s k (as @ b # cs)" and lay: "layout s (as @ b # cs)"
    and n: "unat n \<le> unat (siz b)"
  obtains s' where "split_block k (adr b) n s = Some s'" and "arena_ok s' k (as @ split_abs n b @ cs)"
    and "touches k ({lo b + 32 + unat n ..< hi b} \<union> hdr_areas (b # cs)) s s'"
proof (cases "unat n + 40 \<le> unat (siz b)")
  case False
  have lt: "hi b < 2 ^ 62" using layout_blkD [OF lay, of b] by simp
  have "unat (n + 40) = unat n + 40"
    using lt n by (subst unat_plus_no_wrap) (simp_all add: hi_def)
  with False have "split_block k (adr b) n s = Some s"
    by (simp add: split_block_def load_header_linked [OF ok lay] sizeof_BlockHeader_def
        word_less_nat_alt add.assoc)
  then show ?thesis using False ok by (intro that [of s]) (simp_all add: split_abs_def)
next
  case True
  define r where "r = Blk (adr b + 32 + n) (siz b - n - 32) True"
  note f = split_abs_facts [OF lay n True, folded r_def]
  have bd: "lo b + 40 \<le> hi b" "hi b = lo b + 32 + unat (siz b)" "mapped s (adr b) 32" "adr b \<noteq> 0"
    "hi b < 2 ^ 62"
    using layout_blkD [OF lay, of b] by (simp_all add: lo_def hi_def)
  have far: "\<And>x. x \<in> set as \<Longrightarrow> lo x + 32 \<le> lo b" "\<And>y. y \<in> set cs \<Longrightarrow> hi b \<le> lo y"
    using lay by (force simp: layout_split hi_def lo_def)+
  have "mapped s (adr r) 32"
    using bd f(2,3) True layout_blkD(3) [OF lay, of b] by (simp add: mapped_def lo_def)
  then obtain s1 where s1: "store_header (adr r) (header_of (int k) r (adr b) (first_adr cs 0)) s = Some s1"
    "hdrs s1 (adr r) = Some (header_of (int k) r (adr b) (first_adr cs 0))"
    "touches k (hdr_area r) s s1" "arena_pool s1 = arena_pool s"
    by (rule store_blk)
  have lk: "linked (hdrs s) (int k) 0 as (adr b)" "linked (hdrs s) (int k) (adr b) cs 0"
    and k: "k < length (arena_pool s)" using ok by (simp_all add: arena_ok_def)
  have d1: "hdr_area x \<inter> hdr_area r = {}" if "x \<in> insert b (set as \<union> set cs)" for x
    using that far [of x] bd f(2,3) True by (auto simp: hdr_area_disjoint)
  have lk1: "linked (hdrs s1) (int k) 0 as (adr b)" "linked (hdrs s1) (int k) (adr b) cs 0"
    by (rule linked_frame_touches [OF _ s1(3)]; simp add: lk d1)+
  have lay1: "layout s1 cs" using lay s1(3) by (simp add: layout_split)
  obtain s2 where s2:
    "set_prev_or_tail k (first_adr cs 0) (adr r) s1 = Some s2"
    "touches k (hdr_areas cs) s1 s2" "linked (hdrs s2) (int k) (adr r) cs 0"
    "a_head (arena_pool s2 ! k) = a_head (arena_pool s1 ! k)"
    "a_tail (arena_pool s2 ! k) = (if cs = [] then adr r else a_tail (arena_pool s1 ! k))"
    by (rule relink_next [OF lk1(2) lay1]) (use k s1(4) in simp_all)
  have e2: "lo x + 32 \<le> hi b" if "x \<in> insert b (insert r (set as))" for x
    using that far(1) [of x] bd f(2,3) True by auto
  have d2: "hdr_area x \<inter> hdr_areas cs = {}" if "x \<in> insert b (insert r (set as))" for x
    unfolding hdr_area_disjoint_areas using e2 [OF that] far(2) by (meson le_trans)
  have d3: "hdr_area y \<inter> hdr_area b = {}" if "y \<in> set cs" for y
    unfolding hdr_area_disjoint using far(2) [OF that] bd(1) by (intro disjI2) linarith
  have hb: "hdrs s2 (adr b) = Some (header_of (int k) b (last_adr 0 as) (first_adr cs 0))"
    using linked_frame_touches [OF _ s2(2), of "int k" "last_adr 0 as" "[b]" "first_adr cs 0"]
      linked_frame_touches [OF _ s1(3), of "int k" "last_adr 0 as" "[b]" "first_adr cs 0"] d1 d2 ok
    by (simp add: arena_ok_def)
  define b' where "b' = Blk (adr b) n (fre b)"
  have "mapped s2 (adr b) 32" using bd s1(3) s2(2) by simp
  then obtain s3 where s3:
    "store_header (adr b) (header_of (int k) b' (last_adr 0 as) (adr r)) s2 = Some s3"
    "hdrs s3 (adr b) = Some (header_of (int k) b' (last_adr 0 as) (adr r))"
    "touches k (hdr_area b) s2 s3" "arena_pool s3 = arena_pool s2"
    by (rule store_blk)
  have "hdrs s3 (adr r) = Some (header_of (int k) r (adr b) (first_adr cs 0))"
    using linked_frame_touches [OF _ s2(2), of "int k" "adr b" "[r]" "first_adr cs 0"]
      linked_frame_touches [OF _ s3(3), of "int k" "adr b" "[r]" "first_adr cs 0"] d1 d2 s1(2)
    by (simp add: Int_commute)
  moreover have "linked (hdrs s3) (int k) 0 as (adr b)"
    by (rule linked_frame_touches [OF linked_frame_touches [OF lk1(1) s2(2)] s3(3)])
      (simp_all add: d2 hdr_area_disjoint far(1))
  moreover have "linked (hdrs s3) (int k) (adr r) cs 0"
    by (rule linked_frame_touches [OF s2(3) s3(3)])
      (rule d3)
  ultimately have "arena_ok s3 k (as @ [b', r] @ cs)"
    using ok s3 s2(4,5) s1(4) touches_fields(8) [OF s2(2)]
    by (auto simp: arena_ok_def b'_def last_adr_def)
  moreover have "split_block k (adr b) n s = Some s3"
  proof -
    have "unat (n + 40) = unat n + 40"
      using bd n by (subst unat_plus_no_wrap) (simp_all add: hi_def)
    with True have "\<not> siz b < n + sizeof_BlockHeader + 8"
      by (simp add: word_less_nat_alt sizeof_BlockHeader_def add.assoc)
    moreover have "\<lparr>h_arena = int k, h_freed = 1, h_size = siz b - n - sizeof_BlockHeader,
        h_prev = adr b, h_next = first_adr cs 0\<rparr> = header_of (int k) r (adr b) (first_adr cs 0)"
      by (simp add: header_of_def r_def sizeof_BlockHeader_def)
    moreover have "get_payload (adr b) + n = adr r"
      by (simp add: get_payload_def r_def sizeof_BlockHeader_def)
    moreover have "load_header (adr b) s2 = Some (header_of (int k) b (last_adr 0 as) (first_adr cs 0))"
      using hb bd by (simp add: load_header_def)
    moreover have "(header_of (int k) b (last_adr 0 as) (first_adr cs 0))\<lparr>h_next := adr r, h_size := n\<rparr> =
        header_of (int k) b' (last_adr 0 as) (adr r)"
      by (simp add: header_of_def b'_def)
    ultimately show ?thesis
      using s1(1) s2(1) s3(1) by (simp add: split_block_def load_header_linked [OF ok lay] Let_def)
  qed
  moreover have "touches k ({lo b + 32 + unat n ..< hi b} \<union> hdr_areas (b # cs)) s s3"
  proof (rule touches_trans [OF touches_trans])
    show "touches k ({lo b + 32 + unat n ..< hi b} \<union> hdr_areas (b # cs)) s s1"
      using s1(3) by (rule touches_mono) (use f(2,3) bd True in \<open>auto simp: hdr_area_def\<close>)
  qed (use s2(2) s3(3) in \<open>auto elim: touches_mono\<close>)
  ultimately show ?thesis using f(1) by (intro that [of s3]) (simp_all add: b'_def)
qed

subsection \<open>Merging blocks\<close>

lemma join_facts:
  assumes lay: "layout s (as @ b # c # cs)" and adj: "hi b = lo c"
  shows "adr (join b c) = adr b" and "lo (join b c) = lo b" and "hi (join b c) = hi c"
    and "unat (siz (join b c)) = unat (siz b) + 32 + unat (siz c)"
    and "fre (join b c) = fre b" and "blk_ok s (join b c)"
proof -
  have c: "hi c < 2 ^ 62" using layout_blkD [OF lay, of c] by simp
  have "unat (32 + siz c) = 32 + unat (siz c)"
    using c by (subst unat_plus_no_wrap) (simp_all add: hi_def)
  then have "unat (siz b + (32 + siz c)) = unat (siz b) + 32 + unat (siz c)"
    using c adj by (subst unat_plus_no_wrap) (simp_all add: hi_def lo_def)
  then show sz: "unat (siz (join b c)) = unat (siz b) + 32 + unat (siz c)" by (simp add: join_def)
  show "adr (join b c) = adr b" and l: "lo (join b c) = lo b" and "fre (join b c) = fre b"
    by (simp_all add: join_def lo_def)
  have "hi (join b c) = lo (join b c) + 32 + unat (siz (join b c))" by (simp add: lo_def hi_def)
  also have "\<dots> = hi c" unfolding l sz using adj by (simp add: lo_def hi_def)
  finally show h: "hi (join b c) = hi c" .
  have ok: "blk_ok s b" "blk_ok s c" using lay by (auto simp: layout_def)
  then show "blk_ok s (join b c)" unfolding blk_ok_def l h sz by simp
qed

lemma coalesce_abs_layout:
  assumes lay: "layout s (as @ b # cs)"
  shows "layout s (as @ coalesce_abs b cs)"
proof (cases cs)
  case (Cons c ds)
  show ?thesis
  proof (cases "fre c \<and> hi b = lo c")
    case True
    have lay': "layout s (as @ b # c # ds)" using lay Cons by simp
    note j = join_facts [OF lay' conjunct2 [OF True]]
    have "layout s [join b c]" using j(6) lay by (simp add: layout_def)
    with lay' have "layout s (as @ [join b c] @ ds)"
      by - (rule layout_replace [of s as "[b, c]"], use j(2,3) in auto)
    with Cons True show ?thesis by (simp add: coalesce_abs_def)
  qed (use lay Cons in \<open>auto simp: coalesce_abs_def\<close>)
qed (use lay in \<open>simp add: coalesce_abs_def\<close>)

lemma coalesce_refines:
  assumes ok: "arena_ok s k (as @ b # cs)" and lay: "layout s (as @ b # cs)"
  obtains s' where "coalesce_with_next k (adr b) s = Some s'"
    and "arena_ok s' k (as @ coalesce_abs b cs)" and "touches k (hdr_areas (b # cs)) s s'"
proof (cases cs)
  case Nil
  then have "coalesce_with_next k (adr b) s = Some s"
    by (simp add: coalesce_with_next_def load_header_linked [OF ok lay])
  with Nil ok show ?thesis by (intro that [of s]) (simp_all add: coalesce_abs_def)
next
  case (Cons c ds)
  have lay': "layout s (as @ b # c # ds)" and ok': "arena_ok s k ((as @ [b]) @ c # ds)"
    using lay ok Cons by simp_all
  have bd: "unat (adr b + 32) = lo b + 32" "hi b < 2 ^ 62" "adr c \<noteq> 0" "mapped s (adr b) 32"
    using layout_blkD [OF lay', of b] layout_blkD [OF lay', of c] by simp_all
  have "unat (adr b + 32 + siz b) = hi b"
    using bd by (subst unat_plus_no_wrap) (simp_all add: hi_def lo_def)
  then have adj: "get_payload (adr b) + siz b = adr c \<longleftrightarrow> hi b = lo c"
    by (simp add: word_eq_unat get_payload_def sizeof_BlockHeader_def lo_def)
  have ld: "load_header (adr b) s = Some (header_of (int k) b (last_adr 0 as) (adr c))"
    "load_header (adr c) s = Some (header_of (int k) c (adr b) (first_adr ds 0))"
    using load_header_linked [OF ok lay] load_header_linked [OF ok'] lay Cons by simp_all
  show ?thesis
  proof (cases "fre c \<and> hi b = lo c")
    case False
    then have "coalesce_with_next k (adr b) s = Some s"
      using adj ld bd(3) by (auto simp: coalesce_with_next_def)
    with Cons False ok show ?thesis by (intro that [of s]) (auto simp: coalesce_abs_def)
  next
    case True
    note j = join_facts [OF lay' conjunct2 [OF True]]
    have lay'': "layout s ((as @ [b]) @ c # ds)" using lay' by simp
    have far: "hdr_area x \<inter> hdr_area b = {}" if "x \<in> set as \<union> set ds" for x
      using that layout_distance [OF lay', of x b] layout_distance [OF lay'', of b x]
      by (auto simp: hdr_area_disjoint)
    have far': "hdr_area x \<inter> hdr_areas ds = {}" if "x \<in> insert b (set as)" for x
      unfolding hdr_area_disjoint_areas using that layout_distance [OF lay'', of x] by auto
    obtain s1 where s1:
      "store_header (adr b) (header_of (int k) (join b c) (last_adr 0 as) (first_adr ds 0)) s = Some s1"
      "hdrs s1 (adr b) = Some (header_of (int k) (join b c) (last_adr 0 as) (first_adr ds 0))"
      "touches k (hdr_area b) s s1" "arena_pool s1 = arena_pool s"
      by (rule store_blk [OF bd(4)])
    have lk: "linked (hdrs s) (int k) 0 as (adr b)" "linked (hdrs s) (int k) (adr c) ds 0"
      and k: "k < length (arena_pool s)" using ok Cons by (simp_all add: arena_ok_def)
    have lk1: "linked (hdrs s1) (int k) 0 as (adr b)" "linked (hdrs s1) (int k) (adr c) ds 0"
      by (rule linked_frame_touches [OF _ s1(3)]; simp add: lk far)+
    have lay1: "layout s1 ds" using lay' s1(3) layout_append [of s "as @ [b, c]" ds] by simp
    obtain s2 where s2:
      "set_prev_or_tail k (first_adr ds 0) (adr b) s1 = Some s2"
      "touches k (hdr_areas ds) s1 s2" "linked (hdrs s2) (int k) (adr b) ds 0"
      "a_head (arena_pool s2 ! k) = a_head (arena_pool s1 ! k)"
      "a_tail (arena_pool s2 ! k) = (if ds = [] then adr b else a_tail (arena_pool s1 ! k))"
      by (rule relink_next [OF lk1(2) lay1]) (use k s1(4) in simp_all)
    have "hdrs s2 (adr b) = Some (header_of (int k) (join b c) (last_adr 0 as) (first_adr ds 0))"
      using linked_frame_touches [OF _ s2(2), of "int k" "last_adr 0 as" "[join b c]" "first_adr ds 0"]
        s1(2) far' [of b] j(1,2) by (simp add: hdr_area_def)
    moreover have "linked (hdrs s2) (int k) 0 as (adr b)"
      by (rule linked_frame_touches [OF lk1(1) s2(2)]) (simp add: far')
    ultimately have "arena_ok s2 k (as @ join b c # ds)"
      using ok Cons s2 s1(4) j(1) touches_fields(8) [OF s2(2)]
      by (auto simp: arena_ok_def last_adr_def)
    moreover have "coalesce_with_next k (adr b) s = Some s2"
    proof -
      have "(header_of (int k) b (last_adr 0 as) (adr c))
          \<lparr>h_size := siz b + (sizeof_BlockHeader + siz c), h_next := first_adr ds 0\<rparr> =
          header_of (int k) (join b c) (last_adr 0 as) (first_adr ds 0)"
        by (simp add: header_of_def join_def sizeof_BlockHeader_def)
      then show ?thesis
        using True adj ld bd(3) s1(1) s2(1) by (simp add: coalesce_with_next_def)
    qed
    moreover have "touches k (hdr_areas (b # cs)) s s2"
      using s1(3) s2(2) Cons by (auto intro: touches_trans')
    ultimately show ?thesis using True Cons by (intro that [of s2]) (simp_all add: coalesce_abs_def)
  qed
qed

text \<open>Writing the free flag of a block in place.\<close>

lemma store_in_place:
  assumes ok: "arena_ok s k (as @ b # cs)" and lay: "layout s (as @ b # cs)" and b': "adr b' = adr b"
  obtains s' where
    "store_header (adr b) (header_of (int k) b' (last_adr 0 as) (first_adr cs 0)) s = Some s'"
    and "arena_ok s' k (as @ b' # cs)" and "touches k (hdr_area b) s s'"
proof -
  have "mapped s (adr b) 32" using layout_blkD [OF lay, of b] by simp
  then obtain s' where s':
    "store_header (adr b) (header_of (int k) b' (last_adr 0 as) (first_adr cs 0)) s = Some s'"
    "hdrs s' (adr b) = Some (header_of (int k) b' (last_adr 0 as) (first_adr cs 0))"
    "touches k (hdr_area b) s s'" "arena_pool s' = arena_pool s"
    by (rule store_blk)
  have lay': "layout s ((as @ [b]) @ cs)" using lay by simp
  have far: "hdr_area x \<inter> hdr_area b = {}" if "x \<in> set as \<union> set cs" for x
    using that layout_distance [OF lay, of x b] layout_distance [OF lay', of b x]
    by (auto simp: hdr_area_disjoint)
  have "linked (hdrs s') (int k) 0 as (adr b)" "linked (hdrs s') (int k) (adr b) cs 0"
    by (rule linked_frame_touches [OF _ s'(3)]; use ok far in \<open>simp add: arena_ok_def\<close>)+
  then have "arena_ok s' k (as @ b' # cs)"
    using ok s' b' by (simp add: arena_ok_def)
  with s' show ?thesis by (intro that [of s'])
qed

lemma coalesce_abs_head:
  obtains b' cs' where "coalesce_abs b cs = b' # cs'" "adr b' = adr b" "fre b' = fre b"
    "hdr_areas cs' \<subseteq> hdr_areas cs"
proof (cases cs)
  case (Cons c ds)
  then show ?thesis
    by (cases "fre c \<and> hi b = lo c")
      (auto intro!: that simp: coalesce_abs_def join_def)
qed (auto intro!: that simp: coalesce_abs_def)

lemma merge_abs_layout:
  assumes "layout s (as @ b # cs)"
  shows "layout s (merge_abs as b cs)"
proof (cases "as = [] \<or> \<not> fre (last as)")
  case True
  with assms show ?thesis by (simp only: merge_abs_def if_True coalesce_abs_layout)
next
  case False
  then have as: "as = butlast as @ [last as]" by simp
  have "layout s (as @ coalesce_abs b cs)" using assms by (rule coalesce_abs_layout)
  with as have "layout s (butlast as @ last as # coalesce_abs b cs)"
    by (metis append.assoc append_Cons append_Nil)
  then have "layout s (butlast as @ coalesce_abs (last as) (coalesce_abs b cs))"
    by (rule coalesce_abs_layout)
  with False show ?thesis by (simp add: merge_abs_def)
qed

lemma merge_refines:
  assumes ok: "arena_ok s k (as @ b # cs)" and lay: "layout s (as @ b # cs)"
  obtains s' where "merge_blocks k (adr b) s = Some s'"
    and "arena_ok s' k (merge_abs as b cs)" and "touches k (hdr_areas (as @ b # cs)) s s'"
proof -
  obtain s1 where s1: "coalesce_with_next k (adr b) s = Some s1"
    "arena_ok s1 k (as @ coalesce_abs b cs)" "touches k (hdr_areas (b # cs)) s s1"
    by (rule coalesce_refines [OF ok lay])
  obtain b' cs' where b': "coalesce_abs b cs = b' # cs'" "adr b' = adr b" "fre b' = fre b"
    "hdr_areas cs' \<subseteq> hdr_areas cs"
    by (rule coalesce_abs_head)
  have area: "hdr_area b' = hdr_area b" using b'(2) by (simp add: hdr_area_def lo_def)
  have ok1: "arena_ok s1 k (as @ b' # cs')" and lay1: "layout s1 (as @ b' # cs')"
    using s1(2,3) coalesce_abs_layout [OF lay] b'(1) by simp_all
  have ld: "load_header (adr b) s1 = Some (header_of (int k) b' (last_adr 0 as) (first_adr cs' 0))"
    using load_header_linked [OF ok1 lay1] b'(2) by simp
  have t1: "touches k (hdr_areas (as @ b # cs)) s s1"
    using s1(3) by (rule touches_mono) auto
  show ?thesis
  proof (cases as rule: rev_cases)
    case Nil
    then have "merge_blocks k (adr b) s = Some s1"
      using s1(1) ld by (simp add: merge_blocks_def)
    with Nil s1(2) t1 show ?thesis by (intro that [of s1]) (simp_all add: merge_abs_def)
  next
    case (snoc xs p)
    have ok2: "arena_ok s1 k (xs @ p # b' # cs')" and lay2: "layout s1 (xs @ p # b' # cs')"
      using ok1 lay1 snoc by simp_all
    have nz: "adr p \<noteq> 0" using layout_blkD [OF lay2, of p] by simp
    have ldp: "load_header (adr p) s1 = Some (header_of (int k) p (last_adr 0 xs) (adr b'))"
      using load_header_linked [OF ok2 lay2] by simp
    show ?thesis
    proof (cases "fre p")
      case False
      then have "merge_blocks k (adr b) s = Some s1"
        using s1(1) ld ldp nz snoc by (simp add: merge_blocks_def)
      with False snoc s1(2) t1 show ?thesis by (intro that [of s1]) (simp_all add: merge_abs_def)
    next
      case True
      obtain s2 where s2: "coalesce_with_next k (adr p) s1 = Some s2"
        "arena_ok s2 k (xs @ coalesce_abs p (b' # cs'))" "touches k (hdr_areas (p # b' # cs')) s1 s2"
        by (rule coalesce_refines [OF ok2 lay2])
      then have "merge_blocks k (adr b) s = Some s2"
        using s1(1) ld ldp nz snoc True by (simp add: merge_blocks_def)
      moreover have "touches k (hdr_areas (as @ b # cs)) s s2"
        using t1 s2(3) by (rule touches_trans') (use snoc area b'(4) in auto)
      ultimately show ?thesis using True snoc s2(2) b'(1)
        by (intro that [of s2]) (simp_all add: merge_abs_def)
    qed
  qed
qed

lemma arena_free_refines:
  assumes ok: "arena_ok s k (as @ b # cs)" and lay: "layout s (as @ b # cs)"
  obtains s' where "arena_free k (adr b) s = Some s'"
    and "arena_ok s' k (merge_abs as (Blk (adr b) (siz b) True) cs)"
    and "layout s' (merge_abs as (Blk (adr b) (siz b) True) cs)"
    and "touches k (hdr_areas (as @ b # cs)) s s'"
proof -
  define b' where "b' = Blk (adr b) (siz b) True"
  have b': "adr b' = adr b" "lo b' = lo b" "hi b' = hi b" "siz b' = siz b"
    by (simp_all add: b'_def lo_def hi_def)
  obtain s1 where s1:
    "store_header (adr b) (header_of (int k) b' (last_adr 0 as) (first_adr cs 0)) s = Some s1"
    "arena_ok s1 k (as @ b' # cs)" "touches k (hdr_area b) s s1"
    by (rule store_in_place [OF ok lay b'(1)])
  have lay0: "layout s (as @ b' # cs)"
    using lay b' by (simp add: layout_split blk_ok_def)
  then have lay1: "layout s1 (as @ b' # cs)" using s1(3) by simp
  obtain s2 where s2: "merge_blocks k (adr b') s1 = Some s2"
    "arena_ok s2 k (merge_abs as b' cs)" "touches k (hdr_areas (as @ b' # cs)) s1 s2"
    by (rule merge_refines [OF s1(2) lay1])
  have "(header_of (int k) b (last_adr 0 as) (first_adr cs 0))\<lparr>h_freed := 1\<rparr> =
      header_of (int k) b' (last_adr 0 as) (first_adr cs 0)"
    by (simp add: header_of_def b'_def)
  then have "arena_free k (adr b) s = Some s2"
    using s1(1) s2(1) b'(1) by (simp add: arena_free_def load_header_linked [OF ok lay])
  moreover have "touches k (hdr_areas (as @ b # cs)) s s2"
    using s1(3) s2(3) by (rule touches_trans') (auto simp: hdr_area_def b'(2))
  moreover have "layout s2 (merge_abs as b' cs)"
    using merge_abs_layout [OF lay1] s2(3) by simp
  ultimately show ?thesis using s2(2) by (intro that [of s2]) (simp_all add: b'_def)
qed

end
