(* ===== verification/Alloc_Arena.thy ===== *)
theory Alloc_Arena
  imports Alloc_Lists
begin

section \<open>The allocator: one arena\<close>

text \<open>
  What \<^verbatim>\<open>arena_malloc\<close>, \<^verbatim>\<open>arena_free\<close> and \<^verbatim>\<open>arena_realloc\<close> do to the block list
  of the arena they run on: which blocks are in use before and after, which bytes
  of memory they may change, and that no two adjacent free blocks are ever left.
\<close>

definition used :: "blk list \<Rightarrow> blk list" where
  "used bs = filter (\<lambda>b. \<not> fre b) bs"

definition area :: "blk \<Rightarrow> nat set" where
  "area b = {lo b ..< hi b}"

definition payload :: "blk \<Rightarrow> nat set" where
  "payload b = {lo b + 32 ..< hi b}"

definition covers :: "blk list \<Rightarrow> nat set" where
  "covers bs = (\<Union>b \<in> set bs. area b)"

text \<open>The bytes of an arena that belong to no block in use: headers and free payloads.\<close>

definition slack :: "blk list \<Rightarrow> nat set" where
  "slack bs = hdr_areas bs \<union> (\<Union>b \<in> {b \<in> set bs. fre b}. area b)"

definition parted :: "blk \<Rightarrow> blk \<Rightarrow> bool" where
  "parted b c \<longleftrightarrow> \<not> (fre b \<and> fre c \<and> hi b = lo c)"

definition coalesced :: "blk list \<Rightarrow> bool" where
  "coalesced bs \<longleftrightarrow> successively parted bs"

text \<open>\<open>evolves k R s s'\<close>: like \<open>touches\<close>, for a step that may also move the program break
  up and record contention.\<close>

definition evolves :: "nat \<Rightarrow> nat set \<Rightarrow> heap_state \<Rightarrow> heap_state \<Rightarrow> bool" where
  "evolves k R s s' \<longleftrightarrow>
     (\<forall>x. {unat x ..< unat x + 32} \<inter> R = {} \<longrightarrow> hdrs s' x = hdrs s x) \<and>
     (\<forall>x. unat x \<notin> R \<longrightarrow> bytes s' x = bytes s x) \<and>
     brk_min s' = brk_min s \<and> brk_max s' = brk_max s \<and> unat (brk s) \<le> unat (brk s') \<and>
     sbrk_mutex s' = sbrk_mutex s \<and> next_arena_id s' = next_arena_id s \<and>
     thread_arena_id s' = thread_arena_id s \<and>
     (contention_detected s \<in> {0, 1} \<longrightarrow> contention_detected s' \<in> {0, 1}) \<and>
     length (arena_pool s') = length (arena_pool s) \<and>
     (\<forall>j. j \<noteq> k \<longrightarrow> arena_pool s' ! j = arena_pool s ! j) \<and>
     a_lock (arena_pool s' ! k) = a_lock (arena_pool s ! k)"

subsection \<open>Frames\<close>

lemma touches_evolves: "touches k R s s' \<Longrightarrow> evolves k R s s'"
  by (simp add: touches_def evolves_def)

lemma evolves_refl [simp]: "evolves k R s s"
  by (simp add: evolves_def)

lemma evolves_mono: "evolves k R s s' \<Longrightarrow> R \<subseteq> R' \<Longrightarrow> evolves k R' s s'"
  unfolding evolves_def by blast

lemma evolves_trans1: "evolves k R s s' \<Longrightarrow> evolves k R s' s'' \<Longrightarrow> evolves k R s s''"
  unfolding evolves_def by (elim conjE, intro conjI) (simp_all, blast)

lemma evolves_trans:
  "evolves k R s s' \<Longrightarrow> evolves k R' s' s'' \<Longrightarrow> R \<subseteq> Q \<Longrightarrow> R' \<subseteq> Q \<Longrightarrow> evolves k Q s s''"
  by (meson evolves_mono evolves_trans1)

lemma evolves_layout:
  assumes "evolves k R s s'" and "seg_ok s'" and "layout s bs"
  shows "layout s' bs"
proof -
  have "blk_ok s' b" if "blk_ok s b" for b
    using that assms(1) by (auto simp: blk_ok_def evolves_def)
  with assms show ?thesis by (auto simp: layout_def)
qed

subsection \<open>Blocks in use, covered and slack bytes\<close>

lemma used_simps [simp]:
  "used [] = []" "used (b # bs) = (if fre b then used bs else b # used bs)"
  "used (as @ bs) = used as @ used bs"
  by (simp_all add: used_def)

lemma covers_simps [simp]:
  "covers [] = {}" "covers (b # bs) = area b \<union> covers bs" "covers (as @ bs) = covers as \<union> covers bs"
  by (auto simp: covers_def)

lemma slack_simps [simp]:
  "slack [] = {}" "slack (b # bs) = hdr_area b \<union> (if fre b then area b else {}) \<union> slack bs"
  "slack (as @ bs) = slack as \<union> slack bs"
  by (auto simp: slack_def)

lemma hdr_areas_slack: "hdr_areas bs \<subseteq> slack bs"
  by (simp add: slack_def)

lemma hdr_area_sub: "hdr_area b \<subseteq> area b"
  by (auto simp: hdr_area_def area_def lo_def hi_def)

lemma slack_covers: "slack bs \<subseteq> covers bs"
  using hdr_area_sub by (fastforce simp: slack_def covers_def hdr_areas_def)

lemma payload_sub: "payload b \<subseteq> area b"
  by (auto simp: payload_def area_def)

text \<open>The payload of a block in use is outside the slack of its arena.\<close>

lemma payload_slack:
  assumes lay: "layout s bs" and b: "b \<in> set (used bs)"
  shows "payload b \<inter> slack bs = {}"
proof -
  from b obtain as cs where bs: "bs = as @ b # cs" and nf: "\<not> fre b"
    by (auto simp: used_def dest: split_list)
  have "area b \<inter> area x = {}" if "x \<in> set as \<union> set cs" for x
    using lay that unfolding bs layout_split area_def by fastforce
  then have "area b \<inter> (slack as \<union> slack cs) = {}"
    using slack_covers [of as] slack_covers [of cs] unfolding covers_def by blast
  moreover have "payload b \<inter> hdr_area b = {}" by (auto simp: payload_def hdr_area_def)
  ultimately show ?thesis using payload_sub [of b] nf by (auto simp: bs)
qed

lemma covers_brk: "layout s bs \<Longrightarrow> covers bs \<subseteq> {0 ..< unat (brk s)}"
  by (auto simp: covers_def area_def dest!: layout_blkD(3))

subsection \<open>Splitting and merging keep the blocks in use\<close>

lemma reflag_bounds [simp]:
  "lo (Blk (adr b) (siz b) f) = lo b" "hi (Blk (adr b) (siz b) f) = hi b"
  by (simp_all add: lo_def hi_def)

lemma coalesced_append:
  "coalesced (as @ bs) \<longleftrightarrow>
     coalesced as \<and> coalesced bs \<and> (as = [] \<or> bs = [] \<or> parted (last as) (hd bs))"
  by (auto simp: coalesced_def successively_append_iff)

lemma coalesced_Cons:
  "coalesced (b # bs) \<longleftrightarrow> coalesced bs \<and> (bs = [] \<or> parted b (hd bs))"
  by (auto simp: coalesced_def successively_Cons)

lemma coalesced_Nil [simp]: "coalesced []"
  by (simp add: coalesced_def)

lemmas coalesced_simps = coalesced_append coalesced_Cons

lemma parted_used [simp]: "\<not> fre b \<Longrightarrow> parted b c" "\<not> fre c \<Longrightarrow> parted b c"
  by (simp_all add: parted_def)

lemma split_abs_props:
  assumes lay: "layout s (as @ b # cs)" and n: "unat n \<le> unat (siz b)"
  obtains b' rs where "split_abs n b = b' # rs" and "adr b' = adr b" and "fre b' = fre b"
    and "unat n \<le> unat (siz b')" and "used rs = []" and "area b' \<union> covers rs = area b"
    and "coalesced cs \<and> (cs = [] \<or> parted (Blk (adr b) (siz b) True) (hd cs)) \<longrightarrow>
      coalesced (Blk (adr b) (siz b') False # rs @ cs)"
proof (cases "unat n + 40 \<le> unat (siz b)")
  case True
  define r where "r = Blk (adr b + 32 + n) (siz b - n - 32) True"
  note f = split_abs_facts [OF lay n True, folded r_def]
  have "area (Blk (adr b) n (fre b)) \<union> covers [r] = area b"
    using f(2,3) True by (auto simp: area_def lo_def hi_def)
  moreover have "parted r c \<longleftrightarrow> parted (Blk (adr b) (siz b) True) c" for c
    using f(3) by (simp add: parted_def) (simp add: r_def)
  ultimately show ?thesis
    by (intro that [of "Blk (adr b) n (fre b)" "[r]"])
      (use f in \<open>auto simp: r_def coalesced_simps\<close>)
next
  case False
  then show ?thesis
    by (intro that [of b "[]"]) (use n in \<open>auto simp: split_abs_def coalesced_simps\<close>)
qed

text \<open>Merging a used block with its successor keeps the blocks in use, up to the size
  of the merged block.\<close>

lemma coalesce_abs_props:
  assumes lay: "layout s (as @ b # cs)" and nf: "coalesced cs"
  obtains b' cs' where "coalesce_abs b cs = b' # cs'" and "adr b' = adr b" and "fre b' = fre b"
    and "unat (siz b) \<le> unat (siz b')" and "used cs' = used cs"
    and "area b' \<union> covers cs' = area b \<union> covers cs" and "coalesced cs'"
    and "cs' = [] \<or> parted (Blk (adr b') (siz b') True) (hd cs')"
    and "area b' \<subseteq> area b \<union> slack cs" and "slack cs' \<subseteq> slack cs"
proof (cases cs)
  case Nil
  then show ?thesis by (intro that [of b "[]"]) (auto simp: coalesce_abs_def)
next
  case (Cons c ds)
  show ?thesis
  proof (cases "fre c \<and> hi b = lo c")
    case True
    have lay': "layout s (as @ b # c # ds)" using lay Cons by simp
    note j = join_facts [OF lay' conjunct2 [OF True]]
    have "area (join b c) = area b \<union> area c"
      using j(2,3) True layout_blkD(6) [OF lay', of b] layout_blkD(6) [OF lay', of c]
      by (auto simp: area_def)
    moreover have "parted (Blk (adr (join b c)) (siz (join b c)) True) d \<longleftrightarrow> parted c d" for d
      using j(3) True by (simp add: parted_def)
    ultimately show ?thesis
      by (intro that [of "join b c" ds]) (use j True Cons nf in \<open>auto simp: coalesce_abs_def coalesced_simps\<close>)
  next
    case False
    then have "parted (Blk (adr b) (siz b) True) c" by (auto simp: parted_def)
    with False show ?thesis
      by (intro that [of b cs]) (use Cons nf in \<open>auto simp: coalesce_abs_def\<close>)
  qed
qed

lemma merge_abs_props:
  assumes lay: "layout s (as @ b # cs)" and co: "coalesced as" "coalesced cs" and b: "fre b"
  shows "used (merge_abs as b cs) = used (as @ cs)" (is ?u)
    and "covers (merge_abs as b cs) = covers (as @ b # cs)" (is ?c)
    and "coalesced (merge_abs as b cs)" (is ?g)
proof -
  obtain b' cs' where b': "coalesce_abs b cs = b' # cs'" "adr b' = adr b" "fre b' = fre b"
    "used cs' = used cs" "area b' \<union> covers cs' = area b \<union> covers cs" "coalesced cs'"
    "cs' = [] \<or> parted (Blk (adr b') (siz b') True) (hd cs')"
    by (rule coalesce_abs_props [OF lay co(2)])
  have t: "Blk (adr b') (siz b') True = b'" using b b'(3) by (cases b') simp
  have "?u \<and> ?c \<and> ?g"
  proof (cases "as = [] \<or> \<not> fre (last as)")
    case True
    then show ?thesis
      using b b' t co(1) by (auto simp: merge_abs_def coalesced_simps)
  next
    case False
    then obtain xs p where as: "as = xs @ [p]" "fre p" by (cases as rule: rev_cases) auto
    have lay': "layout s (xs @ p # b' # cs')"
      using coalesce_abs_layout [OF lay] b'(1) as by simp
    have "coalesced (b' # cs')" using b'(6,7) t by (simp add: coalesced_Cons)
    from coalesce_abs_props [OF lay' this] obtain p' ds where p':
      "coalesce_abs p (b' # cs') = p' # ds" "adr p' = adr p" "fre p' = fre p"
      "used ds = used (b' # cs')" "area p' \<union> covers ds = area p \<union> covers (b' # cs')" "coalesced ds"
      "ds = [] \<or> parted (Blk (adr p') (siz p') True) (hd ds)"
      by metis
    have t': "Blk (adr p') (siz p') True = p'" using as p'(3) by (cases p') simp
    have "parted x p' \<longleftrightarrow> parted x p" for x using p'(2,3) by (simp add: parted_def lo_def)
    then have "coalesced (xs @ p' # ds)"
      using p'(6,7) t' co(1) as by (auto simp: coalesced_simps)
    moreover have "merge_abs as b cs = xs @ p' # ds" using False as b'(1) p'(1)
      by (simp add: merge_abs_def)
    ultimately show ?thesis using p' as b b' by auto
  qed
  then show ?u ?c ?g by simp_all
qed

subsection \<open>Extending the heap\<close>

lemma append_block_refines:
  assumes ok: "arena_ok s k bs" and lay: "layout s (bs @ [b])" and nf: "\<not> fre b"
  obtains s' where "append_block k (adr b) (siz b) s = Some s'" and "arena_ok s' k (bs @ [b])"
    and "touches k (hdr_areas bs \<union> hdr_area b) s s'"
proof -
  have "mapped s (adr b) 32" using layout_blkD [OF lay, of b] by simp
  then obtain s1 where s1:
    "store_header (adr b) (header_of (int k) b (last_adr 0 bs) 0) s = Some s1"
    "hdrs s1 (adr b) = Some (header_of (int k) b (last_adr 0 bs) 0)"
    "touches k (hdr_area b) s s1" "arena_pool s1 = arena_pool s"
    by (rule store_blk)
  have far: "hdr_area x \<inter> hdr_area b = {}" if "x \<in> set bs" for x
    using layout_distance [OF lay that, of b] by (simp add: hdr_area_disjoint)
  have ok1: "arena_ok s1 k bs"
    using ok s1(4) linked_frame_touches [OF _ s1(3), of "int k" 0 bs 0] far by (simp add: arena_ok_def)
  have hdr: "\<lparr>h_arena = int k, h_freed = 0, h_size = siz b, h_prev = last_adr 0 bs, h_next = 0\<rparr> =
      header_of (int k) b (last_adr 0 bs) 0"
    using nf by (simp add: header_of_def)
  have k: "k < length (arena_pool s)" and ends: "a_head (arena_pool s ! k) = first_adr bs 0"
    "a_tail (arena_pool s ! k) = last_adr 0 bs" using ok by (simp_all add: arena_ok_def)
  show ?thesis
  proof (cases bs rule: rev_cases)
    case Nil
    define s2 where "s2 = set_tail k (adr b) (set_head k (adr b) s1)"
    have "append_block k (adr b) (siz b) s = Some s2"
      using Nil s1(1) ends hdr by (simp add: append_block_def s2_def Let_def)
    moreover have "touches k (hdr_areas bs \<union> hdr_area b) s s2"
      unfolding s2_def
      by (rule touches_trans [OF touches_trans [OF touches_mono [OF s1(3)] set_head_touches]
            set_tail_touches]) simp
    moreover have "arena_ok s2 k (bs @ [b])"
      using Nil s1(2,4) k by (simp add: arena_ok_def s2_def)
    ultimately show ?thesis by (intro that [of s2])
  next
    case (snoc xs t)
    have ok2: "arena_ok s1 k (xs @ t # [])" and lay2: "layout s1 (xs @ t # [])"
      using ok1 lay s1(3) snoc layout_append [of s "xs @ [t]" "[b]"] by simp_all
    have t: "adr t \<noteq> 0" "mapped s1 (adr t) 32" "first_adr bs 0 \<noteq> 0"
      using layout_blkD [OF lay2] snoc by (simp_all, cases xs, simp_all)
    obtain s2 where s2: "store_header (adr t) (header_of (int k) t (last_adr 0 xs) (adr b)) s1 = Some s2"
      "hdrs s2 (adr t) = Some (header_of (int k) t (last_adr 0 xs) (adr b))"
      "touches k (hdr_area t) s1 s2" "arena_pool s2 = arena_pool s1"
      by (rule store_blk [OF t(2)])
    have "append_block k (adr b) (siz b) s = Some (set_tail k (adr b) s2)"
      using snoc s1(1,4) s2(1) ends hdr t load_header_linked [OF ok2 lay2]
      by (simp add: append_block_def Let_def)
    moreover have "touches k (hdr_areas bs \<union> hdr_area b) s (set_tail k (adr b) s2)"
      by (rule touches_trans [OF touches_trans' [OF s1(3) s2(3)]]) (use snoc in auto)
    moreover have "linked (hdrs s2) (int k) 0 xs (adr t)"
      by (rule linked_frame_touches [OF _ s2(3)])
        (use ok2 layout_distance [OF lay2, of _ t] in \<open>auto simp: arena_ok_def hdr_area_disjoint\<close>)
    moreover have "hdrs s2 (adr b) = Some (header_of (int k) b (adr t) 0)"
      using linked_frame_touches [OF _ s2(3), of "int k" "adr t" "[b]" 0] s1(2) far [of t] snoc
      by (simp add: Int_commute)
    ultimately show ?thesis
      using snoc s1(4) s2(2,4) k ends by (intro that) (auto simp: arena_ok_def)
  qed
qed

lemma sbrk_cases:
  assumes sg: "seg_ok s" and i: "unat incr < 2 ^ 63"
  obtains (fail) "sbrk incr s = (- 1, s)" "unat (brk_max s) < unat (brk s) + unat incr"
  | (grow) b where "sbrk incr s = (brk s, s\<lparr>brk := b\<rparr>)" "unat b = unat (brk s) + unat incr"
      "b \<le> brk_max s" "brk s \<noteq> - 1"
proof -
  have si: "sint incr = int (unat incr)" using i by (intro sint_small) simp
  have mx: "unat (brk_max s) < 2 ^ 62" "unat (brk_min s) \<le> unat (brk s)" "unat (brk s) \<le> unat (brk_max s)"
    using sg by (simp_all add: seg_ok_def word_le_nat_alt)
  have nm: "brk s \<noteq> - 1"
  proof
    assume "brk s = - 1"
    then have "unat (brk s) = 2 ^ 64 - 1" by (simp add: unsigned_minus_1_eq_mask mask_eq_exp_minus_1)
    with mx show False by simp
  qed
  show ?thesis
  proof (cases "unat (brk s) + unat incr \<le> unat (brk_max s)")
    case True
    define b :: addr where "b = word_of_int (int (unat (brk s)) + sint incr)"
    have "unat b = unat (brk s) + unat incr"
      unfolding b_def si of_nat_add [symmetric] using True mx
      by (intro unat_word_of_int_small) simp
    moreover have "sbrk incr s = (brk s, s\<lparr>brk := b\<rparr>)"
      unfolding sbrk_def Let_def b_def si of_nat_add [symmetric] of_nat_le_iff using True mx by simp
    ultimately show ?thesis using True nm by (intro grow [of b]) (simp_all add: word_le_nat_alt)
  next
    case False
    then have "sbrk incr s = (- 1, s)"
      unfolding sbrk_def Let_def si of_nat_add [symmetric] of_nat_le_iff by simp
    then show ?thesis using False by (intro fail) simp_all
  qed
qed

text \<open>The outcome of a heap extension: out of memory, with nothing but the contention flag
  changed, or one new block at the end of the list, followed by a free reserve.\<close>

text \<open>\<^verbatim>\<open>extend_arena_heap\<close> by what it sees of other threads: \<open>c\<close> is whether there is contention.\<close>

definition contended :: "sbrk_env \<Rightarrow> heap_state \<Rightarrow> int" where
  "contended e s = (if contention_detected s \<noteq> 0 \<or> e_busy e \<or> e_late e then 1 else 0)"

lemma extend_by_contention:
  assumes mx: "\<not> sbrk_mutex s" and cd: "contention_detected s \<in> {0, 1}"
    and c: "c = contended e s" and res: "res = word_of_int c * 2048" and s0: "s0 = s\<lparr>contention_detected := c\<rparr>"
  shows "extend_arena_heap e k n s =
      (let (b, s1) = sbrk (32 + n + res) (s0\<lparr>sbrk_mutex := True\<rparr>); s1 = s1\<lparr>sbrk_mutex := False\<rparr>
       in if b = - 1 then Some (0, s1)
          else do { s1 \<leftarrow> append_block k b (n + res) s1; s1 \<leftarrow> split_block k b n s1; Some (b, s1) })"
proof -
  let ?t = "if contention_detected s \<noteq> 0 \<or> e_busy e then s\<lparr>contention_detected := 1\<rparr> else s"
  have "(if e_late e then ?t\<lparr>sbrk_mutex := True, contention_detected := 1\<rparr>
         else ?t\<lparr>sbrk_mutex := True\<rparr>) = s0\<lparr>sbrk_mutex := True\<rparr>"
    using cd by (auto simp: s0 c contended_def)
  moreover have "\<not> sbrk_mutex ?t" using mx by simp
  moreover have "contention_detected (s0\<lparr>sbrk_mutex := True\<rparr>) = c" by (simp add: s0)
  ultimately show ?thesis
    unfolding extend_arena_heap_def Let_def sizeof_BlockHeader_def CONTENTION_RESERVE_SIZE_def
    by (simp only: if_False bind.bind_lunit res case_prod_beta)
qed

text \<open>Appending the new region as one block and cutting it to size.\<close>

lemma append_split:
  assumes ok: "arena_ok s k bs" and lay: "layout s (bs @ [b])" and co: "coalesced bs" and nf: "\<not> fre b"
    and n: "8 dvd unat n" "8 \<le> unat n" "unat n \<le> unat (siz b)"
  obtains s2 s3 b' rs where "append_block k (adr b) (siz b) s = Some s2" "split_block k (adr b) n s2 = Some s3"
    "adr b' = adr b" "arena_ok s3 k (bs @ b' # rs)" "layout s3 (bs @ b' # rs)" "coalesced (bs @ b' # rs)"
    "\<not> fre b'" "unat n \<le> unat (siz b')" "used rs = []" "area b' \<union> covers rs = area b"
    "touches k (hdr_areas bs \<union> area b) s s3"
proof -
  obtain s2 where s2: "append_block k (adr b) (siz b) s = Some s2" "arena_ok s2 k (bs @ [b])"
    "touches k (hdr_areas bs \<union> hdr_area b) s s2"
    by (rule append_block_refines [OF ok lay nf])
  have lay2: "layout s2 (bs @ b # [])" using lay s2(3) by simp
  obtain s3 where s3: "split_block k (adr b) n s2 = Some s3" "arena_ok s3 k (bs @ split_abs n b @ [])"
    "touches k ({lo b + 32 + unat n ..< hi b} \<union> hdr_areas [b]) s2 s3"
    by (rule split_block_refines [OF s2(2) lay2 n(3)])
  have lay3: "layout s3 (bs @ split_abs n b @ [])"
    using split_abs_layout [OF lay2 n(3,1,2)] s3(3) by simp
  obtain b' rs where b': "split_abs n b = b' # rs" "adr b' = adr b" "fre b' = fre b"
    "unat n \<le> unat (siz b')" "used rs = []" "area b' \<union> covers rs = area b"
    "coalesced (Blk (adr b) (siz b') False # rs)"
    by (rule split_abs_props [OF lay2 n(3)]) simp
  have "Blk (adr b) (siz b') False = b'" using b'(2,3) nf by (cases b') simp
  moreover have "touches k (hdr_areas bs \<union> area b) s s3"
    by (rule touches_trans' [OF s2(3) s3(3)]) (use hdr_area_sub [of b] in \<open>auto simp: area_def\<close>)
  ultimately show ?thesis
    using s2(1) s3(1,2) lay3 b' co nf by (intro that [of s2 s3 b' rs]) (simp_all add: coalesced_append)
qed

lemma extend_refines:
  assumes ok: "arena_ok s k bs" and lay: "layout s bs" and co: "coalesced bs"
    and mx: "\<not> sbrk_mutex s" and cd: "contention_detected s \<in> {0, 1}"
    and n: "8 dvd unat n" "8 \<le> unat n" "unat n < 2 ^ 62"
  obtains (null) s' where "extend_arena_heap e k n s = Some (0, s')" "arena_ok s' k bs"
      "evolves k {} s s'" "layout s' bs" "unat (brk_max s) < unat (brk s) + unat n + 2080"
  | (block) s' b rs where "extend_arena_heap e k n s = Some (adr b, s')" "arena_ok s' k (bs @ b # rs)"
      "layout s' (bs @ b # rs)" "coalesced (bs @ b # rs)" "\<not> fre b" "unat n \<le> unat (siz b)"
      "used rs = []" "area b \<union> covers rs = {unat (brk s) ..< unat (brk s')}"
      "evolves k (hdr_areas bs \<union> {unat (brk s) ..< unat (brk s')}) s s'"
proof -
  define c where "c = contended e s"
  define res :: size_t where "res = word_of_int c * 2048"
  define s0 where "s0 = s\<lparr>contention_detected := c\<rparr>"
  have sg: "seg_ok s" using lay by (simp add: layout_def)
  have res: "unat res \<in> {0, 2048}" by (simp add: res_def c_def contended_def)
  have nr: "unat (n + res) = unat n + unat res"
    using n res by (intro unat_plus_no_wrap) auto
  have inc: "unat (32 + n + res) = 32 + unat n + unat res"
    using n res nr by (subst add.assoc, subst unat_plus_no_wrap) auto
  have sg0: "seg_ok s0" using sg by (simp add: seg_ok_def s0_def)
  have ok0: "arena_ok s0 k bs" using ok by (simp add: arena_ok_def s0_def)
  have lay0: "layout s0 bs" using lay sg0 by (simp add: layout_def blk_ok_def s0_def)
  have ev0: "evolves k {} s s0" by (simp add: evolves_def s0_def c_def contended_def)
  note ext = extend_by_contention [OF mx cd c_def res_def s0_def]
  have "seg_ok (s0\<lparr>sbrk_mutex := True\<rparr>)" using sg0 by (simp add: seg_ok_def)
  moreover have "unat (32 + n + res) < 2 ^ 63" using inc n res by auto
  ultimately show ?thesis
  proof (cases rule: sbrk_cases)
    case fail
    moreover have "s0\<lparr>sbrk_mutex := False\<rparr> = s0" using mx by (simp add: s0_def)
    ultimately have "extend_arena_heap e k n s = Some (0, s0)" by (simp add: ext Let_def)
    moreover have "unat (brk_max s) < unat (brk s) + unat n + 2080"
      using fail(2) inc res by (auto simp: s0_def)
    ultimately show ?thesis using ok0 ev0 lay0 by (intro null)
  next
    case (grow b1)
    define s1 where "s1 = s0\<lparr>brk := b1\<rparr>"
    define b where "b = Blk (brk s) (n + res) False"
    have b1: "unat b1 = hi b" using grow(2) inc nr by (simp add: b_def hi_def s0_def)
    have "8 dvd unat b1" "8 dvd lo b"
      using sg n res grow(2) inc by (auto simp: seg_ok_def s0_def b_def lo_def)
    then have sg1: "seg_ok s1" and ok_b: "blk_ok s1 b"
      using sg grow(2,3) n res nr b1
      by (auto simp: seg_ok_def blk_ok_def s1_def s0_def b_def lo_def hi_def word_le_nat_alt)
    have ev1: "evolves k {} s s1" using ev0 grow(2) by (simp add: evolves_def s1_def s0_def)
    have "layout s1 bs" using ev1 sg1 lay by (rule evolves_layout)
    moreover have "hi x \<le> lo b" if "x \<in> set bs" for x
      using layout_blkD(3) [OF lay that] by (simp add: b_def lo_def)
    ultimately have lay1: "layout s1 (bs @ [b])"
      using ok_b sg1 by (simp add: layout_append layout_def [of s1 "[b]"])
    have ok1: "arena_ok s1 k bs" using ok0 by (simp add: arena_ok_def s1_def)
    obtain s2 s3 b' rs where r: "append_block k (adr b) (siz b) s1 = Some s2" "split_block k (adr b) n s2 = Some s3"
      "adr b' = adr b" "arena_ok s3 k (bs @ b' # rs)" "layout s3 (bs @ b' # rs)" "coalesced (bs @ b' # rs)"
      "\<not> fre b'" "unat n \<le> unat (siz b')" "used rs = []" "area b' \<union> covers rs = area b"
      "touches k (hdr_areas bs \<union> area b) s1 s3"
      by (rule append_split [OF ok1 lay1 co _ n(1,2)]) (use nr in \<open>simp_all add: b_def\<close>)
    have "s0\<lparr>sbrk_mutex := True, brk := b1, sbrk_mutex := False\<rparr> = s1"
      using mx by (simp add: s0_def s1_def)
    then have "extend_arena_heap e k n s = Some (adr b', s3)"
      using grow r(1,2,3) by (simp add: ext Let_def b_def s0_def)
    moreover have "unat (brk s3) = hi b" "lo b = unat (brk s)"
      using touches_fields(2) [OF r(11)] b1 by (simp_all add: s1_def b_def lo_def)
    moreover have "evolves k (hdr_areas bs \<union> area b) s s3"
      using ev1 touches_evolves [OF r(11)] by (meson evolves_trans empty_subsetI order_refl)
    ultimately show ?thesis using r(4-10) by (intro block [of b' s3 rs]) (simp_all add: area_def)
  qed
qed

subsection \<open>Allocating in an arena\<close>

lemma first_fit_abs_cases:
  obtains (none) "first_fit_abs n bs = 0"
  | (hit) as b cs where "bs = as @ b # cs" "fre b" "unat n \<le> unat (siz b)" "first_fit_abs n bs = adr b"
proof (cases "find (\<lambda>b. fre b \<and> n \<le> siz b) bs")
  case None
  then show ?thesis by (intro none) (simp add: first_fit_abs_def)
next
  case (Some b)
  then have "b \<in> set bs" "fre b" "n \<le> siz b" by (auto simp: find_Some_iff)
  then show ?thesis using Some split_list [of b bs]
    by (auto intro: hit simp: first_fit_abs_def word_le_nat_alt)
qed

lemma arena_malloc_refines:
  assumes ok: "arena_ok s k bs" and lay: "layout s bs" and co: "coalesced bs"
    and mx: "\<not> sbrk_mutex s" and cd: "contention_detected s \<in> {0, 1}"
    and n: "8 dvd unat n" "8 \<le> unat n" "unat n < 2 ^ 62"
  obtains (null) s' where "arena_malloc e k n s = Some (0, s')" "arena_ok s' k bs"
      "evolves k {} s s'" "layout s' bs" "unat (brk_max s) < unat (brk s) + unat n + 2080"
  | (block) s' as b cs where "arena_malloc e k n s = Some (adr b + 32, s')"
      "arena_ok s' k (as @ b # cs)" "layout s' (as @ b # cs)" "coalesced (as @ b # cs)"
      "\<not> fre b" "unat n \<le> unat (siz b)" "used as @ used cs = used bs"
      "covers (as @ b # cs) \<subseteq> covers bs \<union> {unat (brk s) ..< unat (brk s')}"
      "evolves k (slack bs \<union> {unat (brk s) ..< unat (brk s')}) s s'"
      "slack (as @ b # cs) \<union> area b \<subseteq> slack bs \<union> {unat (brk s) ..< unat (brk s')}"
proof -
  have "a_head (arena_pool s ! k) = first_adr bs 0" "linked (hdrs s) (int k) 0 bs 0"
    using ok by (simp_all add: arena_ok_def)
  then have fh: "first_hit (a_head (arena_pool s ! k)) n s = Some (first_fit_abs n bs)"
    using first_hit_linked [of s "int k" 0 bs n] layout_blkD(2) [OF lay] by simp
  show ?thesis
  proof (cases rule: first_fit_abs_cases [of n bs])
    case none
    from ok lay co mx cd n show ?thesis
    proof (cases rule: extend_refines [of s k bs n e])
      case (null s')
      then show ?thesis using fh none
        by (intro that(1) [of s']) (simp_all add: arena_malloc_def)
    next
      case (block s' b rs)
      have "adr b \<noteq> 0" using layout_blkD(2) [OF block(3), of b] by simp
      then have "arena_malloc e k n s = Some (adr b + 32, s')"
        using fh none block(1) by (simp add: arena_malloc_def get_payload_def sizeof_BlockHeader_def)
      moreover have "evolves k (slack bs \<union> {unat (brk s) ..< unat (brk s')}) s s'"
        using block(9) by (rule evolves_mono) (use hdr_areas_slack in auto)
      moreover have "slack (bs @ b # rs) \<union> area b \<subseteq> slack bs \<union> {unat (brk s) ..< unat (brk s')}"
        using block(8) slack_covers [of rs] hdr_area_sub [of b] by auto
      ultimately show ?thesis using block by (intro that(2) [of b s' bs rs]) auto
    qed
  next
    case (hit as b cs)
    have ok': "arena_ok s k (as @ b # cs)" and lay': "layout s (as @ b # cs)"
      and co': "coalesced (as @ b # cs)" and nz: "adr b \<noteq> 0"
      using ok lay co hit(1) layout_blkD(2) [OF lay, of b] by simp_all
    obtain s1 where s1: "split_block k (adr b) n s = Some s1"
      "arena_ok s1 k (as @ split_abs n b @ cs)"
      "touches k ({lo b + 32 + unat n ..< hi b} \<union> hdr_areas (b # cs)) s s1"
      by (rule split_block_refines [OF ok' lay' hit(3)])
    obtain b' rs where b': "split_abs n b = b' # rs" "adr b' = adr b" "fre b' = fre b"
      "unat n \<le> unat (siz b')" "used rs = []" "area b' \<union> covers rs = area b"
      "coalesced cs \<and> (cs = [] \<or> parted (Blk (adr b) (siz b) True) (hd cs)) \<longrightarrow>
        coalesced (Blk (adr b) (siz b') False # rs @ cs)"
      by (rule split_abs_props [OF lay' hit(3)])
    have lay1: "layout s1 (as @ b' # rs @ cs)" and ok1: "arena_ok s1 k (as @ b' # rs @ cs)"
      using split_abs_layout [OF lay' hit(3) n(1,2)] s1(2,3) b'(1) by simp_all
    define u where "u = Blk (adr b') (siz b') False"
    have u: "adr u = adr b" "siz u = siz b'" "\<not> fre u" "lo u = lo b'" "hi u = hi b'" "area u = area b'"
      using b'(2) by (simp_all add: u_def area_def lo_def hi_def)
    obtain s2 where s2:
      "store_header (adr b') (header_of (int k) u (last_adr 0 as) (first_adr (rs @ cs) 0)) s1 = Some s2"
      "arena_ok s2 k (as @ u # rs @ cs)" "touches k (hdr_area b') s1 s2"
      by (rule store_in_place [OF ok1 lay1, of u]) (simp_all add: u_def)
    have "layout s2 (as @ u # rs @ cs)"
      using lay1 s2(3) u by (simp add: layout_split blk_ok_def)
    moreover have "coalesced (as @ u # rs @ cs)"
    proof -
      have "b = Blk (adr b) (siz b) True" using hit(2) by (cases b) simp
      with co' b'(7) show ?thesis by (auto simp: coalesced_append coalesced_Cons u_def b'(2))
    qed
    moreover have "arena_malloc e k n s = Some (adr u + 32, s2)"
    proof -
      have "(header_of (int k) b' (last_adr 0 as) (first_adr (rs @ cs) 0))\<lparr>h_freed := 0\<rparr> =
          header_of (int k) u (last_adr 0 as) (first_adr (rs @ cs) 0)"
        by (simp add: header_of_def u_def)
      then show ?thesis
        using fh hit(4) nz s1(1) s2(1) b'(2) u(1) load_header_linked [OF ok1 lay1]
        by (simp add: arena_malloc_def get_payload_def sizeof_BlockHeader_def)
    qed
    moreover have "evolves k (slack bs \<union> {unat (brk s) ..< unat (brk s2)}) s s2"
      by (rule touches_evolves, rule touches_trans' [OF s1(3) s2(3)])
        (use hit(1,2) hdr_areas_slack [of cs] b'(2) in \<open>auto simp: area_def hdr_area_def lo_def\<close>)
    moreover have "slack (as @ u # rs @ cs) \<union> area u \<subseteq> slack bs"
      using u b'(6) hit(1,2) slack_covers [of rs] hdr_area_sub [of u] by auto
    ultimately show ?thesis
      using s2(2) u b'(4,5,6) hit(1,2) by (intro that(2) [of u s2 as "rs @ cs"]) auto
  qed
qed

subsection \<open>Freeing in an arena\<close>

lemma arena_free_props:
  assumes ok: "arena_ok s k (as @ b # cs)" and lay: "layout s (as @ b # cs)"
    and co: "coalesced (as @ b # cs)"
  obtains s' bs where "arena_free k (adr b) s = Some s'" "arena_ok s' k bs" "layout s' bs" "coalesced bs"
    "used bs = used as @ used cs" "covers bs = covers (as @ b # cs)"
    "touches k (hdr_areas (as @ b # cs)) s s'"
proof -
  define b' where "b' = Blk (adr b) (siz b) True"
  have lay': "layout s (as @ b' # cs)"
    using lay by (simp add: layout_split blk_ok_def b'_def)
  have co': "coalesced as" "coalesced cs" and "fre b'" and ar: "area b' = area b"
    using co by (simp_all add: coalesced_simps b'_def area_def)
  note m = merge_abs_props [OF lay' co' \<open>fre b'\<close>]
  obtain s' where "arena_free k (adr b) s = Some s'" "arena_ok s' k (merge_abs as b' cs)"
    "layout s' (merge_abs as b' cs)" "touches k (hdr_areas (as @ b # cs)) s s'"
    by (rule arena_free_refines [OF ok lay]) (simp add: b'_def)
  then show ?thesis using m ar by (intro that [of s' "merge_abs as b' cs"]) simp_all
qed

subsection \<open>Copying payload bytes\<close>

lemma store_bytes_Some:
  assumes m: "mapped s p (length xs)"
  obtains s' where "store_bytes p xs s = Some s'"
    and "touches k {unat p ..< unat p + length xs} s s'" and "arena_pool s' = arena_pool s"
    and "\<And>i. i < length xs \<Longrightarrow> bytes s' (p + of_nat i) = xs ! i"
proof -
  have "unat (p + of_nat i) = unat p + i" if "i < length xs" for i
  proof -
    have "unat p + length xs < 2 ^ 64"
      using m unat_max_64 [of "brk s"] by (simp add: mapped_def)
    moreover from this that have "unat (of_nat i :: addr) = i" by (simp add: unat_of_nat)
    ultimately show ?thesis using that by (subst unat_plus_no_wrap) simp_all
  qed
  then have "bytes (the (store_bytes p xs s)) (p + of_nat i) = xs ! i" if "i < length xs" for i
    using m that by (auto simp: store_bytes_def overlap_def)
  then show ?thesis
    using m by (intro that [of "the (store_bytes p xs s)"])
      (auto simp: store_bytes_def touches_def overlap_def disjoint_iff)
qed

lemma arena_ok_touches:
  assumes "arena_ok s k bs" and "touches k R s s'" and "arena_pool s' = arena_pool s"
    and "hdr_areas bs \<inter> R = {}"
  shows "arena_ok s' k bs"
proof -
  have "linked (hdrs s') (int k) 0 bs 0"
    by (rule linked_frame_touches [OF _ assms(2)])
      (use assms(1,4) in \<open>auto simp: arena_ok_def hdr_areas_def\<close>)
  with assms show ?thesis by (simp add: arena_ok_def)
qed

lemma payload_hdr_areas:
  assumes "layout s bs" and "b \<in> set bs"
  shows "hdr_areas bs \<inter> payload b = {}"
proof -
  from assms(2) obtain as cs where bs: "bs = as @ b # cs" by (auto dest: split_list)
  have "payload b \<inter> hdr_area x = {}" if "x \<in> set as \<union> set cs" for x
    using assms(1) that layout_distance [of s as "b # cs" x b]
    unfolding bs layout_split payload_def hdr_area_def by fastforce
  moreover have "payload b \<inter> hdr_area b = {}" by (auto simp: payload_def hdr_area_def)
  ultimately show ?thesis unfolding bs hdr_areas_def by auto
qed

subsection \<open>Resizing in an arena\<close>

text \<open>Growing or shrinking in place: the block keeps its address and the bytes both sizes share.\<close>

lemma arena_realloc_in_place:
  assumes ok: "arena_ok s k (as @ b # cs)" and lay: "layout s (as @ b # cs)"
    and co: "coalesced (as @ b # cs)" and nf: "\<not> fre b" and n: "8 dvd unat n" "8 \<le> unat n"
    and fit: "unat n \<le> unat (siz (hd (coalesce_abs b cs)))"
  obtains s' d ds where "arena_realloc e k (adr b) n s = Some (adr d + 32, s')" "adr d = adr b"
    "arena_ok s' k (as @ d # ds)" "layout s' (as @ d # ds)" "coalesced (as @ d # ds)" "\<not> fre d"
    "unat n \<le> unat (siz d)" "used ds = used cs" "covers (as @ d # ds) = covers (as @ b # cs)"
    "touches k (slack (as @ cs) \<union> hdr_area b \<union> {lo b + 32 + unat n ..< hi b}) s s'"
proof -
  have coc: "coalesced cs" "coalesced as" using co by (simp_all add: coalesced_simps)
  obtain b' cs' where b': "coalesce_abs b cs = b' # cs'" "adr b' = adr b" "fre b' = fre b"
    "unat (siz b) \<le> unat (siz b')" "used cs' = used cs"
    "area b' \<union> covers cs' = area b \<union> covers cs" "coalesced cs'"
    "cs' = [] \<or> parted (Blk (adr b') (siz b') True) (hd cs')"
    "area b' \<subseteq> area b \<union> slack cs" "slack cs' \<subseteq> slack cs"
    by (rule coalesce_abs_props [OF lay coc(1)])
  obtain s1 where s1: "coalesce_with_next k (adr b) s = Some s1"
    "arena_ok s1 k (as @ coalesce_abs b cs)" "touches k (hdr_areas (b # cs)) s s1"
    by (rule coalesce_refines [OF ok lay])
  have ok1: "arena_ok s1 k (as @ b' # cs')" and lay1: "layout s1 (as @ b' # cs')"
    using s1(2,3) coalesce_abs_layout [OF lay] b'(1) by simp_all
  have nb: "unat n \<le> unat (siz b')" using fit b'(1) by simp
  obtain s2 where s2: "split_block k (adr b') n s1 = Some s2"
    "arena_ok s2 k (as @ split_abs n b' @ cs')"
    "touches k ({lo b' + 32 + unat n ..< hi b'} \<union> hdr_areas (b' # cs')) s1 s2"
    by (rule split_block_refines [OF ok1 lay1 nb])
  obtain d rs where d: "split_abs n b' = d # rs" "adr d = adr b'" "fre d = fre b'"
    "unat n \<le> unat (siz d)" "used rs = []" "area d \<union> covers rs = area b'"
    "coalesced cs' \<and> (cs' = [] \<or> parted (Blk (adr b') (siz b') True) (hd cs')) \<longrightarrow>
      coalesced (Blk (adr b') (siz d) False # rs @ cs')"
    by (rule split_abs_props [OF lay1 nb])
  have ed: "Blk (adr b') (siz d) False = d" using d(2,3) b'(3) nf by (cases d) simp
  have lo': "lo b' = lo b" using b'(2) by (simp add: lo_def)
  have "arena_realloc e k (adr b) n s = Some (adr d + 32, s2)"
    using s1(1) s2(1) b'(2) d(2) nb load_header_linked [OF ok lay] load_header_linked [OF ok1 lay1]
    by (simp add: arena_realloc_def Let_def get_payload_def sizeof_BlockHeader_def word_le_nat_alt)
  moreover have "touches k (slack (as @ cs) \<union> hdr_area b \<union> {lo b + 32 + unat n ..< hi b}) s s2"
  proof (rule touches_trans' [OF s1(3) s2(3)])
    have "{lo b' + 32 + unat n ..< hi b'} \<subseteq> {lo b + 32 + unat n ..< hi b} \<union> slack cs"
    proof
      fix x
      assume x: "x \<in> {lo b' + 32 + unat n ..< hi b'}"
      then have "x \<in> area b'" by (simp add: area_def)
      with b'(9) have "x \<in> area b \<union> slack cs" by blast
      with x lo' show "x \<in> {lo b + 32 + unat n ..< hi b} \<union> slack cs" by (auto simp: area_def)
    qed
    moreover have "hdr_areas cs' \<subseteq> slack cs" using b'(10) hdr_areas_slack by blast
    ultimately show "{lo b' + 32 + unat n ..< hi b'} \<union> hdr_areas (b' # cs')
        \<subseteq> slack (as @ cs) \<union> hdr_area b \<union> {lo b + 32 + unat n ..< hi b}"
      using lo' by (auto simp: hdr_area_def)
  qed (use hdr_areas_slack [of cs] in auto)
  moreover have "layout s2 (as @ d # rs @ cs')"
    using split_abs_layout [OF lay1 nb n] s2(3) d(1) by simp
  ultimately show ?thesis
    using b' d ed nf coc(2) s2(2) by (intro that [of d s2 "rs @ cs'"]) (auto simp: coalesced_append)
qed

lemma layout_distinct: "layout s bs \<Longrightarrow> distinct bs"
proof (induction bs)
  case (Cons b bs)
  then have "layout s bs" and *: "\<forall>x \<in> set bs. hi b \<le> lo x" by (simp_all add: layout_def)
  moreover have "b \<notin> set bs" using * layout_blkD(6) [OF Cons.prems, of b] by fastforce
  ultimately show ?case using Cons.IH by simp
qed simp

lemma payload_adr:
  assumes "layout s bs" and "b \<in> set bs" and "i < unat (siz b)"
  shows "unat (adr b + 32 + of_nat i) = lo b + 32 + i" and "lo b + 32 + i \<in> payload b"
proof -
  note f = layout_blkD [OF assms(1,2)]
  have "hi b = lo b + 32 + unat (siz b)" by (simp add: lo_def hi_def)
  moreover from this have "unat (of_nat i :: addr) = i" using f(4) assms(3) by (simp add: unat_of_nat)
  ultimately show "unat (adr b + 32 + of_nat i) = lo b + 32 + i" "lo b + 32 + i \<in> payload b"
    using f(4,10) assms(3) by (subst unat_plus_no_wrap, simp_all add: payload_def)
qed

text \<open>Moving: when the block cannot grow in place, either memory is out and the block stays
  (possibly merged with the free block behind it), or its bytes are copied to a new block.\<close>

text \<open>Copying the data of a block into another one and freeing it.\<close>

lemma move_block:
  assumes ok: "arena_ok s k L" and lay: "layout s L" and co: "coalesced L"
    and d: "d \<in> set L" and b: "b \<in> set L" "b \<noteq> d" and m: "m \<le> unat (siz b)" "m \<le> unat (siz d)"
  obtains old s3 s4 ds where "load_bytes (adr b + 32) m s = Some old"
    "store_bytes (adr d + 32) old s = Some s3" "arena_free k (adr b) s3 = Some s4"
    "arena_ok s4 k ds" "layout s4 ds" "coalesced ds" "set (used ds) = set (used L) - {b}"
    "covers ds = covers L" "touches k (payload d \<union> hdr_areas L) s s4"
    "\<And>i. i < m \<Longrightarrow> bytes s4 (adr d + 32 + of_nat i) = bytes s (adr b + 32 + of_nat i)"
proof -
  obtain ps qs where pq: "L = ps @ b # qs" using b(1) by (meson split_list)
  have dis: "distinct (ps @ b # qs)" using layout_distinct [OF lay] pq by simp
  have mp: "mapped s (adr b + 32) m" "mapped s (adr d + 32) m"
    using layout_blkD(9) [OF lay b(1)] layout_blkD(9) [OF lay d] m by (simp_all add: mapped_def)
  define old where "old = map (\<lambda>i. bytes s (adr b + 32 + of_nat i)) [0..<m]"
  have ld: "load_bytes (adr b + 32) m s = Some old" using mp(1) by (simp add: load_bytes_def old_def)
  obtain s3 where s3: "store_bytes (adr d + 32) old s = Some s3"
    "touches k {unat (adr d + 32) ..< unat (adr d + 32) + length old} s s3"
    "arena_pool s3 = arena_pool s"
    "\<And>i. i < length old \<Longrightarrow> bytes s3 (adr d + 32 + of_nat i) = old ! i"
    by (rule store_bytes_Some [of s "adr d + 32" old k]) (use mp(2) in \<open>simp_all add: old_def\<close>)
  have t3: "touches k (payload d) s s3"
    using s3(2) by (rule touches_mono)
      (use m layout_blkD(10) [OF lay d] in \<open>auto simp: payload_def old_def lo_def hi_def\<close>)
  have pd: "hdr_areas L \<inter> payload d = {}" by (rule payload_hdr_areas [OF lay d])
  have ok3: "arena_ok s3 k (ps @ b # qs)" and lay3: "layout s3 (ps @ b # qs)" and co3: "coalesced (ps @ b # qs)"
    using arena_ok_touches [OF ok t3 s3(3) pd] lay co t3 pq by simp_all
  obtain s4 ds where s4: "arena_free k (adr b) s3 = Some s4" "arena_ok s4 k ds" "layout s4 ds"
    "coalesced ds" "used ds = used ps @ used qs" "covers ds = covers (ps @ b # qs)"
    "touches k (hdr_areas (ps @ b # qs)) s3 s4"
    by (rule arena_free_props [OF ok3 lay3 co3])
  have "set (used ds) = set (used L) - {b}" using s4(5) dis pq by (auto simp: used_def)
  moreover have "touches k (payload d \<union> hdr_areas L) s s4"
    by (rule touches_trans' [OF t3 s4(7)]) (use pq in auto)
  moreover have "bytes s4 (adr d + 32 + of_nat i) = bytes s (adr b + 32 + of_nat i)" if i: "i < m" for i
  proof -
    have "unat (adr d + 32 + of_nat i) \<in> payload d" using payload_adr [OF lay d, of i] i m by simp
    then have "bytes s4 (adr d + 32 + of_nat i) = bytes s3 (adr d + 32 + of_nat i)"
      using pd unfolding pq by (intro touches_bytes [OF s4(7)]) blast
    then show ?thesis using s3(4) [of i] i by (simp add: old_def)
  qed
  ultimately show ?thesis using ld s3(1) s4 pq by (intro that [of old s3 s4 ds]) simp_all
qed

lemma arena_realloc_move:
  assumes ok: "arena_ok s k (as @ b # cs)" and lay: "layout s (as @ b # cs)"
    and co: "coalesced (as @ b # cs)" and nf: "\<not> fre b"
    and mx: "\<not> sbrk_mutex s" and cd: "contention_detected s \<in> {0, 1}"
    and n: "8 dvd unat n" "8 \<le> unat n" "unat n < 2 ^ 62"
    and big: "\<not> unat n \<le> unat (siz (hd (coalesce_abs b cs)))"
  obtains (null) s' d ds where "arena_realloc e k (adr b) n s = Some (0, s')"
      "adr d = adr b" "arena_ok s' k (as @ d # ds)" "layout s' (as @ d # ds)" "coalesced (as @ d # ds)"
      "\<not> fre d" "unat (siz b) \<le> unat (siz d)" "used ds = used cs"
      "covers (as @ d # ds) \<subseteq> covers (as @ b # cs)" "evolves k (slack (as @ b # cs)) s s'"
  | (moved) s' d ds where "arena_realloc e k (adr b) n s = Some (adr d + 32, s')"
      "arena_ok s' k ds" "layout s' ds" "coalesced ds" "unat n \<le> unat (siz d)" "\<not> fre d"
      "set (used ds) = insert d (set (used as) \<union> set (used cs))"
      "d \<notin> set (used as) \<union> set (used cs)"
      "covers ds \<subseteq> covers (as @ b # cs) \<union> {unat (brk s) ..< unat (brk s')}"
      "evolves k (slack (as @ b # cs) \<union> payload b \<union> {unat (brk s) ..< unat (brk s')}) s s'"
      "\<And>i. i < unat (siz b) \<Longrightarrow>
        bytes s' (adr d + 32 + of_nat i) = bytes s (adr b + 32 + of_nat i)"
proof -
  have coc: "coalesced cs" "coalesced as" using co by (simp_all add: coalesced_simps)
  obtain b' cs' where b': "coalesce_abs b cs = b' # cs'" "adr b' = adr b" "fre b' = fre b"
    "unat (siz b) \<le> unat (siz b')" "used cs' = used cs"
    "area b' \<union> covers cs' = area b \<union> covers cs" "coalesced cs'"
    "cs' = [] \<or> parted (Blk (adr b') (siz b') True) (hd cs')"
    "area b' \<subseteq> area b \<union> slack cs" "slack cs' \<subseteq> slack cs"
    by (rule coalesce_abs_props [OF lay coc(1)])
  obtain s1 where s1: "coalesce_with_next k (adr b) s = Some s1"
    "arena_ok s1 k (as @ coalesce_abs b cs)" "touches k (hdr_areas (b # cs)) s s1"
    by (rule coalesce_refines [OF ok lay])
  have ok1: "arena_ok s1 k (as @ b' # cs')" and lay1: "layout s1 (as @ b' # cs')"
    and co1: "coalesced (as @ b' # cs')" and nf': "\<not> fre b'"
    using s1(2,3) coalesce_abs_layout [OF lay] b'(1,3,7) coc(2) nf by (simp_all add: coalesced_simps)
  have mx1: "\<not> sbrk_mutex s1" and cd1: "contention_detected s1 \<in> {0, 1}" and brk1: "brk s1 = brk s"
    using mx cd touches_fields [OF s1(3)] by simp_all
  have "\<not> n \<le> siz b'" using big b'(1) by (simp add: word_le_nat_alt)
  then have re: "arena_realloc e k (adr b) n s = do {
      (new_ptr, s) \<leftarrow> arena_malloc e k n s1;
      if new_ptr \<noteq> 0
      then do {
        old \<leftarrow> load_bytes (adr b + 32) (unat (siz b)) s;
        s \<leftarrow> store_bytes new_ptr old s;
        s \<leftarrow> arena_free k (adr b) s;
        Some (new_ptr, s) }
      else Some (new_ptr, s) }"
    using s1(1) b'(2) load_header_linked [OF ok lay] load_header_linked [OF ok1 lay1]
    by (simp add: arena_realloc_def Let_def get_payload_def sizeof_BlockHeader_def
        cong: if_cong prod.case_cong)
  have sl: "slack (as @ b' # cs') \<subseteq> slack (as @ b # cs)"
    using b'(2,10) nf nf' by (auto simp: hdr_area_def lo_def)
  have ev1: "evolves k (slack (as @ b # cs)) s s1"
    using touches_evolves [OF s1(3)] by (rule evolves_mono) (use hdr_areas_slack [of cs] in auto)
  from ok1 lay1 co1 mx1 cd1 n show ?thesis
  proof (cases rule: arena_malloc_refines [of s1 k "as @ b' # cs'" n e])
    case (null s2)
    have "evolves k (slack (as @ b # cs)) s s2"
      using ev1 null(3) by (rule evolves_trans) auto
    then show ?thesis using null re b' nf' co1 by (intro that(1) [of s2 b' cs']) auto
  next
    case (block s2 xs d ys)
    let ?L = "xs @ d # ys" and ?new = "{unat (brk s) ..< unat (brk s2)}"
    have fresh: "d \<notin> set (used xs @ used ys)" "b' \<notin> set (used as) \<union> set (used cs)"
      using layout_distinct [OF block(3)] layout_distinct [OF lay1] unfolding b'(5) [symmetric] by (auto simp: used_def)
    have us: "set (used xs @ used ys) = insert b' (set (used as) \<union> set (used cs))"
      unfolding block(7) using nf' b'(5) by auto
    have bin: "b' \<in> set ?L" "b' \<noteq> d" using us fresh(1) by (auto simp: used_def)
    have sz: "unat (siz b) \<le> unat (siz b')" "unat (siz b) \<le> unat (siz d)"
      using block(6) big b'(1,4) by simp_all
    obtain old s3 s4 ds where mv: "load_bytes (adr b' + 32) (unat (siz b)) s2 = Some old"
      "store_bytes (adr d + 32) old s2 = Some s3" "arena_free k (adr b') s3 = Some s4"
      "arena_ok s4 k ds" "layout s4 ds" "coalesced ds" "set (used ds) = set (used ?L) - {b'}"
      "covers ds = covers ?L" "touches k (payload d \<union> hdr_areas ?L) s2 s4"
      "\<And>i. i < unat (siz b) \<Longrightarrow> bytes s4 (adr d + 32 + of_nat i) = bytes s2 (adr b' + 32 + of_nat i)"
      by (rule move_block [OF block(2,3,4) _ bin sz]) simp_all
    have d0: "adr d + 32 \<noteq> 0"
      using layout_blkD(10) [OF block(3), of d] by (auto simp: word_eq_unat)
    have "arena_realloc e k (adr b) n s = Some (adr d + 32, s4)"
      using re block(1) d0 mv(1,2,3) b'(2) by simp
    moreover have "set (used ds) = insert d (set (used as) \<union> set (used cs))"
      using mv(7) us fresh bin(2) block(5) by auto
    moreover have "d \<notin> set (used as) \<union> set (used cs)" using us fresh(1) by auto
    moreover have "covers ds \<subseteq> covers (as @ b # cs) \<union> ?new" using mv(8) block(8) b'(6) brk1 by auto
    moreover have "evolves k (slack (as @ b # cs) \<union> payload b \<union> ?new) s s4"
    proof -
      have sub: "slack ?L \<union> area d \<subseteq> slack (as @ b # cs) \<union> ?new"
        using block(10) sl unfolding brk1 by blast
      have "evolves k (slack (as @ b # cs) \<union> ?new) s s2"
        using ev1 block(9) [unfolded brk1] by (rule evolves_trans) (use sl in blast)+
      moreover have "evolves k (slack (as @ b # cs) \<union> ?new) s2 s4"
        by (rule evolves_mono [OF touches_evolves [OF mv(9)]])
          (use sub payload_sub [of d] hdr_areas_slack [of ?L] in blast)
      ultimately show ?thesis by (rule evolves_trans) blast+
    qed
    moreover have "bytes s4 (adr d + 32 + of_nat i) = bytes s (adr b + 32 + of_nat i)"
      if i: "i < unat (siz b)" for i
    proof -
      have "unat (adr b' + 32 + of_nat i) \<in> payload b'" using payload_adr [OF lay1, of b' i] i sz by simp
      then have "unat (adr b' + 32 + of_nat i) \<notin> slack (as @ b' # cs') \<union> ?new"
        using payload_slack [OF lay1, of b'] covers_brk [OF lay1] payload_sub [of b'] brk1 nf' by fastforce
      then have "bytes s2 (adr b' + 32 + of_nat i) = bytes s1 (adr b' + 32 + of_nat i)"
        using block(9) [unfolded brk1] unfolding evolves_def by blast
      also have "\<dots> = bytes s (adr b + 32 + of_nat i)"
        unfolding b'(2) by (rule touches_bytes [OF s1(3)])
          (use payload_adr [OF lay, of b i] payload_hdr_areas [OF lay, of b] i in auto)
      finally show ?thesis using mv(10) [OF i] by simp
    qed
    moreover have "brk s4 = brk s2" using touches_fields(2) [OF mv(9)] by simp
    ultimately show ?thesis
      using mv(4,5,6) block(5,6) by (intro that(2) [of d s4 ds]) simp_all
  qed
qed

end
