(* ===== verification/Alloc_Api.thy ===== *)
theory Alloc_Api
  imports Alloc_Arena
begin

section \<open>The allocator: malloc, calloc, realloc and free\<close>

text \<open>
  The whole allocator: five arenas in one heap. \<open>heap_ok s B\<close> is the invariant, with
  \<open>B k\<close> the block list of arena \<open>k\<close>; \<open>live B\<close> are the blocks handed out to the
  program. The theorems say that every entry point has a result (no access outside
  the heap, no lock taken twice, no endless search), keeps the invariant, changes the
  set of live blocks as the C library promises, and keeps the bytes of all other live
  blocks.
\<close>

definition heap_ok :: "heap_state \<Rightarrow> (nat \<Rightarrow> blk list) \<Rightarrow> bool" where
  "heap_ok s B \<longleftrightarrow>
     length (arena_pool s) = NUM_ARENAS \<and> seg_ok s \<and> \<not> sbrk_mutex s \<and>
     contention_detected s \<in> {0, 1} \<and>
     (\<forall>k < NUM_ARENAS. \<not> a_lock (arena_pool s ! k) \<and> arena_ok s k (B k) \<and> layout s (B k) \<and>
        coalesced (B k)) \<and>
     (\<forall>i < NUM_ARENAS. \<forall>j < NUM_ARENAS. i \<noteq> j \<longrightarrow> covers (B i) \<inter> covers (B j) = {}) \<and>
     (\<forall>t. thread_arena_id s t = - 1 \<or>
        0 \<le> sint (thread_arena_id s t) \<and> sint (thread_arena_id s t) < int NUM_ARENAS)"

definition live :: "(nat \<Rightarrow> blk list) \<Rightarrow> blk set" where
  "live B = (\<Union>k < NUM_ARENAS. set (used (B k)))"

definition ptr :: "blk \<Rightarrow> addr" where
  "ptr b = adr b + 32"

definition contents :: "heap_state \<Rightarrow> blk \<Rightarrow> byte option list" where
  "contents s b = map (\<lambda>i. bytes s (ptr b + of_nat i)) [0..<unat (siz b)]"

text \<open>A thread has its arena already, or the round-robin counter has not overflowed.\<close>

definition thread_ok :: "nat \<Rightarrow> heap_state \<Rightarrow> bool" where
  "thread_ok t s \<longleftrightarrow> thread_arena_id s t \<noteq> - 1 \<or> 0 \<le> sint (next_arena_id s)"

subsection \<open>Alignment\<close>

lemma unat_and_not_7: "unat ((x :: 64 word) AND NOT 7) = unat x div 8 * 8"
proof -
  have m: "(7 :: 64 word) = mask 3" by (simp add: mask_eq_exp_minus_1)
  have "x AND NOT 7 = push_bit 3 (drop_bit 3 x)"
    unfolding m by (rule bit_eqI) (auto simp: bit_simps)
  then have "x AND NOT 7 = (x div 8) * 8"
    by (simp add: push_bit_eq_mult drop_bit_eq_div)
  moreover have "unat (x div 8) = unat x div 8" by (simp add: unat_div)
  moreover have "unat x div 8 * 8 < 2 ^ 64"
    using unat_max_64 [of x] by (simp add: le_less_trans [OF div_times_less_eq_dividend])
  ultimately show ?thesis by (simp add: unat_word_ariths)
qed

lemma ALIGN8_facts:
  assumes "unat n + 7 < 2 ^ 64"
  shows "unat n \<le> unat (ALIGN8 n)" "unat (ALIGN8 n) < unat n + 8" "8 dvd unat (ALIGN8 n)"
    "ALIGN8 n = 0 \<longleftrightarrow> n = 0" "n \<noteq> 0 \<Longrightarrow> 8 \<le> unat (ALIGN8 n)"
proof -
  have e: "unat (ALIGN8 n) = (unat n + 7) div 8 * 8"
    unfolding ALIGN8_def unat_and_not_7 using assms by (simp add: unat_plus_no_wrap)
  show a: "unat n \<le> unat (ALIGN8 n)" and b: "unat (ALIGN8 n) < unat n + 8" and c: "8 dvd unat (ALIGN8 n)"
    unfolding e by simp_all
  show z: "ALIGN8 n = 0 \<longleftrightarrow> n = 0"
    using a b c by (auto simp: word_eq_unat)
  show "n \<noteq> 0 \<Longrightarrow> 8 \<le> unat (ALIGN8 n)"
    using a c by (metis dvd_imp_le gr0I le_zero_eq unat_eq_zero)
qed

subsection \<open>The invariant under a step of one arena\<close>

lemma heap_okD:
  assumes "heap_ok s B" and "k < NUM_ARENAS"
  shows "arena_ok s k (B k)" "layout s (B k)" "coalesced (B k)" "\<not> a_lock (arena_pool s ! k)"
    "seg_ok s" "\<not> sbrk_mutex s" "contention_detected s \<in> {0, 1}" "length (arena_pool s) = NUM_ARENAS"
  using assms by (simp_all add: heap_ok_def)

lemma heap_ok_cross:
  "heap_ok s B \<Longrightarrow> i < NUM_ARENAS \<Longrightarrow> j < NUM_ARENAS \<Longrightarrow> i \<noteq> j \<Longrightarrow> covers (B i) \<inter> covers (B j) = {}"
  unfolding heap_ok_def by blast

definition locked :: "nat \<Rightarrow> heap_state \<Rightarrow> heap_state" where
  "locked k s = set_arena k ((arena_pool s ! k)\<lparr>a_lock := True\<rparr>) s"

lemma lock_arena_ok:
  "heap_ok s B \<Longrightarrow> k < NUM_ARENAS \<Longrightarrow> lock_arena k s = Some (locked k s)"
  using heap_okD [of s B k] by (simp add: lock_arena_def locked_def)

lemma locked_facts:
  assumes "heap_ok s B" and "k < NUM_ARENAS"
  shows "arena_ok (locked k s) k (B k)" "layout (locked k s) (B k)"
    "\<not> sbrk_mutex (locked k s)" "contention_detected (locked k s) \<in> {0, 1}" "brk (locked k s) = brk s"
    "hdrs (locked k s) = hdrs s" "bytes (locked k s) = bytes s"
    "load_header p (locked k s) = load_header p s"
  using heap_okD [OF assms] assms(2)
  by (auto simp: locked_def set_arena_def arena_ok_def layout_def blk_ok_def seg_ok_def load_header_def)

lemma heap_ok_step:
  assumes h: "heap_ok s B" and k: "k < NUM_ARENAS" and ev: "evolves k R (locked k s) s2"
    and new: "arena_ok s2 k bs" "layout s2 bs" "coalesced bs"
    and R: "R \<subseteq> covers (B k) \<union> {unat (brk s) ..< unat (brk s2)}"
    and cov: "covers bs \<subseteq> covers (B k) \<union> {unat (brk s) ..< unat (brk s2)}"
  shows "heap_ok (unlock_arena k s2) (B(k := bs))"
proof -
  have e: "length (arena_pool s2) = NUM_ARENAS" "thread_arena_id s2 = thread_arena_id s"
    "\<not> sbrk_mutex s2" "contention_detected s2 \<in> {0, 1}"
    "\<And>j. j \<noteq> k \<Longrightarrow> arena_pool s2 ! j = arena_pool s ! j"
    using ev heap_okD [OF h k] by (auto simp: evolves_def locked_def set_arena_def)
  have sg: "seg_ok s2" using new(2) by (simp add: layout_def)
  have out: "covers (B j) \<inter> (covers (B k) \<union> {unat (brk s) ..< unat (brk s2)}) = {}"
    if "j < NUM_ARENAS" "j \<noteq> k" for j
  proof -
    have "covers (B j) \<inter> covers (B k) = {}" using h k that by (simp add: heap_ok_def)
    moreover have "covers (B j) \<subseteq> {0 ..< unat (brk s)}" using heap_okD(2) [OF h that(1)] by (rule covers_brk)
    ultimately show ?thesis by auto
  qed
  have ar: "arena_ok s2 j (B j)" "layout s2 (B j)" if j: "j < NUM_ARENAS" "j \<noteq> k" for j
  proof -
    have "hdrs s2 (adr b) = hdrs s (adr b)" if "b \<in> set (B j)" for b
    proof -
      have "hdr_area b \<subseteq> covers (B j)" using that hdr_area_sub [of b] by (auto simp: covers_def)
      then have "{unat (adr b) ..< unat (adr b) + 32} \<inter> R = {}"
        using out [OF j] R unfolding hdr_area_def lo_def by blast
      then show ?thesis using ev by (simp add: evolves_def locked_def set_arena_def)
    qed
    then show "arena_ok s2 j (B j)"
      using heap_okD(1) [OF h j(1)] e(1,5) j by (auto simp: arena_ok_def NUM_ARENAS_def intro: linked_frame)
    have "layout (locked k s) (B j)"
      using heap_okD(2) [OF h j(1)] by (simp add: locked_def set_arena_def layout_def blk_ok_def seg_ok_def)
    with ev sg show "layout s2 (B j)" by (rule evolves_layout)
  qed
  have u: "arena_ok (unlock_arena k s2) j xs \<longleftrightarrow> arena_ok s2 j xs"
    "layout (unlock_arena k s2) xs \<longleftrightarrow> layout s2 xs" for j xs
    using k e(1)
    by (auto simp: unlock_arena_def set_arena_def arena_ok_def layout_def blk_ok_def seg_ok_def nth_list_update)
  have c: "covers bs \<inter> covers (B j) = {}" if "j < NUM_ARENAS" "j \<noteq> k" for j
    using out [OF that] cov by blast
  have cc: "covers ((B(k := bs)) i) \<inter> covers ((B(k := bs)) j) = {}"
    if ij: "i < NUM_ARENAS" "j < NUM_ARENAS" "i \<noteq> j" for i j
  proof -
    consider "i = k" | "j = k" | "i \<noteq> k" "j \<noteq> k" by blast
    then show ?thesis
    proof cases
      case 1
      then show ?thesis using c [of j] ij by simp
    next
      case 2
      then show ?thesis using c [of i] ij by (simp add: Int_commute)
    next
      case 3
      then show ?thesis using ij h by (simp add: heap_ok_def)
    qed
  qed
  have each: "\<not> a_lock (arena_pool (unlock_arena k s2) ! j) \<and> arena_ok (unlock_arena k s2) j ((B(k := bs)) j) \<and>
      layout (unlock_arena k s2) ((B(k := bs)) j) \<and> coalesced ((B(k := bs)) j)"
    if j: "j < NUM_ARENAS" for j
  proof (cases "j = k")
    case True
    then show ?thesis using new u k e(1) by (simp add: unlock_arena_def set_arena_def)
  next
    case False
    then show ?thesis
      using ar [OF j False] u heap_okD(3,4) [OF h j] e(5) by (simp add: unlock_arena_def set_arena_def)
  qed
  have "seg_ok (unlock_arena k s2)" "\<not> sbrk_mutex (unlock_arena k s2)"
    "contention_detected (unlock_arena k s2) \<in> {0, 1}"
    "length (arena_pool (unlock_arena k s2)) = NUM_ARENAS"
    "thread_arena_id (unlock_arena k s2) = thread_arena_id s"
    using sg e by (simp_all add: unlock_arena_def set_arena_def seg_ok_def)
  moreover have "\<forall>t. thread_arena_id s t = - 1 \<or>
      0 \<le> sint (thread_arena_id s t) \<and> sint (thread_arena_id s t) < int NUM_ARENAS"
    using h by (simp add: heap_ok_def)
  ultimately show ?thesis using each cc unfolding heap_ok_def by simp
qed

text \<open>Live blocks of different arenas, and of the same arena, do not overlap; their bytes
  survive a step that touches only slack and fresh memory.\<close>

lemma live_disjoint:
  assumes h: "heap_ok s B" and b: "b \<in> live B" and c: "c \<in> live B" and ne: "b \<noteq> c"
  shows "area b \<inter> area c = {}"
proof -
  obtain i j where ij: "i < NUM_ARENAS" "b \<in> set (B i)" "j < NUM_ARENAS" "c \<in> set (B j)"
    using b c by (auto simp: live_def used_def)
  show ?thesis
  proof (cases "i = j")
    case True
    have "sorted_wrt (\<lambda>b c. hi b \<le> lo c) (B i)" using heap_okD(2) [OF h ij(1)] by (simp add: layout_def)
    then have "hi b \<le> lo c \<or> hi c \<le> lo b"
      using ij(2,4) True ne by (metis in_set_conv_nth linorder_neqE_nat sorted_wrt_iff_nth_less)
    then show ?thesis by (auto simp: area_def)
  next
    case False
    then have "covers (B i) \<inter> covers (B j) = {}" using h ij by (simp add: heap_ok_def)
    then show ?thesis using ij by (auto simp: covers_def)
  qed
qed

lemma live_blk:
  assumes "heap_ok s B" and "b \<in> live B"
  obtains k as cs where "k < NUM_ARENAS" "B k = as @ b # cs" "\<not> fre b"
  using assms(2) by (auto simp: live_def used_def dest!: split_list intro: that)

lemma live_upd:
  assumes "k < NUM_ARENAS"
  shows "live (B(k := bs)) = set (used bs) \<union> (\<Union>j \<in> {..<NUM_ARENAS} - {k}. set (used (B j)))"
    and "live B = set (used (B k)) \<union> (\<Union>j \<in> {..<NUM_ARENAS} - {k}. set (used (B j)))"
  using assms by (auto simp: live_def split: if_splits)

lemma contents_eqI:
  assumes lay: "layout s0 bs" "b \<in> set bs"
    and same: "\<And>x. unat x \<in> payload b \<Longrightarrow> bytes s' x = bytes s x"
  shows "contents s' b = contents s b"
  using payload_adr [OF lay] same by (auto simp: contents_def ptr_def)

lemma contents_step:
  assumes h: "heap_ok s B" and k: "k < NUM_ARENAS" and ev: "evolves k R (locked k s) s2"
    and b: "b \<in> live B" and R: "payload b \<inter> R = {}"
  shows "contents (unlock_arena k s2) b = contents s b"
proof -
  obtain j as cs where j: "j < NUM_ARENAS" "B j = as @ b # cs" by (rule live_blk [OF h b])
  show ?thesis
  proof (rule contents_eqI)
    show "layout s (B j)" "b \<in> set (B j)" using heap_okD(2) [OF h j(1)] j(2) by simp_all
    fix x :: addr
    assume "unat x \<in> payload b"
    with R have "unat x \<notin> R" by blast
    then show "bytes (unlock_arena k s2) x = bytes s x"
      using ev by (simp add: evolves_def locked_def unlock_arena_def set_arena_def)
  qed
qed

lemma payload_slack_live:
  assumes h: "heap_ok s B" and k: "k < NUM_ARENAS" and b: "b \<in> live B"
  shows "payload b \<inter> (slack (B k) \<union> {unat (brk s) ..< n}) = {}"
proof -
  obtain j as cs where j: "j < NUM_ARENAS" "B j = as @ b # cs" "\<not> fre b" by (rule live_blk [OF h b])
  have "payload b \<subseteq> covers (B j)" using payload_sub [of b] j(2) by auto
  moreover have "covers (B j) \<subseteq> {0 ..< unat (brk s)}" using heap_okD(2) [OF h j(1)] by (rule covers_brk)
  moreover have "payload b \<inter> slack (B k) = {}"
  proof (cases "j = k")
    case True
    then show ?thesis using payload_slack [OF heap_okD(2) [OF h k], of b] j by simp
  next
    case False
    then have "covers (B j) \<inter> covers (B k) = {}" using heap_ok_cross [OF h j(1) k] by simp
    then show ?thesis using slack_covers [of "B k"] \<open>payload b \<subseteq> covers (B j)\<close> by blast
  qed
  ultimately show ?thesis by fastforce
qed

subsection \<open>Choosing the arena of a thread\<close>

lemma sint_word_small: "0 \<le> i \<Longrightarrow> i < 5 \<Longrightarrow> sint (word_of_int i :: int32) = i"
proof -
  assume "0 \<le> i" "i < 5"
  then have "i = 0 \<or> i = 1 \<or> i = 2 \<or> i = 3 \<or> i = 4" by arith
  then show ?thesis by auto
qed

lemma get_thread_arena_ok:
  assumes h: "heap_ok s B" and t: "thread_ok t s"
  obtains k s1 where "get_thread_arena t s = (int k, s1)" "k < NUM_ARENAS" "heap_ok s1 B"
    "arena_index (int k) s1 = Some k" "bytes s1 = bytes s" "brk s1 = brk s \<and> brk_max s1 = brk_max s"
    "unat (next_arena_id s1) \<le> unat (next_arena_id s) + 1"
proof (cases "thread_arena_id s t = - 1")
  case False
  then have "0 \<le> sint (thread_arena_id s t)" "sint (thread_arena_id s t) < int NUM_ARENAS"
    using h by (auto simp: heap_ok_def)
  then show ?thesis using h False
    by (intro that [of "nat (sint (thread_arena_id s t))" s])
      (auto simp: get_thread_arena_def arena_index_def heap_ok_def)
next
  case True
  define i where "i = sint (next_arena_id s) mod 5"
  have i: "0 \<le> i" "i < 5" by (simp_all add: i_def)
  define s1 where "s1 = s\<lparr>thread_arena_id := (thread_arena_id s)(t := word_of_int i),
    next_arena_id := next_arena_id s + 1\<rparr>"
  have si: "sint (word_of_int i :: int32) = i" using i by (rule sint_word_small)
  have ni: "unat (next_arena_id s + 1) \<le> unat (next_arena_id s) + 1"
    by (simp add: unat_word_ariths)
  have "0 \<le> sint (next_arena_id s)" using t True by (simp add: thread_ok_def)
  then have "sgn (sint (next_arena_id s)) * (\<bar>sint (next_arena_id s)\<bar> mod int NUM_ARENAS) = i"
    by (auto simp: NUM_ARENAS_def i_def sgn_if)
  then have g: "get_thread_arena t s = (int (nat i), s1)"
    using True si i by (simp add: get_thread_arena_def s1_def Let_def)
  have "arena_ok s1 k xs \<longleftrightarrow> arena_ok s k xs" "layout s1 xs \<longleftrightarrow> layout s xs" "seg_ok s1 \<longleftrightarrow> seg_ok s" for k xs
    by (simp_all add: arena_ok_def layout_def blk_ok_def seg_ok_def s1_def)
  then have "heap_ok s1 B"
    using h si i unfolding heap_ok_def by (auto simp: s1_def NUM_ARENAS_def)
  then show ?thesis
    using g i h ni by (intro that [of "nat i" s1])
      (auto simp: arena_index_def heap_ok_def NUM_ARENAS_def s1_def)
qed

subsection \<open>malloc and free on the whole heap\<close>

lemma unlock_fields [simp]:
  "next_arena_id (unlock_arena k s) = next_arena_id s" "brk (unlock_arena k s) = brk s"
  "bytes (unlock_arena k s) = bytes s"
  by (simp_all add: unlock_arena_def set_arena_def)

lemma evolves_threads:
  "evolves k R (locked k s) s2 \<Longrightarrow> next_arena_id s2 = next_arena_id s"
  by (simp add: evolves_def locked_def set_arena_def)

lemma malloc_cases:
  assumes h: "heap_ok s B" and t: "thread_ok t s" and n: "unat n < 2 ^ 62 - 8"
  obtains (null) s' B' where "malloc e t n s = Some (0, s')" "heap_ok s' B'" "live B' = live B"
      "n = 0 \<or> unat (brk_max s) < unat (brk s) + unat n + 2088"
      "\<And>b. b \<in> live B \<Longrightarrow> contents s' b = contents s b"
      "unat (next_arena_id s') \<le> unat (next_arena_id s) + 1"
  | (block) s' B' b where "malloc e t n s = Some (ptr b, s')" "heap_ok s' B'" "live B' = insert b (live B)"
      "b \<notin> live B" "unat n \<le> unat (siz b)" "n \<noteq> 0" "ptr b \<noteq> 0" "8 dvd unat (ptr b)"
      "\<And>c. c \<in> live B \<Longrightarrow> contents s' c = contents s c"
      "unat (next_arena_id s') \<le> unat (next_arena_id s) + 1"
proof -
  have a: "unat n \<le> unat (ALIGN8 n)" "unat (ALIGN8 n) < 2 ^ 62" "8 dvd unat (ALIGN8 n)"
    "ALIGN8 n = 0 \<longleftrightarrow> n = 0" "n \<noteq> 0 \<Longrightarrow> 8 \<le> unat (ALIGN8 n)"
    using ALIGN8_facts [of n] n by simp_all
  show ?thesis
  proof (cases "n = 0")
    case True
    then show ?thesis using a(4) h by (intro null [of s B]) (simp_all add: malloc_def)
  next
    case False
    obtain k s1 where k: "get_thread_arena t s = (int k, s1)" "k < NUM_ARENAS" "heap_ok s1 B"
      "arena_index (int k) s1 = Some k" "bytes s1 = bytes s" "brk s1 = brk s \<and> brk_max s1 = brk_max s"
      "unat (next_arena_id s1) \<le> unat (next_arena_id s) + 1"
      by (rule get_thread_arena_ok [OF h t])
    have c1: "contents s1 b = contents s b" for b using k(5) by (simp add: contents_def)
    have m: "malloc e t n s = do {
        (p, s2) \<leftarrow> arena_malloc e k (ALIGN8 n) (locked k s1); Some (p, unlock_arena k s2) }"
      using False a(4) k(1,4) lock_arena_ok [OF k(3,2)] by (simp add: malloc_def Let_def)
    note f = locked_facts [OF k(3,2)] and co = heap_okD(3) [OF k(3,2)]
    from f(1,2) co f(3,4) a(3) a(5) [OF False] a(2) show ?thesis
    proof (cases rule: arena_malloc_refines [of "locked k s1" k "B k" "ALIGN8 n" e])
      case (null s2)
      have "heap_ok (unlock_arena k s2) (B(k := B k))"
        by (rule heap_ok_step [OF k(3,2) null(3) null(2,4) co]) auto
      moreover have "contents (unlock_arena k s2) b = contents s b" if "b \<in> live B" for b
        using contents_step [OF k(3,2) null(3) that] c1 by simp
      moreover have "unat (brk_max s) < unat (brk s) + unat n + 2088"
        using null(5) f(5) k(6) ALIGN8_facts(2) [of n] n by (simp add: locked_def set_arena_def)
      ultimately show ?thesis
        using m null(1) k(7) evolves_threads [OF null(3)]
        by (intro that(1) [of "unlock_arena k s2" B]) simp_all
    next
      case (block s2 as b cs)
      have ev: "evolves k (slack (B k) \<union> {unat (brk s1) ..< unat (brk s2)}) (locked k s1) s2"
        using block(9) f(5) by simp
      have "heap_ok (unlock_arena k s2) (B(k := as @ b # cs))"
        by (rule heap_ok_step [OF k(3,2) ev block(2,3,4)])
          (use block(8) f(5) slack_covers [of "B k"] in auto)
      moreover have "live (B(k := as @ b # cs)) = insert b (live B)"
        unfolding live_upd [OF k(2)] using block(5,7) by (simp flip: block(7))
      moreover have "b \<notin> live B"
      proof
        assume "b \<in> live B"
        then have "payload b \<inter> (slack (B k) \<union> {unat (brk s1) ..< unat (brk s2)}) = {}"
          by (rule payload_slack_live [OF k(3,2)])
        moreover have "payload b \<subseteq> slack (B k) \<union> {unat (brk s1) ..< unat (brk s2)}"
          using block(10) payload_sub [of b] f(5) by auto
        moreover have "lo b + 32 \<in> payload b"
          using layout_blkD(6) [OF block(3), of b] by (simp add: payload_def)
        ultimately show False by blast
      qed
      moreover have "contents (unlock_arena k s2) c = contents s c" if "c \<in> live B" for c
        using contents_step [OF k(3,2) ev that payload_slack_live [OF k(3,2) that]] c1 by simp
      moreover have "ptr b \<noteq> 0" "8 dvd unat (ptr b)"
        using layout_blkD(7,10) [OF block(3), of b] by (auto simp: ptr_def word_eq_unat)
      ultimately show ?thesis
        using m block(1,6) a(1) False k(7) evolves_threads [OF ev]
        by (intro that(2) [of b "unlock_arena k s2" "B(k := as @ b # cs)"]) (simp_all add: ptr_def)
    qed
  qed
qed

text \<open>What \<^verbatim>\<open>free\<close> and \<^verbatim>\<open>realloc\<close> find first of a live block: its header and its arena.\<close>

lemma live_entry:
  assumes h: "heap_ok s B" and k: "k < NUM_ARENAS" "B k = as @ b # cs"
  shows "ptr b \<noteq> 0" "get_header (ptr b) = adr b" "arena_index (int k) s = Some k"
    "load_header (adr b) s = Some (header_of (int k) b (last_adr 0 as) (first_adr cs 0))"
proof -
  have lay: "layout s (as @ b # cs)" and ok: "arena_ok s k (as @ b # cs)"
    using heap_okD(1,2) [OF h k(1)] k(2) by simp_all
  show "ptr b \<noteq> 0" "get_header (ptr b) = adr b"
    using layout_blkD(10) [OF lay, of b] by (auto simp: ptr_def get_header_def sizeof_BlockHeader_def word_eq_unat)
  show "arena_index (int k) s = Some k" using heap_okD(8) [OF h k(1)] k(1) by (simp add: arena_index_def)
  show "load_header (adr b) s = Some (header_of (int k) b (last_adr 0 as) (first_adr cs 0))"
    by (rule load_header_linked [OF ok lay])
qed

lemma free_cases:
  assumes h: "heap_ok s B" and b: "b \<in> live B"
  obtains s' B' where "free (ptr b) s = Some s'" "heap_ok s' B'" "live B' = live B - {b}"
    "\<And>c. c \<in> live B \<Longrightarrow> contents s' c = contents s c" "next_arena_id s' = next_arena_id s"
proof -
  obtain k as cs where k: "k < NUM_ARENAS" "B k = as @ b # cs" "\<not> fre b" by (rule live_blk [OF h b])
  note f = locked_facts [OF h k(1), unfolded k(2)]
  have lay: "layout s (as @ b # cs)" and ok: "arena_ok s k (as @ b # cs)"
    using heap_okD(1,2) [OF h k(1)] k(2) by simp_all
  have co: "coalesced (as @ b # cs)" using heap_okD(3) [OF h k(1)] k(2) by simp
  obtain s2 bs where s2: "arena_free k (adr b) (locked k s) = Some s2" "arena_ok s2 k bs"
    "layout s2 bs" "coalesced bs" "used bs = used as @ used cs" "covers bs = covers (as @ b # cs)"
    "touches k (hdr_areas (as @ b # cs)) (locked k s) s2"
    by (rule arena_free_props [OF f(1,2) co])
  have ev: "evolves k (slack (B k)) (locked k s) s2"
    using touches_evolves [OF s2(7)] unfolding k(2) by (rule evolves_mono) (rule hdr_areas_slack)
  have "free (ptr b) s = Some (unlock_arena k s2)"
    using live_entry [OF h k(1,2)] lock_arena_ok [OF h k(1)] s2(1) by (simp add: free_def Let_def)
  moreover have "heap_ok (unlock_arena k s2) (B(k := bs))"
    by (rule heap_ok_step [OF h k(1) ev s2(2-4)])
      (use s2(6) k(2) slack_covers [of "B k"] in auto)
  moreover have "live (B(k := bs)) = live B - {b}"
  proof -
    have "b \<notin> set (used as) \<union> set (used cs)"
      using layout_distinct [OF lay] by (auto simp: used_def)
    moreover have "b \<notin> set (used (B j))" if "j < NUM_ARENAS" "j \<noteq> k" for j
    proof
      assume "b \<in> set (used (B j))"
      then have "area b \<subseteq> covers (B j)" by (auto simp: used_def covers_def)
      moreover have "area b \<subseteq> covers (B k)" using k(2) by auto
      moreover have "lo b \<in> area b" using layout_blkD(6) [OF lay, of b] by (simp add: area_def)
      ultimately show False using heap_ok_cross [OF h that(1) k(1) that(2)] by blast
    qed
    ultimately show ?thesis
      unfolding live_upd [OF k(1)] using k(2,3) s2(5) by auto
  qed
  moreover have "contents (unlock_arena k s2) c = contents s c" if "c \<in> live B" for c
    using contents_step [OF h k(1) ev that] payload_slack_live [OF h k(1) that, of 0] by simp
  ultimately show ?thesis
    using evolves_threads [OF ev] by (intro that [of "unlock_arena k s2" "B(k := bs)"]) simp_all
qed

subsection \<open>Writing into a live block, and calloc\<close>

lemma touches_any:
  "touches k R s s' \<Longrightarrow> arena_pool s' = arena_pool s \<Longrightarrow> touches j R s s'"
  by (simp add: touches_def)

lemma live_hdr_areas:
  assumes h: "heap_ok s B" and b: "b \<in> live B" and j: "j < NUM_ARENAS"
  shows "hdr_areas (B j) \<inter> payload b = {}"
proof -
  obtain k as cs where k: "k < NUM_ARENAS" "B k = as @ b # cs" by (rule live_blk [OF h b])
  show ?thesis
  proof (cases "j = k")
    case True
    then show ?thesis using payload_hdr_areas [OF heap_okD(2) [OF h j]] k(2) by simp
  next
    case False
    have "hdr_areas (B j) \<subseteq> covers (B j)" using hdr_areas_slack slack_covers by blast
    moreover have "payload b \<subseteq> covers (B k)" using payload_sub [of b] k(2) by auto
    ultimately show ?thesis using heap_ok_cross [OF h j k(1) False] by blast
  qed
qed

lemma store_live:
  assumes h: "heap_ok s B" and b: "b \<in> live B" and n: "length xs \<le> unat (siz b)"
  obtains s' where "store_bytes (ptr b) xs s = Some s'" "heap_ok s' B"
    "\<forall>i < length xs. bytes s' (ptr b + of_nat i) = xs ! i"
    "\<forall>c \<in> live B - {b}. contents s' c = contents s c" "next_arena_id s' = next_arena_id s"
proof -
  obtain k as cs where k: "k < NUM_ARENAS" "B k = as @ b # cs" by (rule live_blk [OF h b])
  have lay: "layout s (B k)" and mem: "b \<in> set (B k)" using heap_okD(2) [OF h k(1)] k(2) by simp_all
  have u: "unat (ptr b) = lo b + 32" and "mapped s (ptr b) (unat (siz b))"
    using layout_blkD(9,10) [OF lay mem] by (simp_all add: ptr_def)
  then have "mapped s (ptr b) (length xs)" using n by (simp add: mapped_def)
  then obtain s' where s': "store_bytes (ptr b) xs s = Some s'"
    "touches k {unat (ptr b) ..< unat (ptr b) + length xs} s s'" "arena_pool s' = arena_pool s"
    "\<And>i. i < length xs \<Longrightarrow> bytes s' (ptr b + of_nat i) = xs ! i"
    by (rule store_bytes_Some) blast
  have "{unat (ptr b) ..< unat (ptr b) + length xs} \<subseteq> payload b"
    using n u by (auto simp: payload_def lo_def hi_def)
  then have t: "touches j (payload b) s s'" for j
    using touches_any [OF touches_mono [OF s'(2)] s'(3)] by blast
  have "arena_ok s' j (B j)" if "j < NUM_ARENAS" for j
    by (rule arena_ok_touches [OF heap_okD(1) [OF h that] t s'(3) live_hdr_areas [OF h b that]])
  then have "heap_ok s' B"
    using h s'(3) touches_layout [OF t] touches_fields [OF t] unfolding heap_ok_def
    by (simp add: touches_seg_ok [OF t])
  moreover have "contents s' c = contents s c" if c: "c \<in> live B - {b}" for c
  proof -
    obtain j ds es where j: "j < NUM_ARENAS" "B j = ds @ c # es" by (rule live_blk [OF h, of c]) (use c in auto)
    have "payload c \<inter> payload b = {}"
      using live_disjoint [OF h _ b, of c] c payload_sub [of b] payload_sub [of c] by blast
    then have same: "bytes s' x = bytes s x" if "unat x \<in> payload c" for x
      using touches_bytes [OF t] that by blast
    show ?thesis
      by (rule contents_eqI [of s "B j"]) (use heap_okD(2) [OF h j(1)] j(2) same in auto)
  qed
  ultimately show ?thesis using s' touches_fields [OF t] by (intro that [of s']) auto
qed

lemma calloc_no_overflow:
  fixes m n :: size_t
  assumes "unat m * unat n < 2 ^ 64"
  shows "\<not> (m \<noteq> 0 \<and> n > (- 1) div m)" and "unat (m * n) = unat m * unat n"
proof -
  have x: "unat ((- 1 :: size_t) div m) = (2 ^ 64 - 1) div unat m"
    by (simp add: unat_div unsigned_minus_1_eq_mask mask_eq_exp_minus_1)
  have "unat n \<le> (2 ^ 64 - 1) div unat m" if "m \<noteq> 0"
    using assms that by (simp add: less_eq_div_iff_mult_less_eq mult.commute unat_gt_0)
  then show "\<not> (m \<noteq> 0 \<and> n > (- 1) div m)"
    by (auto simp: word_less_nat_alt x)
  show "unat (m * n) = unat m * unat n" using assms by (simp add: unat_word_ariths)
qed

lemma calloc_overflow:
  fixes m n :: size_t
  assumes "2 ^ 64 \<le> unat m * unat n"
  shows "m \<noteq> 0 \<and> n > (- 1) div m"
proof -
  have m: "m \<noteq> 0" using assms by auto
  have x: "unat ((- 1 :: size_t) div m) = (2 ^ 64 - 1) div unat m"
    by (simp add: unat_div unsigned_minus_1_eq_mask mask_eq_exp_minus_1)
  have "(2 ^ 64 - 1) div unat m < unat n"
    using assms m by (simp add: div_less_iff_less_mult mult.commute unat_gt_0)
  with m show ?thesis by (simp add: word_less_nat_alt x)
qed

lemma calloc_cases:
  assumes h: "heap_ok s B" and t: "thread_ok t s" and n: "unat m * unat n < 2 ^ 62 - 8"
  obtains (null) s' B' where "calloc e t m n s = Some (0, s')" "heap_ok s' B'" "live B' = live B"
      "m = 0 \<or> n = 0 \<or> unat (brk_max s) < unat (brk s) + unat m * unat n + 2088"
      "\<forall>b \<in> live B. contents s' b = contents s b"
      "unat (next_arena_id s') \<le> unat (next_arena_id s) + 1"
  | (block) s' B' b where "calloc e t m n s = Some (ptr b, s')" "heap_ok s' B'" "live B' = insert b (live B)"
      "b \<notin> live B" "unat m * unat n \<le> unat (siz b)" "m \<noteq> 0 \<and> n \<noteq> 0" "ptr b \<noteq> 0" "8 dvd unat (ptr b)"
      "\<forall>i < unat m * unat n. bytes s' (ptr b + of_nat i) = Some 0"
      "\<forall>c \<in> live B. contents s' c = contents s c"
      "unat (next_arena_id s') \<le> unat (next_arena_id s) + 1"
proof -
  have no: "\<not> (m \<noteq> 0 \<and> n > (- 1) div m)" "unat (m * n) = unat m * unat n"
    using calloc_no_overflow [of m n] n by simp_all
  have z: "m * n = 0 \<longleftrightarrow> m = 0 \<or> n = 0"
    unfolding word_eq_unat no(2) by (simp add: word_eq_unat)
  have n': "unat (m * n) < 2 ^ 62 - 8" using n no(2) by simp
  from h t n' show ?thesis
  proof (cases rule: malloc_cases [of s B t "m * n" e])
    case (null s' B')
    then show ?thesis using no z by (intro that(1) [of s' B']) (auto simp: calloc_def Let_def)
  next
    case (block s1 B' b)
    have lb: "b \<in> live B'" "live B \<subseteq> live B' - {b}" using block(3,4) by auto
    obtain s' where s': "store_bytes (ptr b) (replicate (unat (m * n)) (Some 0)) s1 = Some s'" "heap_ok s' B'"
      "\<forall>i < length (replicate (unat (m * n)) (Some (0 :: byte))). bytes s' (ptr b + of_nat i) =
         replicate (unat (m * n)) (Some 0) ! i"
      "\<forall>c \<in> live B' - {b}. contents s' c = contents s1 c" "next_arena_id s' = next_arena_id s1"
      by (rule store_live [OF block(2) lb(1), of "replicate (unat (m * n)) (Some 0)"])
        (use block(5) in auto)
    have "calloc e t m n s = Some (ptr b, s')"
      using no(1) block(1,7) s'(1) by (auto simp: calloc_def Let_def)
    moreover have "contents s' c = contents s c" if "c \<in> live B" for c
      using s'(4) lb(2) block(9) that by (metis subsetD)
    ultimately show ?thesis using s' block no(2) z
      by (intro that(2) [of b s' B']) simp_all
  qed
qed

subsection \<open>realloc on the whole heap\<close>

lemma live_replace:
  assumes h: "heap_ok s B" and k: "k < NUM_ARENAS" "B k = as @ b # cs" "\<not> fre b"
    and u: "set (used ds) = insert d (set (used as) \<union> set (used cs))"
  shows "live (B(k := ds)) = insert d (live B - {b})"
proof -
  have lay: "layout s (as @ b # cs)" using heap_okD(2) [OF h k(1)] k(2) by simp
  have "b \<notin> set (used as) \<union> set (used cs)"
    using layout_distinct [OF lay] by (auto simp: used_def)
  moreover have "b \<notin> set (used (B j))" if "j < NUM_ARENAS" "j \<noteq> k" for j
  proof
    assume "b \<in> set (used (B j))"
    then have "area b \<subseteq> covers (B j)" by (auto simp: used_def covers_def)
    moreover have "area b \<subseteq> covers (B k)" using k(2) by auto
    moreover have "lo b \<in> area b" using layout_blkD(6) [OF lay, of b] by (simp add: area_def)
    ultimately show False using heap_ok_cross [OF h that(1) k(1) that(2)] by blast
  qed
  ultimately show ?thesis
    unfolding live_upd [OF k(1)] using k(2,3) u by auto
qed

lemma live_same_adr:
  assumes h: "heap_ok s B" and c: "b \<in> live B" "d \<in> live B" and e: "adr d = adr b"
  shows "d = b"
proof (rule ccontr)
  assume "d \<noteq> b"
  then have "area d \<inter> area b = {}" by (rule live_disjoint [OF h c(2,1)])
  moreover have "lo b \<in> area b" "lo d \<in> area d"
    using c by (auto simp: area_def elim!: live_blk [OF h] dest!: heap_okD(2) [OF h] layout_blkD(6))
  ultimately show False using e by (auto simp: lo_def)
qed

lemma live_ptr:
  assumes h: "heap_ok s B" and b: "b \<in> live B"
  shows "ptr b \<noteq> 0" "8 dvd unat (ptr b)"
proof -
  obtain k as cs where k: "k < NUM_ARENAS" "B k = as @ b # cs" by (rule live_blk [OF h b])
  then have "layout s (as @ b # cs)" using heap_okD(2) [OF h, of k] by simp
  then show "ptr b \<noteq> 0" "8 dvd unat (ptr b)"
    using layout_blkD(7,10) [of s "as @ b # cs" b] by (auto simp: ptr_def word_eq_unat)
qed

lemma live_other_arena:
  assumes h: "heap_ok s B" and k: "k < NUM_ARENAS" and d: "d \<in> set (used (B k))"
    and c: "d \<in> set (used (B j))" "j < NUM_ARENAS"
  shows "j = k"
proof (rule ccontr)
  assume "j \<noteq> k"
  have "area d \<subseteq> covers (B j)" "area d \<subseteq> covers (B k)" using d c by (auto simp: used_def covers_def)
  moreover have "lo d \<in> area d"
    using layout_blkD(6) [OF heap_okD(2) [OF h k], of d] d by (auto simp: area_def used_def)
  ultimately show False using heap_ok_cross [OF h c(2) k \<open>j \<noteq> k\<close>] by blast
qed

text \<open>A locked section in which one live block is replaced by another of the same arena.\<close>

lemma replace_step:
  assumes h: "heap_ok s B" and b: "b \<in> live B" and k: "k < NUM_ARENAS" "B k = as @ b # cs" "\<not> fre b"
    and ev: "evolves k R (locked k s) s2" and new: "arena_ok s2 k ds" "layout s2 ds" "coalesced ds"
    and us: "set (used ds) = insert d (set (used as) \<union> set (used cs))"
    and cov: "covers ds \<subseteq> covers (B k) \<union> {unat (brk s) ..< unat (brk s2)}"
    and R: "R \<subseteq> slack (B k) \<union> area b \<union> {unat (brk s) ..< unat (brk s2)}"
  shows "heap_ok (unlock_arena k s2) (B(k := ds))" "live (B(k := ds)) = insert d (live B - {b})"
    "c \<in> live B - {b} \<Longrightarrow> contents (unlock_arena k s2) c = contents s c"
    "next_arena_id (unlock_arena k s2) = next_arena_id s" "ptr d \<noteq> 0" "8 dvd unat (ptr d)"
proof -
  have sc: "slack (B k) \<union> area b \<subseteq> covers (B k)" using slack_covers [of "B k"] k(2) by auto
  show ho: "heap_ok (unlock_arena k s2) (B(k := ds))"
    by (rule heap_ok_step [OF h k(1) ev new]) (use R sc cov in auto)
  show li: "live (B(k := ds)) = insert d (live B - {b})" by (rule live_replace [OF h k us])
  show "contents (unlock_arena k s2) c = contents s c" if c: "c \<in> live B - {b}"
  proof -
    have "payload c \<inter> R = {}"
      using payload_slack_live [OF h k(1), of c "unat (brk s2)"] live_disjoint [OF h, of c b] payload_sub [of c] c b R
      by blast
    then show ?thesis using contents_step [OF h k(1) ev, of c] c by blast
  qed
  show "next_arena_id (unlock_arena k s2) = next_arena_id s" using evolves_threads [OF ev] by simp
  have "d \<in> set ds" using us by (auto simp: used_def)
  then show "ptr d \<noteq> 0" using layout_blkD(10) [OF new(2)] by (auto simp: ptr_def word_eq_unat)
  show "8 dvd unat (ptr d)" using live_ptr(2) [OF ho, of d] li by simp
qed

lemma realloc_cases:
  assumes h: "heap_ok s B" and b: "b \<in> live B" and n: "n \<noteq> 0" "unat n < 2 ^ 62 - 8"
  obtains (null) s' B' d where "realloc e t (ptr b) n s = Some (0, s')" "heap_ok s' B'"
      "live B' = insert d (live B - {b})" "ptr d = ptr b" "unat (siz b) \<le> unat (siz d)"
      "\<And>i. i < unat (siz b) \<Longrightarrow> bytes s' (ptr d + of_nat i) = bytes s (ptr b + of_nat i)"
      "\<And>c. c \<in> live B - {b} \<Longrightarrow> contents s' c = contents s c"
      "next_arena_id s' = next_arena_id s" "d \<notin> live B - {b}"
  | (block) s' B' d where "realloc e t (ptr b) n s = Some (ptr d, s')" "heap_ok s' B'"
      "live B' = insert d (live B - {b})" "d \<notin> live B - {b}" "unat n \<le> unat (siz d)" "ptr d \<noteq> 0"
      "\<And>i. i < min (unat n) (unat (siz b)) \<Longrightarrow>
        bytes s' (ptr d + of_nat i) = bytes s (ptr b + of_nat i)"
      "\<And>c. c \<in> live B - {b} \<Longrightarrow> contents s' c = contents s c"
      "next_arena_id s' = next_arena_id s" "8 dvd unat (ptr d)"
proof -
  have a: "unat n \<le> unat (ALIGN8 n)" "unat (ALIGN8 n) < 2 ^ 62" "8 dvd unat (ALIGN8 n)"
    "ALIGN8 n \<noteq> 0" "8 \<le> unat (ALIGN8 n)"
    using ALIGN8_facts [of n] n by simp_all
  let ?n = "ALIGN8 n"
  obtain k as cs where k: "k < NUM_ARENAS" "B k = as @ b # cs" "\<not> fre b" by (rule live_blk [OF h b])
  note f = locked_facts [OF h k(1), unfolded k(2)] and rep = replace_step [OF h b k]
  have lay: "layout s (as @ b # cs)" and co: "coalesced (as @ b # cs)"
    using heap_okD(2,3) [OF h k(1)] k(2) by simp_all
  have re: "realloc e t (ptr b) n s =
      do { (q, s2) \<leftarrow> arena_realloc e k (adr b) ?n (locked k s); Some (q, unlock_arena k s2) }"
    using a(4) live_entry [OF h k(1,2)] lock_arena_ok [OF h k(1)] by (simp add: realloc_def Let_def)
  have pb: "unat (ptr b + of_nat i) \<in> payload b" "unat (ptr b + of_nat i) = lo b + 32 + i"
      "unat (ptr b + of_nat i) \<notin> slack (as @ b # cs)"
    if "i < unat (siz b)" for i
  proof -
    show p: "unat (ptr b + of_nat i) \<in> payload b" "unat (ptr b + of_nat i) = lo b + 32 + i"
      using payload_adr [OF lay, of b i] that by (simp_all add: ptr_def)
    show "unat (ptr b + of_nat i) \<notin> slack (as @ b # cs)"
      using p(1) payload_slack_live [OF h k(1) b, of 0] k(2) by auto
  qed
  show ?thesis
  proof (cases "unat ?n \<le> unat (siz (hd (coalesce_abs b cs)))")
    case True
    obtain s2 d ds where d: "arena_realloc e k (adr b) ?n (locked k s) = Some (adr d + 32, s2)"
      "adr d = adr b" "arena_ok s2 k (as @ d # ds)" "layout s2 (as @ d # ds)" "coalesced (as @ d # ds)"
      "\<not> fre d" "unat ?n \<le> unat (siz d)" "used ds = used cs" "covers (as @ d # ds) = covers (as @ b # cs)"
      "touches k (slack (as @ cs) \<union> hdr_area b \<union> {lo b + 32 + unat ?n ..< hi b}) (locked k s) s2"
      by (rule arena_realloc_in_place [OF f(1,2) co k(3) a(3,5) True])
    let ?R = "slack (as @ cs) \<union> hdr_area b \<union> {lo b + 32 + unat ?n ..< hi b}"
    have R: "set (used (as @ d # ds)) = insert d (set (used as) \<union> set (used cs))"
      "covers (as @ d # ds) \<subseteq> covers (B k) \<union> {unat (brk s) ..< unat (brk s2)}"
      "?R \<subseteq> slack (B k) \<union> area b \<union> {unat (brk s) ..< unat (brk s2)}"
      using hdr_area_sub [of b] k(2) d(6,8,9) by (auto simp: area_def)
    note r = rep [OF touches_evolves [OF d(10)] d(3-5) R]
    have "bytes (unlock_arena k s2) (ptr d + of_nat i) = bytes s (ptr b + of_nat i)"
      if "i < min (unat n) (unat (siz b))" for i
    proof -
      have "unat (ptr b + of_nat i) \<notin> ?R" using pb [of i] that a(1) by (auto simp: hdr_area_def)
      then show ?thesis using touches_bytes [OF d(10)] f(7) d(2) by (simp add: ptr_def)
    qed
    then show ?thesis
      using re d(1,7) a(1) r live_same_adr [OF h b, of d] d(2)
      by (intro that(2) [of d "unlock_arena k s2" "B(k := as @ d # ds)"]) (auto simp: ptr_def)
  next
    case False
    from f(1,2) co k(3) f(3,4) a(3,5,2) False show ?thesis
    proof (cases rule: arena_realloc_move [of "locked k s" k as b cs ?n e])
      case (null s2 d ds)
      have R: "set (used (as @ d # ds)) = insert d (set (used as) \<union> set (used cs))"
        "covers (as @ d # ds) \<subseteq> covers (B k) \<union> {unat (brk s) ..< unat (brk s2)}"
        "slack (as @ b # cs) \<subseteq> slack (B k) \<union> area b \<union> {unat (brk s) ..< unat (brk s2)}"
        unfolding k(2) using null(6,8,9) by auto
      note r = rep [OF null(10,3,4,5) R]
      have "bytes (unlock_arena k s2) (ptr d + of_nat i) = bytes s (ptr b + of_nat i)" if "i < unat (siz b)" for i
        using null(2,10) f(7) pb(3) [OF that] by (simp add: evolves_def ptr_def)
      then show ?thesis using re null(1,2,7) r live_same_adr [OF h b, of d]
        by (intro that(1) [of "unlock_arena k s2" "B(k := as @ d # ds)" d]) (auto simp: ptr_def)
    next
      case (moved s2 d ds)
      have ev: "evolves k (slack (as @ b # cs) \<union> payload b \<union> {unat (brk s) ..< unat (brk s2)}) (locked k s) s2"
        and cov: "covers ds \<subseteq> covers (B k) \<union> {unat (brk s) ..< unat (brk s2)}"
        using moved(9,10) f(5) k(2) by simp_all
      note r = rep [OF ev moved(2,3,4,7) cov]
      have R: "slack (as @ b # cs) \<union> payload b \<union> {unat (brk s) ..< unat (brk s2)} \<subseteq>
          slack (B k) \<union> area b \<union> {unat (brk s) ..< unat (brk s2)}"
        using k(2) payload_sub [of b] by auto
      have "d \<notin> live B - {b}"
      proof
        assume dl: "d \<in> live B - {b}"
        then obtain j where j: "j < NUM_ARENAS" "d \<in> set (used (B j))" by (auto simp: live_def)
        have "j = k"
          using live_other_arena [OF r(1) [OF R] k(1), of d j] moved(7) j by (auto split: if_splits)
        with j dl moved(8) k(2,3) show False by auto
      qed
      moreover have "bytes (unlock_arena k s2) (ptr d + of_nat i) = bytes s (ptr b + of_nat i)"
        if "i < min (unat n) (unat (siz b))" for i
        using moved(11) [of i] that f(7) by (simp add: ptr_def)
      ultimately show ?thesis
        using re moved(1,5) a(1) r [OF R]
        by (intro that(2) [of d "unlock_arena k s2" "B(k := ds)"]) (simp_all add: ptr_def)
    qed
  qed
qed

lemma init_heap_ok:
  assumes "0 < unat l" "unat l \<le> unat u" "unat u < 2 ^ 62" "8 dvd unat l"
  shows "heap_ok (init_heap l u) (\<lambda>_. [])" "live (\<lambda>_. []) = {}"
  using assms
  by (auto simp: heap_ok_def init_heap_def NUM_ARENAS_def seg_ok_def word_le_nat_alt arena_ok_def
      layout_def live_def nth_Cons' split: if_splits)

end
