(* ===== verification/Alloc_Spec.thy ===== *)
theory Alloc_Spec
  imports Alloc_Api
begin

section \<open>The allocator: its contract and the programs that use it\<close>

text \<open>
  What a program may rely on. \<open>block_allocator\<close> states the contract of
  \<^verbatim>\<open>malloc\<close>/\<^verbatim>\<open>calloc\<close> and \<^verbatim>\<open>free\<close>, \<open>resizing_allocator\<close> adds
  \<^verbatim>\<open>realloc\<close>; both are independent of how blocks are kept. Inside the second one
  it is shown that any sequence of calls runs to its end, with pairwise
  disjoint blocks, no block lost, and the data of blocks that are not touched
  unchanged. The interpretation at the end discharges the contract for the model
  of \<^verbatim>\<open>allocator.c\<close>.
\<close>

locale block_allocator =
  fixes ok :: "'s \<Rightarrow> 'b set \<Rightarrow> bool"
    and spent :: "'s \<Rightarrow> nat"
    and limit :: nat
    and fine :: "'r \<Rightarrow> bool"
    and alloc :: "'r \<Rightarrow> 's \<Rightarrow> ('p \<times> 's) option"
    and release :: "'p \<Rightarrow> 's \<Rightarrow> 's option"
    and null :: 'p
    and at :: "'b \<Rightarrow> 'p"
    and region :: "'b \<Rightarrow> nat set"
    and data :: "'s \<Rightarrow> 'b \<Rightarrow> 'd"
  assumes alloc_law: "ok s L \<Longrightarrow> fine r \<Longrightarrow> spent s < limit \<Longrightarrow>
      \<exists>p s'. alloc r s = Some (p, s') \<and> spent s' \<le> spent s + 1 \<and> (\<forall>b \<in> L. data s' b = data s b) \<and>
        (p = null \<and> ok s' L \<or> (\<exists>b. p = at b \<and> p \<noteq> null \<and> b \<notin> L \<and> ok s' (insert b L)))"
    and release_law: "ok s L \<Longrightarrow> b \<in> L \<Longrightarrow>
      \<exists>s'. release (at b) s = Some s' \<and> spent s' = spent s \<and> ok s' (L - {b}) \<and>
        (\<forall>c \<in> L - {b}. data s' c = data s c)"
    and disjoint_law: "ok s L \<Longrightarrow> b \<in> L \<Longrightarrow> c \<in> L \<Longrightarrow> b \<noteq> c \<Longrightarrow> region b \<inter> region c = {}"

locale resizing_allocator = block_allocator ok spent limit fine alloc release null at region data
  for ok :: "'s \<Rightarrow> 'b set \<Rightarrow> bool"
    and spent :: "'s \<Rightarrow> nat"
    and limit :: nat
    and fine :: "'r \<Rightarrow> bool"
    and alloc :: "'r \<Rightarrow> 's \<Rightarrow> ('p \<times> 's) option"
    and release :: "'p \<Rightarrow> 's \<Rightarrow> 's option"
    and null :: 'p
    and at :: "'b \<Rightarrow> 'p"
    and region :: "'b \<Rightarrow> nat set"
    and data :: "'s \<Rightarrow> 'b \<Rightarrow> 'd" +
  fixes fits :: "'q \<Rightarrow> bool"
    and resize :: "'p \<Rightarrow> 'q \<Rightarrow> 's \<Rightarrow> ('p \<times> 's) option"
  assumes resize_law: "ok s L \<Longrightarrow> b \<in> L \<Longrightarrow> fits q \<Longrightarrow>
      \<exists>p s' d. resize (at b) q s = Some (p, s') \<and> spent s' = spent s \<and> ok s' (insert d (L - {b})) \<and>
        d \<notin> L - {b} \<and> (\<forall>c \<in> L - {b}. data s' c = data s c) \<and>
        (p = null \<and> at d = at b \<or> p = at d \<and> p \<noteq> null)"

text \<open>A program owns a list of pointers; it allocates (and appends what it gets),
  gives back the pointer at an index, or resizes it. \<open>Release\<close> and \<open>Resize\<close> of an
  index the program does not own are skipped.\<close>

datatype ('r, 'q) request = Alloc 'r | Release nat | Resize nat 'q

fun run_requests ::
  "('r \<Rightarrow> 's \<Rightarrow> ('p \<times> 's) option) \<Rightarrow> ('p \<Rightarrow> 's \<Rightarrow> 's option) \<Rightarrow>
   ('p \<Rightarrow> 'q \<Rightarrow> 's \<Rightarrow> ('p \<times> 's) option) \<Rightarrow> 'p \<Rightarrow>
   ('r, 'q) request list \<Rightarrow> 'p list \<Rightarrow> 's \<Rightarrow> ('p list \<times> 's) option" where
  "run_requests al rl rz nl [] ps s = Some (ps, s)"
| "run_requests al rl rz nl (Alloc r # cs) ps s =
     (case al r s of None \<Rightarrow> None
      | Some (p, s') \<Rightarrow> run_requests al rl rz nl cs (if p = nl then ps else ps @ [p]) s')"
| "run_requests al rl rz nl (Release i # cs) ps s =
     (if i < length ps
      then (case rl (ps ! i) s of None \<Rightarrow> None
            | Some s' \<Rightarrow> run_requests al rl rz nl cs (take i ps @ drop (Suc i) ps) s')
      else run_requests al rl rz nl cs ps s)"
| "run_requests al rl rz nl (Resize i q # cs) ps s =
     (if i < length ps
      then (case rz (ps ! i) q s of None \<Rightarrow> None
            | Some (p, s') \<Rightarrow> run_requests al rl rz nl cs (if p = nl then ps else ps[i := p]) s')
      else run_requests al rl rz nl cs ps s)"

text \<open>The requests that leave the first \<open>k\<close> pointers alone.\<close>

primrec leaves :: "nat \<Rightarrow> ('r, 'q) request \<Rightarrow> bool" where
  "leaves k (Alloc r) \<longleftrightarrow> True"
| "leaves k (Release i) \<longleftrightarrow> k \<le> i"
| "leaves k (Resize i q) \<longleftrightarrow> k \<le> i"

lemma leaves_0 [simp]: "leaves 0 c"
  by (cases c) simp_all

primrec request_ok :: "('r \<Rightarrow> bool) \<Rightarrow> ('q \<Rightarrow> bool) \<Rightarrow> ('r, 'q) request \<Rightarrow> bool" where
  "request_ok fn ft (Alloc r) \<longleftrightarrow> fn r"
| "request_ok fn ft (Release i) \<longleftrightarrow> True"
| "request_ok fn ft (Resize i q) \<longleftrightarrow> ft q"

lemma set_remove_nth:
  assumes "distinct bs" and "i < length bs"
  shows "set (take i bs @ drop (Suc i) bs) = set bs - {bs ! i}"
    and "distinct (take i bs @ drop (Suc i) bs)"
proof -
  have e: "bs = take i bs @ bs ! i # drop (Suc i) bs" using assms(2) by (rule id_take_nth_drop)
  then have d: "distinct (take i bs @ bs ! i # drop (Suc i) bs)" using assms(1) by simp
  then show "distinct (take i bs @ drop (Suc i) bs)" by auto
  have "set bs = insert (bs ! i) (set (take i bs @ drop (Suc i) bs))"
    by (subst e) simp
  with d show "set (take i bs @ drop (Suc i) bs) = set bs - {bs ! i}" by auto
qed

lemma set_replace_nth:
  assumes "distinct bs" and "i < length bs" and "d \<notin> set bs - {bs ! i}"
  shows "set (bs[i := d]) = insert d (set bs - {bs ! i})" and "distinct (bs[i := d])"
proof -
  have e: "bs = take i bs @ bs ! i # drop (Suc i) bs" using assms(2) by (rule id_take_nth_drop)
  have u: "bs[i := d] = take i bs @ d # drop (Suc i) bs" using assms(2) by (rule upd_conv_take_nth_drop)
  show "set (bs[i := d]) = insert d (set bs - {bs ! i})"
    unfolding u using set_remove_nth(1) [OF assms(1,2)] by auto
  show "distinct (bs[i := d])"
    unfolding u using set_remove_nth [OF assms(1,2)] assms(3) by auto
qed

lemma take_keep:
  assumes "k \<le> i" and "i < length bs"
  shows "take k (take i bs @ drop (Suc i) bs) = take k bs" "take k (bs[i := d]) = take k bs"
    "bs ! i \<notin> set (take k bs) \<or> \<not> distinct bs"
proof -
  show "take k (take i bs @ drop (Suc i) bs) = take k bs" "take k (bs[i := d]) = take k bs"
    using assms by (simp_all add: min_absorb1 take_update_cancel)
  have "drop k bs ! (i - k) = bs ! i" "i - k < length (drop k bs)" using assms by simp_all
  then have "bs ! i \<in> set (drop k bs)" by (metis nth_mem)
  then show "bs ! i \<notin> set (take k bs) \<or> \<not> distinct bs"
    using set_take_disj_set_drop_if_distinct [of bs k k] by blast
qed

context resizing_allocator
begin

lemma run_safe:
  assumes "ok s (set bs)" and "distinct bs" and "k \<le> length bs"
    and "\<forall>c \<in> set cs. request_ok fine fits c \<and> leaves k c" and "spent s + length cs \<le> limit"
  shows "\<exists>bs' s'. run_requests alloc release resize null cs (map at bs) s = Some (map at bs', s') \<and>
    ok s' (set bs') \<and> distinct bs' \<and> take k bs' = take k bs \<and>
    (\<forall>b \<in> set (take k bs). data s' b = data s b)"
  using assms
proof (induction cs arbitrary: bs s)
  case Nil
  then show ?case by auto
next
  case (Cons c cs)
  note IH = Cons.IH and p = Cons.prems
  have rest: "\<forall>c \<in> set cs. request_ok fine fits c \<and> leaves k c" using p(4) by simp
  have step: ?case if r: "run_requests alloc release resize null (c # cs) (map at bs) s =
        run_requests alloc release resize null cs (map at bs1) s1"
      and s1: "ok s1 (set bs1)" "distinct bs1" "k \<le> length bs1" "spent s1 + length cs \<le> limit"
      and keep: "take k bs1 = take k bs" "\<forall>b \<in> set (take k bs). data s1 b = data s b" for bs1 s1
    using IH [OF s1(1-3) rest s1(4)] keep unfolding r by auto
  show ?case
  proof (cases c)
    case (Alloc r)
    then obtain q s1 where a: "alloc r s = Some (q, s1)" "spent s1 \<le> spent s + 1"
        "\<forall>b \<in> set bs. data s1 b = data s b"
        "q = null \<and> ok s1 (set bs) \<or> (\<exists>b. q = at b \<and> q \<noteq> null \<and> b \<notin> set bs \<and> ok s1 (insert b (set bs)))"
      using alloc_law [OF p(1), of r] p(4,5) by auto
    have d: "\<forall>b \<in> set (take k bs). data s1 b = data s b" using a(3) by (meson in_set_takeD)
    from a(4) show ?thesis
    proof (elim disjE exE conjE)
      assume "q = null" "ok s1 (set bs)"
      then show ?thesis using Alloc a(1,2) p(2,3,5) d by (intro step [of bs s1]) simp_all
    next
      fix b
      assume "q = at b" "q \<noteq> null" "b \<notin> set bs" "ok s1 (insert b (set bs))"
      then show ?thesis using Alloc a(1,2) p(2,3,5) d by (intro step [of "bs @ [b]" s1]) simp_all
    qed
  next
    case (Release i)
    show ?thesis
    proof (cases "i < length bs")
      case False
      then show ?thesis using Release p by (intro step [of bs s]) simp_all
    next
      case True
      have ki: "k \<le> i" using Release p(4) by simp
      obtain s1 where s1: "release (at (bs ! i)) s = Some s1" "spent s1 = spent s"
          "ok s1 (set bs - {bs ! i})" "\<forall>c \<in> set bs - {bs ! i}. data s1 c = data s c"
        using release_law [OF p(1), of "bs ! i"] True by auto
      note rm = set_remove_nth [OF p(2) True]
      have "\<forall>b \<in> set (take k bs). data s1 b = data s b"
        using s1(4) take_keep(3) [OF ki True] p(2) by (metis DiffI in_set_takeD singletonD)
      moreover have "ok s1 (set (take i bs @ drop (Suc i) bs))" unfolding rm(1) by (rule s1(3))
      ultimately show ?thesis using Release True s1(1,2) rm(2) take_keep(1) [OF ki True] ki p(5)
        by (intro step [of "take i bs @ drop (Suc i) bs" s1]) (simp_all add: take_map drop_map)
    qed
  next
    case (Resize i q)
    show ?thesis
    proof (cases "i < length bs")
      case False
      then show ?thesis using Resize p by (intro step [of bs s]) simp_all
    next
      case True
      have ki: "k \<le> i" and fq: "fits q" using Resize p(4) by simp_all
      obtain pt s1 d where s1: "resize (at (bs ! i)) q s = Some (pt, s1)" "spent s1 = spent s"
          "ok s1 (insert d (set bs - {bs ! i}))" "d \<notin> set bs - {bs ! i}"
          "\<forall>c \<in> set bs - {bs ! i}. data s1 c = data s c"
          "pt = null \<and> at d = at (bs ! i) \<or> pt = at d \<and> pt \<noteq> null"
        using resize_law [OF p(1) _ fq, of "bs ! i"] True by (metis nth_mem)
      note rm = set_replace_nth [OF p(2) True s1(4)]
      have "\<forall>b \<in> set (take k bs). data s1 b = data s b"
        using s1(5) take_keep(3) [OF ki True] p(2) by (metis DiffI in_set_takeD singletonD)
      moreover have "ok s1 (set (bs[i := d]))" unfolding rm(1) by (rule s1(3))
      moreover have "map at (bs[i := d]) = (if pt = null then map at bs else (map at bs)[i := pt])"
        using s1(6) True by (auto simp: map_update list_update_same_conv)
      ultimately show ?thesis using Resize True s1(1,2) rm(2) take_keep(2) [OF ki True] p(3,5)
        by (intro step [of "bs[i := d]" s1]) simp_all
    qed
  qed
qed

lemma run_disjoint:
  assumes "ok s (set bs)" and "distinct bs" and "i < length bs" and "j < length bs" and "i \<noteq> j"
  shows "region (bs ! i) \<inter> region (bs ! j) = {}"
  by (rule disjoint_law [OF assms(1)]) (use assms in \<open>simp_all add: nth_eq_iff_index_eq\<close>)

end

subsection \<open>The contract holds for allocator.c\<close>

datatype alloc_call = Malloc sbrk_env nat size_t | Calloc sbrk_env nat size_t size_t

primrec do_alloc :: "alloc_call \<Rightarrow> heap_state \<Rightarrow> (addr \<times> heap_state) option" where
  "do_alloc (Malloc e t n) s = malloc e t n s"
| "do_alloc (Calloc e t m n) s = calloc e t m n s"

primrec alloc_call_ok :: "alloc_call \<Rightarrow> bool" where
  "alloc_call_ok (Malloc e t n) \<longleftrightarrow> unat n < 2 ^ 62 - 8"
| "alloc_call_ok (Calloc e t m n) \<longleftrightarrow> unat m * unat n < 2 ^ 62 - 8 \<or> 2 ^ 64 \<le> unat m * unat n"

type_synonym resize_call = "sbrk_env \<times> nat \<times> size_t"

definition do_realloc :: "addr \<Rightarrow> resize_call \<Rightarrow> heap_state \<Rightarrow> (addr \<times> heap_state) option" where
  "do_realloc p q s = (case q of (e, t, n) \<Rightarrow> realloc e t p n s)"

definition resize_call_ok :: "resize_call \<Rightarrow> bool" where
  "resize_call_ok q \<longleftrightarrow> (case q of (e, t, n) \<Rightarrow> n \<noteq> 0 \<and> unat n < 2 ^ 62 - 8)"

text \<open>The heap is consistent and the blocks handed out are exactly \<open>L\<close>.\<close>

definition heap_live :: "heap_state \<Rightarrow> blk set \<Rightarrow> bool" where
  "heap_live s L \<longleftrightarrow> (\<exists>B. heap_ok s B \<and> live B = L)"

definition arenas_given :: "heap_state \<Rightarrow> nat" where
  "arenas_given s = unat (next_arena_id s)"

lemma thread_ok_given: "arenas_given s < 2 ^ 31 \<Longrightarrow> thread_ok t s"
  using sint_small [of "next_arena_id s"] by (simp add: thread_ok_def arenas_given_def)

lemma do_alloc_law:
  assumes "heap_live s L" and "alloc_call_ok r" and "arenas_given s < 2 ^ 31"
  shows "\<exists>p s'. do_alloc r s = Some (p, s') \<and> arenas_given s' \<le> arenas_given s + 1 \<and>
    (\<forall>b \<in> L. contents s' b = contents s b) \<and>
    (p = 0 \<and> heap_live s' L \<or> (\<exists>b. p = ptr b \<and> p \<noteq> 0 \<and> b \<notin> L \<and> heap_live s' (insert b L)))"
proof -
  obtain B where h: "heap_ok s B" and L: "live B = L" using assms(1) by (auto simp: heap_live_def)
  note t = thread_ok_given [OF assms(3)]
  show ?thesis
  proof (cases r)
    case (Malloc e t n)
    then have "unat n < 2 ^ 62 - 8" using assms(2) by simp
    from h t this show ?thesis
      by (cases rule: malloc_cases [of s B t n e]) (auto simp: Malloc L arenas_given_def heap_live_def)
  next
    case (Calloc e t m n)
    show ?thesis
    proof (cases "unat m * unat n < 2 ^ 62 - 8")
      case True
      from h t this show ?thesis
        by (cases rule: calloc_cases [of s B t m n e]) (auto simp: Calloc L arenas_given_def heap_live_def)
    next
      case False
      then have "m \<noteq> 0 \<and> n > (- 1) div m"
        using calloc_overflow [of m n] assms(2) unfolding Calloc alloc_call_ok.simps by blast
      then show ?thesis using assms(1) by (simp add: Calloc calloc_def)
    qed
  qed
qed

lemma free_law:
  assumes "heap_live s L" and "b \<in> L"
  shows "\<exists>s'. free (ptr b) s = Some s' \<and> arenas_given s' = arenas_given s \<and> heap_live s' (L - {b}) \<and>
    (\<forall>c \<in> L - {b}. contents s' c = contents s c)"
proof -
  obtain B where h: "heap_ok s B" and L: "live B = L" using assms(1) by (auto simp: heap_live_def)
  from h show ?thesis
    by (rule free_cases [of s B b]) (use assms(2) L in \<open>auto simp: arenas_given_def heap_live_def\<close>)
qed

lemma do_realloc_law:
  assumes "heap_live s L" and "b \<in> L" and "resize_call_ok q"
  shows "\<exists>p s' d. do_realloc (ptr b) q s = Some (p, s') \<and> arenas_given s' = arenas_given s \<and>
    heap_live s' (insert d (L - {b})) \<and> d \<notin> L - {b} \<and> (\<forall>c \<in> L - {b}. contents s' c = contents s c) \<and>
    (p = 0 \<and> ptr d = ptr b \<or> p = ptr d \<and> p \<noteq> 0)"
proof -
  obtain B where h: "heap_ok s B" and L: "live B = L" using assms(1) by (auto simp: heap_live_def)
  obtain e t n where q: "q = (e, t, n)" by (cases q)
  have n: "n \<noteq> 0" "unat n < 2 ^ 62 - 8" using assms(3) by (simp_all add: resize_call_ok_def q)
  have b: "b \<in> live B" using assms(2) L by simp
  show ?thesis
  proof (cases rule: realloc_cases [OF h b n, of e t])
    case (1 s' B' d)
    then show ?thesis unfolding do_realloc_def arenas_given_def heap_live_def q L by auto
  next
    case (2 s' B' d)
    then show ?thesis unfolding do_realloc_def arenas_given_def heap_live_def q L
      by (intro exI [of _ "ptr d"] exI [of _ s'] exI [of _ d]) auto
  qed
qed

interpretation arenas: resizing_allocator heap_live arenas_given "2 ^ 31" alloc_call_ok do_alloc free 0
  ptr area contents resize_call_ok do_realloc
proof unfold_locales
  show "\<And>s L r. heap_live s L \<Longrightarrow> alloc_call_ok r \<Longrightarrow> arenas_given s < 2 ^ 31 \<Longrightarrow>
    \<exists>p s'. do_alloc r s = Some (p, s') \<and> arenas_given s' \<le> arenas_given s + 1 \<and>
    (\<forall>b \<in> L. contents s' b = contents s b) \<and>
    (p = 0 \<and> heap_live s' L \<or> (\<exists>b. p = ptr b \<and> p \<noteq> 0 \<and> b \<notin> L \<and> heap_live s' (insert b L)))"
    by (rule do_alloc_law)
next
  show "\<And>s L b. heap_live s L \<Longrightarrow> b \<in> L \<Longrightarrow> \<exists>s'. free (ptr b) s = Some s' \<and>
    arenas_given s' = arenas_given s \<and> heap_live s' (L - {b}) \<and> (\<forall>c \<in> L - {b}. contents s' c = contents s c)"
    by (rule free_law)
next
  show "\<And>s L b c. heap_live s L \<Longrightarrow> b \<in> L \<Longrightarrow> c \<in> L \<Longrightarrow> b \<noteq> c \<Longrightarrow> area b \<inter> area c = {}"
    unfolding heap_live_def using live_disjoint by blast
next
  show "\<And>s L b q. heap_live s L \<Longrightarrow> b \<in> L \<Longrightarrow> resize_call_ok q \<Longrightarrow>
    \<exists>p s' d. do_realloc (ptr b) q s = Some (p, s') \<and> arenas_given s' = arenas_given s \<and>
    heap_live s' (insert d (L - {b})) \<and> d \<notin> L - {b} \<and> (\<forall>c \<in> L - {b}. contents s' c = contents s c) \<and>
    (p = 0 \<and> ptr d = ptr b \<or> p = ptr d \<and> p \<noteq> 0)"
    by (rule do_realloc_law)
qed

end
