(* ===== verification/Alloc_Properties.thy ===== *)
theory Alloc_Properties
  imports Alloc_Spec
begin

section \<open>The allocator: properties\<close>

text \<open>
  The statements about \<^verbatim>\<open>allocator.c\<close> as a whole, over the definitions of
  \<open>Alloc_Heap\<close>; each rests on the refinement lemmas of the theories before. The
  sample heap below has one block in use and one free block in arena 0; the
  witnesses evaluate the hypotheses there or on the empty heap.
\<close>

definition sample_used :: blk where
  "sample_used = Blk 4096 8 False"

definition sample_free :: blk where
  "sample_free = Blk 4136 48 True"

definition sample_blocks :: "nat \<Rightarrow> blk list" where
  "sample_blocks k = (if k = 0 then [sample_used, sample_free] else [])"

definition sample_heap :: heap_state where
  "sample_heap = (init_heap 4096 1048576)
     \<lparr>hdrs := (\<lambda>x. if x = 4096 then Some \<lparr>h_arena = 0, h_freed = 0, h_size = 8, h_prev = 0, h_next = 4136\<rparr>
                 else if x = 4136 then Some \<lparr>h_arena = 0, h_freed = 1, h_size = 48, h_prev = 4096, h_next = 0\<rparr>
                 else None),
      arena_pool := (replicate NUM_ARENAS \<lparr>a_lock = False, a_head = 0, a_tail = 0\<rparr>)
        [0 := \<lparr>a_lock = False, a_head = 4096, a_tail = 4136\<rparr>],
      brk := 4216\<rparr>"

definition quiet :: sbrk_env where
  "quiet = \<lparr>e_busy = False, e_late = False\<rparr>"

lemmas sample_defs = sample_used_def sample_free_def sample_blocks_def sample_heap_def init_heap_def

lemma sample_arena:
  "arena_ok sample_heap 0 [sample_used, sample_free]" "layout sample_heap [sample_used, sample_free]"
  by (simp_all add: sample_defs arena_ok_def layout_def blk_ok_def seg_ok_def lo_def hi_def header_of_def
      last_adr_def first_adr_def NUM_ARENAS_def word_le_nat_alt)

lemma sample_ok: "heap_ok sample_heap sample_blocks"
proof -
  have "arena_ok sample_heap k (sample_blocks k) \<and> layout sample_heap (sample_blocks k) \<and>
      coalesced (sample_blocks k) \<and> \<not> a_lock (arena_pool sample_heap ! k)" if "k < NUM_ARENAS" for k
  proof (cases "k = 0")
    case True
    have "coalesced [sample_used, sample_free]" by (simp add: coalesced_simps sample_defs)
    with True sample_arena show ?thesis
      by (simp add: sample_blocks_def) (simp add: sample_heap_def NUM_ARENAS_def)
  next
    case False
    with that have e: "arena_pool sample_heap ! k = \<lparr>a_lock = False, a_head = 0, a_tail = 0\<rparr>"
      by (auto simp: sample_heap_def nth_list_update)
    have "seg_ok sample_heap" using sample_arena(2) by (simp add: layout_def)
    moreover have "length (arena_pool sample_heap) = NUM_ARENAS" by (simp add: sample_heap_def)
    ultimately show ?thesis using False that e
      by (simp add: sample_blocks_def arena_ok_def layout_def)
  qed
  moreover have "seg_ok sample_heap" using sample_arena(2) by (simp add: layout_def)
  moreover have "covers (sample_blocks i) \<inter> covers (sample_blocks j) = {}" if "i \<noteq> j" for i j
    using that by (auto simp: sample_blocks_def)
  ultimately show ?thesis
    unfolding heap_ok_def by (simp add: sample_heap_def init_heap_def)
qed

lemma sample_live: "live sample_blocks = {sample_used}"
proof -
  have "set (used (sample_blocks k)) = (if k = 0 then {sample_used} else {})" for k
    by (simp add: sample_defs)
  then show ?thesis by (auto simp: live_def NUM_ARENAS_def split: if_splits)
qed

lemma sample_thread: "thread_ok t sample_heap"
  by (simp add: thread_ok_def sample_heap_def init_heap_def)

subsection \<open>The entry points\<close>

text \<open>C20: For a size below \<open>2 ^ 62 - 8\<close>, and a thread that has an arena or can be given one (no more than \<open>2 ^ 31\<close> were given before), \<^verbatim>\<open>malloc\<close>
  comes back. It keeps the heap consistent and the bytes of all live
  blocks. It returns NULL only for size 0 or when the data segment has no room left for the
  request, a header and the reserve, and then no block changes; otherwise the result is
  8-aligned and points to a new block of at least the requested size, disjoint from all live
  blocks.\<close>

theorem malloc_correct:
  assumes "heap_ok s B" and "thread_ok t s" and "unat n < 2 ^ 62 - 8"
  shows "\<exists>p s' B'. malloc e t n s = Some (p, s') \<and> heap_ok s' B' \<and>
    (\<forall>c \<in> live B. contents s' c = contents s c) \<and>
    (p = 0 \<and> live B' = live B \<and> (n = 0 \<or> unat (brk_max s) < unat (brk s) + unat n + 2088) \<or>
     (\<exists>b. p = ptr b \<and> p \<noteq> 0 \<and> 8 dvd unat p \<and> n \<noteq> 0 \<and> b \<notin> live B \<and> live B' = insert b (live B) \<and>
       unat n \<le> unat (siz b) \<and> (\<forall>c \<in> live B. area b \<inter> area c = {})))"
proof (cases rule: malloc_cases [OF assms, of e])
  case (1 s' B')
  then show ?thesis by blast
next
  case (2 s' B' b)
  have "\<forall>c \<in> live B. area b \<inter> area c = {}"
    using live_disjoint [OF 2(2)] 2(3,4) by (metis insertCI)
  then show ?thesis using 2
    by (intro exI [of _ "ptr b"] exI [of _ s'] exI [of _ B'] conjI disjI2 exI [of _ b]) simp_all
qed

lemma malloc_correct_witness:
  "\<exists>p s' B' b. malloc quiet 0 100 sample_heap = Some (p, s') \<and> heap_ok s' B' \<and> p = ptr b \<and> p \<noteq> 0 \<and>
    live B' = {b, sample_used} \<and> 100 \<le> unat (siz b) \<and> area b \<inter> area sample_used = {}"
proof -
  have "unat (100 :: size_t) < 2 ^ 62 - 8" by simp
  then obtain p s' B' where r: "malloc quiet 0 100 sample_heap = Some (p, s')" "heap_ok s' B'"
    "p = 0 \<and> live B' = live sample_blocks \<and>
       ((100 :: size_t) = 0 \<or> unat (brk_max sample_heap) < unat (brk sample_heap) + unat (100 :: size_t) + 2088) \<or>
     (\<exists>b. p = ptr b \<and> p \<noteq> 0 \<and> 8 dvd unat p \<and> (100 :: size_t) \<noteq> 0 \<and> b \<notin> live sample_blocks \<and>
       live B' = insert b (live sample_blocks) \<and> unat (100 :: size_t) \<le> unat (siz b) \<and>
       (\<forall>c \<in> live sample_blocks. area b \<inter> area c = {}))"
    using malloc_correct [OF sample_ok sample_thread, of 100 quiet 0] by blast
  have "\<not> unat (brk_max sample_heap) < unat (brk sample_heap) + unat (100 :: size_t) + 2088"
    by (simp add: sample_defs)
  then obtain b where "p = ptr b" "p \<noteq> 0" "live B' = {b, sample_used}" "100 \<le> unat (siz b)"
    "area b \<inter> area sample_used = {}"
    using r(3) unfolding sample_live by auto
  with r(1,2) show ?thesis by blast
qed

text \<open>\<^verbatim>\<open>calloc\<close> is \<^verbatim>\<open>malloc\<close> of the product of its arguments with all requested bytes zero,
  and keeps the heap consistent and the bytes of all other live blocks.\<close>

theorem calloc_correct:
  assumes "heap_ok s B" and "thread_ok t s" and "unat m * unat n < 2 ^ 62 - 8"
  shows "\<exists>p s' B'. calloc e t m n s = Some (p, s') \<and> heap_ok s' B' \<and>
    (\<forall>c \<in> live B. contents s' c = contents s c) \<and>
    (p = 0 \<and> live B' = live B \<and>
       (m = 0 \<or> n = 0 \<or> unat (brk_max s) < unat (brk s) + unat m * unat n + 2088) \<or>
     (\<exists>b. p = ptr b \<and> p \<noteq> 0 \<and> 8 dvd unat p \<and> b \<notin> live B \<and> live B' = insert b (live B) \<and>
       unat m * unat n \<le> unat (siz b) \<and>
       (\<forall>i < unat m * unat n. bytes s' (p + of_nat i) = Some 0)))"
proof (cases rule: calloc_cases [OF assms, of e])
  case (1 s' B')
  then show ?thesis by blast
next
  case (2 s' B' b)
  then show ?thesis
    by (intro exI [of _ "ptr b"] exI [of _ s'] exI [of _ B'] conjI disjI2 exI [of _ b]) simp_all
qed

lemma calloc_correct_witness:
  "\<exists>p s'. calloc quiet 0 3 7 sample_heap = Some (p, s') \<and> p \<noteq> 0 \<and>
    (\<forall>i < 21. bytes s' (p + of_nat i) = Some 0)"
proof -
  have "\<not> unat (brk_max sample_heap) < unat (brk sample_heap) + unat (3 :: size_t) * unat (7 :: size_t) + 2088"
    by (simp add: sample_defs)
  then show ?thesis
    using calloc_correct [OF sample_ok sample_thread, of 3 7 quiet 0] by auto
qed

text \<open>\<^verbatim>\<open>calloc\<close> answers a request whose product does not fit in \<^verbatim>\<open>size_t\<close> with NULL and
  leaves the heap as it was.\<close>

theorem calloc_overflow_null:
  assumes "2 ^ 64 \<le> unat m * unat n"
  shows "calloc e t m n s = Some (0, s)"
  using calloc_overflow [OF assms] by (simp add: calloc_def)

lemma calloc_overflow_null_witness:
  "calloc quiet 0 (2 ^ 32) (2 ^ 32) sample_heap = Some (0, sample_heap)"
  by (rule calloc_overflow_null) simp

text \<open>C21: \<^verbatim>\<open>free\<close> of a live block comes back, takes exactly that block out of the live ones,
  keeps the bytes of all others and leaves no two adjacent free blocks behind (\<open>heap_ok\<close>
  includes that every arena is coalesced).\<close>

theorem free_correct:
  assumes "heap_ok s B" and "b \<in> live B"
  shows "\<exists>s' B'. free (ptr b) s = Some s' \<and> heap_ok s' B' \<and> live B' = live B - {b} \<and>
    (\<forall>c \<in> live B - {b}. contents s' c = contents s c) \<and> (\<forall>k < NUM_ARENAS. coalesced (B' k))"
proof (rule free_cases [OF assms])
  fix s' B'
  assume "free (ptr b) s = Some s'" "heap_ok s' B'" "live B' = live B - {b}"
    "\<And>c. c \<in> live B \<Longrightarrow> contents s' c = contents s c"
  then show ?thesis using heap_okD(3) [of s' B'] by (intro exI [of _ s'] exI [of _ B']) simp
qed

lemma free_correct_witness:
  "\<exists>s' B'. free 4128 sample_heap = Some s' \<and> heap_ok s' B' \<and> live B' = {}"
proof -
  have "ptr sample_used = 4128" by (simp add: ptr_def sample_used_def)
  then show ?thesis using free_correct [OF sample_ok, of sample_used] unfolding sample_live by auto
qed

text \<open>C19: \<^verbatim>\<open>realloc\<close> of a live block to a size that is not 0 and below \<open>2 ^ 62 - 8\<close> comes back and keeps the heap
  consistent. It returns NULL and leaves the block live with all its bytes, or it returns a
  block of at least the new size that holds the bytes both sizes have in common and replaces
  the old one; the bytes of all other live blocks stay.\<close>

theorem realloc_correct:
  assumes "heap_ok s B" and "b \<in> live B" and "n \<noteq> 0" and "unat n < 2 ^ 62 - 8"
  shows "\<exists>p s' B' d. realloc e t (ptr b) n s = Some (p, s') \<and> heap_ok s' B' \<and>
    live B' = insert d (live B - {b}) \<and> d \<notin> live B - {b} \<and>
    (\<forall>c \<in> live B - {b}. contents s' c = contents s c) \<and>
    (p = 0 \<and> ptr d = ptr b \<and> unat (siz b) \<le> unat (siz d) \<and>
       (\<forall>i < unat (siz b). bytes s' (ptr b + of_nat i) = bytes s (ptr b + of_nat i)) \<or>
     p = ptr d \<and> p \<noteq> 0 \<and> 8 dvd unat p \<and> unat n \<le> unat (siz d) \<and>
       (\<forall>i < min (unat n) (unat (siz b)). bytes s' (p + of_nat i) = bytes s (ptr b + of_nat i)))"
proof (cases rule: realloc_cases [OF assms, of e t])
  case (1 s' B' d)
  then show ?thesis by (intro exI [of _ 0] exI [of _ s'] exI [of _ B'] exI [of _ d]) simp
next
  case (2 s' B' d)
  then show ?thesis by (intro exI [of _ "ptr d"] exI [of _ s'] exI [of _ B'] exI [of _ d]) simp
qed

lemma realloc_correct_witness:
  "\<exists>p s'. realloc quiet 0 4128 24 sample_heap = Some (p, s') \<and> (p \<noteq> 0 \<longrightarrow> 8 dvd unat p)"
proof -
  have "ptr sample_used = 4128" by (simp add: ptr_def sample_used_def)
  then show ?thesis
    using realloc_correct [OF sample_ok, of sample_used 24 quiet 0] unfolding sample_live by auto
qed

text \<open>C2: Any program of at most \<open>2 ^ 31\<close> calls of \<^verbatim>\<open>malloc\<close>, \<^verbatim>\<open>calloc\<close>, \<^verbatim>\<open>realloc\<close> and
  \<^verbatim>\<open>free\<close>, made by any threads from the freshly loaded library with a data segment below \<open>2 ^ 62\<close>, runs to its end if it passes only pointers it
  owns and its sizes are below \<open>2 ^ 62 - 8\<close> (for \<^verbatim>\<open>calloc\<close> the product, unless the product overflows, which is refused) and not 0 for \<^verbatim>\<open>realloc\<close>. Larger sizes
  are outside: the lemmas on wrap-around below show what goes wrong there. Afterwards the blocks in use are exactly those the program owns
  pointers to (nothing is lost), they are pairwise disjoint, and no arena has adjacent free
  blocks.\<close>

theorem alloc_program_safe:
  assumes "0 < unat l" and "unat l \<le> unat u" and "unat u < 2 ^ 62" and "8 dvd unat l"
    and "\<forall>c \<in> set cs. request_ok alloc_call_ok resize_call_ok c" and "length cs \<le> 2 ^ 31"
  shows "\<exists>bs s B. run_requests do_alloc free do_realloc 0 cs [] (init_heap l u) = Some (map ptr bs, s) \<and>
    heap_ok s B \<and> live B = set bs \<and> distinct bs \<and>
    (\<forall>i < length bs. \<forall>j < length bs. i \<noteq> j \<longrightarrow> area (bs ! i) \<inter> area (bs ! j) = {}) \<and>
    (\<forall>k < NUM_ARENAS. coalesced (B k))"
proof -
  have "heap_live (init_heap l u) (set [])"
    using init_heap_ok [OF assms(1-4)] by (auto simp: heap_live_def)
  moreover have "\<forall>c \<in> set cs. request_ok alloc_call_ok resize_call_ok c \<and> leaves 0 c"
    using assms(5) by simp
  moreover have "arenas_given (init_heap l u) + length cs \<le> 2 ^ 31"
    using assms(6) by (simp add: arenas_given_def init_heap_def)
  ultimately obtain bs s where r: "run_requests do_alloc free do_realloc 0 cs [] (init_heap l u) = Some (map ptr bs, s)"
    "heap_live s (set bs)" "distinct bs"
    using arenas.run_safe [of "init_heap l u" "[]" 0 cs] by auto
  obtain B where B: "heap_ok s B" "live B = set bs" using r(2) by (auto simp: heap_live_def)
  have "\<forall>i < length bs. \<forall>j < length bs. i \<noteq> j \<longrightarrow> area (bs ! i) \<inter> area (bs ! j) = {}"
    using arenas.run_disjoint [OF r(2,3)] by blast
  moreover have "\<forall>k < NUM_ARENAS. coalesced (B k)" using heap_okD(3) [OF B(1)] by blast
  ultimately show ?thesis using r(1,3) B by blast
qed

lemma alloc_program_safe_witness:
  "\<exists>bs s. run_requests do_alloc free do_realloc 0
      [Alloc (Malloc quiet 0 100), Alloc (Calloc quiet 1 4 8), Resize 0 (quiet, 0, 200), Release 1] []
      (init_heap 4096 1048576) = Some (map ptr bs, s) \<and> distinct bs"
  using alloc_program_safe [of 4096 1048576
      "[Alloc (Malloc quiet 0 100), Alloc (Calloc quiet 1 4 8), Resize 0 (quiet, 0, 200), Release 1]"]
  by (auto simp: resize_call_ok_def)

subsection \<open>The list routines\<close>

text \<open>The search loop \<^verbatim>\<open>first_hit\<close> ends on every consistent arena and returns the first
  free block of the list that is large enough, or NULL when there is none.\<close>

theorem first_hit_first_fit:
  assumes "arena_ok s k bs" and "layout s bs"
  shows "first_hit (a_head (arena_pool s ! k)) n s =
    Some (case find (\<lambda>b. fre b \<and> n \<le> siz b) bs of None \<Rightarrow> 0 | Some b \<Rightarrow> adr b)"
proof -
  have "linked (hdrs s) (int k) 0 bs 0" "a_head (arena_pool s ! k) = first_adr bs 0"
    using assms(1) by (simp_all add: arena_ok_def)
  moreover have "\<And>b. b \<in> set bs \<Longrightarrow> adr b \<noteq> 0" using layout_blkD(2) [OF assms(2)] .
  ultimately show ?thesis using first_hit_linked [of s "int k" 0 bs n] by (simp add: first_fit_abs_def)
qed

lemma first_hit_first_fit_witness:
  "first_hit 4096 40 sample_heap = Some 4136 \<and> first_hit 4096 56 sample_heap = Some 0"
  using first_hit_first_fit [OF sample_arena, of 40] first_hit_first_fit [OF sample_arena, of 56]
  by (simp_all add: sample_defs NUM_ARENAS_def)

text \<open>\<^verbatim>\<open>split_block\<close> on the headers in memory is cutting the block in the list: the block
  keeps the requested size and a free remainder follows it, unless the rest would be smaller
  than a header and 8 bytes. Bytes change only in the cut-off part and in headers.\<close>

theorem split_block_cuts:
  assumes "arena_ok s k (as @ b # cs)" and "layout s (as @ b # cs)" and "unat n \<le> unat (siz b)"
  shows "\<exists>s'. split_block k (adr b) n s = Some s' \<and> arena_ok s' k (as @ split_abs n b @ cs) \<and>
    touches k ({lo b + 32 + unat n ..< hi b} \<union> hdr_areas (b # cs)) s s'"
  by (rule split_block_refines [OF assms]) blast

lemma split_block_cuts_witness:
  "\<exists>s'. split_block 0 4136 8 sample_heap = Some s' \<and>
    arena_ok s' 0 [sample_used, Blk 4136 8 True, Blk 4176 8 True]"
  using split_block_cuts [of sample_heap 0 "[sample_used]" sample_free "[]" 8] sample_arena
  by (auto simp: split_abs_def sample_free_def)

text \<open>C22: \<^verbatim>\<open>arena_free\<close> marks the block free and merges it with the free blocks that adjoin it,
  before and behind: in memory exactly what \<open>merge_abs\<close> does to the list.\<close>

theorem arena_free_merges:
  assumes "arena_ok s k (as @ b # cs)" and "layout s (as @ b # cs)"
  shows "\<exists>s'. arena_free k (adr b) s = Some s' \<and>
    arena_ok s' k (merge_abs as (Blk (adr b) (siz b) True) cs) \<and>
    layout s' (merge_abs as (Blk (adr b) (siz b) True) cs) \<and> touches k (hdr_areas (as @ b # cs)) s s'"
  by (rule arena_free_refines [OF assms]) blast

lemma arena_free_merges_witness:
  "\<exists>s'. arena_free 0 4096 sample_heap = Some s' \<and> arena_ok s' 0 [Blk 4096 88 True]"
  using arena_free_merges [of sample_heap 0 "[]" sample_used "[sample_free]"] sample_arena
  by (auto simp: merge_abs_def coalesce_abs_def join_def sample_used_def sample_free_def lo_def hi_def)

subsection \<open>Sizes and counters that wrap\<close>

lemma ALIGN8_wraps: "2 ^ 64 - 7 \<le> unat n \<Longrightarrow> ALIGN8 n = 0"
proof -
  assume n: "2 ^ 64 - 7 \<le> unat n"
  have "unat (n + 7) = (unat n + 7) mod 2 ^ 64" by (simp add: unat_word_ariths)
  also have "\<dots> = unat n + 7 - 2 ^ 64" using n unat_max_64 [of n] by (simp add: mod_if)
  finally have "unat (n + 7) < 8" using unat_max_64 [of n] by simp
  then show ?thesis unfolding ALIGN8_def word_eq_unat unat_and_not_7 by simp
qed

text \<open>Rounding up wraps to 0 for the seven largest sizes: \<^verbatim>\<open>realloc\<close> then frees the block and
  returns NULL, although a failed \<^verbatim>\<open>realloc\<close> has to leave the block as it is.\<close>

theorem realloc_wrap_frees:
  assumes "heap_ok s B" and "b \<in> live B" and "2 ^ 64 - 7 \<le> unat n"
  shows "\<exists>s' B'. realloc e t (ptr b) n s = Some (0, s') \<and> heap_ok s' B' \<and> b \<notin> live B'"
proof (rule free_cases [OF assms(1,2)])
  fix s' B'
  assume "free (ptr b) s = Some s'" "heap_ok s' B'" "live B' = live B - {b}"
  then show ?thesis using ALIGN8_wraps [OF assms(3)]
    by (intro exI [of _ s'] exI [of _ B']) (simp add: realloc_def)
qed

lemma realloc_wrap_frees_witness:
  "\<exists>s' B'. realloc quiet 0 4128 (- 1) sample_heap = Some (0, s') \<and> heap_ok s' B' \<and> sample_used \<notin> live B'"
proof -
  have "ptr sample_used = 4128" "(2 :: nat) ^ 64 - 7 \<le> unat (- 1 :: size_t)"
    by (simp_all add: ptr_def sample_used_def unsigned_minus_1_eq_mask mask_eq_exp_minus_1)
  then show ?thesis using realloc_wrap_frees [OF sample_ok, of sample_used "- 1" quiet 0]
    unfolding sample_live by simp
qed

text \<open>A request of \<open>2 ^ 64 - 32\<close> bytes is not refused: with the header its size wraps to 0, the
  break does not move, and the header of the new block is written outside the heap.\<close>

theorem malloc_wrap_faults:
  assumes h: "heap_ok s B" and t: "thread_ok t s" and c: "contention_detected s = 0"
  shows "malloc quiet t (- 32) s = None"
proof -
  have al: "ALIGN8 (- 32) = - 32" by (simp add: ALIGN8_def)
  obtain k s1 where k: "get_thread_arena t s = (int k, s1)" "k < NUM_ARENAS" "heap_ok s1 B"
    "arena_index (int k) s1 = Some k" "contention_detected s1 = contention_detected s"
  proof (rule get_thread_arena_ok [OF h t])
    fix k s1
    assume "get_thread_arena t s = (int k, s1)"
    moreover from this have "contention_detected s1 = contention_detected s"
      by (auto simp: get_thread_arena_def Let_def split: if_splits)
    moreover assume "k < NUM_ARENAS" "heap_ok s1 B" "arena_index (int k) s1 = Some k"
    ultimately show thesis by (intro that)
  qed
  note f = locked_facts [OF k(3,2)]
  have "\<not> (- 32 :: size_t) \<le> siz b" if "b \<in> set (B k)" for b
    using layout_blkD(4) [OF f(2) that] by (simp add: word_le_nat_alt hi_def)
  then have "find (\<lambda>b. fre b \<and> - 32 \<le> siz b) (B k) = None" by (auto simp: find_None_iff)
  then have nf: "first_hit (a_head (arena_pool (locked k s1) ! k)) (- 32) (locked k s1) = Some 0"
    using first_hit_linked [of "locked k s1" "int k" 0 "B k" "- 32"] f(1) layout_blkD(2) [OF f(2)]
    by (simp add: arena_ok_def first_fit_abs_def)
  have b: "brk (locked k s1) \<noteq> - 1"
    using f(2) unat_max_64 [of "brk_max s1"]
    by (auto simp: layout_def seg_ok_def locked_def set_arena_def word_le_nat_alt word_eq_unat
        unsigned_minus_1_eq_mask mask_eq_exp_minus_1)
  have seg: "seg_ok (locked k s1)" using f(2) by (simp add: layout_def)
  have "extend_arena_heap quiet k (- 32) (locked k s1) = None"
    using f(3,4) b c k(5) seg
    by (simp add: extend_arena_heap_def quiet_def sizeof_BlockHeader_def sbrk_def seg_ok_def word_le_def
        append_block_def store_header_def mapped_def Let_def locked_def set_arena_def)
  then have "arena_malloc quiet k (- 32) (locked k s1) = None"
    using nf by (simp add: arena_malloc_def)
  then show ?thesis using al k(1,4) lock_arena_ok [OF k(3,2)] by (simp add: malloc_def Let_def)
qed

lemma malloc_wrap_faults_witness: "malloc quiet 0 (- 32) sample_heap = None"
  by (rule malloc_wrap_faults [OF sample_ok sample_thread]) (simp add: sample_heap_def init_heap_def)

text \<open>The round-robin counter wraps to a negative number after \<open>2 ^ 31\<close> threads; the arena
  index of the next thread is then -3, outside \<^verbatim>\<open>arena_pool\<close>.\<close>

theorem arena_counter_wraps:
  assumes "thread_arena_id s t = - 1" and "next_arena_id s = 2 ^ 31"
  shows "fst (get_thread_arena t s) = - 3"
  using assms by (simp add: get_thread_arena_def NUM_ARENAS_def)

lemma arena_counter_wraps_witness:
  "fst (get_thread_arena 0 (sample_heap\<lparr>next_arena_id := 2 ^ 31\<rparr>)) = - 3"
  by (rule arena_counter_wraps) (simp_all add: sample_heap_def init_heap_def)

end
