(* ===== verification/Net_Msg.thy ===== *)
theory Net_Msg
  imports Sys_Prelude
begin

section \<open>Sockets and message framing\<close>

text \<open>
  \<^verbatim>\<open>task06-sockets/src/utils.cpp\<close>. A connection is the stream of bytes one end puts on it and
  the other end takes off. How many bytes a call of \<^verbatim>\<open>send\<close> or \<^verbatim>\<open>recv\<close> moves is up to the
  kernel: an \<open>xfer\<close> is its outcome, a failure (a result of at most 0) or \<open>Moved k\<close>, which moves
  \<open>k + 1\<close> bytes, but never more than asked for. A sequence \<open>e\<close> of outcomes is an argument of
  the routines that call them. Serialization is generated code: \<open>ser\<close> is
  \<^verbatim>\<open>SerializeToString\<close> of a message with its two fields, \<open>par\<close> is \<^verbatim>\<open>ParseFromString\<close> with the
  \<^verbatim>\<open>has_argument\<close> test.
\<close>

record message =
  operation_type :: int32
  argument :: "64 word"

type_synonym serializer = "message \<Rightarrow> byte list"
type_synonym parser = "byte list \<Rightarrow> (int32 \<times> 64 word option) option"

definition OPERATION_ADD :: int32 where "OPERATION_ADD = 1"
definition OPERATION_SUB :: int32 where "OPERATION_SUB = 2"
definition OPERATION_TERMINATION :: int32 where "OPERATION_TERMINATION = 3"
definition OPERATION_COUNTER :: int32 where "OPERATION_COUNTER = 4"

datatype xfer = Fail | Moved nat

text \<open>The four bytes of a \<^verbatim>\<open>uint32_t\<close> in network byte order, and back.\<close>

definition htonl :: "32 word \<Rightarrow> byte list" where
  "htonl w = [ucast (drop_bit 24 w), ucast (drop_bit 16 w), ucast (drop_bit 8 w), ucast w]"

definition ntohl :: "byte list \<Rightarrow> 32 word" where
  "ntohl bs = foldl (\<lambda>w b. push_bit 8 w OR ucast b) 0 bs"

subsection \<open>Receiving and sending\<close>

text \<open>The loops over \<^verbatim>\<open>offset\<close>: \<open>n\<close> bytes are still to be read, or the bytes still to be sent.
  A \<^verbatim>\<open>recv\<close> at the end of the stream returns 0.\<close>

function recv_loop :: "(nat \<Rightarrow> xfer) \<Rightarrow> nat \<Rightarrow> byte list \<Rightarrow> (byte list \<times> byte list) option" where
  "recv_loop e n inp =
     (if n = 0 then Some ([], inp)
      else case e 0 of Fail \<Rightarrow> None
        | Moved k \<Rightarrow>
            if inp = [] then None
            else
              let m = min (min (Suc k) n) (length inp) in
              map_option (\<lambda>(bs, rest). (take m inp @ bs, rest)) (recv_loop (\<lambda>j. e (Suc j)) (n - m) (drop m inp)))"
  by pat_completeness auto
termination
  by (relation "measure (\<lambda>(e, n, inp). n)") (auto simp: min_def)

declare recv_loop.simps [simp del]

text \<open>\<open>junk\<close> is what the variable \<^verbatim>\<open>size\<close> holds before the first \<^verbatim>\<open>recv\<close>, which may fill only some
  of its bytes. The result is the return value, the message and the rest of the stream.\<close>

definition recv_msg ::
  "parser \<Rightarrow> (nat \<Rightarrow> xfer) \<Rightarrow> 32 word \<Rightarrow> byte list \<Rightarrow> (int \<times> message option \<times> byte list)" where
  "recv_msg par e junk inp =
     (case e 0 of Fail \<Rightarrow> (1, None, inp)
      | Moved k \<Rightarrow>
          if inp = [] then (1, None, inp)
          else
            let m = min (min (Suc k) 4) (length inp);
                size = ntohl (take m inp @ drop m (htonl junk)) in
            (case recv_loop (\<lambda>j. e (Suc j)) (unat size) (drop m inp) of
               None \<Rightarrow> (1, None, [])
             | Some (payload, rest) \<Rightarrow>
                 (case par payload of
                    None \<Rightarrow> (1, None, rest)
                  | Some (t, a) \<Rightarrow>
                      (0, Some \<lparr>operation_type = t, argument = (case a of None \<Rightarrow> 0 | Some v \<Rightarrow> v)\<rparr>, rest))))"

function send_loop :: "(nat \<Rightarrow> xfer) \<Rightarrow> byte list \<Rightarrow> bool \<times> byte list" where
  "send_loop e buf =
     (if buf = [] then (True, [])
      else case e 0 of Fail \<Rightarrow> (False, [])
        | Moved k \<Rightarrow>
            (case send_loop (\<lambda>j. e (Suc j)) (drop (Suc k) buf) of (ok, out) \<Rightarrow> (ok, take (Suc k) buf @ out)))"
  by pat_completeness auto
termination
  by (relation "measure (\<lambda>(e, buf). length buf)") auto

declare send_loop.simps [simp del]

definition send_msg :: "serializer \<Rightarrow> (nat \<Rightarrow> xfer) \<Rightarrow> int32 \<Rightarrow> 64 word \<Rightarrow> int \<times> byte list" where
  "send_msg ser e op arg =
     (let payload = ser \<lparr>operation_type = op, argument = arg\<rparr>;
          size = htonl (of_nat (length payload)) in
      case e 0 of Fail \<Rightarrow> (1, [])
      | Moved k \<Rightarrow>
          (case send_loop (\<lambda>j. e (Suc j)) payload of (ok, out) \<Rightarrow> (if ok then 0 else 1, take (Suc k) size @ out)))"

subsection \<open>Opening sockets\<close>

text \<open>The results of the system calls are arguments; a routine returns its result and the
  descriptors it closed.\<close>

record sockaddr_in =
  sin_family :: nat
  sin_port :: "16 word"
  sin_addr :: "32 word"

definition AF_INET :: nat where "AF_INET = 2"
definition INADDR_LOOPBACK :: "32 word" where "INADDR_LOOPBACK = 0x7F000001"

definition listen_addr :: "int32 \<Rightarrow> sockaddr_in" where
  "listen_addr port = \<lparr>sin_family = AF_INET, sin_port = ucast port, sin_addr = INADDR_LOOPBACK\<rparr>"

definition listening_socket :: "int \<Rightarrow> (sockaddr_in \<Rightarrow> int) \<Rightarrow> int \<Rightarrow> int32 \<Rightarrow> int \<times> int list" where
  "listening_socket fd bind_res listen_res port =
     (if fd < 0 then (-1, [])
      else if bind_res (listen_addr port) < 0 then (-1, [fd])
      else if listen_res < 0 then (-1, [fd])
      else (fd, []))"

definition connect_socket ::
  "(string \<Rightarrow> 32 word option) \<Rightarrow> int \<Rightarrow> (sockaddr_in \<Rightarrow> int) \<Rightarrow> string \<Rightarrow> int32 \<Rightarrow> int \<times> int list" where
  "connect_socket gethostbyname fd connect_res hostname port =
     (case gethostbyname hostname of
        None \<Rightarrow> (-1, [])
      | Some h_addr \<Rightarrow>
          if fd < 0 then (-1, [])
          else if connect_res \<lparr>sin_family = AF_INET, sin_port = ucast port, sin_addr = h_addr\<rparr> < 0 then (-1, [fd])
          else (fd, []))"

subsection \<open>Framing\<close>

text \<open>The contract of the generated serialization code: parsing undoes serializing for the
  operations of the enumeration, and a message has a length that fits in 32 bits.\<close>

definition valid_op :: "int32 \<Rightarrow> bool" where
  "valid_op t \<longleftrightarrow> t \<in> {OPERATION_ADD, OPERATION_SUB, OPERATION_TERMINATION, OPERATION_COUNTER}"

locale message_format =
  fixes ser :: serializer and par :: parser
  assumes par_ser: "valid_op (operation_type m) \<Longrightarrow> par (ser m) = Some (operation_type m, Some (argument m))"
    and ser_short: "length (ser m) < 2 ^ 32"

lemma ntohl_htonl [simp]: "ntohl (htonl w) = w"
proof (rule bit_word_eqI)
  fix n
  assume "n < LENGTH(32)"
  then have n: "n < 32" by simp
  consider "n < 8" | "8 \<le> n" "n < 16" | "16 \<le> n" "n < 24" | "24 \<le> n" by linarith
  then show "bit (ntohl (htonl w)) n \<longleftrightarrow> bit w n"
    using n by cases (auto simp: ntohl_def htonl_def bit_simps)
qed

lemma length_htonl [simp]: "length (htonl w) = 4"
  by (simp add: htonl_def)

text \<open>The loops move everything, in any pieces, unless a call fails.\<close>

definition all_move :: "(nat \<Rightarrow> xfer) \<Rightarrow> bool" where
  "all_move e \<longleftrightarrow> (\<forall>j. e j \<noteq> Fail)"

lemma all_move_Suc: "all_move e \<Longrightarrow> all_move (\<lambda>j. e (Suc j))"
  by (simp add: all_move_def)

lemma all_moveD: "all_move e \<Longrightarrow> \<exists>k. e j = Moved k"
  by (cases "e j") (auto simp: all_move_def)

lemma send_loop_all: "all_move e \<Longrightarrow> send_loop e buf = (True, buf)"
proof (induction e buf rule: send_loop.induct)
  case (1 e buf)
  obtain k where k: "e 0 = Moved k" using all_moveD [OF 1(2)] by blast
  show ?case
  proof (cases "buf = []")
    case True
    then show ?thesis by (simp add: send_loop.simps)
  next
    case False
    then show ?thesis using 1(1) [OF False k all_move_Suc [OF 1(2)]] k by (subst send_loop.simps) simp
  qed
qed

lemma recv_loop_all:
  "all_move e \<Longrightarrow> n \<le> length inp \<Longrightarrow> recv_loop e n inp = Some (take n inp, drop n inp)"
proof (induction e n inp rule: recv_loop.induct)
  case (1 e n inp)
  obtain k where k: "e 0 = Moved k" using all_moveD [OF 1(2)] by blast
  show ?case
  proof (cases "n = 0")
    case True
    then show ?thesis by (simp add: recv_loop.simps)
  next
    case False
    then have ne: "inp \<noteq> []" using 1(3) by auto
    define m where "m = min (min (Suc k) n) (length inp)"
    have m: "m \<le> n" "m \<le> length inp" by (simp_all add: m_def)
    have "n - m \<le> length (drop m inp)" using 1(3) by simp
    from 1(1) [OF False k ne m_def all_move_Suc [OF 1(2)] this]
    have "recv_loop (\<lambda>j. e (Suc j)) (n - m) (drop m inp) = Some (take (n - m) (drop m inp), drop (n - m) (drop m inp))" .
    then have "recv_loop e n inp = Some (take m inp @ take (n - m) (drop m inp), drop n inp)"
      using False k ne m by (subst recv_loop.simps) (simp add: Let_def m_def [symmetric])
    moreover have "take m inp @ take (n - m) (drop m inp) = take n inp"
      using m(1) by (metis le_add_diff_inverse take_add)
    ultimately show ?thesis by simp
  qed
qed

text \<open>A header is moved in one piece.\<close>

definition whole_header :: "(nat \<Rightarrow> xfer) \<Rightarrow> bool" where
  "whole_header e \<longleftrightarrow> (\<exists>k. e 0 = Moved k \<and> 3 \<le> k)"

definition frame :: "serializer \<Rightarrow> message \<Rightarrow> byte list" where
  "frame ser m = htonl (of_nat (length (ser m))) @ ser m"

context message_format
begin

lemma send_frames:
  assumes "all_move e" and "whole_header e"
  shows "send_msg ser e op arg = (0, frame ser \<lparr>operation_type = op, argument = arg\<rparr>)"
  using assms send_loop_all [OF all_move_Suc [OF assms(1)]]
  by (auto simp: send_msg_def frame_def Let_def whole_header_def)

lemma recv_frames:
  assumes "all_move e" and "whole_header e" and "valid_op (operation_type m)"
  shows "recv_msg par e junk (frame ser m @ rest) = (0, Some m, rest)"
proof -
  obtain k where k: "e 0 = Moved k" "3 \<le> k" using assms(2) by (auto simp: whole_header_def)
  have "unat (of_nat (length (ser m)) :: 32 word) = length (ser m)" using ser_short [of m] by (simp add: unat_of_nat)
  moreover have "recv_loop (\<lambda>j. e (Suc j)) (length (ser m)) (ser m @ rest) = Some (ser m, rest)"
    using recv_loop_all [OF all_move_Suc [OF assms(1)], of "length (ser m)" "ser m @ rest"] by simp
  moreover define inp where "inp = frame ser m @ rest"
  have "inp \<noteq> []" "min (min (Suc k) 4) (length inp) = 4" "take 4 inp = htonl (of_nat (length (ser m)))"
    "drop 4 inp = ser m @ rest"
    using k(2) by (auto simp: inp_def frame_def htonl_def)
  ultimately show ?thesis using k(1) par_ser [OF assms(3)] unfolding inp_def [symmetric]
    by (simp add: recv_msg_def Let_def)
qed

end

end
