(* ===== verification/Net_Server.thy ===== *)
theory Net_Server
  imports Net_Msg C_Stdio "HOL-Library.Multiset"
begin

section \<open>The counter server and its clients\<close>

text \<open>
  \<^verbatim>\<open>task06-sockets/src/server.cpp\<close> and \<^verbatim>\<open>client.cpp\<close>. The server's state is the atomic counter,
  what it printed, the bytes its clients send (as far as not received yet) and what it sent to
  them, and the descriptors it closed.
\<close>

record server =
  number :: "64 word"
  printed :: "64 word list"
  inbox :: "int \<Rightarrow> byte list"
  outbox :: "int \<Rightarrow> byte list"
  closed :: "int list"

text \<open>What the kernel does during one call: the outcomes of the \<^verbatim>\<open>recv\<close> and \<^verbatim>\<open>send\<close> calls, and the
  old content of the size variable.\<close>

record call_env =
  rx :: "nat \<Rightarrow> xfer"
  tx :: "nat \<Rightarrow> xfer"
  junk :: "32 word"

text \<open>\<^verbatim>\<open>handle_client\<close> in three parts, at whose borders other workers may run: it receives a message and accesses the
  atomic counter once; for a termination request it then prints the number it loaded, under \<^verbatim>\<open>print_mutex\<close>, and
  after that sends it.\<close>

datatype answer = Go_on | Close | Reply "64 word"

definition take_message :: "parser \<Rightarrow> call_env \<Rightarrow> int \<Rightarrow> server \<Rightarrow> answer \<times> server" where
  "take_message par v clientfd s =
     (case recv_msg par (rx v) (junk v) (inbox s clientfd) of (r, m, rest) \<Rightarrow>
        let s = s\<lparr>inbox := (inbox s)(clientfd := rest)\<rparr> in
        if r \<noteq> 0 then (Close, s)
        else
          let op = operation_type (the m); arg = argument (the m) in
          if op = OPERATION_ADD then (Go_on, s\<lparr>number := number s + arg\<rparr>)
          else if op = OPERATION_SUB then (Go_on, s\<lparr>number := number s - arg\<rparr>)
          else if op = OPERATION_TERMINATION then (Reply (number s), s)
          else (Close, s))"

definition print_counter :: "64 word \<Rightarrow> server \<Rightarrow> server" where
  "print_counter ctr s = s\<lparr>printed := printed s @ [ctr]\<rparr>"

definition send_counter :: "serializer \<Rightarrow> call_env \<Rightarrow> int \<Rightarrow> 64 word \<Rightarrow> server \<Rightarrow> server" where
  "send_counter ser v clientfd ctr s =
     s\<lparr>outbox := (outbox s)(clientfd := outbox s clientfd @ snd (send_msg ser (tx v) OPERATION_COUNTER ctr))\<rparr>"

definition handle_client :: "serializer \<Rightarrow> parser \<Rightarrow> call_env \<Rightarrow> int \<Rightarrow> server \<Rightarrow> bool \<times> server" where
  "handle_client ser par v clientfd s =
     (case take_message par v clientfd s of
        (Go_on, s) \<Rightarrow> (False, s)
      | (Close, s) \<Rightarrow> (True, s)
      | (Reply ctr, s) \<Rightarrow> (True, send_counter ser v clientfd ctr (print_counter ctr s)))"

subsection \<open>A worker\<close>

record pollfd =
  fd :: int
  ready :: bool

record Worker =
  pending_clients :: "int list"
  active_clients :: "pollfd list"

text \<open>The loop over the polled clients, from the last one down; \<open>i\<close> is one more than the
  loop variable. \<open>handle\<close> is \<^verbatim>\<open>handle_client\<close> with what the kernel does for the client at a position.\<close>

fun poll_loop ::
  "(int \<Rightarrow> server \<Rightarrow> bool \<times> server) \<Rightarrow> nat \<Rightarrow> pollfd list \<Rightarrow> server \<Rightarrow> pollfd list \<times> server" where
  "poll_loop handle 0 clients s = (clients, s)"
| "poll_loop handle (Suc i) clients s =
     (let c = clients ! i in
      if \<not> ready c then poll_loop handle i clients s
      else (case handle (fd c) s of (fin, s) \<Rightarrow>
        if fin
        then poll_loop handle i (butlast (clients[i := last clients])) (s\<lparr>closed := closed s @ [fd c]\<rparr>)
        else poll_loop handle i clients s))"

text \<open>One round of \<^verbatim>\<open>server_kernel\<close>: \<open>poll = None\<close> when \<^verbatim>\<open>poll\<close> times out or fails, otherwise which
  descriptors have input.\<close>

definition server_kernel ::
  "(int \<Rightarrow> server \<Rightarrow> bool \<times> server) \<Rightarrow> (int \<Rightarrow> bool) option \<Rightarrow> Worker \<Rightarrow> server \<Rightarrow> Worker \<times> server" where
  "server_kernel handle poll w s =
     (let active = active_clients w @ map (\<lambda>c. \<lparr>fd = c, ready = False\<rparr>) (pending_clients w) in
      case poll of
        None \<Rightarrow> (w\<lparr>pending_clients := [], active_clients := active\<rparr>, s)
      | Some has_input \<Rightarrow>
          (let polled = map (\<lambda>c. c\<lparr>ready := has_input (fd c)\<rparr>) active in
           case poll_loop handle (length polled) polled s of (active, s) \<Rightarrow>
             (w\<lparr>pending_clients := [], active_clients := active\<rparr>, s)))"

subsection \<open>Accepting connections\<close>

text \<open>\<^verbatim>\<open>main\<close>: \<open>None\<close> is an exception (a negative number of threads), a division by zero, or an
  overflow of the connection counter.\<close>

definition start_workers :: "int \<Rightarrow> Worker list option" where
  "start_workers numThreads =
     (if numThreads < 0 then None
      else Some (replicate (nat numThreads) \<lparr>pending_clients = [], active_clients = []\<rparr>))"

definition accept_step :: "int \<Rightarrow> int \<Rightarrow> int \<times> Worker list \<Rightarrow> (int \<times> Worker list) option" where
  "accept_step numThreads acceptfd st =
     (case st of (connections, workers) \<Rightarrow>
        if acceptfd < 0 then Some st
        else if connections = 2 ^ 31 - 1 then None
        else if numThreads = 0 then None
        else
          let tid = nat (connections mod numThreads);
              w = workers ! tid in
          Some (connections + 1,
                workers[tid := w\<lparr>pending_clients := pending_clients w @ [acceptfd]\<rparr>]))"

fun accept_loop :: "int \<Rightarrow> int list \<Rightarrow> int \<times> Worker list \<Rightarrow> (int \<times> Worker list) option" where
  "accept_loop numThreads [] st = Some st"
| "accept_loop numThreads (a # as) st =
     (case accept_step numThreads a st of None \<Rightarrow> None | Some st \<Rightarrow> accept_loop numThreads as st)"

definition server_main :: "int \<Rightarrow> int \<Rightarrow> int list \<Rightarrow> (int \<times> Worker list) option" where
  "server_main numThreads listenfd accepts =
     (if listenfd < 0 then Some (0, [])
      else case start_workers numThreads of None \<Rightarrow> None
        | Some ws \<Rightarrow> accept_loop numThreads accepts (0, ws))"

subsection \<open>A client\<close>

text \<open>\<open>e i\<close> are the outcomes of the \<^verbatim>\<open>send\<close> calls of message \<open>i\<close>. The result says whether all
  messages were sent, and what is on the wire.\<close>

fun client_loop ::
  "serializer \<Rightarrow> (nat \<Rightarrow> nat \<Rightarrow> xfer) \<Rightarrow> int32 \<Rightarrow> int32 \<Rightarrow> nat list \<Rightarrow> bool \<times> byte list" where
  "client_loop ser e add sub [] = (True, [])"
| "client_loop ser e add sub (i # is) =
     (case (if odd i then send_msg ser (e i) OPERATION_ADD (scast add)
            else send_msg ser (e i) OPERATION_SUB (scast sub)) of
        (r, out) \<Rightarrow>
          if r \<noteq> 0 then (False, out)
          else (case client_loop ser e add sub is of (ok, out') \<Rightarrow> (ok, out @ out')))"

text \<open>\<^verbatim>\<open>client_kernel\<close>: the bytes sent, the number printed if any, and the descriptors closed.\<close>

definition client_kernel ::
  "serializer \<Rightarrow> parser \<Rightarrow> (nat \<Rightarrow> nat \<Rightarrow> xfer) \<Rightarrow> call_env \<Rightarrow> int \<Rightarrow> int \<Rightarrow> int32 \<Rightarrow> int32 \<Rightarrow> byte list \<Rightarrow>
   byte list \<times> 64 word option \<times> int list" where
  "client_kernel ser par e v sockfd numMessages add sub reply =
     (if sockfd < 0 then ([], None, [])
      else case client_loop ser e add sub [1..<nat numMessages + 1] of (ok, out) \<Rightarrow>
        if \<not> ok then (out, None, [sockfd])
        else (case send_msg ser (tx v) OPERATION_TERMINATION 0 of (r, out') \<Rightarrow>
          if r \<noteq> 0 then (out @ out', None, [sockfd])
          else (case recv_msg par (rx v) (junk v) reply of (r, m, _) \<Rightarrow>
            if r = 0 \<and> operation_type (the m) = OPERATION_COUNTER
            then (out @ out', Some (argument (the m)), [sockfd])
            else (out @ out', None, [sockfd]))))"

text \<open>\<^verbatim>\<open>main\<close> of the client: the arguments with which it starts \<^verbatim>\<open>client_kernel\<close> in its threads; \<open>None\<close> when
  arguments are missing.\<close>

record client_args =
  arg_hostname :: string
  arg_port :: int32
  arg_numMessages :: int32
  arg_add :: int32
  arg_sub :: int32

definition client_main :: "string list \<Rightarrow> client_args list option" where
  "client_main argv =
     (if length argv < 7 then None
      else Some (replicate (nat (sint (atoi (argv ! 1))))
        \<lparr>arg_hostname = argv ! 2, arg_port = atoi (argv ! 3), arg_numMessages = atoi (argv ! 4),
         arg_add = atoi (argv ! 5), arg_sub = atoi (argv ! 6)\<rparr>))"

lemma client_main_threads:
  assumes "0 \<le> sint k" "0 \<le> sint p" "0 \<le> sint n" "0 \<le> sint a" "0 \<le> sint b"
  shows "client_main [prog, print_ld k, host, print_ld p, print_ld n, print_ld a, print_ld b] =
    Some (replicate (nat (sint (ucast k :: int32)))
      \<lparr>arg_hostname = host, arg_port = ucast p, arg_numMessages = ucast n, arg_add = ucast a, arg_sub = ucast b\<rparr>)"
  using assms by (simp add: client_main_def atoi_print numeral_eq_Suc)

subsection \<open>The polling loop serves everyone once\<close>

text \<open>The reference: serve the clients of a list in order, and keep those that are not done.\<close>

fun serve ::
  "(int \<Rightarrow> server \<Rightarrow> bool \<times> server) \<Rightarrow> pollfd list \<Rightarrow> server \<Rightarrow> pollfd list \<times> server" where
  "serve handle [] s = ([], s)"
| "serve handle (c # cs) s =
     (if \<not> ready c then (case serve handle cs s of (kept, s) \<Rightarrow> (c # kept, s))
      else (case handle (fd c) s of (fin, s) \<Rightarrow>
        if fin then serve handle cs (s\<lparr>closed := closed s @ [fd c]\<rparr>)
        else (case serve handle cs s of (kept, s) \<Rightarrow> (c # kept, s))))"

lemma swap_remove:
  assumes "i < length cs"
  shows "take i (butlast (cs[i := last cs])) = take i cs"
    "mset (drop i (butlast (cs[i := last cs]))) = mset (drop (Suc i) cs)"
    "length (butlast (cs[i := last cs])) = length cs - 1"
proof -
  obtain ds d where cs: "cs = ds @ [d]" using assms by (metis length_0_conv not_less_zero rev_exhaust)
  have b: "butlast (cs[i := last cs]) = (if i = length ds then ds else ds[i := d])"
    using assms by (auto simp: cs list_update_append butlast_append)
  show "take i (butlast (cs[i := last cs])) = take i cs" using assms b by (simp add: cs)
  show "length (butlast (cs[i := last cs])) = length cs - 1" by simp
  show "mset (drop i (butlast (cs[i := last cs]))) = mset (drop (Suc i) cs)"
  proof (cases "i = length ds")
    case False
    then have i: "i < length ds" using assms by (simp add: cs)
    then have "drop i (ds[i := d]) = d # drop (Suc i) ds"
      by (simp add: drop_update_swap Cons_nth_drop_Suc [symmetric])
    then show ?thesis using b i by (simp add: cs)
  qed (use b cs in simp)
qed

lemma poll_loop_serves:
  "i \<le> length cs \<Longrightarrow>
    \<exists>kept. serve handle (rev (take i cs)) s = (kept, snd (poll_loop handle i cs s)) \<and>
      mset (fst (poll_loop handle i cs s)) = mset kept + mset (drop i cs)"
proof (induction handle i cs s rule: poll_loop.induct)
  case (1 handle cs s)
  then show ?case by simp
next
  case (2 handle i cs s)
  let ?c = "cs ! i"
  have i: "i < length cs" using 2(4) by simp
  have tk: "rev (take (Suc i) cs) = ?c # rev (take i cs)" using i by (simp add: take_Suc_conv_app_nth)
  have dr: "drop i cs = ?c # drop (Suc i) cs" using i by (simp add: Cons_nth_drop_Suc)
  obtain fin s1 where h: "handle (fd ?c) s = (fin, s1)" by fastforce
  show ?case
  proof (cases "ready ?c")
    case False
    then show ?thesis using 2(1) [OF refl] i dr tk by auto
  next
    case ready: True
    show ?thesis
    proof (cases fin)
      case False
      then show ?thesis using 2(3) [OF refl _ h [symmetric]] ready i dr tk h by auto
    next
      case True
      let ?cs = "butlast (cs[i := last cs])" and ?s = "s1\<lparr>closed := closed s1 @ [fd ?c]\<rparr>"
      have "i \<le> length ?cs" using i swap_remove(3) [OF i] by simp
      from 2(2) [OF refl _ h [symmetric] True this] show ?thesis
        using ready True h tk swap_remove(1,2) [OF i] by auto
    qed
  qed
qed

end
