(* ===== verification/Net_Counter.thy ===== *)
theory Net_Counter
  imports Net_Server
begin

section \<open>The counter and the messages on the way\<close>

text \<open>
  What a message does to the counter, and the quantity that the server keeps: the counter plus
  the effects of all messages that are still on the way. It holds for any order in which the
  workers serve the clients.
\<close>

definition effect :: "message \<Rightarrow> 64 word" where
  "effect m = (if operation_type m = OPERATION_ADD then argument m
     else if operation_type m = OPERATION_SUB then - argument m else 0)"

definition smooth :: "call_env \<Rightarrow> bool" where
  "smooth v \<longleftrightarrow> all_move (rx v) \<and> whole_header (rx v) \<and> all_move (tx v) \<and> whole_header (tx v)"

definition frames :: "serializer \<Rightarrow> message list \<Rightarrow> byte list" where
  "frames ser ms = concat (map (frame ser) ms)"

lemma frames_simps [simp]:
  "frames ser [] = []" "frames ser (m # ms) = frame ser m @ frames ser ms"
  "frames ser (ms @ ms') = frames ser ms @ frames ser ms'"
  by (simp_all add: frames_def)

lemmas op_defs = OPERATION_ADD_def OPERATION_SUB_def OPERATION_TERMINATION_def OPERATION_COUNTER_def

text \<open>The messages of a client.\<close>

definition client_msg :: "int32 \<Rightarrow> int32 \<Rightarrow> nat \<Rightarrow> message" where
  "client_msg add sub i =
     (if odd i then \<lparr>operation_type = OPERATION_ADD, argument = scast add\<rparr>
      else \<lparr>operation_type = OPERATION_SUB, argument = scast sub\<rparr>)"

definition client_msgs :: "nat \<Rightarrow> int32 \<Rightarrow> int32 \<Rightarrow> message list" where
  "client_msgs n add sub = map (client_msg add sub) [1..<n + 1] @ [\<lparr>operation_type = OPERATION_TERMINATION, argument = 0\<rparr>]"

lemma effect_client_msgs:
  "sum_list (map effect (client_msgs n add sub)) =
    of_nat ((n + 1) div 2) * scast add - of_nat (n div 2) * scast sub"
proof -
  have "sum_list (map effect (map (client_msg add sub) [1..<n + 1])) =
      of_nat ((n + 1) div 2) * scast add - of_nat (n div 2) * scast sub"
  proof (induction n)
    case (Suc n)
    have e: "effect (client_msg add sub (Suc n)) = (if even n then scast add else - scast sub)"
      by (simp add: effect_def client_msg_def op_defs)
    show ?case
    proof (cases "even n")
      case True
      then have "(Suc n + 1) div 2 = Suc ((n + 1) div 2)" "Suc n div 2 = n div 2" by auto
      then show ?thesis using Suc e True by (simp add: algebra_simps)
    next
      case False
      then have "(Suc n + 1) div 2 = (n + 1) div 2" "Suc n div 2 = Suc (n div 2)" by (auto elim!: oddE)
      then show ?thesis using Suc e False by (simp add: algebra_simps)
    qed
  qed simp
  moreover have "effect \<lparr>operation_type = OPERATION_TERMINATION, argument = 0\<rparr> = 0" by (simp add: effect_def op_defs)
  ultimately show ?thesis by (simp add: client_msgs_def)
qed

context message_format
begin

lemma client_loop_sends:
  assumes "\<And>i. all_move (e i) \<and> whole_header (e i)"
  shows "client_loop ser e add sub is = (True, frames ser (map (client_msg add sub) is))"
  using send_frames assms by (induction "is") (auto simp: client_msg_def)

lemma client_sends:
  assumes "\<And>i. all_move (e i) \<and> whole_header (e i)" and "smooth v" and "0 \<le> sockfd"
  shows "fst (client_kernel ser par e v sockfd n add sub reply) = frames ser (client_msgs (nat n) add sub)"
proof -
  have "send_msg ser (tx v) OPERATION_TERMINATION 0 = (0, frame ser \<lparr>operation_type = OPERATION_TERMINATION, argument = 0\<rparr>)"
    using assms(2) by (intro send_frames) (simp_all add: smooth_def)
  then show ?thesis using assms(3) client_loop_sends [OF assms(1)]
    by (auto simp: client_kernel_def client_msgs_def split: prod.splits)
qed

text \<open>Handling the first message of a connection.\<close>

lemma take_first:
  assumes sm: "smooth v" and ib: "inbox s c = frame ser m @ rest" and op: "valid_op (operation_type m)"
  shows "take_message par v c s =
    (if operation_type m = OPERATION_ADD \<or> operation_type m = OPERATION_SUB then Go_on
     else if operation_type m = OPERATION_TERMINATION then Reply (number s) else Close,
     s\<lparr>inbox := (inbox s)(c := rest), number := number s + effect m\<rparr>)"
proof -
  have "recv_msg par (rx v) (junk v) (inbox s c) = (0, Some m, rest)"
    unfolding ib by (rule recv_frames) (use sm op in \<open>simp_all add: smooth_def\<close>)
  then show ?thesis by (auto simp: take_message_def Let_def effect_def op_defs)
qed

lemma send_whole:
  assumes "smooth v"
  shows "send_counter ser v c ctr s =
    s\<lparr>outbox := (outbox s)(c := outbox s c @ frame ser \<lparr>operation_type = OPERATION_COUNTER, argument = ctr\<rparr>)\<rparr>"
proof -
  have "send_msg ser (tx v) OPERATION_COUNTER ctr = (0, frame ser \<lparr>operation_type = OPERATION_COUNTER, argument = ctr\<rparr>)"
    by (rule send_frames) (use assms in \<open>simp_all add: smooth_def\<close>)
  then show ?thesis by (simp add: send_counter_def)
qed

lemma handle_message:
  assumes sm: "smooth v" and ib: "inbox s c = frame ser m @ rest" and op: "valid_op (operation_type m)"
  shows "\<exists>s'. handle_client ser par v c s = (operation_type m \<noteq> OPERATION_ADD \<and> operation_type m \<noteq> OPERATION_SUB, s') \<and>
    number s' = number s + effect m \<and> inbox s' = (inbox s)(c := rest) \<and>
    printed s' = printed s @ (if operation_type m = OPERATION_TERMINATION then [number s] else []) \<and>
    outbox s' = (outbox s)(c := outbox s c @ (if operation_type m = OPERATION_TERMINATION
       then frame ser \<lparr>operation_type = OPERATION_COUNTER, argument = number s\<rparr> else []))"
  unfolding handle_client_def take_first [OF assms] by (auto simp: send_whole [OF sm] print_counter_def op_defs)

end

text \<open>A schedule: which client is served next, and what the kernel does then.\<close>

fun run_schedule :: "serializer \<Rightarrow> parser \<Rightarrow> (int \<times> call_env) list \<Rightarrow> server \<Rightarrow> server" where
  "run_schedule ser par [] s = s"
| "run_schedule ser par ((c, v) # sched) s = run_schedule ser par sched (snd (handle_client ser par v c s))"

context message_format
begin

lemma schedule_conserves:
  "finite F \<Longrightarrow> \<forall>c \<in> F. inbox s c = frames ser (rem c) \<Longrightarrow> fst ` set sched \<subseteq> F \<Longrightarrow> \<forall>(c, v) \<in> set sched. smooth v \<Longrightarrow>
    \<forall>c \<in> F. \<forall>m \<in> set (rem c). valid_op (operation_type m) \<Longrightarrow>
    \<forall>c \<in> F. count_list (map fst sched) c = length (rem c) \<Longrightarrow>
    number (run_schedule ser par sched s) = number s + (\<Sum>c \<in> F. sum_list (map effect (rem c))) \<and>
    (\<forall>c \<in> F. inbox (run_schedule ser par sched s) c = [])"
proof (induction sched arbitrary: s rem)
  case Nil
  then show ?case by auto
next
  case (Cons cv sched)
  obtain c v where cv: "cv = (c, v)" by fastforce
  have c: "c \<in> F" "smooth v" using Cons.prems cv by auto
  have "length (rem c) \<noteq> 0" using Cons.prems(6) c(1) cv by auto
  then obtain m ms where m: "rem c = m # ms" by (cases "rem c") auto
  have "inbox s c = frame ser m @ frames ser ms" using Cons.prems(2) c(1) m by simp
  from handle_message [OF c(2) this] Cons.prems(5) c(1) m obtain s' where s': "snd (handle_client ser par v c s) = s'"
    "number s' = number s + effect m" "inbox s' = (inbox s)(c := frames ser ms)" by fastforce
  let ?rem = "rem(c := ms)"
  have "\<forall>d \<in> F. inbox s' d = frames ser (?rem d)" using Cons.prems(2) s'(3) by simp
  moreover have "\<forall>d \<in> F. count_list (map fst sched) d = length (?rem d)"
    using Cons.prems(6) cv m by (auto split: if_splits)
  ultimately have IH: "number (run_schedule ser par sched s') = number s' + (\<Sum>c \<in> F. sum_list (map effect (?rem c)))"
    "\<forall>c \<in> F. inbox (run_schedule ser par sched s') c = []"
    using Cons.IH [of s' ?rem] Cons.prems(1,3,4,5) m c(1) by auto
  have "(\<Sum>d \<in> F. sum_list (map effect (rem d))) = effect m + (\<Sum>d \<in> F. sum_list (map effect (?rem d)))"
    using Cons.prems(1) c(1) m by (simp add: sum.remove [of F c])
  then show ?case using IH s'(1,2) cv by (simp add: add.assoc)
qed

end

subsection \<open>Round robin\<close>

lemma accept_loop_robin:
  assumes n: "0 < n"
  shows "\<forall>a \<in> set as. 0 \<le> a \<Longrightarrow> length ds + length as < 2 ^ 31 \<Longrightarrow> length ws = n \<Longrightarrow>
    \<forall>t < n. pending_clients (ws ! t) = map (nth ds) (filter (\<lambda>j. j mod n = t) [0..<length ds]) \<Longrightarrow>
    \<exists>ws'. accept_loop (int n) as (int (length ds), ws) = Some (int (length (ds @ as)), ws') \<and> length ws' = n \<and>
      (\<forall>t < n. pending_clients (ws' ! t) = map (nth (ds @ as)) (filter (\<lambda>j. j mod n = t) [0..<length (ds @ as)]))"
proof (induction "as" arbitrary: ds ws)
  case Nil
  then show ?case by simp
next
  case (Cons a "as")
  let ?t = "length ds mod n"
  let ?ws = "ws[?t := (ws ! ?t)\<lparr>pending_clients := pending_clients (ws ! ?t) @ [a]\<rparr>]"
  have t: "?t < length ws" "nat (int (length ds) mod int n) = ?t"
    using n Cons.prems(3) by (simp_all flip: zmod_int)
  have "int (length ds) \<noteq> 2 ^ 31 - 1" using Cons.prems(2) by simp
  then have st: "accept_step (int n) a (int (length ds), ws) = Some (int (length (ds @ [a])), ?ws)"
    using n t Cons.prems(1) by (simp add: accept_step_def Let_def)
  have m: "map (nth (ds @ [a])) (filter (\<lambda>j. j mod n = u) [0..<length ds]) = map (nth ds) (filter (\<lambda>j. j mod n = u) [0..<length ds])" for u
    by (auto simp: nth_append)
  have "\<forall>u < n. pending_clients (?ws ! u) = map (nth (ds @ [a])) (filter (\<lambda>j. j mod n = u) [0..<length (ds @ [a])])"
    using Cons.prems(3,4) t(1) by (auto simp: nth_list_update m)
  then have "\<exists>ws'. accept_loop (int n) as (int (length (ds @ [a])), ?ws) = Some (int (length ((ds @ [a]) @ as)), ws') \<and> length ws' = n \<and>
      (\<forall>t < n. pending_clients (ws' ! t) = map (nth ((ds @ [a]) @ as)) (filter (\<lambda>j. j mod n = t) [0..<length ((ds @ [a]) @ as)]))"
    using Cons.prems(1,2,3) by (intro Cons.IH) simp_all
  then show ?case using st by simp
qed

end
