(* ===== verification/Net_Wire.thy ===== *)
theory Net_Wire
  imports Net_Counter
begin

section \<open>The wire format\<close>

text \<open>
  The encoding that \<^verbatim>\<open>task06-sockets/proto/message.proto\<close> defines for the messages of the program: field
  1 (the operation) and field 2 (the argument) as variable-length integers after their tags. It
  shows that the contract of the serialization code can be met, and is what the witnesses use.
\<close>

function varint :: "nat \<Rightarrow> byte list" where
  "varint n = (if n < 128 then [of_nat n] else of_nat (128 + n mod 128) # varint (n div 128))"
  by pat_completeness auto
termination
  by (relation "measure id") auto

declare varint.simps [simp del]

fun read_varint :: "byte list \<Rightarrow> (nat \<times> byte list) option" where
  "read_varint [] = None"
| "read_varint (b # bs) =
     (if unat b < 128 then Some (unat b, bs)
      else map_option (\<lambda>(n, rest). (unat b - 128 + 128 * n, rest)) (read_varint bs))"

lemma read_varint_varint: "read_varint (varint n @ rest) = Some (n, rest)"
proof (induction n rule: varint.induct)
  case (1 n)
  show ?case
  proof (cases "n < 128")
    case True
    then have "unat (of_nat n :: byte) = n" by (simp add: unat_of_nat)
    then show ?thesis using True by (simp add: varint.simps [of n])
  next
    case False
    have m: "128 + n mod 128 < 256" using mod_less_divisor [of 128 n] by linarith
    have u: "unat (of_nat (128 + n mod 128) :: byte) = 128 + n mod 128"
      by (subst unat_of_nat) (use m in simp)
    have "varint n @ rest = of_nat (128 + n mod 128) # varint (n div 128) @ rest"
      using False by (simp add: varint.simps [of n])
    then show ?thesis using 1 [OF False] u by (simp del: of_nat_add of_nat_numeral)
  qed
qed

lemma length_varint: "n < 128 ^ Suc k \<Longrightarrow> length (varint n) \<le> Suc k"
proof (induction k arbitrary: n)
  case 0
  then show ?case by (simp add: varint.simps)
next
  case (Suc k)
  show ?case
  proof (cases "n < 128")
    case False
    have "n div 128 < 128 ^ Suc k" using Suc.prems by (simp add: less_mult_imp_div_less mult.commute)
    then show ?thesis using Suc.IH False by (simp add: varint.simps [of n])
  qed (simp add: varint.simps)
qed

definition wire_ser :: serializer where
  "wire_ser m = 8 # varint (unat (scast (operation_type m) :: 64 word)) @ 16 # varint (unat (argument m))"

definition wire_par :: parser where
  "wire_par bs =
     (case bs of
        [] \<Rightarrow> None
      | tag # bs \<Rightarrow>
          if tag \<noteq> 8 then None
          else do {
            (t, bs) \<leftarrow> read_varint bs;
            if \<not> valid_op (of_nat t) then None
            else (case bs of
                [] \<Rightarrow> Some (of_nat t, None)
              | tag # bs \<Rightarrow>
                  if tag \<noteq> 16 then None
                  else do { (a, bs) \<leftarrow> read_varint bs; Some (of_nat t, Some (of_nat a)) })
          })"

interpretation wire: message_format wire_ser wire_par
proof
  fix m :: message
  have "length (varint (unat (w :: 64 word))) \<le> Suc 9" for w
    by (rule length_varint) (use unat_max_64 [of w] in simp)
  then have "length (wire_ser m) \<le> 22" by (simp add: wire_ser_def le_trans [OF add_mono, of _ 10 _ 10])
  then show "length (wire_ser m) < 2 ^ 32" by simp
  assume op: "valid_op (operation_type m)"
  have "of_nat (unat (scast (operation_type m) :: 64 word)) = operation_type m"
    using op by (auto simp: valid_op_def op_defs)
  then show "wire_par (wire_ser m) = Some (operation_type m, Some (argument m))"
    using op read_varint_varint [of "unat (argument m)" "[]"]
    by (simp add: wire_par_def wire_ser_def read_varint_varint)
qed

end
