(* ===== verification/Net_Properties.thy ===== *)
theory Net_Properties
  imports Net_Wire
begin

section \<open>Properties of the counter service\<close>

text \<open>
  The claims about the sockets program: the final counter, framing, the worker loop, and the
  handling of descriptors. The witnesses use a kernel that moves four bytes at a time.
\<close>

subsection \<open>From the clients to the counter\<close>

definition steady :: "nat \<Rightarrow> xfer" where
  "steady = (\<lambda>_. Moved 3)"

definition steady_env :: call_env where
  "steady_env = \<lparr>rx = steady, tx = steady, junk = 0\<rparr>"

lemma steady_ok: "all_move steady" "whole_header steady" "smooth steady_env"
  by (simp_all add: steady_def steady_env_def all_move_def whole_header_def smooth_def)

text \<open>
  The service counts. Any number of clients run \<^verbatim>\<open>client_kernel\<close>, each with its own number of
  messages and operands, and the server's workers handle their messages in any order; the
  kernel may cut the payloads into any pieces. When every message was handled, the counter is
  its old value plus, for each client with \<open>n\<close> messages, \<open>\<lceil>n/2\<rceil>\<close> times its \<^verbatim>\<open>add\<close> minus
  \<open>\<lfloor>n/2\<rfloor>\<close> times its \<^verbatim>\<open>sub\<close> (modulo \<open>2^64\<close>), and nothing is left unread.
\<close>

theorem counter_total:
  assumes fmt: "message_format ser par" and F: "finite F" "\<forall>c \<in> F. 0 \<le> c"
    and sent: "\<forall>c \<in> F. inbox s c = fst (client_kernel ser par (e c) (v c) c (int (n c)) (add c) (sub c) (reply c))"
    and net: "\<forall>c \<in> F. smooth (v c) \<and> (\<forall>i. all_move (e c i) \<and> whole_header (e c i))" "\<forall>(c, w) \<in> set sched. smooth w"
    and sched: "fst ` set sched \<subseteq> F" "\<forall>c \<in> F. count_list (map fst sched) c = n c + 1"
  shows "number (run_schedule ser par sched s) =
      number s + (\<Sum>c \<in> F. of_nat ((n c + 1) div 2) * scast (add c) - of_nat (n c div 2) * scast (sub c)) \<and>
    (\<forall>c \<in> F. inbox (run_schedule ser par sched s) c = [])"
proof -
  let ?rem = "\<lambda>c. client_msgs (n c) (add c) (sub c)"
  have "\<forall>c \<in> F. inbox s c = frames ser (?rem c)"
    using message_format.client_sends [OF fmt] F(2) sent net(1) by simp
  moreover have "\<forall>c \<in> F. \<forall>m \<in> set (?rem c). valid_op (operation_type m)"
    by (auto simp: client_msgs_def client_msg_def valid_op_def)
  moreover have "\<forall>c \<in> F. count_list (map fst sched) c = length (?rem c)" using sched(2) by (simp add: client_msgs_def)
  ultimately show ?thesis
    using message_format.schedule_conserves [OF fmt F(1), of s ?rem sched] sched(1) net(2)
    by (simp add: effect_client_msgs)
qed

text \<open>At the witness, client 3 sends +5 -2 +5 and client 4 sends +7; their messages are served
  alternately.\<close>

theorem counter_total_witness:
  "number (run_schedule wire_ser wire_par (map (\<lambda>c. (c, steady_env)) [3, 4, 3, 4, 3, 3])
     \<lparr>number = 100, printed = [],
      inbox = (\<lambda>c. fst (client_kernel wire_ser wire_par (\<lambda>_. steady) steady_env c (if c = 3 then 3 else 1)
        (if c = 3 then 5 else 7) 2 [])),
      outbox = (\<lambda>_. []), closed = []\<rparr>) = 115"
proof -
  define n where "n = (\<lambda>c :: int. if c = 3 then 3 else 1 :: nat)"
  define add :: "int \<Rightarrow> int32" where "add = (\<lambda>c. if c = 3 then 5 else 7)"
  let ?s = "\<lparr>number = 100, printed = [], inbox = (\<lambda>c. fst (client_kernel wire_ser wire_par (\<lambda>_. steady) steady_env c (int (n c)) (add c) 2 [])),
      outbox = (\<lambda>_. []), closed = []\<rparr>"
  let ?sched = "map (\<lambda>c. (c, steady_env)) [3, 4, 3, 4, 3, 3]"
  have "number (run_schedule wire_ser wire_par ?sched ?s) = number ?s + (\<Sum>c \<in> {3, 4}.
      of_nat ((n c + 1) div 2) * scast (add c) - of_nat (n c div 2) * scast (2 :: int32))"
    by (rule conjunct1 [OF counter_total [where F = "{3, 4}" and e = "\<lambda>_ _. steady" and v = "\<lambda>_. steady_env" and n = n
          and add = add and sub = "\<lambda>_. 2" and reply = "\<lambda>_. []"]])
      (use wire.message_format_axioms steady_ok in \<open>auto simp: n_def\<close>)
  then show ?thesis by (simp add: n_def add_def if_distrib [of int] cong: if_cong)
qed

text \<open>
  C30: Framing. What \<^verbatim>\<open>send_msg\<close> puts on a connection, \<^verbatim>\<open>recv_msg\<close> takes off again: the same
  operation and argument, with the rest of the stream untouched, for any way the kernel cuts
  the payload into pieces on either side, provided each length header is moved in one piece.
\<close>

theorem message_roundtrip:
  assumes "message_format ser par" and "valid_op op"
    and "all_move e" "whole_header e" "all_move e'" "whole_header e'"
  shows "\<exists>out. send_msg ser e op arg = (0, out) \<and>
    recv_msg par e' junk0 (out @ rest) = (0, Some \<lparr>operation_type = op, argument = arg\<rparr>, rest)"
  using message_format.send_frames [OF assms(1,3,4)] message_format.recv_frames [OF assms(1,5,6)] assms(2) by auto

theorem message_roundtrip_witness:
  "\<exists>out. send_msg wire_ser steady OPERATION_SUB (- 9) = (0, out) \<and>
    recv_msg wire_par (\<lambda>j. if j = 0 then Moved 3 else Moved 0) 77 (out @ [1, 2]) =
      (0, Some \<lparr>operation_type = OPERATION_SUB, argument = - 9\<rparr>, [1, 2])"
  by (rule message_roundtrip) (use wire.message_format_axioms steady_ok in \<open>auto simp: valid_op_def all_move_def whole_header_def\<close>)

text \<open>
  A header in pieces is lost. The length header is sent and received by a single call
  whose short count is not checked. When the kernel takes only part of the header,
  \<^verbatim>\<open>send_msg\<close> still reports success although bytes are missing on the wire. When only two of the four
  bytes have arrived, \<^verbatim>\<open>recv_msg\<close> takes the missing bytes of the length from the
  uninitialised variable; if they are 0 there, it reads an empty payload, reports a failure, and
  leaves the rest of the header in front of the payload.
\<close>

theorem header_in_pieces:
  assumes "all_move e" and "e 0 = Moved k" and "k < 3" and "e' 0 = Moved 1"
    and "par [] = None" and "length payload < 2 ^ 16"
  shows "send_msg ser e op arg =
      (0, take (Suc k) (htonl (of_nat (length (ser \<lparr>operation_type = op, argument = arg\<rparr>)))) @
          ser \<lparr>operation_type = op, argument = arg\<rparr>) \<and>
    recv_msg par e' 0 (htonl (of_nat (length payload)) @ payload) =
      (1, None, drop 2 (htonl (of_nat (length payload))) @ payload)"
proof
  show "send_msg ser e op arg = (0, take (Suc k) (htonl (of_nat (length (ser \<lparr>operation_type = op, argument = arg\<rparr>)))) @
      ser \<lparr>operation_type = op, argument = arg\<rparr>)"
    using send_loop_all [OF all_move_Suc [OF assms(1)]] assms(2) by (simp add: send_msg_def Let_def)
  let ?w = "of_nat (length payload) :: 32 word"
  have u: "unat ?w = length payload" using assms(6) by (simp add: unat_of_nat)
  have "drop_bit 24 ?w = 0" "drop_bit 16 ?w = 0"
    using u assms(6) by (simp_all add: word_unat_eq_iff drop_bit_eq_div unat_div)
  then have h: "take 2 (htonl ?w) = [0, 0]" by (simp add: htonl_def)
  have z: "ntohl [0, 0, 0, 0] = 0" "htonl 0 = [0, 0, 0, 0]" by (simp_all add: ntohl_def htonl_def)
  show "recv_msg par e' 0 (htonl ?w @ payload) = (1, None, drop 2 (htonl ?w) @ payload)"
    using assms(4,5) h z by (simp add: recv_msg_def Let_def recv_loop.simps) (simp add: htonl_def)
qed

theorem header_in_pieces_witness:
  "fst (send_msg wire_ser (\<lambda>_. Moved 1) OPERATION_ADD 5) = 0 \<and>
   fst (recv_msg wire_par (\<lambda>_. Moved 1) 0 (htonl (of_nat (length (wire_ser \<lparr>operation_type = 1, argument = 5\<rparr>))) @
     wire_ser \<lparr>operation_type = 1, argument = 5\<rparr>)) = 1"
proof -
  have l: "length (wire_ser \<lparr>operation_type = 1, argument = 5\<rparr>) < 2 ^ 16" by (simp add: wire_ser_def varint.simps)
  show ?thesis
    using header_in_pieces [of "\<lambda>_. Moved 1" 1 "\<lambda>_. Moved 1" wire_par, OF _ _ _ _ _ l, of wire_ser OPERATION_ADD 5]
    by (simp add: all_move_def wire_par_def)
qed

subsection \<open>Workers\<close>

text \<open>
  The polling round. The backward loop of \<^verbatim>\<open>server_kernel\<close>, which overwrites a finished
  client by the last one and shortens the array, does the same as serving the clients one after
  the other from the last to the first: every client with input is handled exactly once, no
  other one is, exactly the finished ones are closed and removed, all others stay.
\<close>

theorem poll_round_serves:
  "\<exists>kept. serve handle (rev cs) s = (kept, snd (poll_loop handle (length cs) cs s)) \<and>
    mset (fst (poll_loop handle (length cs) cs s)) = mset kept"
  using poll_loop_serves [of "length cs" cs handle s] by simp

text \<open>
  Round robin. With \<open>n > 0\<close> threads the \<open>j\<close>-th accepted connection is given to worker
  \<open>j mod n\<close>, in the order of acceptance, for fewer than \<open>2^31\<close> connections; with 0 threads the
  first accepted connection divides by zero.
\<close>

theorem accept_round_robin:
  assumes "\<forall>a \<in> set as. 0 \<le> a" and "length as < 2 ^ 31" and "0 \<le> listenfd"
  shows "(0 < n \<longrightarrow> (\<exists>ws. server_main (int n) listenfd as = Some (int (length as), ws) \<and>
      (\<forall>t < n. pending_clients (ws ! t) = map (nth as) (filter (\<lambda>j. j mod n = t) [0..<length as])))) \<and>
    (as \<noteq> [] \<longrightarrow> server_main 0 listenfd as = None)"
proof (intro conjI impI)
  let ?ws = "replicate n \<lparr>pending_clients = [], active_clients = []\<rparr>"
  assume "0 < n"
  from accept_loop_robin [OF this assms(1), of "[]" ?ws] assms(2)
  show "\<exists>ws. server_main (int n) listenfd as = Some (int (length as), ws) \<and>
      (\<forall>t < n. pending_clients (ws ! t) = map (nth as) (filter (\<lambda>j. j mod n = t) [0..<length as]))"
    using assms(3) by (auto simp: server_main_def start_workers_def)
next
  assume "as \<noteq> []"
  then show "server_main 0 listenfd as = None"
    using assms(1,3) by (cases "as") (auto simp: server_main_def start_workers_def accept_step_def)
qed

theorem accept_round_robin_witness:
  "(\<exists>ws. server_main 2 5 [10, 11, 12] = Some (3, ws) \<and> pending_clients (ws ! 0) = [10, 12]) \<and> server_main 0 5 [10] = None"
proof -
  have u: "[0..<3] = [0, 1, 2 :: nat]" by (simp add: upt_rec)
  have "\<exists>ws. server_main (int 2) 5 [10, 11, 12] = Some (int 3, ws) \<and>
      (\<forall>t < 2. pending_clients (ws ! t) = map (nth [10, 11, 12]) (filter (\<lambda>j. j mod 2 = t) [0..<3]))"
    using accept_round_robin [of "[10, 11, 12]" 5 2] by (simp add: numeral_3_eq_3)
  then obtain ws where "server_main 2 5 [10, 11, 12] = Some (3, ws)"
    "pending_clients (ws ! 0) = map (nth [10, 11, 12]) (filter (\<lambda>j. j mod 2 = 0) [0..<3])" by auto
  then show ?thesis using accept_round_robin [of "[10]" 5 2] unfolding u by simp
qed

text \<open>
  No descriptor leaks. \<^verbatim>\<open>listening_socket\<close> and \<^verbatim>\<open>connect_socket\<close> return the new socket
  and leave it open, or return -1 and have closed it exactly when it was opened.
\<close>

theorem sockets_no_leak:
  "(case listening_socket sock bnd lst port of (r, cl) \<Rightarrow> (r = sock \<and> 0 \<le> sock \<and> cl = []) \<or> (r = - 1 \<and> cl = (if 0 \<le> sock then [sock] else []))) \<and>
   (case connect_socket gethost sock con host port of (r, cl) \<Rightarrow> (r = sock \<and> 0 \<le> sock \<and> cl = []) \<or>
      (r = - 1 \<and> cl = (if 0 \<le> sock \<and> gethost host \<noteq> None then [sock] else [])))"
  by (auto simp: listening_socket_def connect_socket_def split: option.splits)

end
