(* ===== verification/Net_System.thy ===== *)
theory Net_System
  imports Net_Counter
begin

section \<open>The running server\<close>

text \<open>
  The main thread and the workers of \<^verbatim>\<open>server.cpp\<close> as a step relation. Between two steps any other thread may
  run: \<^verbatim>\<open>main\<close> accepts a connection and appends it to a worker's pending clients (under the worker's mutex); a worker
  collects its pending clients (under the mutex), polls, and handles one polled client after the other, from the last
  one down. Receiving a message and accessing the shared counter is one step, since it touches the counter once and
  otherwise only the connection. For a termination request, printing the number loaded (under \<^verbatim>\<open>print_mutex\<close>) and sending it
  are steps of their own: another worker may change the counter, load it and print in between. The kernel delivers
  everything the clients send (\<open>smooth\<close>), in pieces of any size, and moves length headers in one piece.
\<close>

text \<open>\<open>Printing i ctr\<close> and \<open>Sending i ctr\<close>: the worker is in the termination case of \<^verbatim>\<open>handle_client\<close> for the client at
  index \<open>i\<close>, before it prints and before it sends the number \<open>ctr\<close> it has loaded.\<close>

datatype worker_pc = Collecting | Polling | Serving nat | Printing nat "64 word" | Sending nat "64 word"

record sys =
  connections :: int
  workers :: "Worker list"
  pcs :: "nat \<Rightarrow> worker_pc"
  srv :: server
  backlog :: "int list"

definition collect :: "Worker \<Rightarrow> Worker" where
  "collect w = \<lparr>pending_clients = [], active_clients = active_clients w @ map (\<lambda>c. \<lparr>fd = c, ready = False\<rparr>) (pending_clients w)\<rparr>"

definition poll_result :: "(int \<Rightarrow> bool) \<Rightarrow> Worker \<Rightarrow> Worker" where
  "poll_result has_input w = w\<lparr>active_clients := map (\<lambda>c. c\<lparr>ready := has_input (fd c)\<rparr>) (active_clients w)\<rparr>"

definition drop_client :: "nat \<Rightarrow> Worker \<Rightarrow> Worker" where
  "drop_client i w = w\<lparr>active_clients := butlast ((active_clients w)[i := last (active_clients w)])\<rparr>"

definition at_worker :: "nat \<Rightarrow> Worker \<Rightarrow> worker_pc \<Rightarrow> sys \<Rightarrow> sys" where
  "at_worker t w pc st = st\<lparr>workers := (workers st)[t := w], pcs := (pcs st)(t := pc)\<rparr>"

definition close_client :: "int \<Rightarrow> server \<Rightarrow> server" where
  "close_client c s = s\<lparr>closed := closed s @ [c]\<rparr>"

inductive sys_step :: "int \<Rightarrow> serializer \<Rightarrow> parser \<Rightarrow> sys \<Rightarrow> sys \<Rightarrow> bool" for n ser par where
  s_accept: "backlog st = a # as \<Longrightarrow> accept_step n a (connections st, workers st) = Some (k, ws) \<Longrightarrow>
    sys_step n ser par st (st\<lparr>backlog := as, connections := k, workers := ws\<rparr>)"
| s_accept_fails: "a < 0 \<Longrightarrow> accept_step n a (connections st, workers st) = Some (k, ws) \<Longrightarrow>
    sys_step n ser par st (st\<lparr>connections := k, workers := ws\<rparr>)"
| s_collect: "t < length (workers st) \<Longrightarrow> pcs st t = Collecting \<Longrightarrow>
    sys_step n ser par st (at_worker t (collect (workers st ! t)) Polling st)"
| s_poll_none: "t < length (workers st) \<Longrightarrow> pcs st t = Polling \<Longrightarrow>
    sys_step n ser par st (at_worker t (workers st ! t) Collecting st)"
| s_poll: "t < length (workers st) \<Longrightarrow> pcs st t = Polling \<Longrightarrow>
    sys_step n ser par st
      (at_worker t (poll_result has_input (workers st ! t)) (Serving (length (active_clients (workers st ! t)))) st)"
| s_round_ends: "t < length (workers st) \<Longrightarrow> pcs st t = Serving 0 \<Longrightarrow>
    sys_step n ser par st (at_worker t (workers st ! t) Collecting st)"
| s_skip: "t < length (workers st) \<Longrightarrow> pcs st t = Serving (Suc i) \<Longrightarrow> \<not> ready (active_clients (workers st ! t) ! i) \<Longrightarrow>
    sys_step n ser par st (at_worker t (workers st ! t) (Serving i) st)"
| s_serve: "t < length (workers st) \<Longrightarrow> pcs st t = Serving (Suc i) \<Longrightarrow> c = active_clients (workers st ! t) ! i \<Longrightarrow> ready c \<Longrightarrow>
    smooth v \<Longrightarrow> take_message par v (fd c) (srv st) = (Go_on, s) \<Longrightarrow>
    sys_step n ser par st ((at_worker t (workers st ! t) (Serving i) st)\<lparr>srv := s\<rparr>)"
| s_drop: "t < length (workers st) \<Longrightarrow> pcs st t = Serving (Suc i) \<Longrightarrow> c = active_clients (workers st ! t) ! i \<Longrightarrow> ready c \<Longrightarrow>
    smooth v \<Longrightarrow> take_message par v (fd c) (srv st) = (Close, s) \<Longrightarrow>
    sys_step n ser par st
      ((at_worker t (drop_client i (workers st ! t)) (Serving i) st)\<lparr>srv := close_client (fd c) s\<rparr>)"
| s_load: "t < length (workers st) \<Longrightarrow> pcs st t = Serving (Suc i) \<Longrightarrow> c = active_clients (workers st ! t) ! i \<Longrightarrow> ready c \<Longrightarrow>
    smooth v \<Longrightarrow> take_message par v (fd c) (srv st) = (Reply ctr, s) \<Longrightarrow>
    sys_step n ser par st ((at_worker t (workers st ! t) (Printing i ctr) st)\<lparr>srv := s\<rparr>)"
| s_print: "t < length (workers st) \<Longrightarrow> pcs st t = Printing i ctr \<Longrightarrow>
    sys_step n ser par st ((at_worker t (workers st ! t) (Sending i ctr) st)\<lparr>srv := print_counter ctr (srv st)\<rparr>)"
| s_send: "t < length (workers st) \<Longrightarrow> pcs st t = Sending i ctr \<Longrightarrow> c = active_clients (workers st ! t) ! i \<Longrightarrow> smooth v \<Longrightarrow>
    sys_step n ser par st
      ((at_worker t (drop_client i (workers st ! t)) (Serving i) st)
         \<lparr>srv := close_client (fd c) (send_counter ser v (fd c) ctr (srv st))\<rparr>)"

abbreviation sys_steps :: "int \<Rightarrow> serializer \<Rightarrow> parser \<Rightarrow> sys \<Rightarrow> sys \<Rightarrow> bool" where
  "sys_steps n ser par \<equiv> (sys_step n ser par)\<^sup>*\<^sup>*"

text \<open>The start of \<^verbatim>\<open>main\<close>, with the connections that are going to be accepted.\<close>

definition sys_start :: "int \<Rightarrow> server \<Rightarrow> int list \<Rightarrow> sys option" where
  "sys_start n s fds =
     map_option (\<lambda>ws. \<lparr>connections = 0, workers = ws, pcs = (\<lambda>_. Collecting), srv = s, backlog = fds\<rparr>) (start_workers n)"

subsection \<open>A round without interruption\<close>

text \<open>The steps of one worker in a row are the loop over the polled clients, and a round of \<^verbatim>\<open>server_kernel\<close>.\<close>

lemma at_worker_same [simp]:
  "t < length (workers st) \<Longrightarrow> at_worker t w' p' (at_worker t w p st) = at_worker t w' p' st"
  "length (workers (at_worker t w p st)) = length (workers st)"
  "t < length (workers st) \<Longrightarrow> workers (at_worker t w p st) ! t = w" "pcs (at_worker t w p st) t = p"
  "srv (at_worker t w p st) = srv st" "backlog (at_worker t w p st) = backlog st" "connections (at_worker t w p st) = connections st"
  "at_worker t w p (st\<lparr>srv := s\<rparr>) = (at_worker t w p st)\<lparr>srv := s\<rparr>"
  by (simp_all add: at_worker_def)

text \<open>The steps in which a client is finished, in a row.\<close>

lemma finishing_steps:
  assumes sm: "smooth v" and t: "t < length (workers st)" and c: "ready (active_clients w ! i)"
    and h: "handle_client ser par v (fd (active_clients w ! i)) s = (True, s1)"
  shows "sys_steps n ser par ((at_worker t w (Serving (Suc i)) st)\<lparr>srv := s\<rparr>)
    ((at_worker t (drop_client i w) (Serving i) st)\<lparr>srv := close_client (fd (active_clients w ! i)) s1\<rparr>)"
proof -
  let ?st = "(at_worker t w (Serving (Suc i)) st)\<lparr>srv := s\<rparr>"
  let ?c = "active_clients w ! i"
  have st: "t < length (workers ?st)" "pcs ?st t = Serving (Suc i)" "workers ?st ! t = w" "srv ?st = s" using t by simp_all
  obtain a s2 where a: "take_message par v (fd ?c) s = (a, s2)" by fastforce
  show ?thesis
  proof (cases a)
    case Go_on
    then show ?thesis using a h by (simp add: handle_client_def)
  next
    case Close
    then have "s1 = s2" using a h by (simp add: handle_client_def)
    then show ?thesis using s_drop [OF st(1,2) refl _ sm, of par s2 n ser] a Close c st(3,4) t by simp
  next
    case (Reply ctr)
    let ?p = "(at_worker t w (Printing i ctr) st)\<lparr>srv := s2\<rparr>"
    let ?q = "(at_worker t w (Sending i ctr) st)\<lparr>srv := print_counter ctr s2\<rparr>"
    have s1: "s1 = send_counter ser v (fd ?c) ctr (print_counter ctr s2)" using a h Reply by (simp add: handle_client_def)
    have 1: "sys_step n ser par ?st ?p" using s_load [OF st(1,2) refl _ sm, of par ctr s2 n ser] a Reply c st(3,4) t by simp
    have 2: "sys_step n ser par ?p ?q" using s_print [of t ?p i ctr n ser par] t by simp
    have 3: "sys_step n ser par ?q ((at_worker t (drop_client i w) (Serving i) st)\<lparr>srv := close_client (fd ?c) s1\<rparr>)"
      using s_send [of t ?q i ctr ?c v n ser par] sm t by (simp add: s1)
    show ?thesis using 1 2 3 by (meson converse_rtranclp_into_rtranclp r_into_rtranclp)
  qed
qed

lemma serving_steps:
  assumes sm: "smooth v" and t: "t < length (workers st)"
  shows "i \<le> length (active_clients w) \<Longrightarrow>
    case poll_loop (handle_client ser par v) i (active_clients w) s of (cs, s') \<Rightarrow>
      sys_steps n ser par ((at_worker t w (Serving i) st)\<lparr>srv := s\<rparr>)
        ((at_worker t (w\<lparr>active_clients := cs\<rparr>) (Serving 0) st)\<lparr>srv := s'\<rparr>)"
proof (induction i arbitrary: w s)
  case 0
  then show ?case by simp
next
  case (Suc i)
  let ?st = "(at_worker t w (Serving (Suc i)) st)\<lparr>srv := s\<rparr>"
  let ?c = "active_clients w ! i"
  have st: "t < length (workers ?st)" "pcs ?st t = Serving (Suc i)" "workers ?st ! t = w" "srv ?st = s"
    using t by simp_all
  obtain fin s1 where h: "handle_client ser par v (fd ?c) s = (fin, s1)" by fastforce
  consider "\<not> ready ?c" | "ready ?c" "\<not> fin" | "ready ?c" fin by blast
  then show ?case
  proof cases
    case 1
    have "sys_step n ser par ?st ((at_worker t w (Serving i) st)\<lparr>srv := s\<rparr>)"
      using s_skip [OF st(1,2)] 1 st(3) t by simp
    moreover have "poll_loop (handle_client ser par v) (Suc i) (active_clients w) s = poll_loop (handle_client ser par v) i (active_clients w) s"
      using 1 by simp
    ultimately show ?thesis using Suc.IH [of w s] Suc.prems converse_rtranclp_into_rtranclp [of "sys_step n ser par" ?st]
      by (simp del: poll_loop.simps split: prod.splits)
  next
    case 2
    have "take_message par v (fd ?c) s = (Go_on, s1)"
      using 2(2) h by (auto simp: handle_client_def split: prod.splits answer.splits)
    then have "sys_step n ser par ?st ((at_worker t w (Serving i) st)\<lparr>srv := s1\<rparr>)"
      using s_serve [OF st(1,2) refl _ sm, of par s1 n ser] 2 st(3,4) t by simp
    moreover have "poll_loop (handle_client ser par v) (Suc i) (active_clients w) s = poll_loop (handle_client ser par v) i (active_clients w) s1"
      using 2 h by simp
    ultimately show ?thesis using Suc.IH [of w s1] Suc.prems converse_rtranclp_into_rtranclp [of "sys_step n ser par" ?st]
      by (simp del: poll_loop.simps split: prod.splits)
  next
    case 3
    let ?s = "s1\<lparr>closed := closed s1 @ [fd ?c]\<rparr>"
    have "sys_steps n ser par ?st ((at_worker t (drop_client i w) (Serving i) st)\<lparr>srv := ?s\<rparr>)"
      using finishing_steps [OF sm t 3(1), of ser par s s1 n] 3 h by (simp add: close_client_def)
    moreover have "w\<lparr>active_clients := cs\<rparr> = (drop_client i w)\<lparr>active_clients := cs\<rparr>" for cs by (simp add: drop_client_def)
    moreover have "i \<le> length (active_clients (drop_client i w))" using Suc.prems by (simp add: drop_client_def)
    moreover have "poll_loop (handle_client ser par v) (Suc i) (active_clients w) s =
        poll_loop (handle_client ser par v) i (active_clients (drop_client i w)) ?s"
      using 3 h by (simp add: drop_client_def)
    ultimately show ?thesis
      using Suc.IH [of "drop_client i w" ?s] rtranclp_trans [of "sys_step n ser par" ?st]
      by (simp del: poll_loop.simps split: prod.splits)
  qed
qed

lemma kernel_round:
  assumes sm: "smooth v" and t: "t < length (workers st)" "pcs st t = Collecting"
  shows "case server_kernel (handle_client ser par v) poll (workers st ! t) (srv st) of (w, s) \<Rightarrow>
    sys_steps n ser par st ((at_worker t w Collecting st)\<lparr>srv := s\<rparr>)"
proof -
  let ?w = "collect (workers st ! t)"
  let ?st = "at_worker t ?w Polling st"
  have 1: "sys_step n ser par st ?st" by (rule s_collect [OF t])
  have st: "t < length (workers ?st)" "pcs ?st t = Polling" "workers ?st ! t = ?w" using t by simp_all
  show ?thesis
  proof (cases poll)
    case None
    have "sys_step n ser par ?st (at_worker t ?w Collecting st)" using s_poll_none [OF st(1,2)] st(3) t by simp
    moreover have "server_kernel (handle_client ser par v) poll (workers st ! t) (srv st) = (?w, srv st)"
      by (simp add: server_kernel_def None collect_def)
    moreover have "(at_worker t ?w Collecting st)\<lparr>srv := srv st\<rparr> = at_worker t ?w Collecting st" by (simp add: at_worker_def)
    ultimately show ?thesis using 1 by (simp only: prod.case)
  next
    case (Some has_input)
    let ?p = "poll_result has_input ?w"
    obtain cs s where l: "poll_loop (handle_client ser par v) (length (active_clients ?p)) (active_clients ?p) (srv st) = (cs, s)"
      by fastforce
    let ?k = "(at_worker t (?p\<lparr>active_clients := cs\<rparr>) (Serving 0) st)\<lparr>srv := s\<rparr>"
    have "sys_step n ser par ?st ((at_worker t ?p (Serving (length (active_clients ?p))) st)\<lparr>srv := srv st\<rparr>)"
      using s_poll [OF st(1,2), where n = n and ser = ser and par = par and has_input = has_input] st(3) t by (simp add: poll_result_def at_worker_def)
    moreover have "sys_steps n ser par ((at_worker t ?p (Serving (length (active_clients ?p))) st)\<lparr>srv := srv st\<rparr>) ?k"
      using serving_steps [OF sm t(1), where i = "length (active_clients ?p)" and w = ?p and ser = ser and par = par and s = "srv st" and n = n] l by simp
    moreover have "sys_step n ser par ?k ((at_worker t (?p\<lparr>active_clients := cs\<rparr>) Collecting st)\<lparr>srv := s\<rparr>)"
      using s_round_ends [where t = t and st = ?k and n = n and ser = ser and par = par] t by simp
    ultimately have "sys_steps n ser par st ((at_worker t (?p\<lparr>active_clients := cs\<rparr>) Collecting st)\<lparr>srv := s\<rparr>)"
      using 1 by (meson converse_rtranclp_into_rtranclp rtranclp.rtrancl_into_rtrancl)
    moreover have "server_kernel (handle_client ser par v) poll (workers st ! t) (srv st) = (?p\<lparr>active_clients := cs\<rparr>, s)"
      using l by (simp add: server_kernel_def Some collect_def poll_result_def Let_def del: map_append)
    ultimately show ?thesis by simp
  qed
qed


subsection \<open>Where the clients are\<close>

definition clients_of :: "Worker \<Rightarrow> int multiset" where
  "clients_of w = mset (pending_clients w) + mset (map fd (active_clients w))"

definition places :: "sys \<Rightarrow> int multiset" where
  "places st = mset (backlog st) + sum_list (map clients_of (workers st)) + mset (closed (srv st))"

lemma sum_list_upd:
  fixes f :: "'a \<Rightarrow> 'b :: comm_monoid_add"
  assumes "t < length xs"
  shows "sum_list (map f (xs[t := y])) + f (xs ! t) = sum_list (map f xs) + f y"
proof -
  have "sum_list (map f xs) = sum_list (map f (take t xs @ xs ! t # drop (Suc t) xs))" using id_take_nth_drop [OF assms] by simp
  then show ?thesis by (simp add: upd_conv_take_nth_drop assms ac_simps)
qed

lemma clients_collect [simp]: "clients_of (collect w) = clients_of w"
  by (simp add: clients_of_def collect_def comp_def)

lemma clients_poll [simp]: "clients_of (poll_result has_input w) = clients_of w"
  by (simp add: clients_of_def poll_result_def comp_def)

lemma clients_drop:
  assumes "i < length (active_clients w)"
  shows "clients_of w = add_mset (fd (active_clients w ! i)) (clients_of (drop_client i w))"
proof -
  let ?cs = "active_clients w" and ?ds = "active_clients (drop_client i w)"
  have "mset ?ds = mset (take i ?ds @ drop i ?ds)" by simp
  also have "\<dots> = mset (take i ?cs) + mset (drop (Suc i) ?cs)"
    using swap_remove(1,2) [OF assms] by (simp add: drop_client_def del: append_take_drop_id)
  finally have "add_mset (?cs ! i) (mset ?ds) = mset ?cs" using id_take_nth_drop [OF assms] by (metis mset.simps(2) mset_append union_mset_add_mset_right)
  from arg_cong [OF this, of "image_mset fd"] show ?thesis by (simp add: clients_of_def drop_client_def)
qed

lemma places_upd:
  assumes "t < length (workers st)" and "clients_of w = clients_of (workers st ! t)" and "closed s = closed (srv st)"
  shows "places ((at_worker t w p st)\<lparr>srv := s\<rparr>) = places st"
  using sum_list_upd [OF assms(1), of clients_of w] assms(2,3) by (simp add: places_def at_worker_def)

lemma places_close:
  assumes "t < length (workers st)" and "i < length (active_clients (workers st ! t))" and "closed s = closed (srv st)"
  shows "places ((at_worker t (drop_client i (workers st ! t)) p st)
    \<lparr>srv := close_client (fd (active_clients (workers st ! t) ! i)) s\<rparr>) = places st"
  using sum_list_upd [OF assms(1), of clients_of "drop_client i (workers st ! t)"] clients_drop [OF assms(2)] assms(3)
  by (simp add: places_def at_worker_def close_client_def)

text \<open>A descriptor has one place.\<close>

lemma count_workers: "count (sum_list (map clients_of ws)) c = (\<Sum>t < length ws. count (clients_of (ws ! t)) c)"
  by (simp add: sum_list_sum_nth count_sum atLeast0LessThan)

lemma one_place:
  assumes pl: "places st = mset F" "distinct F"
  shows "count (mset (backlog st)) c + (\<Sum>t < length (workers st). count (clients_of (workers st ! t)) c) + count (mset (closed (srv st))) c \<le> 1"
proof -
  have "count (places st) c \<le> 1" using pl by (simp add: distinct_count_atmost_1)
  then show ?thesis by (simp add: places_def count_workers)
qed

lemma only_here:
  assumes pl: "places st = mset F" "distinct F" and t: "t < length (workers st)" and c: "c \<in># clients_of (workers st ! t)"
  shows "c \<in> set F" "c \<notin> set (backlog st)" "c \<notin> set (closed (srv st))"
    "u < length (workers st) \<Longrightarrow> u \<noteq> t \<Longrightarrow> c \<notin># clients_of (workers st ! u)" "count (clients_of (workers st ! t)) c = 1"
proof -
  let ?f = "\<lambda>t. count (clients_of (workers st ! t)) c"
  have f: "1 \<le> ?f t" using c by simp
  have "?f t \<le> (\<Sum>t < length (workers st). ?f t)" using t by (intro member_le_sum) simp_all
  then have z: "count (mset (backlog st)) c = 0" "count (mset (closed (srv st))) c = 0" "?f t = 1" "(\<Sum>t < length (workers st). ?f t) = 1"
    using one_place [OF pl, of c] f by linarith+
  show "count (clients_of (workers st ! t)) c = 1" by (rule z)
  show "c \<notin> set (backlog st)" "c \<notin> set (closed (srv st))" using z(1,2) by (simp_all add: count_list_0_iff count_mset)
  have "0 < count (places st) c" using z(4) by (simp add: places_def count_workers)
  then show "c \<in> set F" using pl(1) by simp
  show "c \<notin># clients_of (workers st ! u)" if "u < length (workers st)" "u \<noteq> t"
  proof -
    have "(\<Sum>t \<in> {t, u}. ?f t) \<le> (\<Sum>t < length (workers st). ?f t)" using t that by (intro sum_mono2) auto
    then show ?thesis using z(3,4) that by (auto simp: not_in_iff)
  qed
qed

lemma active_client: "i < length (active_clients w) \<Longrightarrow> fd (active_clients w ! i) \<in># clients_of w"
  by (simp add: clients_of_def)

lemma distinct_clients:
  assumes pl: "places st = mset F" "distinct F" and t: "t < length (workers st)"
  shows "distinct (pending_clients (workers st ! t) @ map fd (active_clients (workers st ! t)))"
proof -
  have "count (clients_of (workers st ! t)) c \<le> 1" for c
    using only_here(5) [OF pl t, of c] by (cases "c \<in># clients_of (workers st ! t)") (simp_all add: not_in_iff)
  then have "count (mset (pending_clients (workers st ! t) @ map fd (active_clients (workers st ! t)))) c \<le> 1" for c
    by (simp add: clients_of_def)
  then show ?thesis unfolding distinct_count_atmost_1 by (metis count_eq_zero_iff le_SucE One_nat_def le_zero_eq set_mset_mset)
qed

subsection \<open>The invariant\<close>

text \<open>What a client still has to send: additions and subtractions, and the termination at the end.\<close>

definition script :: "message list \<Rightarrow> bool" where
  "script ms \<longleftrightarrow> ms \<noteq> [] \<and> operation_type (last ms) = OPERATION_TERMINATION \<and>
     (\<forall>m \<in> set (butlast ms). operation_type m = OPERATION_ADD \<or> operation_type m = OPERATION_SUB)"

lemma script_Cons:
  "script (m # ms) \<longleftrightarrow> (if ms = [] then operation_type m = OPERATION_TERMINATION
     else (operation_type m = OPERATION_ADD \<or> operation_type m = OPERATION_SUB) \<and> script ms)"
  by (auto simp: script_def)

lemma script_client: "script (client_msgs n add sub)"
  by (auto simp: script_def client_msgs_def client_msg_def)

text \<open>\<open>rem c\<close> are the messages of client \<open>c\<close> that are not handled yet, and \<open>ld c\<close> is the number that was loaded for it
  when its termination request came.\<close>

definition conn_ok :: "serializer \<Rightarrow> (int \<Rightarrow> message list) \<Rightarrow> (int \<Rightarrow> 64 word option) \<Rightarrow> server \<Rightarrow> int \<Rightarrow> bool" where
  "conn_ok ser rem ld s c \<longleftrightarrow> inbox s c = frames ser (rem c) \<and>
     (case ld c of
        None \<Rightarrow> script (rem c) \<and> outbox s c = [] \<and> c \<notin> set (closed s)
      | Some v \<Rightarrow> rem c = [] \<and>
         (if c \<in> set (closed s)
          then v \<in> set (printed s) \<and> outbox s c = frame ser \<lparr>operation_type = OPERATION_COUNTER, argument = v\<rparr>
          else outbox s c = []))"

text \<open>The last load, when there is one for every client, sees the final counter.\<close>

definition srv_inv :: "serializer \<Rightarrow> int set \<Rightarrow> 64 word \<Rightarrow> (int \<Rightarrow> message list) \<Rightarrow> (int \<Rightarrow> 64 word option) \<Rightarrow> server \<Rightarrow> bool" where
  "srv_inv ser F tot rem ld s \<longleftrightarrow> (\<forall>c \<in> F. conn_ok ser rem ld s c) \<and>
     number s + (\<Sum>c \<in> F. sum_list (map effect (rem c))) = tot \<and>
     (F \<noteq> {} \<and> (\<forall>c \<in> F. ld c \<noteq> None) \<longrightarrow> (\<exists>c \<in> F. ld c = Some (number s)))"

text \<open>The client a worker is about to answer is the only one of its clients for which a number was loaded.\<close>

definition loaded :: "worker_pc \<Rightarrow> nat \<Rightarrow> 64 word option" where
  "loaded pc j = (case pc of Printing i ctr \<Rightarrow> if j = i then Some ctr else None
     | Sending i ctr \<Rightarrow> if j = i then Some ctr else None | _ \<Rightarrow> None)"

definition pc_ok :: "server \<Rightarrow> Worker \<Rightarrow> worker_pc \<Rightarrow> bool" where
  "pc_ok s w pc \<longleftrightarrow> (case pc of Serving i \<Rightarrow> i \<le> length (active_clients w)
     | Printing i ctr \<Rightarrow> i < length (active_clients w)
     | Sending i ctr \<Rightarrow> i < length (active_clients w) \<and> ctr \<in> set (printed s) | _ \<Rightarrow> True)"

definition worker_ok :: "(int \<Rightarrow> 64 word option) \<Rightarrow> server \<Rightarrow> Worker \<Rightarrow> worker_pc \<Rightarrow> bool" where
  "worker_ok ld s w pc \<longleftrightarrow> pc_ok s w pc \<and> (\<forall>c \<in> set (pending_clients w). ld c = None) \<and>
     (\<forall>j < length (active_clients w). ld (fd (active_clients w ! j)) = loaded pc j)"

text \<open>With a single worker the numbers are printed in the order in which they are loaded.\<close>

definition alone_inv :: "int set \<Rightarrow> (int \<Rightarrow> 64 word option) \<Rightarrow> worker_pc \<Rightarrow> server \<Rightarrow> bool" where
  "alone_inv F ld pc s \<longleftrightarrow> (F \<noteq> {} \<and> (\<forall>c \<in> F. ld c \<noteq> None) \<longrightarrow>
     (case pc of Printing i ctr \<Rightarrow> ctr = number s | _ \<Rightarrow> printed s \<noteq> [] \<and> last (printed s) = number s))"

definition sys_inv :: "int \<Rightarrow> serializer \<Rightarrow> int list \<Rightarrow> 64 word \<Rightarrow> (int \<Rightarrow> message list) \<Rightarrow> (int \<Rightarrow> 64 word option) \<Rightarrow> sys \<Rightarrow> bool" where
  "sys_inv n ser F tot rem ld st \<longleftrightarrow> length (workers st) = nat n \<and> places st = mset F \<and>
     (\<forall>c \<in> set (backlog st). ld c = None) \<and>
     (\<forall>t < length (workers st). worker_ok ld (srv st) (workers st ! t) (pcs st t)) \<and>
     srv_inv ser (set F) tot rem ld (srv st) \<and> (n = 1 \<longrightarrow> alone_inv (set F) ld (pcs st 0) (srv st))"

lemma sys_invD:
  assumes "sys_inv n ser F tot rem ld st"
  shows "length (workers st) = nat n" "places st = mset F" "srv_inv ser (set F) tot rem ld (srv st)"
    "t < length (workers st) \<Longrightarrow> worker_ok ld (srv st) (workers st ! t) (pcs st t)"
    "n = 1 \<Longrightarrow> alone_inv (set F) ld (pcs st 0) (srv st)"
  using assms by (simp_all add: sys_inv_def)

subsection \<open>The three parts of handling a client\<close>

context message_format
begin

lemma take_inv:
  assumes inv: "srv_inv ser F tot rem ld s" and F: "finite F" "c \<in> F" "ld c = None" and sm: "smooth v"
    and h: "take_message par v c s = (a, s')"
  obtains m ms where "rem c = m # ms" "ms \<noteq> []" "a = Go_on" "srv_inv ser F tot (rem(c := ms)) ld s'"
      "closed s' = closed s" "printed s' = printed s"
  | m where "rem c = [m]" "a = Reply (number s)" "srv_inv ser F tot (rem(c := [])) (ld(c \<mapsto> number s)) s'"
      "closed s' = closed s" "printed s' = printed s" "number s' = number s"
proof -
  have co: "conn_ok ser rem ld s c" using inv F(2) by (simp add: srv_inv_def)
  then have sc: "script (rem c)" "inbox s c = frames ser (rem c)" "outbox s c = []" "c \<notin> set (closed s)"
    using F(3) by (simp_all add: conn_ok_def)
  then obtain m ms where m: "rem c = m # ms" by (cases "rem c") (auto simp: script_def)
  have op: "valid_op (operation_type m)" "ms = [] \<Longrightarrow> operation_type m = OPERATION_TERMINATION"
    "ms \<noteq> [] \<Longrightarrow> (operation_type m = OPERATION_ADD \<or> operation_type m = OPERATION_SUB) \<and> script ms"
    using sc(1) m by (auto simp: script_Cons valid_op_def op_defs split: if_splits)
  have ib: "inbox s c = frame ser m @ frames ser ms" using sc(2) m by simp
  note tk = take_first [OF sm ib op(1)]
  have s': "s' = s\<lparr>inbox := (inbox s)(c := frames ser ms), number := number s + effect m\<rparr>" using h tk by simp
  have "(\<Sum>d \<in> F. sum_list (map effect (rem d))) = effect m + (\<Sum>d \<in> F. sum_list (map effect ((rem(c := ms)) d)))"
    using F(1,2) m by (simp add: sum.remove [of F c])
  then have tot: "number s' + (\<Sum>d \<in> F. sum_list (map effect ((rem(c := ms)) d))) = tot"
    using inv s' by (simp add: srv_inv_def add.assoc)
  have others: "conn_ok ser (rem(c := ms)) (ld(c := x)) s' d" if "d \<in> F" "d \<noteq> c" for d x
    using inv that s' by (auto simp: srv_inv_def conn_ok_def split: option.splits)
  show ?thesis
  proof (cases "ms = []")
    case True
    have z: "effect m = 0" "a = Reply (number s)" using op(2) [OF True] h tk by (simp_all add: effect_def op_defs)
    have "conn_ok ser (rem(c := [])) (ld(c \<mapsto> number s)) s' c" using sc(3,4) s' True by (simp add: conn_ok_def)
    then have "conn_ok ser (rem(c := [])) (ld(c \<mapsto> number s)) s' d" if "d \<in> F" for d
      using others [OF that, of "Some (number s)"] True by (cases "d = c") simp_all
    moreover have "\<exists>d \<in> F. (ld(c \<mapsto> number s)) d = Some (number s')" using F(2) z(1) s' by auto
    ultimately have "srv_inv ser F tot (rem(c := [])) (ld(c \<mapsto> number s)) s'" using tot unfolding srv_inv_def True by blast
    then show ?thesis using that(2) m z s' True by simp
  next
    case False
    have z: "a = Go_on" using op(3) [OF False] h tk by auto
    have "conn_ok ser (rem(c := ms)) ld s' c" using op(3) [OF False] sc(3,4) s' F(3) by (simp add: conn_ok_def)
    moreover have "conn_ok ser (rem(c := ms)) ld s' d" if "d \<in> F" "d \<noteq> c" for d using others [OF that, of None] F(3) by (simp add: fun_upd_idem)
    ultimately have "srv_inv ser F tot (rem(c := ms)) ld s'" using tot F(2,3) unfolding srv_inv_def by metis
    then show ?thesis using that(1) m z False s' by simp
  qed
qed

lemma print_inv:
  assumes "srv_inv ser F tot rem ld s"
  shows "srv_inv ser F tot rem ld (print_counter ctr s)"
  using assms by (auto simp: srv_inv_def conn_ok_def print_counter_def split: option.splits)

lemma send_inv:
  assumes inv: "srv_inv ser F tot rem ld s" and c: "c \<in> F" "c \<notin> set (closed s)" "ld c = Some ctr" "ctr \<in> set (printed s)" and sm: "smooth v"
  shows "srv_inv ser F tot rem ld (close_client c (send_counter ser v c ctr s))"
proof -
  let ?s = "close_client c (send_counter ser v c ctr s)"
  have s: "?s = s\<lparr>outbox := (outbox s)(c := outbox s c @ frame ser \<lparr>operation_type = OPERATION_COUNTER, argument = ctr\<rparr>), closed := closed s @ [c]\<rparr>"
    by (simp add: close_client_def send_whole [OF sm])
  have "conn_ok ser rem ld ?s d" if d: "d \<in> F" for d
  proof -
    have "conn_ok ser rem ld s d" using inv d by (simp add: srv_inv_def)
    then show ?thesis using c by (auto simp: conn_ok_def s split: option.splits if_splits)
  qed
  moreover have "number ?s = number s" by (simp add: s)
  ultimately show ?thesis using inv by (simp add: srv_inv_def)
qed

end

subsection \<open>Every step keeps it\<close>

definition quiet :: "worker_pc \<Rightarrow> bool" where
  "quiet pc \<longleftrightarrow> (case pc of Printing _ _ \<Rightarrow> False | Sending _ _ \<Rightarrow> False | _ \<Rightarrow> True)"

lemma quiet_simps [simp]: "quiet Collecting" "quiet Polling" "quiet (Serving i)" "\<not> quiet (Printing i ctr)" "\<not> quiet (Sending i ctr)"
  by (simp_all add: quiet_def)

lemma pc_ok_simps [simp]:
  "pc_ok s w Collecting" "pc_ok s w Polling" "pc_ok s w (Serving i) \<longleftrightarrow> i \<le> length (active_clients w)"
  "pc_ok s w (Printing i ctr) \<longleftrightarrow> i < length (active_clients w)"
  "pc_ok s w (Sending i ctr) \<longleftrightarrow> i < length (active_clients w) \<and> ctr \<in> set (printed s)"
  by (simp_all add: pc_ok_def)

lemma clients_cases: "c \<in># clients_of w \<longleftrightarrow> c \<in> set (pending_clients w) \<or> (\<exists>j < length (active_clients w). c = fd (active_clients w ! j))"
  by (auto simp: clients_of_def in_set_conv_nth image_iff) (metis nth_mem)

lemma worker_quiet:
  assumes "quiet pc"
  shows "worker_ok ld s w pc \<longleftrightarrow> pc_ok s w pc \<and> (\<forall>c \<in># clients_of w. ld c = None)"
proof -
  have "loaded pc j = None" for j using assms by (simp add: loaded_def quiet_def split: worker_pc.splits)
  then show ?thesis unfolding worker_ok_def by (simp add: clients_of_def all_set_conv_all_nth ball_Un)
qed

lemma alone_quiet:
  "quiet pc \<Longrightarrow> alone_inv F ld pc s \<longleftrightarrow> (F \<noteq> {} \<and> (\<forall>c \<in> F. ld c \<noteq> None) \<longrightarrow> printed s \<noteq> [] \<and> last (printed s) = number s)"
  by (cases pc) (simp_all add: alone_inv_def)

lemma worker_ok_mono:
  assumes "worker_ok ld s w pc" "set (printed s) \<subseteq> set (printed s')" "\<And>c. c \<in># clients_of w \<Longrightarrow> ld' c = ld c"
  shows "worker_ok ld' s' w pc"
proof -
  have "pc_ok s' w pc" using assms(1,2) by (cases pc) (auto simp: worker_ok_def)
  moreover have "ld' (fd (active_clients w ! j)) = ld (fd (active_clients w ! j))" if "j < length (active_clients w)" for j
    by (rule assms(3)) (simp add: active_client that)
  moreover have "ld' c = ld c" if "c \<in> set (pending_clients w)" for c using assms(3) that by (simp add: clients_of_def)
  ultimately show ?thesis using assms(1) by (simp add: worker_ok_def)
qed

text \<open>A step of worker \<open>t\<close>, in which at most the number of its client \<open>c\<close> gets loaded.\<close>

lemma worker_inv:
  assumes F: "distinct F" and inv: "sys_inv n ser F tot rem ld st" and t: "t < length (workers st)"
    and ld: "\<And>d. d \<noteq> c \<Longrightarrow> ld' d = ld d" and c: "c \<in># clients_of (workers st ! t) \<or> ld' c = ld c"
    and wk: "worker_ok ld' s w p" and pr: "set (printed (srv st)) \<subseteq> set (printed s)"
    and pl: "places ((at_worker t w p st)\<lparr>srv := s\<rparr>) = places st"
    and si: "srv_inv ser (set F) tot rem' ld' s" and one: "n = 1 \<Longrightarrow> alone_inv (set F) ld' p s"
  shows "sys_inv n ser F tot rem' ld' ((at_worker t w p st)\<lparr>srv := s\<rparr>)"
proof -
  let ?st = "(at_worker t w p st)\<lparr>srv := s\<rparr>"
  have pl0: "places st = mset F" using inv by (rule sys_invD)
  have "worker_ok ld' s (workers ?st ! u) (pcs ?st u)" if u: "u < length (workers ?st)" for u
  proof (cases "u = t")
    case True
    then show ?thesis using wk t by simp
  next
    case False
    have u': "u < length (workers st)" using u by simp
    have "ld' d = ld d" if "d \<in># clients_of (workers st ! u)" for d
      using c ld that only_here(4) [OF pl0 F t _ u' False] by (cases "d = c") auto
    from worker_ok_mono [OF sys_invD(4) [OF inv u'] pr this] show ?thesis using False by (simp add: at_worker_def)
  qed
  moreover have "ld' d = None" if "d \<in> set (backlog st)" for d
  proof -
    have "ld d = None" using inv that by (simp add: sys_inv_def)
    then show ?thesis using c ld that only_here(2) [OF pl0 F t, of c] by (cases "d = c") auto
  qed
  moreover have "t = 0" if "n = 1" using t sys_invD(1) [OF inv] that by simp
  ultimately show ?thesis using sys_invD(1) [OF inv] pl pl0 si one t by (simp add: sys_inv_def)
qed

lemma quiet_inv:
  assumes F: "distinct F" and inv: "sys_inv n ser F tot rem ld st" and t: "t < length (workers st)" "quiet (pcs st t)"
    and w: "clients_of w = clients_of (workers st ! t)" and p: "quiet p" "pc_ok (srv st) w p"
  shows "sys_inv n ser F tot rem ld (at_worker t w p st)"
proof -
  have wk: "worker_ok ld (srv st) w p" using sys_invD(4) [OF inv t(1)] t(2) p w by (simp add: worker_quiet)
  have one: "alone_inv (set F) ld p (srv st)" if "n = 1"
  proof -
    have "t = 0" using t sys_invD(1) [OF inv] that by simp
    then show ?thesis using sys_invD(5) [OF inv that] t(2) p(1) by (simp add: alone_quiet)
  qed
  have e: "(at_worker t w p st)\<lparr>srv := srv st\<rparr> = at_worker t w p st" by (simp add: at_worker_def)
  show ?thesis
    using worker_inv [OF F inv t(1) _ _ wk _ places_upd [OF t(1) w refl] sys_invD(3) [OF inv] one, of 0] unfolding e by simp
qed

lemma accept_shape:
  assumes "accept_step n a (k, ws) = Some (k', ws')" and "0 < n" "length ws = nat n" "0 \<le> a"
  obtains t where "t < length ws" "ws' = ws[t := (ws ! t)\<lparr>pending_clients := pending_clients (ws ! t) @ [a]\<rparr>]"
    "sum_list (map clients_of ws') = sum_list (map clients_of ws) + {#a#}"
proof -
  let ?t = "nat (k mod n)"
  let ?w = "(ws ! ?t)\<lparr>pending_clients := pending_clients (ws ! ?t) @ [a]\<rparr>"
  have t: "?t < length ws" using assms(2,3) by (simp add: nat_less_iff)
  have ws': "ws' = ws[?t := ?w]" using assms(1,4) by (auto simp: accept_step_def Let_def split: if_splits)
  have "clients_of ?w = clients_of (ws ! ?t) + {#a#}" by (simp add: clients_of_def)
  then have "sum_list (map clients_of ws') = sum_list (map clients_of ws) + {#a#}"
    using sum_list_upd [OF t, of clients_of ?w] ws' by simp
  then show ?thesis using that t ws' by blast
qed

lemma accept_inv:
  assumes F: "\<forall>c \<in> set F. 0 \<le> c" "0 < n" and inv: "sys_inv n ser F tot rem ld st"
    and b: "backlog st = a # as" and a: "accept_step n a (connections st, workers st) = Some (k, ws)"
  shows "sys_inv n ser F tot rem ld (st\<lparr>backlog := as, connections := k, workers := ws\<rparr>)"
proof -
  have pl: "places st = mset F" using inv by (rule sys_invD)
  have "a \<in># mset F" using b by (auto simp: places_def simp flip: pl)
  then have "0 \<le> a" using F(1) by simp
  from accept_shape [OF a F(2) sys_invD(1) [OF inv] this] obtain t where t: "t < length (workers st)"
    "ws = (workers st)[t := (workers st ! t)\<lparr>pending_clients := pending_clients (workers st ! t) @ [a]\<rparr>]"
    "sum_list (map clients_of ws) = sum_list (map clients_of (workers st)) + {#a#}" .
  have l: "ld a = None" "\<forall>c \<in> set as. ld c = None" using inv b by (simp_all add: sys_inv_def)
  have "pc_ok s (w\<lparr>pending_clients := ps\<rparr>) pc = pc_ok s w pc" for s w ps pc by (cases pc) simp_all
  then have "worker_ok ld (srv st) (ws ! u) (pcs st u)" if "u < length ws" for u
    using that t l(1) sys_invD(4) [OF inv, of u] by (auto simp: worker_ok_def nth_list_update)
  moreover have "places (st\<lparr>backlog := as, connections := k, workers := ws\<rparr>) = places st" using b t(3) by (simp add: places_def)
  ultimately show ?thesis using inv l(2) t(2) by (simp add: sys_inv_def)
qed

lemma quiet_active:
  assumes F: "distinct F" and inv: "sys_inv n ser F tot rem ld st"
    and t: "t < length (workers st)" "pcs st t = Serving (Suc i)"
  shows "i < length (active_clients (workers st ! t))" "fd (active_clients (workers st ! t) ! i) \<in> set F"
    "ld (fd (active_clients (workers st ! t) ! i)) = None"
proof -
  have wk: "worker_ok ld (srv st) (workers st ! t) (Serving (Suc i))" using sys_invD(4) [OF inv t(1)] t(2) by simp
  then show i: "i < length (active_clients (workers st ! t))" by (simp add: worker_ok_def)
  show "fd (active_clients (workers st ! t) ! i) \<in> set F" by (rule only_here(1) [OF sys_invD(2) [OF inv] F t(1) active_client [OF i]])
  show "ld (fd (active_clients (workers st ! t) ! i)) = None" using wk active_client [OF i] by (simp add: worker_quiet)
qed

context message_format
begin

lemma served_inv:
  assumes F: "distinct F" and inv: "sys_inv n ser F tot rem ld st"
    and t: "t < length (workers st)" "pcs st t = Serving (Suc i)" and c: "c = active_clients (workers st ! t) ! i"
    and s: "srv_inv ser (set F) tot rem' ld s" "closed s = closed (srv st)" "printed s = printed (srv st)"
  shows "sys_inv n ser F tot rem' ld ((at_worker t (workers st ! t) (Serving i) st)\<lparr>srv := s\<rparr>)"
proof -
  note q = quiet_active [OF F inv t]
  have "worker_ok ld s (workers st ! t) (Serving i)"
    using sys_invD(4) [OF inv t(1)] t(2) by (simp add: worker_quiet)
  moreover have "alone_inv (set F) ld (Serving i) s" using q(2,3) by (auto simp: alone_quiet)
  ultimately show ?thesis
    using worker_inv [OF F inv t(1) _ _ _ _ places_upd [OF t(1) refl s(2)] s(1), of 0] s(3) by simp
qed

lemma loaded_inv:
  assumes F: "distinct F" and inv: "sys_inv n ser F tot rem ld st"
    and t: "t < length (workers st)" "pcs st t = Serving (Suc i)" and c: "c = fd (active_clients (workers st ! t) ! i)"
    and s: "srv_inv ser (set F) tot rem' (ld(c \<mapsto> ctr)) s" "closed s = closed (srv st)" "printed s = printed (srv st)" "number s = ctr"
  shows "sys_inv n ser F tot rem' (ld(c \<mapsto> ctr)) ((at_worker t (workers st ! t) (Printing i ctr) st)\<lparr>srv := s\<rparr>)"
proof -
  note q = quiet_active [OF F inv t]
  let ?w = "workers st ! t"
  have d: "distinct (pending_clients ?w @ map fd (active_clients ?w))" by (rule distinct_clients [OF sys_invD(2) [OF inv] F t(1)])
  have n: "\<forall>c \<in># clients_of ?w. ld c = None" using sys_invD(4) [OF inv t(1)] t(2) by (simp add: worker_quiet)
  have "fd (active_clients ?w ! j) = c \<longleftrightarrow> j = i" if "j < length (active_clients ?w)" for j
    using d that q(1) c nth_eq_iff_index_eq [of "map fd (active_clients ?w)" j i] by simp
  moreover have "c \<notin> set (pending_clients ?w)" using d q(1) c by auto
  ultimately have wk: "worker_ok (ld(c \<mapsto> ctr)) s ?w (Printing i ctr)"
    using n q(1) by (auto simp: worker_ok_def loaded_def clients_of_def)
  have "alone_inv (set F) (ld(c \<mapsto> ctr)) (Printing i ctr) s" by (simp add: alone_inv_def s(4))
  moreover have "c \<in># clients_of ?w" using active_client [OF q(1)] c by simp
  ultimately show ?thesis
    using worker_inv [OF F inv t(1) _ _ wk _ places_upd [OF t(1) refl s(2)] s(1), of c] s(3) by simp
qed

lemma printed_inv:
  assumes F: "distinct F" and inv: "sys_inv n ser F tot rem ld st" and t: "t < length (workers st)" "pcs st t = Printing i ctr"
  shows "sys_inv n ser F tot rem ld ((at_worker t (workers st ! t) (Sending i ctr) st)\<lparr>srv := print_counter ctr (srv st)\<rparr>)"
proof -
  let ?s = "print_counter ctr (srv st)"
  have wk: "worker_ok ld ?s (workers st ! t) (Sending i ctr)"
    using sys_invD(4) [OF inv t(1)] t(2) by (simp add: worker_ok_def loaded_def print_counter_def)
  have one: "alone_inv (set F) ld (Sending i ctr) ?s" if "n = 1"
  proof -
    have "t = 0" using t sys_invD(1) [OF inv] that by simp
    then show ?thesis using sys_invD(5) [OF inv that] t(2) by (simp add: alone_inv_def print_counter_def)
  qed
  have "closed ?s = closed (srv st)" "set (printed (srv st)) \<subseteq> set (printed ?s)" by (auto simp: print_counter_def)
  then show ?thesis
    using worker_inv [OF F inv t(1) _ _ wk _ places_upd [OF t(1) refl] print_inv [OF sys_invD(3) [OF inv]] one, of 0] by simp
qed

lemma sending_client:
  assumes F: "distinct F" and inv: "sys_inv n ser F tot rem ld st" and t: "t < length (workers st)" "pcs st t = Sending i ctr"
    and c: "c = fd (active_clients (workers st ! t) ! i)"
  shows "i < length (active_clients (workers st ! t))" "ctr \<in> set (printed (srv st))" "ld c = Some ctr"
    "c \<in> set F" "c \<notin> set (closed (srv st))" "worker_ok ld s (drop_client i (workers st ! t)) (Serving i)"
proof -
  let ?w = "workers st ! t"
  have wk: "worker_ok ld (srv st) ?w (Sending i ctr)" using sys_invD(4) [OF inv t(1)] t(2) by simp
  then show i: "i < length (active_clients ?w)" and "ctr \<in> set (printed (srv st))" by (simp_all add: worker_ok_def)
  show "ld c = Some ctr" using wk i c by (simp add: worker_ok_def loaded_def)
  have cw: "c \<in># clients_of ?w" using active_client [OF i] c by simp
  note oh = only_here [OF sys_invD(2) [OF inv] F t(1) cw]
  show "c \<in> set F" "c \<notin> set (closed (srv st))" using oh by simp_all
  have "c \<notin># clients_of (drop_client i ?w)" using clients_drop [OF i] c oh(5) by (simp add: not_in_iff)
  then have "ld d = None" if "d \<in># clients_of (drop_client i ?w)" for d
  proof -
    have "d \<noteq> c" "d \<in># clients_of ?w" using that \<open>c \<notin># clients_of (drop_client i ?w)\<close> clients_drop [OF i] by auto
    then show ?thesis using wk c by (auto simp: clients_cases worker_ok_def loaded_def)
  qed
  moreover have "i \<le> length (active_clients (drop_client i ?w))" using i by (simp add: drop_client_def)
  ultimately show "worker_ok ld s (drop_client i ?w) (Serving i)" by (simp add: worker_quiet)
qed

lemma sent_inv:
  assumes F: "distinct F" and inv: "sys_inv n ser F tot rem ld st" and t: "t < length (workers st)" "pcs st t = Sending i ctr"
    and c: "c = fd (active_clients (workers st ! t) ! i)" and sm: "smooth v"
  shows "sys_inv n ser F tot rem ld ((at_worker t (drop_client i (workers st ! t)) (Serving i) st)
    \<lparr>srv := close_client c (send_counter ser v c ctr (srv st))\<rparr>)"
proof -
  let ?s = "close_client c (send_counter ser v c ctr (srv st))"
  note sc = sending_client [OF F inv t c]
  note si = send_inv [OF sys_invD(3) [OF inv] sc(4,5,3,2) sm]
  have e: "printed ?s = printed (srv st)" "number ?s = number (srv st)" "closed (send_counter ser v c ctr (srv st)) = closed (srv st)"
    by (simp_all add: close_client_def send_counter_def)
  have one: "alone_inv (set F) ld (Serving i) ?s" if "n = 1"
  proof -
    have "t = 0" using t sys_invD(1) [OF inv] that by simp
    then show ?thesis using sys_invD(5) [OF inv that] t(2) e by (simp add: alone_inv_def)
  qed
  show ?thesis
    using worker_inv [OF F inv t(1) _ _ sc(6) _ places_close [OF t(1) sc(1) e(3), folded c] si one, of 0] e(1) by simp
qed

lemma sys_inv_step:
  assumes F: "distinct F" "\<forall>c \<in> set F. 0 \<le> c" "0 < n"
    and inv: "sys_inv n ser F tot rem ld st" and step: "sys_step n ser par st st'"
  shows "\<exists>rem' ld'. sys_inv n ser F tot rem' ld' st'"
  using step
proof cases
  case (s_accept a "as" k ws)
  then show ?thesis using accept_inv [OF F(2,3) inv] by blast
next
  case (s_accept_fails a k ws)
  then have "st' = st" by (simp add: accept_step_def)
  then show ?thesis using inv by blast
next
  case (s_skip t i)
  have "i < length (active_clients (workers st ! t))" by (rule quiet_active(1) [OF F(1) inv s_skip(2,3)])
  then show ?thesis using quiet_inv [OF F(1) inv s_skip(2) _ refl, of "Serving i"] s_skip(1,3) by auto
next
  case (s_poll t has_input)
  have "length (active_clients (poll_result has_input (workers st ! t))) = length (active_clients (workers st ! t))"
    by (simp add: poll_result_def)
  then have "sys_inv n ser F tot rem ld st'" unfolding s_poll(1) using s_poll(3) by (intro quiet_inv [OF F(1) inv s_poll(2)]) simp_all
  then show ?thesis by blast
next
  case (s_serve t i c v s)
  note q = quiet_active [OF F(1) inv s_serve(2,3), folded s_serve(4)]
  from take_inv [OF sys_invD(3) [OF inv] finite_set q(2,3) s_serve(6,7)] show ?thesis
    using served_inv [OF F(1) inv s_serve(2-4)] s_serve(1) by cases auto
next
  case (s_drop t i c v s)
  note q = quiet_active [OF F(1) inv s_drop(2,3), folded s_drop(4)]
  from take_inv [OF sys_invD(3) [OF inv] finite_set q(2,3) s_drop(6,7)] show ?thesis by cases auto
next
  case (s_load t i c v ctr s)
  note q = quiet_active [OF F(1) inv s_load(2,3), folded s_load(4)]
  from take_inv [OF sys_invD(3) [OF inv] finite_set q(2,3) s_load(6,7)] show ?thesis
  proof cases
    case (2 m)
    then show ?thesis using loaded_inv [OF F(1) inv s_load(2,3) refl, folded s_load(4), OF 2(3-6)] s_load(1) by auto
  qed simp
next
  case (s_print t i ctr)
  then show ?thesis using printed_inv [OF F(1) inv s_print(2,3)] by blast
next
  case (s_send t i ctr c v)
  then show ?thesis using sent_inv [OF F(1) inv s_send(2,3) refl s_send(5)] by blast
next
  case (s_collect t)
  then show ?thesis using quiet_inv [OF F(1) inv s_collect(2) _ clients_collect, of Polling] by auto
next
  case (s_poll_none t)
  then show ?thesis using quiet_inv [OF F(1) inv s_poll_none(2) _ refl, of Collecting] by auto
next
  case (s_round_ends t)
  then show ?thesis using quiet_inv [OF F(1) inv s_round_ends(2) _ refl, of Collecting] by auto
qed

lemma sys_inv_steps:
  assumes "distinct F" "\<forall>c \<in> set F. 0 \<le> c" "0 < n"
  shows "sys_steps n ser par st st' \<Longrightarrow> sys_inv n ser F tot rem ld st \<Longrightarrow> \<exists>rem' ld'. sys_inv n ser F tot rem' ld' st'"
  by (induction rule: rtranclp_induct) (use sys_inv_step [OF assms] in blast)+

end

text \<open>A single worker that has closed all connections has printed the counter last.\<close>

lemma alone_closed:
  assumes F: "distinct F" "F \<noteq> []" and inv: "sys_inv 1 ser F tot rem ld st"
    and all: "set F \<subseteq> set (closed (srv st))" and ld: "\<forall>c \<in> set F. ld c \<noteq> None"
  shows "printed (srv st) \<noteq> [] \<and> last (printed (srv st)) = number (srv st)"
proof -
  have 0: "0 < length (workers st)" using sys_invD(1) [OF inv] by simp
  have "pcs st 0 \<noteq> Printing i ctr" for i ctr
  proof
    assume "pcs st 0 = Printing i ctr"
    then have "i < length (active_clients (workers st ! 0))" using sys_invD(4) [OF inv 0] by (simp add: worker_ok_def)
    then show False using only_here(1,3) [OF sys_invD(2) [OF inv] F(1) 0 active_client] all by blast
  qed
  then show ?thesis using sys_invD(5) [OF inv] F(2) ld by (auto simp: alone_inv_def split: worker_pc.splits)
qed

text \<open>Two workers that have both loaded a number print them in either order, so the last number printed may be an older one.\<close>

lemma print_race:
  assumes t: "t < length (workers st)" "pcs st t = Printing i a" and u: "u < length (workers st)" "pcs st u = Printing j b" and ne: "u \<noteq> t"
  shows "\<exists>st'. sys_steps n ser par st st' \<and> printed (srv st') = printed (srv st) @ [a, b] \<and> number (srv st') = number (srv st)"
proof -
  let ?s1 = "(at_worker t (workers st ! t) (Sending i a) st)\<lparr>srv := print_counter a (srv st)\<rparr>"
  have 1: "sys_step n ser par st ?s1" by (rule s_print [OF t])
  have "u < length (workers ?s1)" "pcs ?s1 u = Printing j b" using u ne by (simp_all add: at_worker_def)
  from s_print [OF this, of n ser par] have 2: "sys_steps n ser par st
      ((at_worker u (workers ?s1 ! u) (Sending j b) ?s1)\<lparr>srv := print_counter b (srv ?s1)\<rparr>)"
    using 1 by (meson converse_rtranclp_into_rtranclp r_into_rtranclp)
  show ?thesis by (rule exI, rule conjI [OF 2]) (simp add: print_counter_def)
qed

subsection \<open>The server can always finish\<close>

definition conn_inv :: "sys \<Rightarrow> bool" where
  "conn_inv st \<longleftrightarrow> 0 \<le> connections st \<and> connections st + int (length (backlog st)) < 2 ^ 31"

lemma conn_inv_step: "sys_step n ser par st st' \<Longrightarrow> conn_inv st \<Longrightarrow> conn_inv st'"
  by (induction rule: sys_step.induct) (auto simp: conn_inv_def accept_step_def Let_def at_worker_def split: if_splits)

lemma conn_inv_steps: "sys_steps n ser par st st' \<Longrightarrow> conn_inv st \<Longrightarrow> conn_inv st'"
  by (induction rule: rtranclp_induct) (use conn_inv_step in blast)+

text \<open>The work that is left.\<close>

definition work :: "int set \<Rightarrow> sys \<Rightarrow> nat" where
  "work F st = length (backlog st) + (\<Sum>c \<in> F. length (inbox (srv st) c)) + card (F - set (closed (srv st)))"

lemma smooth_exists: "smooth \<lparr>rx = (\<lambda>_. Moved 3), tx = (\<lambda>_. Moved 3), junk = 0\<rparr>"
  by (simp add: smooth_def all_move_def whole_header_def)

context message_format
begin

lemma frame_nonempty: "frame ser m \<noteq> []"
  by (simp add: frame_def htonl_def)

text \<open>A ready client can be served, and then there is less to do.\<close>

lemma inbox_less:
  assumes "srv_inv ser F tot rem ld s" "srv_inv ser F tot (rem(c := ms)) ld' s'" "finite F" "c \<in> F" "rem c = m # ms"
  shows "(\<Sum>d \<in> F. length (inbox s' d)) < (\<Sum>d \<in> F. length (inbox s d))"
proof -
  have "inbox s d = frames ser (rem d)" "inbox s' d = frames ser ((rem(c := ms)) d)" if "d \<in> F" for d
    using assms(1,2) that by (simp_all only: srv_inv_def conn_ok_def)
  then show ?thesis using assms(3-5) frame_nonempty [of m] by (intro sum_strict_mono_ex1) (auto intro!: bexI [of _ c])
qed

lemma serve_progress:
  assumes F: "distinct F" and inv: "sys_inv n ser F tot rem ld st"
    and t: "t < length (workers st)" "pcs st t = Serving (Suc i)" "ready (active_clients (workers st ! t) ! i)"
  shows "\<exists>st'. sys_step n ser par st st' \<and> work (set F) st' < work (set F) st"
proof -
  let ?v = "\<lparr>rx = (\<lambda>_. Moved 3), tx = (\<lambda>_. Moved 3), junk = 0\<rparr>"
  let ?c = "active_clients (workers st ! t) ! i"
  note q = quiet_active [OF F inv t(1,2)] and si = sys_invD(3) [OF inv]
  obtain a s where h: "take_message par ?v (fd ?c) (srv st) = (a, s)" by fastforce
  from take_inv [OF si finite_set q(2,3) smooth_exists h] show ?thesis
  proof cases
    case (1 m ms)
    note less = inbox_less [OF si 1(4) finite_set q(2) 1(1)]
    show ?thesis using s_serve [OF t(1,2) refl t(3) smooth_exists h [unfolded 1(3)], of n ser] less 1(5)
      by (intro exI conjI) (assumption | simp add: work_def)+
  next
    case (2 m)
    note less = inbox_less [OF si 2(3) finite_set q(2) 2(1)]
    show ?thesis using s_load [OF t(1,2) refl t(3) smooth_exists h [unfolded 2(2)], of n ser] less 2(4)
      by (intro exI conjI) (assumption | simp add: work_def)+
  qed
qed

text \<open>A number that was loaded gets printed and sent, and the connection closed.\<close>

lemma send_progress:
  assumes F: "distinct F" and inv: "sys_inv n ser F tot rem ld st" and t: "t < length (workers st)" "pcs st t = Sending i ctr"
  shows "\<exists>st'. sys_step n ser par st st' \<and> work (set F) st' < work (set F) st"
proof -
  let ?c = "fd (active_clients (workers st ! t) ! i)"
  note sc = sending_client [OF F inv t refl]
  have "set F - (set (closed (srv st)) \<union> {?c}) \<subset> set F - set (closed (srv st))" using sc(4,5) by blast
  then have "card (set F - (set (closed (srv st)) \<union> {?c})) < card (set F - set (closed (srv st)))" by (intro psubset_card_mono) simp_all
  then show ?thesis using s_send [OF t refl smooth_exists, of n ser par]
    by (intro exI conjI) (assumption | simp add: work_def close_client_def send_counter_def)+
qed

lemma print_progress:
  assumes F: "distinct F" and inv: "sys_inv n ser F tot rem ld st" and t: "t < length (workers st)" "pcs st t = Printing i ctr"
  shows "\<exists>st'. sys_steps n ser par st st' \<and> work (set F) st' < work (set F) st"
proof -
  let ?st = "(at_worker t (workers st ! t) (Sending i ctr) st)\<lparr>srv := print_counter ctr (srv st)\<rparr>"
  have 1: "sys_step n ser par st ?st" by (rule s_print [OF t])
  have "t < length (workers ?st)" "pcs ?st t = Sending i ctr" using t(1) by simp_all
  from send_progress [OF F printed_inv [OF F inv t] this] obtain st' where
    2: "sys_step n ser par ?st st'" "work (set F) st' < work (set F) ?st" by blast
  have "work (set F) ?st = work (set F) st" by (simp add: work_def print_counter_def)
  then show ?thesis using 1 2 by (metis converse_rtranclp_into_rtranclp r_into_rtranclp)
qed

text \<open>A worker gets to the start of its round, or serves somebody on the way.\<close>

lemma reach_collect:
  assumes F: "distinct F" "\<forall>c \<in> set F. 0 \<le> c" "0 < n" and t: "t < length (workers st)"
  shows "sys_inv n ser F tot rem ld st \<Longrightarrow> \<exists>st'. sys_steps n ser par st st' \<and>
    (work (set F) st' < work (set F) st \<or>
     pcs st' t = Collecting \<and> srv st' = srv st \<and> backlog st' = backlog st \<and> workers st' = workers st)"
proof (cases "pcs st t")
  case Collecting
  then show ?thesis by blast
next
  case Polling
  from s_poll_none [OF t this] show ?thesis by (auto simp: at_worker_def intro!: exI r_into_rtranclp)
next
  case (Printing i ctr)
  assume "sys_inv n ser F tot rem ld st"
  from print_progress [OF F(1) this t Printing] show ?thesis by blast
next
  case (Sending i ctr)
  assume "sys_inv n ser F tot rem ld st"
  from send_progress [OF F(1) this t Sending] show ?thesis by blast
next
  case (Serving i)
  assume "sys_inv n ser F tot rem ld st"
  then show ?thesis using Serving t
  proof (induction i arbitrary: st rem ld)
    case 0
    from s_round_ends [OF 0(3,2)] show ?case by (auto simp: at_worker_def intro!: exI r_into_rtranclp)
  next
    case (Suc i)
    show ?case
    proof (cases "ready (active_clients (workers st ! t) ! i)")
      case True
      from serve_progress [OF F(1) Suc(2,4,3) True] show ?thesis by blast
    next
      case False
      let ?st = "at_worker t (workers st ! t) (Serving i) st"
      have step: "sys_step n ser par st ?st" by (rule s_skip [OF Suc(4,3) False])
      obtain rem' ld' where inv: "sys_inv n ser F tot rem' ld' ?st" using sys_inv_step [OF F Suc(2) step] by blast
      have w: "work (set F) ?st = work (set F) st" "workers ?st = workers st" by (simp_all add: work_def at_worker_def)
      have "pcs ?st t = Serving i" "t < length (workers ?st)" using Suc(4) by simp_all
      from Suc.IH [OF inv this] show ?thesis
        using converse_rtranclp_into_rtranclp [of "sys_step n ser par", OF step] w by (metis at_worker_same(5,6))
    qed
  qed
qed

lemma collected_progress:
  assumes F: "distinct F" "\<forall>c \<in> set F. 0 \<le> c" "0 < n" and inv: "sys_inv n ser F tot rem ld st"
    and t: "t < length (workers st)" "pcs st t = Collecting" "clients_of (workers st ! t) \<noteq> {#}"
  shows "\<exists>st'. sys_steps n ser par st st' \<and> work (set F) st' < work (set F) st"
proof -
  let ?w = "collect (workers st ! t)"
  let ?a = "at_worker t ?w Polling st"
  let ?b = "at_worker t (poll_result (\<lambda>_. True) ?w) (Serving (length (active_clients ?w))) st"
  have 1: "sys_step n ser par st ?a" by (rule s_collect [OF t(1,2)])
  have 2: "sys_step n ser par ?a ?b" using s_poll [of t ?a n ser par "\<lambda>_. True"] t(1) by simp
  have 3: "sys_steps n ser par st ?b" using 1 2 by (meson converse_rtranclp_into_rtranclp r_into_rtranclp)
  obtain rem' ld' where inv': "sys_inv n ser F tot rem' ld' ?b" using sys_inv_steps [OF F 3 inv] by blast
  have "active_clients ?w \<noteq> []" using t(3) by (auto simp: collect_def clients_of_def)
  then obtain i where i: "length (active_clients ?w) = Suc i" by (cases "length (active_clients ?w)") auto
  have b: "t < length (workers ?b)" "pcs ?b t = Serving (Suc i)" "workers ?b ! t = poll_result (\<lambda>_. True) ?w"
    using t(1) i by simp_all
  have "ready (active_clients (workers ?b ! t) ! i)" unfolding b(3) using i by (simp add: poll_result_def)
  from serve_progress [OF F(1) inv' b(1,2) this] obtain st' where st': "sys_step n ser par ?b st'" "work (set F) st' < work (set F) ?b" by blast
  have "work (set F) ?b = work (set F) st" by (simp add: work_def)
  then show ?thesis using rtranclp.rtrancl_into_rtrancl [OF 3 st'(1)] st'(2) by metis
qed

lemma open_client:
  assumes "places st = mset F" "backlog st = []" "c \<in> set F" "c \<notin> set (closed (srv st))"
  shows "\<exists>t < length (workers st). clients_of (workers st ! t) \<noteq> {#}"
proof -
  have "c \<in># places st" using assms(1,3) by simp
  then have "c \<in># sum_list (map clients_of (workers st))" using assms(2,4) by (auto simp: places_def)
  then obtain w where "w \<in> set (workers st)" "c \<in># clients_of w" by auto
  then show ?thesis by (metis empty_iff in_set_conv_nth set_mset_empty)
qed

lemma progress:
  assumes F: "distinct F" "\<forall>c \<in> set F. 0 \<le> c" "0 < n" and inv: "sys_inv n ser F tot rem ld st" and ci: "conn_inv st"
    and c: "c \<in> set F" "c \<notin> set (closed (srv st))"
  shows "\<exists>st'. sys_steps n ser par st st' \<and> work (set F) st' < work (set F) st"
proof (cases "backlog st")
  case (Cons a "as")
  have pl: "places st = mset F" and l: "length (workers st) = nat n" using inv by (simp_all add: sys_inv_def)
  have "a \<in># places st" using Cons by (simp add: places_def)
  then have "0 \<le> a" using F(2) pl by simp
  then obtain k ws where "accept_step n a (connections st, workers st) = Some (k, ws)"
    using ci F(3) Cons by (auto simp: accept_step_def conn_inv_def Let_def)
  then have "sys_step n ser par st (st\<lparr>backlog := as, connections := k, workers := ws\<rparr>)" by (rule s_accept [OF Cons])
  moreover have "work (set F) (st\<lparr>backlog := as, connections := k, workers := ws\<rparr>) < work (set F) st" using Cons by (simp add: work_def)
  ultimately show ?thesis by blast
next
  case Nil
  obtain t where t: "t < length (workers st)" "clients_of (workers st ! t) \<noteq> {#}"
    using open_client [OF _ Nil c] inv by (auto simp: sys_inv_def)
  obtain st1 where s1: "sys_steps n ser par st st1" "work (set F) st1 < work (set F) st \<or>
      pcs st1 t = Collecting \<and> srv st1 = srv st \<and> backlog st1 = backlog st \<and> workers st1 = workers st"
    using reach_collect [OF F t(1) inv] by blast
  obtain rem1 ld1 where inv1: "sys_inv n ser F tot rem1 ld1 st1" using sys_inv_steps [OF F s1(1) inv] by blast
  show ?thesis
  proof (cases "work (set F) st1 < work (set F) st")
    case False
    then have e: "pcs st1 t = Collecting" "srv st1 = srv st" "backlog st1 = backlog st" "workers st1 = workers st" using s1(2) by blast+
    then have "work (set F) st1 = work (set F) st" by (simp add: work_def)
    then show ?thesis using collected_progress [OF F inv1, of t] e t s1(1) by (metis rtranclp_trans)
  qed (use s1(1) in blast)
qed

lemma can_finish:
  assumes F: "distinct F" "\<forall>c \<in> set F. 0 \<le> c" "0 < n"
  shows "sys_inv n ser F tot rem ld st \<Longrightarrow> conn_inv st \<Longrightarrow> \<exists>st'. sys_steps n ser par st st' \<and> set F \<subseteq> set (closed (srv st'))"
proof (induction "work (set F) st" arbitrary: st rem ld rule: less_induct)
  case less
  show ?case
  proof (cases "set F \<subseteq> set (closed (srv st))")
    case False
    then obtain c where "c \<in> set F" "c \<notin> set (closed (srv st))" by blast
    from progress [OF F less(2,3) this] obtain st1 where s1: "sys_steps n ser par st st1" "work (set F) st1 < work (set F) st" by blast
    obtain rem1 ld1 where "sys_inv n ser F tot rem1 ld1 st1" using sys_inv_steps [OF F s1(1) less(2)] by blast
    then show ?thesis using less(1) [OF s1(2) _ conn_inv_steps [OF s1(1) less(3)]] s1(1) by (meson rtranclp_trans)
  qed blast
qed

end

end
