(* ===== verification/System_Properties.thy ===== *)
theory System_Properties
  imports Net_Properties Net_System
begin

section \<open>Properties of the running server\<close>

text \<open>
  The claims about all threads of the server together with its clients: what the counter is when all connections
  are closed, what the clients print, and that this end can always be reached.
\<close>

text \<open>The clients' side, and the server before the first connection.\<close>

record client_run =
  sends :: "nat \<Rightarrow> nat \<Rightarrow> xfer"
  last_env :: call_env
  msgs :: nat
  add_by :: int32
  sub_by :: int32

definition client_of :: "serializer \<Rightarrow> parser \<Rightarrow> client_run \<Rightarrow> int \<Rightarrow> byte list \<Rightarrow> byte list \<times> 64 word option \<times> int list" where
  "client_of ser par k c reply = client_kernel ser par (sends k) (last_env k) c (int (msgs k)) (add_by k) (sub_by k) reply"

definition calm_client :: "client_run \<Rightarrow> bool" where
  "calm_client k \<longleftrightarrow> smooth (last_env k) \<and> (\<forall>i. all_move (sends k i) \<and> whole_header (sends k i))"

definition contribution :: "client_run \<Rightarrow> 64 word" where
  "contribution k = of_nat ((msgs k + 1) div 2) * scast (add_by k) - of_nat (msgs k div 2) * scast (sub_by k)"

definition fresh_server :: "serializer \<Rightarrow> parser \<Rightarrow> (int \<Rightarrow> client_run) \<Rightarrow> int list \<Rightarrow> server \<Rightarrow> bool" where
  "fresh_server ser par cl fds s \<longleftrightarrow> closed s = [] \<and> distinct fds \<and>
     (\<forall>c \<in> set fds. 0 \<le> c \<and> calm_client (cl c) \<and> outbox s c = [] \<and> inbox s c = fst (client_of ser par (cl c) c []))"

context message_format
begin

lemma client_of_sends:
  assumes "calm_client k" "0 \<le> c"
  shows "fst (client_of ser par k c reply) = frames ser (client_msgs (msgs k) (add_by k) (sub_by k))"
  unfolding client_of_def using client_sends [of "sends k" "last_env k" c] assms by (simp add: calm_client_def)

lemma client_of_prints:
  assumes "calm_client k" "0 \<le> c"
  shows "snd (client_of ser par k c (frame ser \<lparr>operation_type = OPERATION_COUNTER, argument = v\<rparr>)) = (Some v, [c])"
proof -
  have k: "all_move (rx (last_env k))" "whole_header (rx (last_env k))" "all_move (tx (last_env k))" "whole_header (tx (last_env k))"
    using assms(1) by (simp_all add: calm_client_def smooth_def)
  have "recv_msg par (rx (last_env k)) (junk (last_env k)) (frame ser \<lparr>operation_type = OPERATION_COUNTER, argument = v\<rparr>) =
      (0, Some \<lparr>operation_type = OPERATION_COUNTER, argument = v\<rparr>, [])"
    using recv_frames [OF k(1,2), of "\<lparr>operation_type = OPERATION_COUNTER, argument = v\<rparr>" _ "[]"] by (simp add: valid_op_def)
  moreover have "client_loop ser (sends k) (add_by k) (sub_by k) is = (True, frames ser (map (client_msg (add_by k) (sub_by k)) is))" for "is"
    using client_loop_sends [of "sends k"] assms(1) by (simp add: calm_client_def)
  ultimately show ?thesis using assms(2) send_frames [OF k(3,4)] by (simp add: client_of_def client_kernel_def)
qed

lemma start_inv:
  assumes fr: "fresh_server ser par cl fds s" and st: "sys_start n s fds = Some st" and "0 < n"
  shows "sys_inv n ser fds (number s + (\<Sum>c \<in> set fds. contribution (cl c)))
    (\<lambda>c. client_msgs (msgs (cl c)) (add_by (cl c)) (sub_by (cl c))) (\<lambda>_. None) st" "connections st = 0" "backlog st = fds"
proof -
  have e: "st = \<lparr>connections = 0, workers = replicate (nat n) \<lparr>pending_clients = [], active_clients = []\<rparr>,
      pcs = (\<lambda>_. Collecting), srv = s, backlog = fds\<rparr>"
    using st assms(3) by (simp add: sys_start_def start_workers_def)
  then show "connections st = 0" "backlog st = fds" by simp_all
  have "conn_ok ser (\<lambda>c. client_msgs (msgs (cl c)) (add_by (cl c)) (sub_by (cl c))) (\<lambda>_. None) s c" if "c \<in> set fds" for c
    using fr that client_of_sends [of "cl c" c "[]"] by (simp add: conn_ok_def fresh_server_def script_client)
  then have "srv_inv ser (set fds) (number s + (\<Sum>c \<in> set fds. contribution (cl c)))
      (\<lambda>c. client_msgs (msgs (cl c)) (add_by (cl c)) (sub_by (cl c))) (\<lambda>_. None) s"
    using fr by (auto simp: srv_inv_def effect_client_msgs contribution_def fresh_server_def)
  moreover have "sum_list (map clients_of (replicate k \<lparr>pending_clients = [], active_clients = []\<rparr>)) = {#}" for k
    by (induction k) (simp_all add: clients_of_def)
  ultimately show "sys_inv n ser fds (number s + (\<Sum>c \<in> set fds. contribution (cl c)))
      (\<lambda>c. client_msgs (msgs (cl c)) (add_by (cl c)) (sub_by (cl c))) (\<lambda>_. None) st"
    using fr by (auto simp: e sys_inv_def worker_ok_def alone_inv_def places_def fresh_server_def)
qed

end

text \<open>
  C6: The running server counts. Whatever the interleaving of the main thread, which accepts the connections and deals them
  out, and of the workers, which collect, poll and serve (loading, printing and sending the counter in separate steps), every connection is
  at each time in exactly one place: not yet accepted, pending or active at one worker, or closed. When all connections are closed, the counter
  is its old value plus, for each client with \<open>n\<close> messages, \<open>\<lceil>n/2\<rceil>\<close> times its \<^verbatim>\<open>add\<close> minus \<open>\<lfloor>n/2\<rfloor>\<close> times its \<^verbatim>\<open>sub\<close>. Every client prints a
  number that the server printed too, and if there are clients, at least one of them prints this total; a server with a single worker
  prints it last (with more workers it need not be the last number, since a worker loads the counter before it locks \<^verbatim>\<open>print_mutex\<close>).
\<close>

theorem system_counts:
  assumes fmt: "message_format ser par" and n: "0 < n" and fr: "fresh_server ser par cl fds s"
    and st: "sys_start n s fds = Some st0" and run: "sys_steps n ser par st0 st"
  shows "places st = mset fds \<and>
    (set fds \<subseteq> set (closed (srv st)) \<longrightarrow>
      number (srv st) = number s + (\<Sum>c \<in> set fds. contribution (cl c)) \<and>
      (\<forall>c \<in> set fds. \<exists>v \<in> set (printed (srv st)). snd (client_of ser par (cl c) c (outbox (srv st) c)) = (Some v, [c])) \<and>
      (fds \<noteq> [] \<longrightarrow>
        (\<exists>c \<in> set fds. snd (client_of ser par (cl c) c (outbox (srv st) c)) = (Some (number (srv st)), [c])) \<and>
        (n = 1 \<longrightarrow> printed (srv st) \<noteq> [] \<and> last (printed (srv st)) = number (srv st))))"
proof -
  let ?tot = "number s + (\<Sum>c \<in> set fds. contribution (cl c))"
  have F: "distinct fds" "\<forall>c \<in> set fds. 0 \<le> c" using fr by (simp_all add: fresh_server_def)
  obtain rem ld where inv: "sys_inv n ser fds ?tot rem ld st"
    using message_format.sys_inv_steps [OF fmt F n run message_format.start_inv(1) [OF fmt fr st n]] by blast
  show ?thesis
  proof (intro conjI impI ballI)
    show "places st = mset fds" using inv by (rule sys_invD)
    assume all: "set fds \<subseteq> set (closed (srv st))"
    have co: "conn_ok ser rem ld (srv st) c" if "c \<in> set fds" for c using inv that by (simp add: sys_inv_def srv_inv_def)
    have d: "\<exists>v. ld c = Some v \<and> rem c = [] \<and> v \<in> set (printed (srv st)) \<and>
        snd (client_of ser par (cl c) c (outbox (srv st) c)) = (Some v, [c])" if c: "c \<in> set fds" for c
      using co [OF c] all c message_format.client_of_prints [OF fmt, of "cl c" c] fr
      by (auto simp: conn_ok_def fresh_server_def split: option.splits)
    then have ld: "\<forall>c \<in> set fds. ld c \<noteq> None" and "\<forall>c \<in> set fds. rem c = []" by blast+
    then show "number (srv st) = ?tot" using inv by (simp add: sys_inv_def srv_inv_def)
    show "\<exists>v \<in> set (printed (srv st)). snd (client_of ser par (cl c) c (outbox (srv st) c)) = (Some v, [c])" if "c \<in> set fds" for c
      using d [OF that] by blast
    assume ne: "fds \<noteq> []"
    then have "\<exists>c \<in> set fds. ld c = Some (number (srv st))" using sys_invD(3) [OF inv] ld by (simp add: srv_inv_def)
    then show "\<exists>c \<in> set fds. snd (client_of ser par (cl c) c (outbox (srv st) c)) = (Some (number (srv st)), [c])"
      using d by fastforce
    assume "n = 1"
    then show "printed (srv st) \<noteq> []" "last (printed (srv st)) = number (srv st)"
      using alone_closed [OF F(1) ne _ all ld] inv by simp_all
  qed
qed

text \<open>At the witness, client 3 sends +5 -2 +5 and client 4 sends +7 to a server with two workers.\<close>

definition two_clients :: "int \<Rightarrow> client_run" where
  "two_clients c = \<lparr>sends = (\<lambda>_. steady), last_env = steady_env, msgs = (if c = 3 then 3 else 1),
     add_by = (if c = 3 then 5 else 7), sub_by = 2\<rparr>"

definition two_server :: server where
  "two_server = \<lparr>number = 100, printed = [], inbox = (\<lambda>c. fst (client_of wire_ser wire_par (two_clients c) c [])),
     outbox = (\<lambda>_. []), closed = []\<rparr>"

lemma two_start:
  "fresh_server wire_ser wire_par two_clients [3, 4] two_server" "\<exists>st. sys_start 2 two_server [3, 4] = Some st"
  "conn_inv (the (sys_start 2 two_server [3, 4]))"
  using steady_ok by (simp_all add: fresh_server_def two_server_def calm_client_def two_clients_def sys_start_def start_workers_def conn_inv_def)

theorem system_counts_witness:
  "\<exists>st. sys_steps 2 wire_ser wire_par (the (sys_start 2 two_server [3, 4])) st \<and> number (srv st) = 115 \<and>
    (\<exists>c \<in> {3, 4}. snd (client_of wire_ser wire_par (two_clients c) c (outbox (srv st) c)) = (Some 115, [c]))"
proof -
  obtain st0 where st0: "sys_start 2 two_server [3, 4] = Some st0" using two_start(2) by blast
  have F: "distinct [3, 4 :: int]" "\<forall>c \<in> set [3, 4 :: int]. 0 \<le> c" "(0 :: int) < 2" by simp_all
  have "conn_inv st0" using two_start(3) st0 by simp
  then obtain st where st: "sys_steps 2 wire_ser wire_par st0 st" "set [3, 4] \<subseteq> set (closed (srv st))"
    using message_format.can_finish [OF wire.message_format_axioms F message_format.start_inv(1) [OF wire.message_format_axioms two_start(1) st0 F(3)]] by blast
  have "number two_server + (\<Sum>c \<in> set [3, 4]. contribution (two_clients c)) = 115"
    by (simp add: contribution_def two_clients_def two_server_def)
  then show ?thesis using system_counts [OF wire.message_format_axioms F(3) two_start(1) st0 st(1)] st st0 by auto
qed

text \<open>
  C26: No deadlock. With at least one worker and fewer than \<open>2^31\<close> connections, every state that the running server can reach has a
  continuation in which all connections get closed.
\<close>

theorem system_can_finish:
  assumes fmt: "message_format ser par" and n: "0 < n" and fr: "fresh_server ser par cl fds s" and l: "length fds < 2 ^ 31"
    and st: "sys_start n s fds = Some st0" and run: "sys_steps n ser par st0 st"
  shows "\<exists>st'. sys_steps n ser par st st' \<and> set fds \<subseteq> set (closed (srv st'))"
proof -
  have F: "distinct fds" "\<forall>c \<in> set fds. 0 \<le> c" using fr by (simp_all add: fresh_server_def)
  note i = message_format.start_inv [OF fmt fr st n]
  obtain rem ld where inv: "sys_inv n ser fds (number s + (\<Sum>c \<in> set fds. contribution (cl c))) rem ld st"
    using message_format.sys_inv_steps [OF fmt F n run i(1)] by blast
  have "conn_inv st0" using i(2,3) l by (simp add: conn_inv_def)
  from message_format.can_finish [OF fmt F n inv conn_inv_steps [OF run this]] show ?thesis .
qed

theorem system_can_finish_witness:
  "\<exists>st. sys_steps 2 wire_ser wire_par (the (sys_start 2 two_server [3, 4])) st \<and> {3, 4} \<subseteq> set (closed (srv st))"
proof -
  obtain st0 where st0: "sys_start 2 two_server [3, 4] = Some st0" using two_start(2) by blast
  show ?thesis
    using system_can_finish [OF wire.message_format_axioms _ two_start(1) _ st0 rtranclp.rtrancl_refl] st0 by simp
qed

end
