(* ===== verification/Mem_Runtime.thy ===== *)
theory Mem_Runtime
  imports Sys_Prelude
begin

section \<open>The memory-safety runtime\<close>

text \<open>
  \<^verbatim>\<open>task07-llvm/memory-safety/src/MemorySafetyRuntime.cpp\<close>. The map \<^verbatim>\<open>blocks\<close> from start addresses
  to blocks is the list of its entries in the order of the keys, as \<^verbatim>\<open>std::map\<close> iterates over
  them. A check returns whether the access is let through; otherwise \<^verbatim>\<open>report_error\<close> ends the
  program. Address arithmetic wraps at 64 bits.
\<close>

record MemoryBlock =
  size :: size_t
  freed :: bool

type_synonym blocks = "(addr \<times> MemoryBlock) list"

definition shadow :: addr where
  "shadow = 16"

definition map_ok :: "blocks \<Rightarrow> bool" where
  "map_ok bs = sorted_wrt (<) (map fst bs)"

text \<open>\<^verbatim>\<open>blocks[k] = b\<close>, \<^verbatim>\<open>find\<close>, \<^verbatim>\<open>upper_bound\<close> and \<^verbatim>\<open>std::prev\<close>.\<close>

fun map_put :: "addr \<Rightarrow> MemoryBlock \<Rightarrow> blocks \<Rightarrow> blocks" where
  "map_put k b [] = [(k, b)]"
| "map_put k b ((k', b') # bs) =
     (if k < k' then (k, b) # (k', b') # bs
      else if k = k' then (k, b) # bs
      else (k', b') # map_put k b bs)"

definition upper_bound :: "addr \<Rightarrow> blocks \<Rightarrow> blocks" where
  "upper_bound a bs = dropWhile (\<lambda>(k, _). k \<le> a) bs"

definition before_bound :: "addr \<Rightarrow> blocks \<Rightarrow> blocks" where
  "before_bound a bs = takeWhile (\<lambda>(k, _). k \<le> a) bs"

definition runtime_check_addr :: "addr \<Rightarrow> size_t \<Rightarrow> blocks \<Rightarrow> bool" where
  "runtime_check_addr ptr n bs =
     (let next = upper_bound ptr bs;
          check_next = (case next of [] \<Rightarrow> True | (block_begin, _) # _ \<Rightarrow> \<not> block_begin - shadow \<le> ptr) in
      if before_bound ptr bs \<noteq> []
      then
        (case last (before_bound ptr bs) of (block_begin, block) \<Rightarrow>
           let block_end = block_begin + size block in
           if ptr < block_end + shadow then \<not> freed block \<and> ptr + n \<le> block_end
           else check_next)
      else check_next)"

text \<open>\<open>ptr\<close> is the result of \<^verbatim>\<open>std::malloc\<close>.\<close>

definition runtime_malloc :: "addr \<Rightarrow> size_t \<Rightarrow> blocks \<Rightarrow> addr \<times> blocks" where
  "runtime_malloc ptr n bs = (ptr, if ptr \<noteq> 0 then map_put ptr \<lparr>size = n, freed = False\<rparr> bs else bs)"

definition runtime_alloc :: "addr \<Rightarrow> size_t \<Rightarrow> blocks \<Rightarrow> blocks" where
  "runtime_alloc ptr n bs = map_put ptr \<lparr>size = n, freed = False\<rparr> bs"

text \<open>\<open>None\<close> is \<^verbatim>\<open>report_error\<close>; otherwise the pointer handed to \<^verbatim>\<open>std::free\<close>, if any, and the map.\<close>

definition runtime_free :: "addr \<Rightarrow> blocks \<Rightarrow> (addr option \<times> blocks) option" where
  "runtime_free ptr bs =
     (if ptr = 0 then Some (None, bs)
      else
        case map_of bs ptr of
          None \<Rightarrow> None
        | Some block \<Rightarrow>
            if freed block then None
            else Some (Some ptr, map_put ptr (block\<lparr>freed := True\<rparr>) bs))"

subsection \<open>The map\<close>

lemma map_put_keys: "fst ` set (map_put k b bs) = insert k (fst ` set bs)"
  by (induction k b bs rule: map_put.induct) (simp_all add: insert_commute)

lemma map_put_ok: "map_ok bs \<Longrightarrow> map_ok (map_put k b bs)"
proof (induction bs)
  case Nil
  then show ?case by (simp add: map_ok_def)
next
  case (Cons e bs)
  obtain k' b' where e: "e = (k', b')" by fastforce
  then have bs: "map_ok bs" and lt: "\<forall>x \<in> fst ` set bs. k' < x" using Cons.prems by (auto simp: map_ok_def)
  show ?case
  proof (cases "k' < k")
    case True
    then have "\<forall>x \<in> fst ` set (map_put k b bs). k' < x" using lt by (simp add: map_put_keys)
    then show ?thesis using Cons.IH [OF bs] True e by (auto simp: map_ok_def)
  next
    case False
    then show ?thesis using bs lt e by (auto simp: map_ok_def)
  qed
qed

lemma map_of_put: "map_ok bs \<Longrightarrow> map_of (map_put k b bs) = (map_of bs)(k \<mapsto> b)"
proof (induction bs)
  case Nil
  then show ?case by auto
next
  case (Cons e bs)
  obtain k' b' where e: "e = (k', b')" by fastforce
  then have bs: "map_ok bs" and lt: "\<forall>x \<in> fst ` set bs. k' < x" using Cons.prems by (auto simp: map_ok_def)
  have "map_of bs k = None" if "k < k'" using lt that by (auto simp: map_of_eq_None_iff dest: order.strict_trans)
  then show ?case using Cons.IH [OF bs] e by (auto simp: fun_eq_iff)
qed

text \<open>The entry just before an address, and the one just after.\<close>

lemma map_ok_split:
  assumes "map_ok bs"
  shows "bs = before_bound a bs @ upper_bound a bs"
    "\<forall>(k, b) \<in> set (before_bound a bs). k \<le> a" "\<forall>(k, b) \<in> set (upper_bound a bs). a < k"
proof -
  show "bs = before_bound a bs @ upper_bound a bs" by (simp add: before_bound_def upper_bound_def)
  show "\<forall>(k, b) \<in> set (before_bound a bs). k \<le> a" by (auto simp: before_bound_def dest: set_takeWhileD)
  show "\<forall>(k, b) \<in> set (upper_bound a bs). a < k"
    using assms unfolding upper_bound_def
  proof (induction bs)
    case (Cons e bs)
    obtain k b where e: "e = (k, b)" by fastforce
    then have "map_ok bs" "\<forall>x \<in> fst ` set bs. k < x" using Cons.prems by (auto simp: map_ok_def)
    then show ?case using Cons.IH e by (auto simp: not_le)
  qed simp
qed

lemma map_ok_parts: "map_ok bs \<Longrightarrow> map_ok (before_bound a bs) \<and> map_ok (upper_bound a bs)"
  using map_ok_split(1) [of bs a] by (metis map_append map_ok_def sorted_wrt_append)

lemma map_ok_key: "map_ok bs \<Longrightarrow> (k, b) \<in> set bs \<Longrightarrow> (k, b') \<in> set bs \<Longrightarrow> b = b'"
  by (auto simp: map_ok_def strict_sorted_iff intro: eq_key_imp_eq_value)

lemma map_ok_last: "map_ok (us @ [(k, b)]) \<Longrightarrow> x \<in> set us \<Longrightarrow> fst x < k"
  by (auto simp: map_ok_def sorted_wrt_append)

lemma map_ok_hd: "map_ok ((k, b) # r) \<Longrightarrow> x \<in> set r \<Longrightarrow> k < fst x"
  by (auto simp: map_ok_def)

lemma last_before_unique:
  assumes ok: "map_ok bs" and ne: "before_bound a bs \<noteq> []" and l: "last (before_bound a bs) = (k, b)"
  shows "(k, b) \<in> set bs" "k \<le> a" "\<forall>(k', b') \<in> set bs. k < k' \<longrightarrow> a < k'"
proof -
  note s = map_ok_split [OF ok, of a]
  obtain us where us: "before_bound a bs = us @ [(k, b)]" using append_butlast_last_id [OF ne] l by metis
  have bs: "set bs = set us \<union> {(k, b)} \<union> set (upper_bound a bs)" using arg_cong [OF s(1), of set] unfolding us by simp
  show "(k, b) \<in> set bs" by (simp add: bs)
  show "k \<le> a" using s(2) us by auto
  have "\<not> k < fst x" if "x \<in> set us" for x
    using map_ok_last [of us k b x] map_ok_parts [OF ok, of a] that unfolding us by auto
  then show "\<forall>(k', b') \<in> set bs. k < k' \<longrightarrow> a < k'" using s(3) unfolding bs by fastforce
qed

lemma last_before:
  assumes ok: "map_ok bs" and k: "(k, b) \<in> set bs" "k \<le> a" and none: "\<forall>(k', b') \<in> set bs. k < k' \<longrightarrow> a < k'"
  shows "before_bound a bs \<noteq> [] \<and> last (before_bound a bs) = (k, b)"
proof -
  note s = map_ok_split [OF ok, of a]
  have "(k, b) \<notin> set (upper_bound a bs)" using s(3) k(2) by auto
  then have kb: "(k, b) \<in> set (before_bound a bs)" using k(1) arg_cong [OF s(1), of set] by simp
  then have ne: "before_bound a bs \<noteq> []" by auto
  obtain k' b' where l: "last (before_bound a bs) = (k', b')" by fastforce
  note u = last_before_unique [OF ok ne l]
  obtain us where us: "before_bound a bs = us @ [(k', b')]" using append_butlast_last_id [OF ne] l by metis
  have "\<not> k < k'" using none u(1,2) by auto
  moreover have "\<not> k' < k" using u(3) k by auto
  ultimately have "k = k'" by simp
  moreover have "(k, b) \<notin> set us" using map_ok_last [of us k' b' "(k, b)"] map_ok_parts [OF ok, of a] \<open>k = k'\<close> unfolding us by auto
  ultimately have "(k, b) = (k', b')" using kb us by simp
  then show ?thesis using l ne by simp
qed

lemma hd_after:
  assumes ok: "map_ok bs" and l: "upper_bound a bs = (k, b) # r"
  shows "(k, b) \<in> set bs" "a < k" "\<forall>(k', b') \<in> set bs. a < k' \<longrightarrow> k \<le> k'"
proof -
  note s = map_ok_split [OF ok, of a]
  have bs: "set bs = set (before_bound a bs) \<union> {(k, b)} \<union> set r" using arg_cong [OF s(1), of set] unfolding l by simp
  show "(k, b) \<in> set bs" by (simp add: bs)
  show "a < k" using s(3) l by auto
  have "k \<le> fst x" if "x \<in> set r" for x
    using map_ok_hd [of k b r x] map_ok_parts [OF ok, of a] that unfolding l by auto
  then show "\<forall>(k', b') \<in> set bs. a < k' \<longrightarrow> k \<le> k'" using s(2) unfolding bs by fastforce
qed

subsection \<open>Histories\<close>

text \<open>The calls of the runtime that change the map, and what a sequence of them leaves; \<open>None\<close> when one of them ended the program.\<close>

datatype rt_call = R_malloc addr size_t | R_alloc addr size_t | R_free addr

fun runtime_calls :: "rt_call list \<Rightarrow> blocks \<Rightarrow> blocks option" where
  "runtime_calls [] bs = Some bs"
| "runtime_calls (R_malloc p n # cs) bs = runtime_calls cs (snd (runtime_malloc p n bs))"
| "runtime_calls (R_alloc p n # cs) bs = runtime_calls cs (runtime_alloc p n bs)"
| "runtime_calls (R_free p # cs) bs = (case runtime_free p bs of None \<Rightarrow> None | Some (_, bs) \<Rightarrow> runtime_calls cs bs)"

fun registers :: "addr \<Rightarrow> rt_call \<Rightarrow> bool" where
  "registers k (R_malloc p n) = (k = p \<and> p \<noteq> 0)"
| "registers k (R_alloc p n) = (k = p)"
| "registers k (R_free p) = False"

text \<open>A freed entry stays until its address is registered again.\<close>

lemma freed_stays:
  "runtime_calls cs bs = Some bs' \<Longrightarrow> map_ok bs \<Longrightarrow> map_of bs ptr = Some b \<Longrightarrow> freed b \<Longrightarrow> \<forall>c \<in> set cs. \<not> registers ptr c \<Longrightarrow>
    map_ok bs' \<and> map_of bs' ptr = Some b \<and> (\<forall>k. map_of bs' k \<noteq> None \<longrightarrow> map_of bs k \<noteq> None \<or> (\<exists>c \<in> set cs. registers k c))"
proof (induction cs bs rule: runtime_calls.induct)
  case (2 p n cs bs)
  then show ?case
    by (auto simp: runtime_malloc_def map_put_ok map_of_put split: if_splits)
next
  case (3 p n cs bs)
  then show ?case by (auto simp: runtime_alloc_def map_put_ok map_of_put split: if_splits)
next
  case (4 p cs bs)
  show ?case
  proof (cases "p = 0")
    case True
    then show ?thesis using 4 by (auto simp: runtime_free_def)
  next
    case False
    then obtain d where d: "map_of bs p = Some d" "\<not> freed d" "runtime_calls cs (map_put p (d\<lparr>freed := True\<rparr>) bs) = Some bs'"
      using 4(2) by (auto simp: runtime_free_def split: option.splits if_splits)
    then have "runtime_free p bs = Some (Some p, map_put p (d\<lparr>freed := True\<rparr>) bs)" using False by (simp add: runtime_free_def)
    moreover have "p \<noteq> ptr" using d 4(4,5) by auto
    ultimately show ?thesis using 4(1) [OF _ refl d(3)] 4(3-6) d(1) by (auto simp: map_put_ok map_of_put split: if_splits)
  qed
qed auto

end
