(* ===== verification/Mem_Check.thy ===== *)
theory Mem_Check
  imports Mem_Runtime
begin

section \<open>What the runtime check lets through\<close>

text \<open>
  \<open>layout\<close>: the registered blocks do not overlap and stay clear of both ends of the address space
  by the width of the red zone. \<open>inside\<close> and \<open>away\<close> are the two reasons for which an access
  passes.
\<close>

definition block_end :: "addr \<times> MemoryBlock \<Rightarrow> nat" where
  "block_end e = unat (fst e) + unat (size (snd e))"

definition layout :: "blocks \<Rightarrow> bool" where
  "layout bs \<longleftrightarrow> (\<forall>e \<in> set bs. 16 \<le> unat (fst e) \<and> block_end e + 16 < 2 ^ 64) \<and>
     (\<forall>e \<in> set bs. \<forall>e' \<in> set bs. fst e < fst e' \<longrightarrow> block_end e \<le> unat (fst e'))"

definition inside :: "addr \<Rightarrow> size_t \<Rightarrow> addr \<times> MemoryBlock \<Rightarrow> bool" where
  "inside a n e \<longleftrightarrow> fst e \<le> a \<and> unat a + unat n \<le> block_end e"

definition away :: "addr \<Rightarrow> addr \<times> MemoryBlock \<Rightarrow> bool" where
  "away a e \<longleftrightarrow> block_end e + 16 \<le> unat a \<or> unat a + 16 < unat (fst e)"

text \<open>The comparisons of the code, without wrap-around.\<close>

lemma check_words:
  assumes "layout bs" and "(k, b) \<in> set bs"
  shows "a < k + size b + shadow \<longleftrightarrow> unat a < block_end (k, b) + 16"
    "unat a + unat n < 2 ^ 64 \<Longrightarrow> a + n \<le> k + size b \<longleftrightarrow> unat a + unat n \<le> block_end (k, b)"
    "k - shadow \<le> a \<longleftrightarrow> unat k \<le> unat a + 16"
proof -
  have l: "16 \<le> unat k" "unat k + unat (size b) + 16 < 2 ^ 64" using assms by (auto simp: layout_def block_end_def)
  have e: "unat (k + size b) = unat k + unat (size b)" by (rule unat_plus_no_wrap) (use l in simp)
  have s: "unat shadow = 16" by (simp add: shadow_def)
  have es: "unat (k + size b + shadow) = unat k + unat (size b) + 16"
    using unat_plus_no_wrap [of "k + size b" shadow] l e s by simp
  show "a < k + size b + shadow \<longleftrightarrow> unat a < block_end (k, b) + 16" by (simp add: word_less_nat_alt es block_end_def)
  show "a + n \<le> k + size b \<longleftrightarrow> unat a + unat n \<le> block_end (k, b)" if "unat a + unat n < 2 ^ 64"
    by (simp add: word_le_nat_alt e block_end_def unat_plus_no_wrap [OF that])
  show "k - shadow \<le> a \<longleftrightarrow> unat k \<le> unat a + 16"
    using l(1) s unat_minus_no_wrap [of shadow k] by (auto simp: word_le_nat_alt)
qed

lemma check_next_ok:
  assumes ok: "map_ok bs" and lay: "layout bs"
  shows "(case upper_bound a bs of [] \<Rightarrow> True | (k, b) # _ \<Rightarrow> \<not> k - shadow \<le> a) \<longleftrightarrow>
    (\<forall>e \<in> set bs. a < fst e \<longrightarrow> unat a + 16 < unat (fst e))"
proof (cases "upper_bound a bs")
  case Nil
  then have "set bs = set (before_bound a bs)" using arg_cong [OF map_ok_split(1) [OF ok, of a], of set] by simp
  then show ?thesis using Nil map_ok_split(2) [OF ok, of a] by auto
next
  case (Cons e r)
  obtain k b where e: "e = (k, b)" by fastforce
  note h = hd_after [OF ok Cons [unfolded e]]
  have "(\<forall>e \<in> set bs. a < fst e \<longrightarrow> unat a + 16 < unat (fst e)) \<longleftrightarrow> unat a + 16 < unat k"
    using h by (force simp: word_le_nat_alt)
  then show ?thesis using Cons e check_words(3) [OF lay h(1), of a] by auto
qed

lemma check_exact:
  assumes ok: "map_ok bs" and lay: "layout bs" and n: "0 < unat n" and nw: "unat a + unat n < 2 ^ 64"
  shows "runtime_check_addr a n bs \<longleftrightarrow>
    (\<exists>e \<in> set bs. \<not> freed (snd e) \<and> inside a n e) \<or> (\<forall>e \<in> set bs. away a e)"
proof -
  let ?nx = "\<forall>e \<in> set bs. a < fst e \<longrightarrow> unat a + 16 < unat (fst e)"
  show ?thesis
  proof (cases "before_bound a bs = []")
    case True
    then have up: "\<forall>e \<in> set bs. a < fst e" using map_ok_split(1,3) [OF ok, of a] by (metis append_Nil case_prodD prod.collapse)
    then have "\<not> inside a n e" if "e \<in> set bs" for e using that by (auto simp: inside_def)
    moreover have "away a e \<longleftrightarrow> unat a + 16 < unat (fst e)" if "e \<in> set bs" for e
      using up that by (auto simp: away_def block_end_def word_less_nat_alt)
    moreover have "runtime_check_addr a n bs \<longleftrightarrow> ?nx"
      using True check_next_ok [OF ok lay, of a] by (simp add: runtime_check_addr_def Let_def)
    ultimately show ?thesis using up by auto
  next
    case False
    obtain k b where l: "last (before_bound a bs) = (k, b)" by fastforce
    note u = last_before_unique [OF ok False l]
    have r: "runtime_check_addr a n bs \<longleftrightarrow>
        (if a < k + size b + shadow then \<not> freed b \<and> a + n \<le> k + size b
         else case upper_bound a bs of [] \<Rightarrow> True | (k, b) # _ \<Rightarrow> \<not> k - shadow \<le> a)"
      using False by (simp only: runtime_check_addr_def Let_def l prod.case if_True not_False_eq_True simp_thms)
    note w = check_words(1) [OF lay u(1), of a] check_words(2) [OF lay u(1) nw]
    have only: "e = (k, b)" if "e \<in> set bs" "inside a n e" for e
    proof -
      have "fst e \<le> k" using u(3) that by (auto simp: inside_def not_le [symmetric] case_prod_beta)
      moreover have "\<not> fst e < k"
        using lay u(1,2) that n by (fastforce simp: layout_def inside_def word_le_nat_alt)
      ultimately have "fst e = k" by simp
      then show "e = (k, b)" using map_ok_key [OF ok, of k "snd e" b] that(1) u(1) by (cases e) auto
    qed
    show ?thesis
    proof (cases "unat a < block_end (k, b) + 16")
      case near: True
      then have "\<not> away a (k, b)" using u(2) by (auto simp: away_def word_le_nat_alt)
      moreover have "runtime_check_addr a n bs \<longleftrightarrow> \<not> freed b \<and> inside a n (k, b)"
        unfolding r w inside_def using near u(2) by simp
      moreover have "(\<exists>e \<in> set bs. \<not> freed (snd e) \<and> inside a n e) \<longleftrightarrow> \<not> freed b \<and> inside a n (k, b)"
        using only u(1) by (metis snd_conv)
      ultimately show ?thesis using u(1) by blast
    next
      case far: False
      then have "\<not> inside a n (k, b)" by (simp add: inside_def)
      then have "\<not> inside a n e" if "e \<in> set bs" for e using only that by blast
      moreover have "away a e \<longleftrightarrow> (a < fst e \<longrightarrow> unat a + 16 < unat (fst e))" if e: "e \<in> set bs" for e
      proof (cases "a < fst e")
        case True
        then show ?thesis by (auto simp: away_def block_end_def word_less_nat_alt)
      next
        case False
        then have "\<not> k < fst e" using u(3) e by (auto simp: case_prod_beta)
        then have "fst e < k \<or> fst e = k" by auto
        then have "block_end e \<le> block_end (k, b)"
        proof
          assume "fst e < k"
          then have "block_end e \<le> unat k" using lay e u(1) unfolding layout_def by (metis fst_conv)
          then show ?thesis by (simp add: block_end_def)
        next
          assume "fst e = k"
          then have "e = (k, b)" using map_ok_key [OF ok, of k "snd e" b] e u(1) by (cases e) auto
          then show ?thesis by simp
        qed
        then show ?thesis using far False by (simp add: away_def)
      qed
      moreover have "runtime_check_addr a n bs \<longleftrightarrow> ?nx"
        unfolding r w check_next_ok [OF ok lay] using far by simp
      ultimately show ?thesis by blast
    qed
  qed
qed

end
