(* ===== verification/Mem_Pass.thy ===== *)
theory Mem_Pass
  imports Sys_Prelude
begin

section \<open>The memory-safety instrumentation pass\<close>

text \<open>
  \<^verbatim>\<open>task07-llvm/memory-safety/src/MemorySafety.cpp\<close> on a small model of LLVM functions: basic blocks
  are lists of instructions, each with the name of its result; the instructions the pass
  inserts have no name, except that a call that replaces another one takes over its name
  (\<^verbatim>\<open>replaceAllUsesWith\<close> and \<^verbatim>\<open>eraseFromParent\<close>). The type sizes of the data layout are
  LLVM's and are arguments.
\<close>

datatype operand = Const nat | Res nat | Param nat

datatype 't inst =
  Call "string option" "operand list"
| Alloca 't operand
| Load 't operand
| Store 't operand operand
| Other string "operand list"

record 't node =
  nid :: "nat option"
  ins :: "'t inst"

type_synonym 't block = "'t node list"

record 't func =
  fname :: string
  body :: "'t block list"

record 't layout_sizes =
  type_alloc_size :: "'t \<Rightarrow> nat"
  type_store_size :: "'t \<Rightarrow> nat"

record collected =
  Calls :: "nat list"
  Accesses :: "nat list"
  Allocations :: "nat list"

definition fresh_call :: "string \<Rightarrow> operand list \<Rightarrow> 't node" where
  "fresh_call f as = \<lparr>nid = None, ins = Call (Some f) as\<rparr>"

text \<open>One traversal that sorts the named instructions into the three lists.\<close>

fun collect_block :: "'t block \<Rightarrow> collected \<Rightarrow> collected" where
  "collect_block [] c = c"
| "collect_block (n # ns) c =
     collect_block ns
       (case nid n of None \<Rightarrow> c
        | Some i \<Rightarrow>
            (case ins n of
               Call _ _ \<Rightarrow> c\<lparr>Calls := Calls c @ [i]\<rparr>
             | Alloca _ _ \<Rightarrow> c\<lparr>Allocations := Allocations c @ [i]\<rparr>
             | Load _ _ \<Rightarrow> c\<lparr>Accesses := Accesses c @ [i]\<rparr>
             | Store _ _ _ \<Rightarrow> c\<lparr>Accesses := Accesses c @ [i]\<rparr>
             | Other _ _ \<Rightarrow> c))"

definition collectInstructions :: "'t block list \<Rightarrow> collected" where
  "collectInstructions bbs = fold collect_block bbs \<lparr>Calls = [], Accesses = [], Allocations = []\<rparr>"

text \<open>Rewriting the instruction an instruction pointer refers to.\<close>

definition at_inst :: "('t node \<Rightarrow> 't node list) \<Rightarrow> nat \<Rightarrow> 't block list \<Rightarrow> 't block list" where
  "at_inst f i bbs = map (\<lambda>ns. concat (map (\<lambda>n. if nid n = Some i then f n else [n]) ns)) bbs"

definition replace_call :: "'t node \<Rightarrow> 't node list" where
  "replace_call n =
     (case ins n of
        Call (Some f) as \<Rightarrow>
          if f = ''malloc'' then [n\<lparr>ins := Call (Some ''__runtime_malloc'') [as ! 0]\<rparr>]
          else if f = ''free'' then [n\<lparr>ins := Call (Some ''__runtime_free'') [as ! 0]\<rparr>]
          else [n]
      | _ \<Rightarrow> [n])"

definition replaceMemoryCalls :: "nat list \<Rightarrow> 't block list \<Rightarrow> 't block list" where
  "replaceMemoryCalls calls bbs = fold (at_inst replace_call) calls bbs"

definition register_alloca :: "'t layout_sizes \<Rightarrow> 't node \<Rightarrow> 't node list" where
  "register_alloca dl n =
     (case (nid n, ins n) of
        (Some i, Alloca ty count) \<Rightarrow> [n, fresh_call ''__runtime_alloc'' [Res i, Const (type_alloc_size dl ty)]]
      | _ \<Rightarrow> [n])"

definition registerStackAllocations :: "'t layout_sizes \<Rightarrow> nat list \<Rightarrow> 't block list \<Rightarrow> 't block list" where
  "registerStackAllocations dl allocas bbs = fold (at_inst (register_alloca dl)) allocas bbs"

definition check_access :: "'t layout_sizes \<Rightarrow> 't node \<Rightarrow> 't node list" where
  "check_access dl n =
     (case ins n of
        Load ty ptr \<Rightarrow> [fresh_call ''__runtime_check_addr'' [ptr, Const (type_store_size dl ty)], n]
      | Store ty v ptr \<Rightarrow> [fresh_call ''__runtime_check_addr'' [ptr, Const (type_store_size dl ty)], n]
      | _ \<Rightarrow> [n])"

definition checkMemoryAccesses :: "'t layout_sizes \<Rightarrow> nat list \<Rightarrow> 't block list \<Rightarrow> 't block list" where
  "checkMemoryAccesses dl accesses bbs = fold (at_inst (check_access dl)) accesses bbs"

definition memory_safety_run :: "'t layout_sizes \<Rightarrow> 't func \<Rightarrow> 't func" where
  "memory_safety_run dl F =
     (if take 10 (fname F) = ''__runtime_'' then F
      else
        let c = collectInstructions (body F);
            b = replaceMemoryCalls (Calls c) (body F);
            b = registerStackAllocations dl (Allocations c) b;
            b = checkMemoryAccesses dl (Accesses c) b in
        F\<lparr>body := b\<rparr>)"

subsection \<open>One pass over the instructions\<close>

text \<open>What the three stages do together, instruction by instruction.\<close>

definition instrument :: "'t layout_sizes \<Rightarrow> 't node \<Rightarrow> 't node list" where
  "instrument dl n =
     (case ins n of
        Call _ _ \<Rightarrow> replace_call n
      | Alloca _ _ \<Rightarrow> register_alloca dl n
      | Load _ _ \<Rightarrow> check_access dl n
      | Store _ _ _ \<Rightarrow> check_access dl n
      | Other _ _ \<Rightarrow> [n])"

text \<open>A function before instrumentation: every instruction has its own name.\<close>

definition named :: "'t block list \<Rightarrow> bool" where
  "named bbs \<longleftrightarrow> distinct (map nid (concat bbs)) \<and> None \<notin> set (map nid (concat bbs))"

definition keeps_names :: "('t node \<Rightarrow> 't node list) \<Rightarrow> bool" where
  "keeps_names f \<longleftrightarrow> (\<forall>n. \<forall>m \<in> set (f n). nid m = None \<or> nid m = nid n)"

definition at_insts :: "('t node \<Rightarrow> 't node list) \<Rightarrow> nat set \<Rightarrow> 't block \<Rightarrow> 't block" where
  "at_insts f I ns = concat (map (\<lambda>n. if nid n \<in> Some ` I then f n else [n]) ns)"

lemma at_insts_append [simp]: "at_insts f I (ns @ ms) = at_insts f I ns @ at_insts f I ms"
  by (simp add: at_insts_def)

lemma at_insts_Cons [simp]: "at_insts f I (n # ns) = (if nid n \<in> Some ` I then f n else [n]) @ at_insts f I ns"
  by (simp add: at_insts_def)

lemma at_insts_Nil [simp]: "at_insts f I [] = []"
  by (simp add: at_insts_def)

lemma at_insts_id: "\<forall>n \<in> set ns. nid n \<notin> Some ` I \<Longrightarrow> at_insts f I ns = ns"
  by (induction ns) auto

lemma fold_at_inst:
  assumes k: "keeps_names f"
  shows "distinct is \<Longrightarrow> fold (at_inst f) is bbs = map (at_insts f (set is)) bbs"
proof (induction "is" arbitrary: bbs)
  case Nil
  have "at_insts f {} ns = ns" for ns :: "'a node list" by (rule at_insts_id) simp
  then show ?case by (simp cong: map_cong)
next
  case (Cons i "is")
  have "at_insts f (set is) (concat (map (\<lambda>n. if nid n = Some i then f n else [n]) ns)) = at_insts f (set (i # is)) ns" for ns
  proof (induction ns)
    case (Cons n ns)
    have "at_insts f (set is) (f n) = f n" if "nid n = Some i"
      using k that Cons.prems \<open>distinct (i # is)\<close> by (intro at_insts_id) (force simp: keeps_names_def)
    then show ?case using Cons by auto
  qed simp
  then show ?case using Cons by (simp add: at_inst_def)
qed

lemma keeps_replace: "keeps_names replace_call"
  by (auto simp: keeps_names_def replace_call_def split: inst.splits option.splits)

lemma keeps_register: "keeps_names (register_alloca dl)"
  by (auto simp: keeps_names_def register_alloca_def fresh_call_def split: inst.splits option.splits)

lemma keeps_check: "keeps_names (check_access dl)"
  by (auto simp: keeps_names_def check_access_def fresh_call_def split: inst.splits)

text \<open>The collected lists.\<close>

definition names_of :: "('t inst \<Rightarrow> bool) \<Rightarrow> 't block \<Rightarrow> nat list" where
  "names_of p ns = map (\<lambda>n. the (nid n)) (filter (\<lambda>n. nid n \<noteq> None \<and> p (ins n)) ns)"

definition is_call :: "'t inst \<Rightarrow> bool" where
  "is_call x = (case x of Call _ _ \<Rightarrow> True | _ \<Rightarrow> False)"

definition is_alloca :: "'t inst \<Rightarrow> bool" where
  "is_alloca x = (case x of Alloca _ _ \<Rightarrow> True | _ \<Rightarrow> False)"

definition is_access :: "'t inst \<Rightarrow> bool" where
  "is_access x = (case x of Load _ _ \<Rightarrow> True | Store _ _ _ \<Rightarrow> True | _ \<Rightarrow> False)"

lemmas kinds = is_call_def is_alloca_def is_access_def

lemma collect_block_names:
  "collect_block ns c = \<lparr>Calls = Calls c @ names_of is_call ns, Accesses = Accesses c @ names_of is_access ns,
     Allocations = Allocations c @ names_of is_alloca ns\<rparr>"
  by (induction ns c rule: collect_block.induct)
    (auto simp: names_of_def kinds split: option.splits inst.splits)

lemma collect_names:
  "collectInstructions bbs = \<lparr>Calls = names_of is_call (concat bbs), Accesses = names_of is_access (concat bbs),
     Allocations = names_of is_alloca (concat bbs)\<rparr>"
proof -
  have "fold collect_block bbs c = \<lparr>Calls = Calls c @ names_of is_call (concat bbs),
      Accesses = Accesses c @ names_of is_access (concat bbs), Allocations = Allocations c @ names_of is_alloca (concat bbs)\<rparr>" for c
    by (induction bbs arbitrary: c) (auto simp: collect_block_names names_of_def)
  then show ?thesis by (simp add: collectInstructions_def)
qed

lemma names_of_iff:
  assumes "named bbs" and "n \<in> set (concat bbs)"
  shows "nid n \<in> Some ` set (names_of p (concat bbs)) \<longleftrightarrow> p (ins n)"
proof
  assume "nid n \<in> Some ` set (names_of p (concat bbs))"
  then obtain m where m: "m \<in> set (concat bbs)" "p (ins m)" "nid m = nid n" unfolding names_of_def by fastforce
  have "inj_on nid (set (concat bbs))" using assms(1) by (simp add: named_def distinct_map)
  then have "m = n" using m assms(2) by (meson inj_onD)
  then show "p (ins n)" using m by simp
next
  assume "p (ins n)"
  moreover have "nid n \<noteq> None" using assms by (force simp: named_def)
  ultimately show "nid n \<in> Some ` set (names_of p (concat bbs))" using assms(2) by (force simp: names_of_def)
qed

lemma names_of_distinct: "named bbs \<Longrightarrow> distinct (names_of p (concat bbs))"
  by (auto simp: names_of_def named_def distinct_map inj_on_def)

text \<open>The three stages together.\<close>

lemma stages_node:
  assumes "named bbs" and n: "n \<in> set (concat bbs)"
  shows "at_insts (check_access dl) (set (names_of is_access (concat bbs)))
      (at_insts (register_alloca dl) (set (names_of is_alloca (concat bbs)))
        (at_insts replace_call (set (names_of is_call (concat bbs))) [n])) = instrument dl n"
proof -
  note i = names_of_iff [OF assms]
  obtain j where j: "nid n = Some j" using assms by (force simp: named_def)
  show ?thesis
  proof (cases "ins n")
    case (Call f as)
    have "\<exists>m. replace_call n = [m] \<and> nid m = Some j" using Call j by (auto simp: replace_call_def split: option.splits)
    then show ?thesis using i [of is_call] i [of is_alloca] i [of is_access] Call j
      by (auto simp: kinds instrument_def)
  qed (use i [of is_call] i [of is_alloca] i [of is_access] j in
        \<open>auto simp: kinds instrument_def check_access_def register_alloca_def fresh_call_def\<close>)
qed

lemma memory_safety_run_instruments:
  assumes nm: "named (body F)" and f: "take 10 (fname F) \<noteq> ''__runtime_''"
  shows "body (memory_safety_run dl F) = map (\<lambda>ns. concat (map (instrument dl) ns)) (body F)"
proof -
  let ?S = "\<lambda>ns. at_insts (check_access dl) (set (names_of is_access (concat (body F))))
      (at_insts (register_alloca dl) (set (names_of is_alloca (concat (body F))))
        (at_insts replace_call (set (names_of is_call (concat (body F)))) ns))"
  have "body (memory_safety_run dl F) = map ?S (body F)"
    using f names_of_distinct [OF nm]
    by (simp add: memory_safety_run_def collect_names replaceMemoryCalls_def registerStackAllocations_def
        checkMemoryAccesses_def fold_at_inst keeps_replace keeps_register keeps_check Let_def)
  moreover have "?S ns = concat (map (instrument dl) ns)" if "set ns \<subseteq> set (concat (body F))" for ns
    using that
  proof (induction ns)
    case (Cons n ns)
    have "?S (n # ns) = ?S [n] @ ?S ns" by (metis append_Cons append_Nil at_insts_append)
    then show ?case using Cons stages_node [OF nm, of n dl] by simp
  qed simp
  ultimately show ?thesis by (auto intro!: map_cong)
qed

end
