(* ===== verification/Mem_Properties.thy ===== *)
theory Mem_Properties
  imports Mem_Check Mem_Pass
begin

section \<open>Properties of the memory-safety instrumentation\<close>

text \<open>
  The claims about the memory-safety runtime and pass: which accesses and frees are let through,
  and what the instrumented code looks like.
\<close>

subsection \<open>The runtime\<close>

text \<open>
  C10: The check. With registered blocks that do not overlap, an access of \<open>n > 0\<close> bytes is let
  through exactly when it lies completely in one registered block that is not freed, or when
  its start is at least 16 bytes behind the end of every block in front of it and more than 16
  bytes before the start of every block behind it; every other access stops the program.
\<close>

theorem runtime_check_exact:
  assumes "map_ok bs" and "layout bs" and "0 < unat n" and "unat a + unat n < 2 ^ 64"
  shows "runtime_check_addr a n bs \<longleftrightarrow>
    (\<exists>e \<in> set bs. \<not> freed (snd e) \<and> inside a n e) \<or> (\<forall>e \<in> set bs. away a e)"
  by (rule check_exact [OF assms])

theorem runtime_check_exact_witness:
  "runtime_check_addr 0x1004 4 [(0x1000, \<lparr>size = 8, freed = False\<rparr>), (0x2000, \<lparr>size = 8, freed = True\<rparr>)] \<and>
   \<not> runtime_check_addr 0x2000 4 [(0x1000, \<lparr>size = 8, freed = False\<rparr>), (0x2000, \<lparr>size = 8, freed = True\<rparr>)]"
proof -
  let ?bs = "[(0x1000, \<lparr>size = 8, freed = False\<rparr>), (0x2000, \<lparr>size = 8, freed = True\<rparr>)]"
  have "map_ok ?bs" "layout ?bs" by (simp_all add: map_ok_def layout_def block_end_def)
  from runtime_check_exact [OF this, of 4] show ?thesis by (simp add: inside_def away_def block_end_def)
qed

text \<open>
  C37: Frees. \<^verbatim>\<open>__runtime_free\<close> ignores NULL, passes a registered block that is not freed to
  \<^verbatim>\<open>std::free\<close> and marks it, and reports everything else: a pointer that is not
  the start of a block, or a second free. This holds on after any further calls of the runtime, as long as none of them registers a block at the same
  address again: the pointer cannot be freed a second time, and every access that starts in the block or in
  the red zone behind it is reported, if no other block starts between the start of the freed one and the accessed address. A new block at the
  same address replaces the entry.
\<close>

theorem runtime_free_once:
  assumes "map_ok bs" and "layout bs"
  shows "case runtime_free ptr bs of
      None \<Rightarrow> ptr \<noteq> 0 \<and> (map_of bs ptr = None \<or> (\<exists>b. map_of bs ptr = Some b \<and> freed b))
    | Some (p, bs') \<Rightarrow>
        if ptr = 0 then p = None \<and> bs' = bs
        else p = Some ptr \<and> map_ok bs' \<and>
          (\<exists>b. map_of bs ptr = Some b \<and> \<not> freed b \<and> map_of bs' = (map_of bs)(ptr \<mapsto> b\<lparr>freed := True\<rparr>) \<and>
            (\<forall>cs bs''. runtime_calls cs bs' = Some bs'' \<longrightarrow> (\<forall>c \<in> set cs. \<not> registers ptr c) \<longrightarrow>
               runtime_free ptr bs'' = None \<and>
               (\<forall>a n. ptr \<le> a \<longrightarrow> unat a < block_end (ptr, b) + 16 \<longrightarrow>
                  (\<forall>k. ptr < k \<longrightarrow> k \<le> a \<longrightarrow> map_of bs k = None \<and> (\<forall>c \<in> set cs. \<not> registers k c)) \<longrightarrow>
                  \<not> runtime_check_addr a n bs'')))"
proof (cases "ptr = 0 \<or> map_of bs ptr = None \<or> (\<exists>b. map_of bs ptr = Some b \<and> freed b)")
  case True
  then show ?thesis by (auto simp: runtime_free_def split: option.split)
next
  case False
  then obtain b where b: "ptr \<noteq> 0" "map_of bs ptr = Some b" "\<not> freed b" by auto
  define c where "c = b\<lparr>freed := True\<rparr>"
  define bs' where "bs' = map_put ptr c bs"
  have f: "runtime_free ptr bs = Some (Some ptr, bs')" using b by (simp add: runtime_free_def bs'_def c_def)
  have ok: "map_ok bs'" and m: "map_of bs' = (map_of bs)(ptr \<mapsto> c)"
    using map_put_ok [OF assms(1)] map_of_put [OF assms(1)] by (simp_all add: bs'_def)
  have "runtime_free ptr bs'' = None \<and> (\<forall>a n. ptr \<le> a \<longrightarrow> unat a < block_end (ptr, b) + 16 \<longrightarrow>
      (\<forall>k. ptr < k \<longrightarrow> k \<le> a \<longrightarrow> map_of bs k = None \<and> (\<forall>c \<in> set cs. \<not> registers k c)) \<longrightarrow> \<not> runtime_check_addr a n bs'')"
    if cs: "runtime_calls cs bs' = Some bs''" "\<forall>c \<in> set cs. \<not> registers ptr c" for cs bs''
  proof (intro conjI allI impI)
    have "map_of bs' ptr = Some c" "freed c" by (simp_all add: m c_def)
    from freed_stays [OF cs(1) ok this cs(2)] have ok'': "map_ok bs''" and mc: "map_of bs'' ptr = Some c"
      and keys: "\<And>k. map_of bs'' k \<noteq> None \<Longrightarrow> map_of bs' k \<noteq> None \<or> (\<exists>c \<in> set cs. registers k c)" by blast+
    show "runtime_free ptr bs'' = None" using mc b(1) by (simp add: runtime_free_def c_def)
    fix a n
    assume a: "ptr \<le> a" "unat a < block_end (ptr, b) + 16"
      and o: "\<forall>k. ptr < k \<longrightarrow> k \<le> a \<longrightarrow> map_of bs k = None \<and> (\<forall>c \<in> set cs. \<not> registers k c)"
    have "a < k" if "(k, b') \<in> set bs''" "ptr < k" for k b'
    proof -
      have "k \<in> fst ` set bs''" using that(1) by force
      then have "map_of bs'' k \<noteq> None" by (simp add: map_of_eq_None_iff)
      then have "map_of bs k \<noteq> None \<or> (\<exists>c \<in> set cs. registers k c)" using keys [of k] m that(2) by (auto split: if_splits)
      then show ?thesis using o that(2) by (meson not_le)
    qed
    then have "before_bound a bs'' \<noteq> [] \<and> last (before_bound a bs'') = (ptr, c)"
      by (intro last_before [OF ok'' map_of_SomeD [OF mc] a(1)]) auto
    moreover have "a < ptr + size c + shadow"
      using check_words(1) [OF assms(2) map_of_SomeD [OF b(2)]] a(2) by (simp add: c_def)
    ultimately show "\<not> runtime_check_addr a n bs''" by (simp add: runtime_check_addr_def Let_def c_def)
  qed
  then show ?thesis using f ok m b by (simp add: c_def)
qed

text \<open>At the witness a block is freed, and another one is allocated elsewhere.\<close>

theorem runtime_free_once_witness:
  "\<exists>bs'. runtime_free 0x1000 [(0x1000, \<lparr>size = 8, freed = False\<rparr>)] = Some (Some 0x1000, bs') \<and>
     runtime_free 0x1000 (snd (runtime_malloc 0x2000 8 bs')) = None \<and> \<not> runtime_check_addr 0x1004 1 (snd (runtime_malloc 0x2000 8 bs'))"
proof -
  let ?bs = "[(0x1000, \<lparr>size = 8, freed = False\<rparr>)]" and ?bs' = "[(0x1000, \<lparr>size = 8, freed = True\<rparr>)]"
  have "map_ok ?bs" "layout ?bs" by (simp_all add: map_ok_def layout_def block_end_def)
  note fo = runtime_free_once [OF this, of "0x1000"]
  have f: "runtime_free 0x1000 ?bs = Some (Some 0x1000, ?bs')" by (simp add: runtime_free_def)
  let ?bs'' = "snd (runtime_malloc 0x2000 8 ?bs')"
  have g: "runtime_free 0x1000 bs'' = None \<and> (\<forall>a n. 0x1000 \<le> a \<longrightarrow> unat a < block_end (0x1000, \<lparr>size = 8, freed = False\<rparr>) + 16 \<longrightarrow>
      (\<forall>k. 0x1000 < k \<longrightarrow> k \<le> a \<longrightarrow> map_of ?bs k = None \<and> (\<forall>c \<in> set cs. \<not> registers k c)) \<longrightarrow> \<not> runtime_check_addr a n bs'')"
    if "runtime_calls cs ?bs' = Some bs''" "\<forall>c \<in> set cs. \<not> registers 0x1000 c" for cs bs''
    using fo that unfolding f by simp
  have "runtime_calls [R_malloc 0x2000 8] ?bs' = Some ?bs''" "\<forall>c \<in> set [R_malloc 0x2000 8]. \<not> registers 0x1000 c" by simp_all
  from g [OF this] have c: "runtime_free 0x1000 ?bs'' = None"
    and d: "\<And>a n. 0x1000 \<le> a \<Longrightarrow> unat a < block_end (0x1000, \<lparr>size = 8, freed = False\<rparr>) + 16 \<Longrightarrow>
      \<forall>k. 0x1000 < k \<longrightarrow> k \<le> a \<longrightarrow> map_of ?bs k = None \<and> (\<forall>c \<in> set [R_malloc 0x2000 8]. \<not> registers k c) \<Longrightarrow> \<not> runtime_check_addr a n ?bs''" by blast+
  have "\<forall>k. 0x1000 < k \<longrightarrow> k \<le> (0x1004 :: addr) \<longrightarrow> map_of ?bs k = None \<and> (\<forall>c \<in> set [R_malloc 0x2000 8]. \<not> registers k c)" by auto
  from d [OF _ _ this, of 1] have "\<not> runtime_check_addr 0x1004 1 ?bs''" by (simp add: block_end_def)
  then have "runtime_free 0x1000 ?bs'' = None \<and> \<not> runtime_check_addr 0x1004 1 ?bs''" using c by blast
  then show ?thesis using f by blast
qed

text \<open>
  Old entries cause false alarms. Entries of freed heap blocks and of stack objects that are
  gone are never removed. When a new block is registered that contains the start of an old,
  different entry, an access inside the new block, at or behind that start and across the end of the
  old entry (or anywhere in it, if it is marked as freed), is reported although it is valid.
\<close>

theorem stale_entry_false_alarm:
  assumes ok: "map_ok bs" and old: "(k, b) \<in> set bs" "k \<noteq> p" "unat k + unat (size b) + 16 < 2 ^ 64"
    and new: "p < k" "unat a + unat m \<le> unat p + unat n" "unat p + unat n < 2 ^ 64"
    and acc: "k \<le> a" "unat a < unat k + unat (size b) + 16" "freed b \<or> unat k + unat (size b) < unat a + unat m"
    and near: "\<forall>(k', b') \<in> set bs. k < k' \<longrightarrow> a < k'"
  shows "\<not> runtime_check_addr a m (runtime_alloc p n bs)"
proof -
  let ?bs = "runtime_alloc p n bs"
  have ok': "map_ok ?bs" using map_put_ok [OF ok] by (simp add: runtime_alloc_def)
  have mem: "(k', b') \<in> set ?bs \<longleftrightarrow> (if k' = p then b' = \<lparr>size = n, freed = False\<rparr> else (k', b') \<in> set bs)" for k' b'
  proof -
    have "(k', b') \<in> set ?bs \<longleftrightarrow> map_of ?bs k' = Some b'" using ok' by (simp add: map_ok_def strict_sorted_iff)
    moreover have "(k', b') \<in> set bs \<longleftrightarrow> map_of bs k' = Some b'" using ok by (simp add: map_ok_def strict_sorted_iff)
    ultimately show ?thesis using map_of_put [OF ok, of p] by (auto simp: runtime_alloc_def)
  qed
  have "before_bound a ?bs \<noteq> [] \<and> last (before_bound a ?bs) = (k, b)"
    by (rule last_before [OF ok' _ acc(1)]) (use mem old near new(1) in \<open>auto split: if_splits\<close>)
  moreover have e: "unat (k + size b) = unat k + unat (size b)" using old(3) by (intro unat_plus_no_wrap) simp
  have "unat (k + size b + shadow) = unat k + unat (size b) + 16"
    using unat_plus_no_wrap [of "k + size b" shadow] old(3) e by (simp add: shadow_def)
  then have "a < k + size b + shadow" using acc(2) by (simp add: word_less_nat_alt)
  moreover have "unat (a + m) = unat a + unat m" using new(2,3) by (intro unat_plus_no_wrap) simp
  then have "freed b \<or> \<not> a + m \<le> k + size b" using acc(3) e by (auto simp: word_le_nat_alt)
  ultimately show ?thesis by (auto simp: runtime_check_addr_def Let_def)
qed

text \<open>At the witness, a block of 16 bytes is freed and a block of 64 bytes that covers it is
  allocated.\<close>

theorem stale_entry_false_alarm_witness:
  "\<not> runtime_check_addr 0x1020 4 (runtime_alloc 0x1000 64 [(0x1020, \<lparr>size = 16, freed = True\<rparr>)])"
  by (rule stale_entry_false_alarm [of _ "0x1020" "\<lparr>size = 16, freed = True\<rparr>"]) (simp_all add: map_ok_def)

text \<open>
  Two accesses the check misses. An access that starts more than 16 bytes before a block, with
  no block in front of it, is let through even when it reaches into that block or over it; and a
  registered stack object passes \<^verbatim>\<open>__runtime_free\<close>, which hands its address to \<^verbatim>\<open>std::free\<close>.
\<close>

theorem runtime_check_misses:
  assumes "16 < unat k" and "unat a + 16 < unat k" and "p \<noteq> 0"
  shows "runtime_check_addr a m [(k, b)] \<and>
    runtime_free p (runtime_alloc p n []) = Some (Some p, [(p, \<lparr>size = n, freed = True\<rparr>)])"
proof
  have "\<not> k \<le> a" using assms by (simp add: word_le_nat_alt)
  moreover have "\<not> k - shadow \<le> a"
    using assms unat_minus_no_wrap [of shadow k] by (simp add: word_le_nat_alt shadow_def)
  ultimately show "runtime_check_addr a m [(k, b)]"
    by (simp add: runtime_check_addr_def Let_def before_bound_def upper_bound_def)
  show "runtime_free p (runtime_alloc p n []) = Some (Some p, [(p, \<lparr>size = n, freed = True\<rparr>)])"
    using assms(3) by (simp add: runtime_free_def runtime_alloc_def)
qed

theorem runtime_check_misses_witness:
  "runtime_check_addr 0x0FE0 0x100 [(0x1000, \<lparr>size = 8, freed = True\<rparr>)]"
  using runtime_check_misses [of "0x1000" "0x0FE0" 1] by simp

subsection \<open>The pass\<close>

text \<open>
  C15: The pass. Its three stages over lists of collected instructions come to one rewriting of
  each instruction in place: direct calls of \<^verbatim>\<open>malloc\<close> and \<^verbatim>\<open>free\<close> become calls of the runtime, every
  \<^verbatim>\<open>alloca\<close> is followed by its registration and every load and store is preceded by its check;
  everything else stays. So in the result every access directly follows the check of its
  pointer with its size, and no direct call of \<^verbatim>\<open>malloc\<close> or \<^verbatim>\<open>free\<close> is left. The functions of the
  runtime are not touched.
\<close>

definition checked :: "'t layout_sizes \<Rightarrow> 't block \<Rightarrow> bool" where
  "checked dl ns \<longleftrightarrow> (\<forall>j < length ns. is_access (ins (ns ! j)) \<longrightarrow>
     0 < j \<and> (\<exists>ty ptr v. (ins (ns ! j) = Load ty ptr \<or> ins (ns ! j) = Store ty v ptr) \<and>
       ins (ns ! (j - 1)) = Call (Some ''__runtime_check_addr'') [ptr, Const (type_store_size dl ty)]))"

lemma checked_append:
  assumes "checked dl ns" and "checked dl ms"
  shows "checked dl (ns @ ms)"
  unfolding checked_def
proof (intro allI impI)
  fix j
  assume j: "j < length (ns @ ms)" "is_access (ins ((ns @ ms) ! j))"
  show "0 < j \<and> (\<exists>ty ptr v. (ins ((ns @ ms) ! j) = Load ty ptr \<or> ins ((ns @ ms) ! j) = Store ty v ptr) \<and>
       ins ((ns @ ms) ! (j - 1)) = Call (Some ''__runtime_check_addr'') [ptr, Const (type_store_size dl ty)])"
  proof (cases "j < length ns")
    case True
    then have "(ns @ ms) ! j = ns ! j" "(ns @ ms) ! (j - 1) = ns ! (j - 1)" by (simp_all add: nth_append)
    then show ?thesis using assms(1) j(2) True by (simp add: checked_def)
  next
    case False
    define i where "i = j - length ns"
    have i: "i < length ms" "is_access (ins (ms ! i))" "(ns @ ms) ! j = ms ! i" using False j by (simp_all add: i_def nth_append)
    then have "0 < i" using assms(2) by (auto simp: checked_def)
    then have "(ns @ ms) ! (j - 1) = ms ! (i - 1)" using False by (auto simp: i_def nth_append)
    then show ?thesis using assms(2) i \<open>0 < i\<close> unfolding checked_def by (auto simp: i_def)
  qed
qed

lemma checked_instrument: "checked dl (concat (map (instrument dl) ns))"
proof (induction ns)
  case (Cons n ns)
  have "checked dl (instrument dl n)"
    by (auto simp: checked_def instrument_def replace_call_def register_alloca_def check_access_def fresh_call_def kinds
        nth_Cons' less_Suc_eq split: inst.splits option.splits if_splits)
  then show ?case using Cons checked_append by simp
qed (simp add: checked_def)

lemma instrument_no_calls:
  "m \<in> set (instrument dl n) \<Longrightarrow> ins m \<noteq> Call (Some ''malloc'') as \<and> ins m \<noteq> Call (Some ''free'') as"
  by (auto simp: instrument_def replace_call_def register_alloca_def check_access_def fresh_call_def
      split: inst.splits option.splits if_splits)

theorem pass_guards_accesses:
  assumes "named (body F)"
  shows "(take 10 (fname F) = ''__runtime_'' \<longrightarrow> memory_safety_run dl F = F) \<and>
    (take 10 (fname F) \<noteq> ''__runtime_'' \<longrightarrow>
      body (memory_safety_run dl F) = map (\<lambda>ns. concat (map (instrument dl) ns)) (body F) \<and>
      (\<forall>ns \<in> set (body (memory_safety_run dl F)). checked dl ns \<and>
        (\<forall>m \<in> set ns. \<forall>as. ins m \<noteq> Call (Some ''malloc'') as \<and> ins m \<noteq> Call (Some ''free'') as)))"
proof (cases "take 10 (fname F) = ''__runtime_''")
  case True
  then show ?thesis by (simp add: memory_safety_run_def)
next
  case False
  then show ?thesis
    using memory_safety_run_instruments [OF assms False, of dl] checked_instrument instrument_no_calls by fastforce
qed

theorem pass_guards_accesses_witness:
  "body (memory_safety_run \<lparr>type_alloc_size = id, type_store_size = id\<rparr>
     \<lparr>fname = ''f'', body = [[\<lparr>nid = Some 0, ins = Alloca 4 (Const 1)\<rparr>, \<lparr>nid = Some 1, ins = Load 4 (Res 0)\<rparr>]]\<rparr>) =
   [[\<lparr>nid = Some 0, ins = Alloca 4 (Const 1)\<rparr>, fresh_call ''__runtime_alloc'' [Res 0, Const 4],
     fresh_call ''__runtime_check_addr'' [Res 0, Const 4], \<lparr>nid = Some 1, ins = Load 4 (Res 0)\<rparr>]]"
proof -
  let ?F = "\<lparr>fname = ''f'', body = [[\<lparr>nid = Some 0, ins = Alloca 4 (Const 1)\<rparr>, \<lparr>nid = Some 1, ins = Load 4 (Res 0)\<rparr>]]\<rparr>"
  have n: "named (body ?F)" by (simp add: named_def)
  show ?thesis using pass_guards_accesses [OF n, of "\<lparr>type_alloc_size = id, type_store_size = id\<rparr>"]
    by (simp add: instrument_def register_alloca_def check_access_def)
qed

text \<open>
  Array allocations. The size that the pass registers for an \<^verbatim>\<open>alloca\<close> does not depend on the
  number of elements: for an array of \<open>count\<close> elements of \<open>w\<close> bytes only the first element is
  registered, and with nothing else on the map the check of the second element stops the program.
\<close>

theorem array_alloca_false_alarm:
  assumes "nid n = Some i" and "ins n = Alloca ty count" and "type_alloc_size dl ty = w"
    and "0 < w" "w < 16" and "0 < unat p" "unat p + 2 * w + 16 < 2 ^ 64"
  shows "instrument dl n = [n, fresh_call ''__runtime_alloc'' [Res i, Const w]] \<and>
    \<not> runtime_check_addr (p + of_nat w) (of_nat w) (runtime_alloc p (of_nat w) [])"
proof
  show "instrument dl n = [n, fresh_call ''__runtime_alloc'' [Res i, Const w]]"
    using assms(1-3) by (simp add: instrument_def register_alloca_def)
  have w: "unat (of_nat w :: 64 word) = w" using assms(5) by (simp add: unat_of_nat)
  have e: "unat (p + of_nat w) = unat p + w" using unat_plus_no_wrap [of p "of_nat w"] w assms(7) by simp
  have "unat (p + of_nat w + shadow) = unat p + w + 16"
    using unat_plus_no_wrap [of "p + of_nat w" shadow] e assms(7) by (simp add: shadow_def)
  moreover have "unat (p + of_nat w + of_nat w) = unat p + w + w"
    using unat_plus_no_wrap [of "p + of_nat w" "of_nat w"] e w assms(7) by simp
  ultimately show "\<not> runtime_check_addr (p + of_nat w) (of_nat w) (runtime_alloc p (of_nat w) [])"
    using e assms(4) by (simp add: runtime_check_addr_def runtime_alloc_def Let_def before_bound_def word_le_nat_alt word_less_nat_alt)
qed

theorem array_alloca_false_alarm_witness:
  "\<not> runtime_check_addr 0x1004 4 (runtime_alloc 0x1000 4 [])"
  using array_alloca_false_alarm [of "\<lparr>nid = Some 0, ins = Alloca () (Const 10)\<rparr>" 0 "()" "Const 10"
      "\<lparr>type_alloc_size = (\<lambda>_. 4), type_store_size = (\<lambda>_. 4)\<rparr>" 4 "0x1000"] by simp

end
