(* ===== verification/Mem_Exec.thy ===== *)
theory Mem_Exec
  imports Mem_Pass Mem_Check
begin

section \<open>Running instrumented code\<close>

text \<open>
  The pass and the runtime together. A \<open>machine\<close> gives what LLVM and the system decide: the values of loads, the effects of
  stores and of other instructions and calls on a memory, what a called function that returns has left in the runtime's table (which all instrumented functions share),
  and the addresses of new objects. A run takes
  the blocks of a function along any path, so that whatever a branch decides is covered. \<open>None\<close> is the end
  of the program by \<^verbatim>\<open>report_error\<close>. The memory that the runtime's own table takes is not part of the memory.

  \<open>guard_run\<close> is the reference: the original code, which keeps account of its objects and stops before the first
  access or \<^verbatim>\<open>free\<close> that is not allowed.
\<close>

record ('t, 'm) machine =
  m_load :: "'t \<Rightarrow> addr \<Rightarrow> 'm \<Rightarrow> 64 word"
  m_store :: "'t \<Rightarrow> 64 word \<Rightarrow> addr \<Rightarrow> 'm \<Rightarrow> 'm"
  m_malloc :: "size_t \<Rightarrow> 'm \<Rightarrow> addr \<times> 'm"
  m_free :: "addr \<Rightarrow> 'm \<Rightarrow> 'm"
  m_alloca :: "'t \<Rightarrow> 64 word \<Rightarrow> 'm \<Rightarrow> addr \<times> 'm"
  m_other :: "string \<Rightarrow> 64 word list \<Rightarrow> 'm \<Rightarrow> 64 word \<times> 'm"
  m_table :: "string \<Rightarrow> 64 word list \<Rightarrow> 'm \<Rightarrow> (addr \<times> MemoryBlock) list \<Rightarrow> (addr \<times> MemoryBlock) list"
  m_params :: "nat \<Rightarrow> 64 word"

record 'm mstate =
  regs :: "nat \<Rightarrow> 64 word"
  mem :: 'm
  blocks :: "(addr \<times> MemoryBlock) list"

definition val :: "('t, 'm) machine \<Rightarrow> 'm mstate \<Rightarrow> operand \<Rightarrow> 64 word" where
  "val M s x = (case x of Const n \<Rightarrow> of_nat n | Res i \<Rightarrow> regs s i | Param i \<Rightarrow> m_params M i)"

text \<open>An instruction that has produced a value and a memory.\<close>

definition yields :: "nat option \<Rightarrow> 64 word \<times> 'm \<Rightarrow> 'm mstate \<Rightarrow> 'm mstate" where
  "yields i r s = s\<lparr>mem := snd r, regs := (case i of None \<Rightarrow> regs s | Some i \<Rightarrow> (regs s)(i := fst r))\<rparr>"

definition callee :: "string option \<Rightarrow> string" where
  "callee f = (case f of None \<Rightarrow> [] | Some f \<Rightarrow> f)"

definition run_node :: "('t, 'm) machine \<Rightarrow> 't node \<Rightarrow> 'm mstate \<Rightarrow> 'm mstate option" where
  "run_node M n s =
     (case ins n of
        Load ty p \<Rightarrow> Some (yields (nid n) (m_load M ty (val M s p) (mem s), mem s) s)
      | Store ty v p \<Rightarrow> Some (s\<lparr>mem := m_store M ty (val M s v) (val M s p) (mem s)\<rparr>)
      | Alloca ty c \<Rightarrow> Some (yields (nid n) (m_alloca M ty (val M s c) (mem s)) s)
      | Other f as \<Rightarrow> Some (yields (nid n) (m_other M f (map (val M s) as) (mem s)) s)
      | Call f as \<Rightarrow>
          if callee f = ''malloc'' then Some (yields (nid n) (m_malloc M (val M s (as ! 0)) (mem s)) s)
          else if callee f = ''free'' then Some (s\<lparr>mem := m_free M (val M s (as ! 0)) (mem s)\<rparr>)
          else if callee f = ''__runtime_malloc'' then
            (case m_malloc M (val M s (as ! 0)) (mem s) of (p, m) \<Rightarrow>
               case runtime_malloc p (val M s (as ! 0)) (blocks s) of (q, bs) \<Rightarrow>
                 Some (yields (nid n) (q, m) (s\<lparr>blocks := bs\<rparr>)))
          else if callee f = ''__runtime_free'' then
            (case runtime_free (val M s (as ! 0)) (blocks s) of
               None \<Rightarrow> None
             | Some (x, bs) \<Rightarrow>
                 Some (s\<lparr>mem := (case x of None \<Rightarrow> mem s | Some p \<Rightarrow> m_free M p (mem s)), blocks := bs\<rparr>))
          else if callee f = ''__runtime_alloc'' then
            Some (s\<lparr>blocks := runtime_alloc (val M s (as ! 0)) (val M s (as ! 1)) (blocks s)\<rparr>)
          else if callee f = ''__runtime_check_addr'' then
            (if runtime_check_addr (val M s (as ! 0)) (val M s (as ! 1)) (blocks s) then Some s else None)
          else Some (yields (nid n) (m_other M (callee f) (map (val M s) as) (mem s))
            (s\<lparr>blocks := m_table M (callee f) (map (val M s) as) (mem s) (blocks s)\<rparr>)))"

fun run_code :: "('t, 'm) machine \<Rightarrow> 't node list \<Rightarrow> 'm mstate \<Rightarrow> 'm mstate option" where
  "run_code M [] s = Some s"
| "run_code M (n # ns) s = (case run_node M n s of None \<Rightarrow> None | Some s \<Rightarrow> run_code M ns s)"

definition path_code :: "'t block list \<Rightarrow> nat list \<Rightarrow> 't node list" where
  "path_code bbs path = concat (map (nth bbs) path)"

subsection \<open>The reference\<close>

definition access_ok :: "addr \<Rightarrow> size_t \<Rightarrow> (addr \<times> MemoryBlock) list \<Rightarrow> bool" where
  "access_ok a n bs \<longleftrightarrow> (\<exists>e \<in> set bs. \<not> freed (snd e) \<and> inside a n e) \<or> (\<forall>e \<in> set bs. away a e)"

definition new_object :: "addr \<Rightarrow> size_t \<Rightarrow> 'm mstate \<Rightarrow> 'm mstate" where
  "new_object p n s = s\<lparr>blocks := map_put p \<lparr>size = n, freed = False\<rparr> (blocks s)\<rparr>"

definition guard_node :: "('t, 'm) machine \<Rightarrow> 't layout_sizes \<Rightarrow> 't node \<Rightarrow> 'm mstate \<Rightarrow> 'm mstate option" where
  "guard_node M dl n s =
     (case ins n of
        Load ty p \<Rightarrow>
          if access_ok (val M s p) (of_nat (type_store_size dl ty)) (blocks s) then run_node M n s else None
      | Store ty v p \<Rightarrow>
          if access_ok (val M s p) (of_nat (type_store_size dl ty)) (blocks s) then run_node M n s else None
      | Alloca ty c \<Rightarrow>
          map_option (new_object (fst (m_alloca M ty (val M s c) (mem s))) (of_nat (type_alloc_size dl ty))) (run_node M n s)
      | Call f as \<Rightarrow>
          if callee f = ''malloc'' then
            (let p = fst (m_malloc M (val M s (as ! 0)) (mem s)) in
             if p = 0 then run_node M n s else map_option (new_object p (val M s (as ! 0))) (run_node M n s))
          else if callee f = ''free'' then
            (let p = val M s (as ! 0) in
             if p = 0 then run_node M n s
             else case map_of (blocks s) p of
                    None \<Rightarrow> None
                  | Some b \<Rightarrow>
                      if freed b then None
                      else map_option (\<lambda>s. s\<lparr>blocks := map_put p (b\<lparr>freed := True\<rparr>) (blocks s)\<rparr>) (run_node M n s))
          else run_node M n s
      | Other f as \<Rightarrow> run_node M n s)"

fun guard_run :: "('t, 'm) machine \<Rightarrow> 't layout_sizes \<Rightarrow> 't node list \<Rightarrow> 'm mstate \<Rightarrow> 'm mstate option" where
  "guard_run M dl [] s = Some s"
| "guard_run M dl (n # ns) s = (case guard_node M dl n s of None \<Rightarrow> None | Some s \<Rightarrow> guard_run M dl ns s)"

text \<open>What the run relies on: accesses have a size and do not wrap around the address space, and the
  objects that the system hands out do not overlap one another and stay clear of its ends.\<close>

definition fits :: "('t, 'm) machine \<Rightarrow> 't layout_sizes \<Rightarrow> 't node \<Rightarrow> 'm mstate \<Rightarrow> bool" where
  "fits M dl n s =
     (case ins n of
        Load ty p \<Rightarrow> 0 < type_store_size dl ty \<and> unat (val M s p) + type_store_size dl ty < 2 ^ 64
      | Store ty v p \<Rightarrow> 0 < type_store_size dl ty \<and> unat (val M s p) + type_store_size dl ty < 2 ^ 64
      | _ \<Rightarrow> True)"

fun calm :: "('t, 'm) machine \<Rightarrow> 't layout_sizes \<Rightarrow> 't node list \<Rightarrow> 'm mstate \<Rightarrow> bool" where
  "calm M dl [] s \<longleftrightarrow> True"
| "calm M dl (n # ns) s \<longleftrightarrow> layout (blocks s) \<and> fits M dl n s \<and>
     (case guard_node M dl n s of None \<Rightarrow> True | Some s \<Rightarrow> calm M dl ns s)"

definition frees_null :: "('t, 'm) machine \<Rightarrow> bool" where
  "frees_null M \<longleftrightarrow> (\<forall>m. m_free M 0 m = m)"

text \<open>The table stays an ordered map when a called function changes it.\<close>

definition callees_ok :: "('t, 'm) machine \<Rightarrow> bool" where
  "callees_ok M \<longleftrightarrow> (\<forall>f as m bs. map_ok bs \<longrightarrow> map_ok (m_table M f as m bs))"

subsection \<open>Instruction by instruction\<close>

lemma run_code_append:
  "run_code M (ns @ ms) s = (case run_code M ns s of None \<Rightarrow> None | Some s \<Rightarrow> run_code M ms s)"
  by (induction ns arbitrary: s) (auto split: option.split)

lemma check_access_ok:
  assumes "map_ok bs" "layout bs" "0 < n" "unat a + n < 2 ^ 64"
  shows "runtime_check_addr a (of_nat n) bs = access_ok a (of_nat n) bs"
proof -
  have "unat (of_nat n :: 64 word) = n" using assms(4) by (simp add: unat_of_nat)
  then show ?thesis using check_exact [OF assms(1,2), of "of_nat n" a] assms(3,4) by (simp add: access_ok_def)
qed

lemma yields_simps [simp]:
  "blocks (yields i r s) = blocks s" "mem (yields i r s) = snd r" "regs (yields (Some j) r s) = (regs s)(j := fst r)"
  by (simp_all add: yields_def)

lemma new_object_yields:
  "new_object p n (yields i r s) = yields i r (s\<lparr>blocks := map_put p \<lparr>size = n, freed = False\<rparr> (blocks s)\<rparr>)"
  by (simp add: new_object_def yields_def split: option.split)

lemma instrument_runs:
  assumes ok: "map_ok (blocks s)" and lay: "layout (blocks s)" and fits: "fits M dl n s" and i: "nid n \<noteq> None"
    and null: "frees_null M"
  shows "run_code M (instrument dl n) s = guard_node M dl n s"
proof (cases "ins n")
  case (Load ty p)
  have "runtime_check_addr (val M s p) (of_nat (type_store_size dl ty)) (blocks s) =
      access_ok (val M s p) (of_nat (type_store_size dl ty)) (blocks s)"
    using check_access_ok [OF ok lay] fits Load by (simp add: fits_def)
  then show ?thesis using Load
    by (simp add: instrument_def check_access_def fresh_call_def guard_node_def run_node_def callee_def val_def [of _ _ "Const _"])
next
  case (Store ty v p)
  have "runtime_check_addr (val M s p) (of_nat (type_store_size dl ty)) (blocks s) =
      access_ok (val M s p) (of_nat (type_store_size dl ty)) (blocks s)"
    using check_access_ok [OF ok lay] fits Store by (simp add: fits_def)
  then show ?thesis using Store
    by (simp add: instrument_def check_access_def fresh_call_def guard_node_def run_node_def callee_def val_def [of _ _ "Const _"])
next
  case (Alloca ty c)
  obtain j where "nid n = Some j" using i by blast
  then show ?thesis using Alloca
    by (simp add: instrument_def register_alloca_def fresh_call_def guard_node_def run_node_def callee_def new_object_def
        runtime_alloc_def val_def [of _ _ "Const _"] val_def [of _ _ "Res _"])
next
  case (Call f as)
  show ?thesis
  proof (cases f)
    case None
    then show ?thesis using Call by (simp add: instrument_def replace_call_def guard_node_def run_node_def callee_def)
  next
    case (Some g)
    consider "g = ''malloc''" | "g = ''free''" | "g \<noteq> ''malloc''" "g \<noteq> ''free''" by blast
    then show ?thesis
    proof cases
      case 1
      then show ?thesis using Call Some
        by (auto simp: instrument_def replace_call_def guard_node_def run_node_def callee_def new_object_yields runtime_malloc_def
            Let_def split: prod.split)
    next
      case 2
      then show ?thesis using Call Some null
        by (auto simp: instrument_def replace_call_def guard_node_def run_node_def callee_def runtime_free_def frees_null_def
            Let_def split: option.split)
    qed (use Call Some in \<open>simp add: instrument_def replace_call_def guard_node_def callee_def split: option.split\<close>)
  qed
qed (simp add: instrument_def guard_node_def split: option.split)

subsection \<open>Along a path\<close>

text \<open>Code as the compiler hands it to the pass: every instruction has a name and none calls the runtime.\<close>

definition own_code :: "'t node list \<Rightarrow> bool" where
  "own_code ns \<longleftrightarrow> (\<forall>n \<in> set ns. nid n \<noteq> None \<and>
     (\<forall>f as. ins n = Call (Some f) as \<longrightarrow> take 10 f \<noteq> ''__runtime_''))"

definition same_run :: "'m mstate \<Rightarrow> 'm mstate \<Rightarrow> bool" where
  "same_run s t \<longleftrightarrow> regs s = regs t \<and> mem s = mem t"

lemma callee_other:
  "\<forall>f as. ins n = Call (Some f) as \<longrightarrow> take 10 f \<noteq> ''__runtime_'' \<Longrightarrow> ins n = Call f as \<Longrightarrow>
   callee f \<notin> {''__runtime_malloc'', ''__runtime_free'', ''__runtime_alloc'', ''__runtime_check_addr''}"
  by (cases f) (auto simp: callee_def)

text \<open>An instruction of the program does not read the runtime's table, and only the functions it calls write it.\<close>

lemma own_node_total:
  assumes "own_code [n]"
  shows "\<exists>s'. run_node M n s = Some s' \<and> (callees_ok M \<longrightarrow> map_ok (blocks s) \<longrightarrow> map_ok (blocks s'))"
  using assms callee_other [of n] by (auto simp: own_code_def run_node_def callees_ok_def split: inst.split)

lemma own_node_same:
  assumes o: "own_code [n]" and st: "same_run s t"
  shows "same_run (the (run_node M n s)) (the (run_node M n t))"
proof -
  have "val M s x = val M t x" for x using st by (simp add: val_def same_run_def split: operand.split)
  then have "val M s = val M t" by auto
  then show ?thesis using st o callee_other [of n]
    by (auto simp: own_code_def run_node_def same_run_def yields_def split: inst.split option.split)
qed

lemma guard_node_same:
  assumes o: "own_code [n]" and g: "guard_node M dl n s = Some s'"
  shows "same_run s' (the (run_node M n s))" "callees_ok M \<Longrightarrow> map_ok (blocks s) \<Longrightarrow> map_ok (blocks s')"
proof -
  obtain u where u: "run_node M n s = Some u" "callees_ok M \<longrightarrow> map_ok (blocks s) \<longrightarrow> map_ok (blocks u)" using own_node_total [OF o] by blast
  show "same_run s' (the (run_node M n s))" using g u
    by (auto simp: guard_node_def same_run_def new_object_def Let_def split: inst.splits if_splits option.splits)
  show "map_ok (blocks s')" if "callees_ok M" "map_ok (blocks s)" using g u that
    by (auto simp: guard_node_def new_object_def map_put_ok Let_def split: inst.splits if_splits option.splits)
qed

lemma own_code_Cons: "own_code (n # ns) \<longleftrightarrow> own_code [n] \<and> own_code ns"
  by (auto simp: own_code_def)

lemma instrumented_guard_run:
  assumes "frees_null M" "callees_ok M"
  shows "own_code ns \<Longrightarrow> map_ok (blocks s) \<Longrightarrow> calm M dl ns s \<Longrightarrow>
    run_code M (concat (map (instrument dl) ns)) s = guard_run M dl ns s"
proof (induction ns arbitrary: s)
  case (Cons n ns)
  then have n: "own_code [n]" and ns: "own_code ns" using own_code_Cons by blast+
  have "run_code M (instrument dl n) s = guard_node M dl n s"
    using Cons.prems n assms by (intro instrument_runs) (auto simp: own_code_def)
  then show ?case using Cons.prems Cons.IH [OF ns] guard_node_same(2) [OF n _ assms(2), of dl s]
    by (auto simp: run_code_append split: option.splits)
qed simp

lemma guard_run_same:
  "own_code ns \<Longrightarrow> same_run s t \<Longrightarrow> guard_run M dl ns s = Some s' \<Longrightarrow>
    \<exists>t'. run_code M ns t = Some t' \<and> same_run s' t'"
proof (induction ns arbitrary: s t)
  case (Cons n ns)
  then have n: "own_code [n]" and ns: "own_code ns" using own_code_Cons by blast+
  obtain u where u: "guard_node M dl n s = Some u" "guard_run M dl ns u = Some s'"
    using Cons.prems(3) by (auto split: option.splits)
  obtain v where v: "run_node M n t = Some v" using own_node_total [OF n] by blast
  have "same_run u v"
    using guard_node_same(1) [OF n u(1)] own_node_same [OF n Cons.prems(2), of M] v by (simp add: same_run_def)
  then show ?case using Cons.IH [OF ns _ u(2)] v by simp
qed simp

lemma path_code_instrumented:
  assumes "set path \<subseteq> {..<length bbs}"
  shows "path_code (map (\<lambda>ns. concat (map (instrument dl) ns)) bbs) path = concat (map (instrument dl) (path_code bbs path))"
  using assms by (induction path) (auto simp: path_code_def)

lemma path_code_set: "set path \<subseteq> {..<length bbs} \<Longrightarrow> set (path_code bbs path) \<subseteq> set (concat bbs)"
  by (auto simp: path_code_def) (metis lessThan_iff nth_mem subsetD)

end
