(* ===== verification/Mem_Module.thy ===== *)
theory Mem_Module
  imports Mem_Exec
begin

section \<open>The pass and its module\<close>

text \<open>
  The module around the functions: its symbol table, in which the pass declares the functions of the
  runtime before it inserts calls of them (\<^verbatim>\<open>declareFunc\<close>, LLVM's \<^verbatim>\<open>getOrInsertFunction\<close>), and the analyses
  that \<^verbatim>\<open>run\<close> reports as preserved. The width of pointer-sized integers comes from the data layout and is an argument.
\<close>

datatype ir_type = VoidT | PtrT | IntT nat

record fun_type =
  ret_type :: ir_type
  arg_types :: "ir_type list"

type_synonym symbols = "(string \<times> fun_type) list"

record RuntimeTypes =
  VoidTy :: ir_type
  PtrTy :: ir_type
  SizeTy :: ir_type

datatype PreservedAnalyses = PA_all | PA_none

definition initContext :: "nat \<Rightarrow> RuntimeTypes" where
  "initContext int_ptr_bits = \<lparr>VoidTy = VoidT, PtrTy = PtrT, SizeTy = IntT int_ptr_bits\<rparr>"

text \<open>A function of that name is left as it is, whatever its type.\<close>

definition declareFunc :: "string \<Rightarrow> ir_type \<Rightarrow> ir_type list \<Rightarrow> symbols \<Rightarrow> symbols" where
  "declareFunc Name RetTy ArgTys m =
     (case map_of m Name of Some _ \<Rightarrow> m | None \<Rightarrow> m @ [(Name, \<lparr>ret_type = RetTy, arg_types = ArgTys\<rparr>)])"

definition declare_heap :: "RuntimeTypes \<Rightarrow> symbols \<Rightarrow> symbols" where
  "declare_heap Types m =
     declareFunc ''__runtime_free'' (VoidTy Types) [PtrTy Types] (declareFunc ''__runtime_malloc'' (PtrTy Types) [SizeTy Types] m)"

definition declare_alloc :: "RuntimeTypes \<Rightarrow> symbols \<Rightarrow> symbols" where
  "declare_alloc Types m = declareFunc ''__runtime_alloc'' (VoidTy Types) [PtrTy Types, SizeTy Types] m"

definition declare_check :: "RuntimeTypes \<Rightarrow> symbols \<Rightarrow> symbols" where
  "declare_check Types m = declareFunc ''__runtime_check_addr'' (VoidTy Types) [PtrTy Types, SizeTy Types] m"

text \<open>\<^verbatim>\<open>MemorySafetyPass::run\<close> on a function of a module.\<close>

definition memory_safety_pass ::
  "nat \<Rightarrow> 't layout_sizes \<Rightarrow> 't func \<Rightarrow> symbols \<Rightarrow> 't func \<times> symbols \<times> PreservedAnalyses" where
  "memory_safety_pass int_ptr_bits dl F m =
     (if take 10 (fname F) = ''__runtime_'' then (F, m, PA_all)
      else
        let Types = initContext int_ptr_bits in
        (memory_safety_run dl F, declare_check Types (declare_alloc Types (declare_heap Types m)), PA_none))"

text \<open>The pass over all functions of a module, as the pass manager runs it.\<close>

fun instrument_module :: "nat \<Rightarrow> 't layout_sizes \<Rightarrow> 't func list \<Rightarrow> symbols \<Rightarrow> 't func list \<times> symbols" where
  "instrument_module bits dl [] m = ([], m)"
| "instrument_module bits dl (F # Fs) m =
     (case memory_safety_pass bits dl F m of (F', m', _) \<Rightarrow>
        case instrument_module bits dl Fs m' of (Fs', m'') \<Rightarrow> (F' # Fs', m''))"

subsection \<open>Declarations\<close>

text \<open>The interface of the runtime, as \<^verbatim>\<open>MemorySafetyRuntime.cpp\<close> defines it.\<close>

definition runtime_type :: "nat \<Rightarrow> string \<Rightarrow> fun_type option" where
  "runtime_type bits = map_of
     [(''__runtime_malloc'', \<lparr>ret_type = PtrT, arg_types = [IntT bits]\<rparr>), (''__runtime_free'', \<lparr>ret_type = VoidT, arg_types = [PtrT]\<rparr>),
      (''__runtime_alloc'', \<lparr>ret_type = VoidT, arg_types = [PtrT, IntT bits]\<rparr>),
      (''__runtime_check_addr'', \<lparr>ret_type = VoidT, arg_types = [PtrT, IntT bits]\<rparr>)]"

text \<open>The functions of the runtime that the module has are those of the runtime.\<close>

definition runtime_declared :: "nat \<Rightarrow> symbols \<Rightarrow> bool" where
  "runtime_declared bits m \<longleftrightarrow> (\<forall>f. runtime_type bits f \<noteq> None \<longrightarrow> map_of m f \<in> {None, runtime_type bits f})"

lemma declareFunc_of: "map_of (declareFunc f r as m) = (case map_of m f of Some _ \<Rightarrow> map_of m | None \<Rightarrow> (map_of m)(f \<mapsto> \<lparr>ret_type = r, arg_types = as\<rparr>))"
  by (auto simp: declareFunc_def map_add_def split: option.split)

lemma declareFunc_distinct: "distinct (map fst m) \<Longrightarrow> distinct (map fst (declareFunc f r as m))"
  by (auto simp: declareFunc_def map_of_eq_None_iff split: option.split)

lemma declareFunc_le: "map_of m \<subseteq>\<^sub>m map_of m' \<Longrightarrow> map_of m \<subseteq>\<^sub>m map_of (declareFunc f r as m')"
  by (simp add: declareFunc_of map_le_def split: option.split) (metis domIff)

lemma declareFunc_keeps:
  "runtime_declared bits m \<Longrightarrow> runtime_type bits f \<in> {None, Some \<lparr>ret_type = r, arg_types = as\<rparr>} \<Longrightarrow>
   runtime_declared bits (declareFunc f r as m)"
  by (auto simp: runtime_declared_def declareFunc_of split: option.split)

lemmas declares = declare_heap_def declare_alloc_def declare_check_def initContext_def

lemma pass_declares:
  assumes "memory_safety_pass bits dl F m = (F', m', pa)"
  shows "map_of m \<subseteq>\<^sub>m map_of m'" "distinct (map fst m) \<Longrightarrow> distinct (map fst m')"
    "runtime_declared bits m \<Longrightarrow> runtime_declared bits m'"
    "runtime_declared bits m \<Longrightarrow> pa = PA_none \<Longrightarrow> runtime_type bits f \<noteq> None \<Longrightarrow> map_of m' f = runtime_type bits f"
proof -
  have m': "m' = m \<or> m' = declare_check (initContext bits) (declare_alloc (initContext bits) (declare_heap (initContext bits) m))"
    using assms by (auto simp: memory_safety_pass_def Let_def split: if_splits)
  then show "map_of m \<subseteq>\<^sub>m map_of m'" by (auto simp: declares intro!: declareFunc_le)
  show "distinct (map fst m')" if "distinct (map fst m)" using m' that by (auto simp: declares declareFunc_distinct)
  show r: "runtime_declared bits m'" if "runtime_declared bits m"
    using m' that by (auto simp: declares runtime_type_def intro!: declareFunc_keeps)
  show "map_of m' f = runtime_type bits f" if d: "runtime_declared bits m" and n: "pa = PA_none" "runtime_type bits f \<noteq> None"
  proof -
    have "map_of m' f \<noteq> None" using assms n
      by (auto simp: memory_safety_pass_def Let_def declares declareFunc_of runtime_type_def split: if_splits option.splits)
    then show ?thesis using r [OF d] n(2) by (auto simp: runtime_declared_def)
  qed
qed

text \<open>Every call of the runtime in instrumented code has the number of arguments that the runtime takes.\<close>

lemma runtime_types:
  "runtime_type bits ''__runtime_malloc'' = Some \<lparr>ret_type = PtrT, arg_types = [IntT bits]\<rparr>"
  "runtime_type bits ''__runtime_free'' = Some \<lparr>ret_type = VoidT, arg_types = [PtrT]\<rparr>"
  "runtime_type bits ''__runtime_alloc'' = Some \<lparr>ret_type = VoidT, arg_types = [PtrT, IntT bits]\<rparr>"
  "runtime_type bits ''__runtime_check_addr'' = Some \<lparr>ret_type = VoidT, arg_types = [PtrT, IntT bits]\<rparr>"
  by (simp_all add: runtime_type_def)

lemma instrument_new:
  assumes "x \<in> set (instrument dl n)" and "x \<noteq> n"
  shows "(\<exists>a. ins x = Call (Some ''__runtime_malloc'') [a]) \<or> (\<exists>a. ins x = Call (Some ''__runtime_free'') [a]) \<or>
    (\<exists>a b. ins x = Call (Some ''__runtime_alloc'') [a, b]) \<or> (\<exists>a b. ins x = Call (Some ''__runtime_check_addr'') [a, b])"
proof (cases "ins n")
  case (Call f as)
  then show ?thesis using assms by (cases f) (auto simp: instrument_def replace_call_def split: if_splits)
next
  case (Alloca ty c)
  then show ?thesis using assms by (cases "nid n") (auto simp: instrument_def register_alloca_def fresh_call_def)
qed (use assms in \<open>auto simp: instrument_def check_access_def fresh_call_def\<close>)

lemma instrument_calls:
  assumes "own_code [n]" and "x \<in> set (instrument dl n)" and "ins x = Call (Some f) as" and "take 10 f = ''__runtime_''"
  shows "\<exists>t. runtime_type bits f = Some t \<and> length as = length (arg_types t)"
proof -
  have "x \<noteq> n" using assms(1,3,4) by (auto simp: own_code_def)
  from instrument_new [OF assms(2) this] show ?thesis using assms(3) by (auto simp: runtime_types)
qed

text \<open>The whole module.\<close>

definition runtime_calls_ok :: "nat \<Rightarrow> symbols \<Rightarrow> 't func \<Rightarrow> bool" where
  "runtime_calls_ok bits m F \<longleftrightarrow> (\<forall>x \<in> set (concat (body F)). \<forall>f as. ins x = Call (Some f) as \<longrightarrow> take 10 f = ''__runtime_'' \<longrightarrow>
     map_of m f = runtime_type bits f \<and> (\<exists>t. runtime_type bits f = Some t \<and> length as = length (arg_types t)))"

lemma runtime_calls_ok_mono:
  assumes "runtime_calls_ok bits m F" and "map_of m \<subseteq>\<^sub>m map_of m'"
  shows "runtime_calls_ok bits m' F"
  using assms unfolding runtime_calls_ok_def map_le_def by (metis domI)

lemma pass_calls_ok:
  assumes p: "memory_safety_pass bits dl F m = (F', m', pa)" and f: "take 10 (fname F) \<noteq> ''__runtime_''"
    and nm: "named (body F)" and own: "own_code (concat (body F))" and d: "runtime_declared bits m"
  shows "runtime_calls_ok bits m' F'"
  unfolding runtime_calls_ok_def
proof (intro ballI allI impI)
  fix x g as
  assume x: "x \<in> set (concat (body F'))" and c: "ins x = Call (Some g) as" "take 10 g = ''__runtime_''"
  have F': "F' = memory_safety_run dl F" and pa: "pa = PA_none"
    using p f by (auto simp: memory_safety_pass_def Let_def)
  obtain n where n: "n \<in> set (concat (body F))" "x \<in> set (instrument dl n)"
    using x by (auto simp: F' memory_safety_run_instruments [OF nm f])
  then have "own_code [n]" using own by (auto simp: own_code_def)
  from instrument_calls [OF this n(2) c, of bits]
  show "map_of m' g = runtime_type bits g \<and> (\<exists>t. runtime_type bits g = Some t \<and> length as = length (arg_types t))"
    using pass_declares(4) [OF p d pa, of g] by auto
qed

lemma module_declares:
  "instrument_module bits dl Fs m = (Fs', m') \<Longrightarrow>
   map_of m \<subseteq>\<^sub>m map_of m' \<and> (distinct (map fst m) \<longrightarrow> distinct (map fst m')) \<and> (runtime_declared bits m \<longrightarrow> runtime_declared bits m')"
proof (induction Fs arbitrary: m Fs')
  case (Cons F Fs)
  obtain F1 m1 pa where p: "memory_safety_pass bits dl F m = (F1, m1, pa)" by (metis prod_cases3)
  obtain Fs1 where "instrument_module bits dl Fs m1 = (Fs1, m')" using Cons.prems p by (auto split: prod.splits)
  from Cons.IH [OF this] show ?case using pass_declares(1-3) [OF p] map_le_trans by blast
qed simp

lemma module_functions:
  "instrument_module bits dl Fs m = (Fs', m') \<Longrightarrow> Fs' = map (memory_safety_run dl) Fs"
proof (induction Fs arbitrary: m Fs')
  case (Cons F Fs)
  obtain F1 m1 pa where p: "memory_safety_pass bits dl F m = (F1, m1, pa)" by (metis prod_cases3)
  have "F1 = memory_safety_run dl F" using p by (auto simp: memory_safety_pass_def memory_safety_run_def Let_def split: if_splits)
  then show ?case using Cons p by (auto split: prod.splits)
qed simp

lemma module_calls_ok:
  assumes "\<forall>F \<in> set Fs. named (body F) \<and> own_code (concat (body F)) \<and> take 10 (fname F) \<noteq> ''__runtime_''"
  shows "instrument_module bits dl Fs m = (Fs', m') \<Longrightarrow> runtime_declared bits m \<Longrightarrow> \<forall>F \<in> set Fs'. runtime_calls_ok bits m' F"
  using assms
proof (induction Fs arbitrary: m Fs')
  case (Cons F Fs)
  obtain F1 m1 pa where p: "memory_safety_pass bits dl F m = (F1, m1, pa)" by (metis prod_cases3)
  obtain Fs1 where r: "instrument_module bits dl Fs m1 = (Fs1, m')" "Fs' = F1 # Fs1" using Cons.prems p by (auto split: prod.splits)
  have "runtime_calls_ok bits m1 F1" by (rule pass_calls_ok [OF p]) (use Cons.prems in auto)
  then have "runtime_calls_ok bits m' F1" using runtime_calls_ok_mono module_declares [OF r(1)] by blast
  then show ?case using Cons.IH [OF r(1)] pass_declares(3) [OF p] Cons.prems r(2) by auto
qed simp

end
