(* ===== verification/Mem_Exec_Properties.thy ===== *)
theory Mem_Exec_Properties
  imports Mem_Module
begin

section \<open>What instrumented programs do\<close>

text \<open>
  The claim about the pass and the runtime together: an instrumented function runs as the original one
  does, up to the first access or free that the runtime does not allow.
\<close>

text \<open>
  C8: Instrumented code. On every path through a function, and on every machine, the code
  that the pass makes of it does exactly what the guarded original does: the same instructions in the same order, where
  each load and store happens only if it lies in a live registered object or stays away from all of them,
  each \<^verbatim>\<open>free\<close> only if it is of NULL or of an object that is not yet freed, and the program is stopped
  before the first one that is not. If it is not stopped, it ends with the registers and the memory of the original
  function. Functions that it calls may change the runtime's table; a call is taken to return. The objects must not overlap, and accesses must not wrap around the address space.
\<close>

theorem instrumented_run_exact:
  assumes nm: "named (body F)" and f: "take 10 (fname F) \<noteq> ''__runtime_''" and null: "frees_null M" and cal: "callees_ok M"
    and path: "set path \<subseteq> {..<length (body F)}" and own: "own_code (concat (body F))"
    and ok: "map_ok (blocks s)" and calm: "calm M dl (path_code (body F) path) s"
  shows "run_code M (path_code (body (memory_safety_run dl F)) path) s = guard_run M dl (path_code (body F) path) s \<and>
    (\<forall>s'. run_code M (path_code (body (memory_safety_run dl F)) path) s = Some s' \<longrightarrow>
      (\<exists>t. run_code M (path_code (body F) path) s = Some t \<and> regs t = regs s' \<and> mem t = mem s'))"
proof -
  have own': "own_code (path_code (body F) path)"
    using own path_code_set [OF path] by (auto simp: own_code_def)
  have "run_code M (path_code (body (memory_safety_run dl F)) path) s = guard_run M dl (path_code (body F) path) s"
    using instrumented_guard_run [OF null cal own' ok calm] path_code_instrumented [OF path, of dl]
    by (simp add: memory_safety_run_instruments [OF nm f])
  moreover have "\<exists>t. run_code M (path_code (body F) path) s = Some t \<and> regs t = regs s' \<and> mem t = mem s'"
    if "guard_run M dl (path_code (body F) path) s = Some s'" for s'
    using guard_run_same [OF own' _ that, of s] by (auto simp: same_run_def)
  ultimately show ?thesis by simp
qed

text \<open>At the witness, the first block allocates eight bytes, stores 42 there, loads it and frees the object; the second
  one loads from it again, and a path that takes it is stopped.\<close>

definition flat_machine :: "(nat, (addr \<Rightarrow> 64 word) \<times> addr) machine" where
  "flat_machine = \<lparr>m_load = (\<lambda>_ a m. fst m a), m_store = (\<lambda>_ v a m. ((fst m)(a := v), snd m)),
     m_malloc = (\<lambda>_ m. (snd m, fst m, snd m + 0x1000)), m_free = (\<lambda>_ m. m), m_alloca = (\<lambda>_ _ m. (snd m, fst m, snd m + 0x1000)),
     m_other = (\<lambda>_ _ m. (0, m)),
     m_table = (\<lambda>_ _ _ bs. bs), m_params = (\<lambda>_. 0)\<rparr>"

definition use_after_free :: "nat func" where
  "use_after_free = \<lparr>fname = ''f'', body =
     [[\<lparr>nid = Some 0, ins = Call (Some ''malloc'') [Const 8]\<rparr>, \<lparr>nid = Some 1, ins = Store 8 (Const 42) (Res 0)\<rparr>,
       \<lparr>nid = Some 2, ins = Load 8 (Res 0)\<rparr>, \<lparr>nid = Some 3, ins = Call (Some ''free'') [Res 0]\<rparr>],
      [\<lparr>nid = Some 4, ins = Load 8 (Res 0)\<rparr>]]\<rparr>"

lemma use_after_free_guarded:
  fixes dl :: "nat layout_sizes"
  assumes "s = \<lparr>regs = (\<lambda>_. 0), mem = (\<lambda>_. 0, 0x1000), blocks = []\<rparr>" and "type_store_size dl = id"
  shows "calm flat_machine dl (path_code (body use_after_free) [0, 1]) s"
    "calm flat_machine dl (path_code (body use_after_free) [0]) s"
    "guard_run flat_machine dl (path_code (body use_after_free) [0, 1]) s = None"
    "map_option (\<lambda>s. regs s 2) (guard_run flat_machine dl (path_code (body use_after_free) [0]) s) = Some 42"
  using assms
  by (simp_all add: use_after_free_def flat_machine_def path_code_def guard_node_def run_node_def callee_def val_def yields_def
      new_object_def access_ok_def inside_def away_def block_end_def fits_def layout_def)

theorem instrumented_run_exact_witness:
  "let s = \<lparr>regs = (\<lambda>_. 0), mem = (\<lambda>_. 0, 0x1000), blocks = []\<rparr>;
       dl = \<lparr>type_alloc_size = id, type_store_size = id\<rparr>;
       run = (\<lambda>path. run_code flat_machine (path_code (body (memory_safety_run dl use_after_free)) path) s) in
   map_option (\<lambda>s. regs s 2) (run [0]) = Some 42 \<and> run [0, 1] = None"
proof -
  define s where "s = \<lparr>regs = (\<lambda>_. 0), mem = (\<lambda>_::addr. 0 :: 64 word, 0x1000 :: addr), blocks = []\<rparr>"
  define dl :: "nat layout_sizes" where "dl = \<lparr>type_alloc_size = id, type_store_size = id\<rparr>"
  have dl': "type_store_size dl = id" by (simp add: dl_def)
  have ok: "map_ok (blocks s)" by (simp add: s_def map_ok_def)
  have nm: "named (body use_after_free)" by (simp add: use_after_free_def named_def)
  have f: "take 10 (fname use_after_free) \<noteq> ''__runtime_''" by (simp add: use_after_free_def)
  have null: "frees_null flat_machine" "callees_ok flat_machine" by (simp_all add: flat_machine_def frees_null_def callees_ok_def)
  have own: "own_code (concat (body use_after_free))" by (simp add: use_after_free_def own_code_def)
  have l: "length (body use_after_free) = 2" by (simp add: use_after_free_def)
  note g = use_after_free_guarded [OF s_def dl']
  have "run_code flat_machine (path_code (body (memory_safety_run dl use_after_free)) [0, 1]) s = None"
    using instrumented_run_exact [OF nm f null _ own ok g(1)] g(3) l by simp
  moreover have "map_option (\<lambda>s. regs s 2) (run_code flat_machine (path_code (body (memory_safety_run dl use_after_free)) [0]) s) = Some 42"
    using instrumented_run_exact [OF nm f null _ own ok g(2)] g(4) l by simp
  ultimately show ?thesis by (simp add: Let_def s_def dl_def)
qed

text \<open>
  The module. Run over the functions of a module, the pass rewrites each of them as above and declares what it
  calls: the symbol table keeps all its functions and their types and gets no second entry of a name,
  and every call of the runtime in the result is of a declared function with the type that the runtime has, and
  has the number of arguments that this type asks for. A function of the runtime is returned as it is, with all analyses
  preserved.
\<close>

theorem module_calls_typed:
  assumes "\<forall>F \<in> set Fs. named (body F) \<and> own_code (concat (body F)) \<and> take 10 (fname F) \<noteq> ''__runtime_''"
    and "runtime_declared bits m" and "distinct (map fst m)" and "take 10 (fname R) = ''__runtime_''"
  shows "case instrument_module bits dl Fs m of (Fs', m') \<Rightarrow>
      Fs' = map (memory_safety_run dl) Fs \<and> map_of m \<subseteq>\<^sub>m map_of m' \<and> distinct (map fst m') \<and>
      (\<forall>F \<in> set Fs'. runtime_calls_ok bits m' F) \<and> memory_safety_pass bits dl R m' = (R, m', PA_all)"
proof -
  obtain Fs' m' where r: "instrument_module bits dl Fs m = (Fs', m')" by fastforce
  then show ?thesis
    using module_functions [OF r] module_declares [OF r] module_calls_ok [OF assms(1) r assms(2)] assms(2-4)
    by (simp add: memory_safety_pass_def)
qed

theorem module_calls_typed_witness:
  "list_all (runtime_calls_ok 64 (snd (instrument_module 64 \<lparr>type_alloc_size = id, type_store_size = id\<rparr> [use_after_free] [])))
     (fst (instrument_module 64 \<lparr>type_alloc_size = id, type_store_size = id\<rparr> [use_after_free] []))"
proof -
  have "\<forall>F \<in> set [use_after_free]. named (body F) \<and> own_code (concat (body F)) \<and> take 10 (fname F) \<noteq> ''__runtime_''"
    by (simp add: use_after_free_def named_def own_code_def)
  from module_calls_typed [OF this, of 64 "[]" "\<lparr>fname = ''__runtime_init'', body = []\<rparr>"
      "\<lparr>type_alloc_size = id, type_store_size = id\<rparr>"]
  show ?thesis by (simp add: runtime_declared_def case_prod_unfold list_all_iff del: instrument_module.simps)
qed

end
