(* ===== verification/Dce.thy ===== *)
theory Dce
  imports Sys_Prelude
begin

section \<open>The dead-code elimination pass\<close>

text \<open>
  \<^verbatim>\<open>task07-llvm/dead-code-elimination/src/DeadCodeElimination.cpp\<close> on a model of LLVM functions: a
  function is a list of basic blocks with a label, a list of named instructions and a
  terminator. Instructions are direct loads and stores of a stack slot (an \<^verbatim>\<open>alloca\<close>), and
  others, which may use slots as operands. A load \<open>Ld r s n\<close> puts the first \<open>n\<close> bytes of slot \<open>s\<close> into register \<open>r\<close>; a store
  \<open>St s v vt n\<close> writes \<open>n\<close> bytes of its operand, and \<open>vt\<close> says whether it is volatile. The widths are those of the accessed types,
  which the pass does not look at: with opaque pointers, accesses of different widths may go to one slot. What LLVM decides is an argument: \<open>triv_dead\<close> is
  \<^verbatim>\<open>isInstructionTriviallyDead\<close>, \<open>simplify\<close> is \<^verbatim>\<open>TryToSimplifyUncondBranchFromEmptyBlock\<close>,
  \<open>iter\<close> the order in which a \<^verbatim>\<open>DenseMap\<close> is traversed.
\<close>

datatype opnd = Imm int | Reg nat | SlotAddr nat

datatype dinst =
  Ld nat nat nat
| St nat opnd bool nat
| Ext nat "opnd list"

datatype dterm = Br nat | CondBr opnd nat nat | Ret "opnd list"

record dblock =
  label :: nat
  code :: "(nat \<times> dinst) list"
  dterm :: dterm

type_synonym dfunc = "dblock list"

subsection \<open>Dead instructions\<close>

definition erase :: "nat \<Rightarrow> dfunc \<Rightarrow> dfunc" where
  "erase i F = map (\<lambda>B. B\<lparr>code := filter (\<lambda>(j, _). j \<noteq> i) (code B)\<rparr>) F"

fun erase_dead :: "(dfunc \<Rightarrow> nat \<Rightarrow> bool) \<Rightarrow> nat list \<Rightarrow> bool \<times> dfunc \<Rightarrow> bool \<times> dfunc" where
  "erase_dead triv_dead [] st = st"
| "erase_dead triv_dead (i # is) (changed, F) =
     erase_dead triv_dead is (if triv_dead F i then (True, erase i F) else (changed, F))"

definition eliminateDeadInstructions :: "(dfunc \<Rightarrow> nat \<Rightarrow> bool) \<Rightarrow> bool \<times> dfunc \<Rightarrow> bool \<times> dfunc" where
  "eliminateDeadInstructions triv_dead st =
     erase_dead triv_dead (concat (map (\<lambda>B. rev (map fst (code B))) (rev (snd st)))) st"

subsection \<open>Branches and blocks\<close>

definition simplify_branch :: "dblock \<Rightarrow> bool \<times> dblock" where
  "simplify_branch B =
     (case dterm B of
        CondBr c l l' \<Rightarrow> if l = l' then (True, B\<lparr>dterm := Br l\<rparr>) else (False, B)
      | _ \<Rightarrow> (False, B))"

definition branch_step :: "(dfunc \<Rightarrow> nat \<Rightarrow> dfunc option) \<Rightarrow> nat \<Rightarrow> bool \<times> dfunc \<Rightarrow> bool \<times> dfunc" where
  "branch_step simplify l st =
     (case st of (changed, F) \<Rightarrow>
        let ch = (\<exists>B \<in> set F. label B = l \<and> fst (simplify_branch B));
            F = map (\<lambda>B. if label B = l then snd (simplify_branch B) else B) F in
        if \<exists>B \<in> set F. label B = l \<and> code B = [] \<and> (\<exists>m. dterm B = Br m)
        then (case simplify F l of None \<Rightarrow> (changed \<or> ch, F) | Some F' \<Rightarrow> (True, F'))
        else (changed \<or> ch, F))"

definition eliminateUselessBranchesAndBlocks ::
  "(dfunc \<Rightarrow> nat \<Rightarrow> dfunc option) \<Rightarrow> bool \<times> dfunc \<Rightarrow> bool \<times> dfunc" where
  "eliminateUselessBranchesAndBlocks simplify st = fold (branch_step simplify) (map label (snd st)) st"

subsection \<open>Dead stores\<close>

text \<open>The direct accesses of a slot, and the slots with one, in a block.\<close>

definition accesses :: "nat \<Rightarrow> dinst \<Rightarrow> bool" where
  "accesses s x = (case x of Ld _ s' _ \<Rightarrow> s' = s | St s' _ _ _ \<Rightarrow> s' = s | Ext _ _ \<Rightarrow> False)"

definition slot_insts :: "nat \<Rightarrow> (nat \<times> dinst) list \<Rightarrow> (nat \<times> dinst) list" where
  "slot_insts s xs = filter (\<lambda>(_, x). accesses s x) xs"

fun slots_of :: "(nat \<times> dinst) list \<Rightarrow> nat list" where
  "slots_of [] = []"
| "slots_of ((i, x) # xs) =
     (case x of
        Ld _ s _ \<Rightarrow> List.insert s (slots_of xs)
      | St s _ _ _ \<Rightarrow> List.insert s (slots_of xs)
      | Ext _ _ \<Rightarrow> slots_of xs)"

text \<open>\<^verbatim>\<open>getNumUses\<close>: how often a slot is an operand in the function.\<close>

definition opnd_uses :: "nat \<Rightarrow> opnd \<Rightarrow> nat" where
  "opnd_uses s v = (if v = SlotAddr s then 1 else 0)"

definition inst_uses :: "nat \<Rightarrow> dinst \<Rightarrow> nat" where
  "inst_uses s x =
     (case x of
        Ld _ s' _ \<Rightarrow> if s' = s then 1 else 0
      | St s' v _ _ \<Rightarrow> (if s' = s then 1 else 0) + opnd_uses s v
      | Ext _ vs \<Rightarrow> sum_list (map (opnd_uses s) vs))"

definition term_uses :: "nat \<Rightarrow> dterm \<Rightarrow> nat" where
  "term_uses s t =
     (case t of Br _ \<Rightarrow> 0 | CondBr c _ _ \<Rightarrow> opnd_uses s c | Ret vs \<Rightarrow> sum_list (map (opnd_uses s) vs))"

definition code_uses :: "nat \<Rightarrow> (nat \<times> dinst) list \<Rightarrow> nat" where
  "code_uses s xs = sum_list (map (\<lambda>(_, x). inst_uses s x) xs)"

definition getNumUses :: "nat \<Rightarrow> dfunc \<Rightarrow> nat" where
  "getNumUses s F = sum_list (map (\<lambda>B. code_uses s (code B) + term_uses s (dterm B)) F)"

text \<open>The backward walk over the accesses of one slot; the list is reversed. The result are the
  stores to erase.\<close>

fun eliminateDeadStoresForSlot :: "bool \<Rightarrow> (nat \<times> dinst) list \<Rightarrow> nat list" where
  "eliminateDeadStoresForSlot ValueNeeded [] = []"
| "eliminateDeadStoresForSlot ValueNeeded ((i, x) # xs) =
     (case x of
        Ld _ _ _ \<Rightarrow> eliminateDeadStoresForSlot True xs
      | St _ _ _ _ \<Rightarrow>
          (if ValueNeeded then eliminateDeadStoresForSlot False xs
           else i # eliminateDeadStoresForSlot False xs)
      | Ext _ _ \<Rightarrow> eliminateDeadStoresForSlot ValueNeeded xs)"

definition slot_step :: "(nat \<times> dinst) list \<Rightarrow> nat \<Rightarrow> bool \<times> dfunc \<Rightarrow> bool \<times> dfunc" where
  "slot_step xs s st =
     (case st of (changed, F) \<Rightarrow>
        let Insts = slot_insts s xs in
        if getNumUses s F = length Insts
        then
          let ds = eliminateDeadStoresForSlot False (rev Insts) in
          (changed \<or> ds \<noteq> [], fold erase ds F)
        else (changed, F))"

definition stores_step :: "(nat list \<Rightarrow> nat list) \<Rightarrow> nat \<Rightarrow> bool \<times> dfunc \<Rightarrow> bool \<times> dfunc" where
  "stores_step iter k st =
     (let xs = code (snd st ! k) in fold (slot_step xs) (iter (slots_of xs)) st)"

definition eliminateDeadStores :: "(nat list \<Rightarrow> nat list) \<Rightarrow> bool \<times> dfunc \<Rightarrow> bool \<times> dfunc" where
  "eliminateDeadStores iter st = fold (stores_step iter) [0..<length (snd st)] st"

subsection \<open>The pass\<close>

definition dce_round ::
  "(dfunc \<Rightarrow> nat \<Rightarrow> bool) \<Rightarrow> (dfunc \<Rightarrow> nat \<Rightarrow> dfunc option) \<Rightarrow> (nat list \<Rightarrow> nat list) \<Rightarrow> dfunc \<Rightarrow> bool \<times> dfunc" where
  "dce_round triv_dead simplify iter F =
     eliminateDeadStores iter
       (eliminateUselessBranchesAndBlocks simplify (eliminateDeadInstructions triv_dead (False, F)))"

partial_function (option) dce_run ::
  "(dfunc \<Rightarrow> nat \<Rightarrow> bool) \<Rightarrow> (dfunc \<Rightarrow> nat \<Rightarrow> dfunc option) \<Rightarrow> (nat list \<Rightarrow> nat list) \<Rightarrow> dfunc \<Rightarrow> dfunc option" where
  "dce_run triv_dead simplify iter F =
     (case dce_round triv_dead simplify iter F of (changed, F') \<Rightarrow>
        if changed then dce_run triv_dead simplify iter F' else Some F')"

subsection \<open>What a block does\<close>

text \<open>A run of the instructions of a block: registers, stack slots and the rest of the world. A slot is a sequence of bytes.
  \<open>ext\<close> is what the other instructions do. A volatile store is visible to the world.\<close>

type_synonym bytes = "nat \<Rightarrow> int"

definition load_bytes :: "nat \<Rightarrow> bytes \<Rightarrow> int" where
  "load_bytes n m = sum_list (map (\<lambda>j. m j * 256 ^ j) [0..<n])"

definition store_bytes :: "nat \<Rightarrow> int \<Rightarrow> bytes \<Rightarrow> bytes" where
  "store_bytes n v m = (\<lambda>j. if j < n then v div 256 ^ j mod 256 else m j)"

record 'w st =
  regs :: "nat \<Rightarrow> int"
  slots :: "nat \<Rightarrow> bytes"
  world :: 'w

type_synonym 'w ext = "nat \<Rightarrow> int list \<Rightarrow> (nat \<Rightarrow> bytes) \<Rightarrow> 'w \<Rightarrow> int \<times> (nat \<Rightarrow> bytes) \<times> 'w"

definition value_of :: "(nat \<Rightarrow> int) \<Rightarrow> 'w st \<Rightarrow> opnd \<Rightarrow> int" where
  "value_of addr s v = (case v of Imm i \<Rightarrow> i | Reg r \<Rightarrow> regs s r | SlotAddr a \<Rightarrow> addr a)"

definition exec_inst ::
  "'w ext \<Rightarrow> (nat \<Rightarrow> int \<Rightarrow> 'w \<Rightarrow> 'w) \<Rightarrow> (nat \<Rightarrow> int) \<Rightarrow> nat \<times> dinst \<Rightarrow> 'w st \<Rightarrow> 'w st" where
  "exec_inst ext vol addr ix s =
     (case ix of (i, x) \<Rightarrow>
        (case x of
           Ld r a n \<Rightarrow> s\<lparr>regs := (regs s)(r := load_bytes n (slots s a))\<rparr>
         | St a v vt n \<Rightarrow>
             s\<lparr>slots := (slots s)(a := store_bytes n (value_of addr s v) (slots s a)),
               world := (if vt then vol a (value_of addr s v) (world s) else world s)\<rparr>
         | Ext r vs \<Rightarrow>
             (case ext i (map (value_of addr s) vs) (slots s) (world s) of (v, sl, w) \<Rightarrow>
                s\<lparr>regs := (regs s)(r := v), slots := sl, world := w\<rparr>)))"

definition exec_code ::
  "'w ext \<Rightarrow> (nat \<Rightarrow> int \<Rightarrow> 'w \<Rightarrow> 'w) \<Rightarrow> (nat \<Rightarrow> int) \<Rightarrow> (nat \<times> dinst) list \<Rightarrow> 'w st \<Rightarrow> 'w st" where
  "exec_code ext vol addr xs s = fold (exec_inst ext vol addr) xs s"

end
