(* ===== verification/Dce_Correct.thy ===== *)
theory Dce_Correct
  imports Dce
begin

section \<open>Dead-code elimination ends and keeps the meaning of blocks\<close>

text \<open>
  Every change makes the function smaller, so the pass ends. Removing the dead stores of a block
  keeps what a run of the block computes: for one slot by a backward analysis, for all
  slots by composition.
\<close>

subsection \<open>Progress\<close>

definition block_size :: "dblock \<Rightarrow> nat" where
  "block_size B = length (code B) + (case dterm B of CondBr _ _ _ \<Rightarrow> 2 | _ \<Rightarrow> 1)"

definition func_size :: "dfunc \<Rightarrow> nat" where
  "func_size F = sum_list (map block_size F)"

definition ids :: "dfunc \<Rightarrow> nat list" where
  "ids F = concat (map (\<lambda>B. map fst (code B)) F)"

text \<open>One stage: nothing happens, or a change is noted and the function is smaller.\<close>

definition steps :: "bool \<times> dfunc \<Rightarrow> bool \<times> dfunc \<Rightarrow> bool" where
  "steps st st' \<longleftrightarrow> (st' = st \<or> fst st' \<and> func_size (snd st') < func_size (snd st)) \<and>
     (distinct (ids (snd st)) \<longrightarrow> distinct (ids (snd st')))"

lemma steps_refl [simp]: "steps st st"
  by (simp add: steps_def)

lemma steps_trans: "steps st st' \<Longrightarrow> steps st' st'' \<Longrightarrow> steps st st''"
  unfolding steps_def by auto

lemma erase_simps [simp]:
  "erase i [] = []" "erase i (B # F) = B\<lparr>code := filter (\<lambda>(j, _). j \<noteq> i) (code B)\<rparr> # erase i F"
  "length (erase i F) = length F"
  by (simp_all add: erase_def)

lemma set_ids: "set (ids F) = (\<Union>B \<in> set F. fst ` set (code B))"
  by (auto simp: ids_def)

lemma erase_block_size:
  "block_size (B\<lparr>code := filter (\<lambda>(j, _). j \<noteq> i) (code B)\<rparr>) \<le> block_size B"
  "i \<in> fst ` set (code B) \<Longrightarrow> block_size (B\<lparr>code := filter (\<lambda>(j, _). j \<noteq> i) (code B)\<rparr>) < block_size B"
proof -
  show "block_size (B\<lparr>code := filter (\<lambda>(j, _). j \<noteq> i) (code B)\<rparr>) \<le> block_size B" by (simp add: block_size_def)
  assume "i \<in> fst ` set (code B)"
  then obtain x where "(i, x) \<in> set (code B)" by auto
  then have "length (filter (\<lambda>(j, _). j \<noteq> i) (code B)) < length (code B)" by (intro length_filter_less) auto
  then show "block_size (B\<lparr>code := filter (\<lambda>(j, _). j \<noteq> i) (code B)\<rparr>) < block_size B" by (simp add: block_size_def)
qed

lemma erase_size:
  "func_size (erase i F) \<le> func_size F" "i \<in> set (ids F) \<Longrightarrow> func_size (erase i F) < func_size F"
proof -
  show le: "func_size (erase i F) \<le> func_size F" for F
    by (induction F) (simp_all add: func_size_def add_mono erase_block_size(1))
  show "i \<in> set (ids F) \<Longrightarrow> func_size (erase i F) < func_size F"
  proof (induction F)
    case (Cons B F)
    show ?case
    proof (cases "i \<in> fst ` set (code B)")
      case True
      then show ?thesis using erase_block_size(2) [OF True] le [of F] by (simp add: func_size_def)
    next
      case False
      then have "func_size (erase i F) < func_size F" using Cons by (auto simp: set_ids)
      then show ?thesis using erase_block_size(1) [of i B] by (simp add: func_size_def)
    qed
  qed (simp add: ids_def)
qed

lemma erase_ids: "ids (erase i F) = filter (\<lambda>j. j \<noteq> i) (ids F)"
proof (induction F)
  case (Cons B F)
  have "map fst (filter (\<lambda>(j, _). j \<noteq> i) xs) = filter (\<lambda>j. j \<noteq> i) (map fst xs)" for xs :: "(nat \<times> dinst) list"
    by (induction xs) auto
  then show ?case using Cons by (simp add: ids_def)
qed (simp add: ids_def)

lemma erase_steps: "i \<in> set (ids F) \<Longrightarrow> steps (c, F) (True, erase i F)"
  using erase_size(2) [of i F] by (simp add: steps_def erase_ids)

text \<open>The stages. LLVM reports an instruction of the function as dead, and a simplified block is
  removed.\<close>

definition triv_dead_ok :: "(dfunc \<Rightarrow> nat \<Rightarrow> bool) \<Rightarrow> bool" where
  "triv_dead_ok triv_dead \<longleftrightarrow> (\<forall>F i. triv_dead F i \<longrightarrow> i \<in> set (ids F))"

definition simplify_ok :: "(dfunc \<Rightarrow> nat \<Rightarrow> dfunc option) \<Rightarrow> bool" where
  "simplify_ok simplify \<longleftrightarrow>
     (\<forall>F l F'. simplify F l = Some F' \<longrightarrow> func_size F' < func_size F \<and> (distinct (ids F) \<longrightarrow> distinct (ids F')))"

definition iter_ok :: "(nat list \<Rightarrow> nat list) \<Rightarrow> bool" where
  "iter_ok iter \<longleftrightarrow> (\<forall>ss. distinct ss \<longrightarrow> distinct (iter ss) \<and> set (iter ss) = set ss)"

lemma erase_dead_steps: "triv_dead_ok td \<Longrightarrow> steps st (erase_dead td is st)"
proof (induction td "is" st rule: erase_dead.induct)
  case (2 td i "is" changed F)
  have "steps (changed, F) (if td F i then (True, erase i F) else (changed, F))"
    using erase_steps 2(2) by (auto simp: triv_dead_ok_def)
  then show ?case using 2 steps_trans by (metis erase_dead.simps(2))
qed simp

lemma simplify_branch_size:
  "block_size (snd (simplify_branch B)) \<le> block_size B"
  "fst (simplify_branch B) \<Longrightarrow> block_size (snd (simplify_branch B)) < block_size B"
  "\<not> fst (simplify_branch B) \<Longrightarrow> snd (simplify_branch B) = B" "code (snd (simplify_branch B)) = code B"
  by (auto simp: simplify_branch_def block_size_def split: dterm.splits if_splits)

lemma map_branch_size:
  defines "m \<equiv> \<lambda>l. map (\<lambda>B. if label B = l then snd (simplify_branch B) else B)"
  shows "func_size (m l F) \<le> func_size F" "ids (m l F) = ids F"
    "\<exists>B \<in> set F. label B = l \<and> fst (simplify_branch B) \<Longrightarrow> func_size (m l F) < func_size F"
    "\<not> (\<exists>B \<in> set F. label B = l \<and> fst (simplify_branch B)) \<Longrightarrow> m l F = F"
proof -
  show le: "func_size (m l F) \<le> func_size F" for F
    by (induction F) (simp_all add: m_def func_size_def add_mono simplify_branch_size(1))
  show "ids (m l F) = ids F"
    by (induction F) (simp_all add: m_def ids_def simplify_branch_size(4))
  show "\<exists>B \<in> set F. label B = l \<and> fst (simplify_branch B) \<Longrightarrow> func_size (m l F) < func_size F"
  proof (induction F)
    case (Cons B F)
    show ?case
    proof (cases "label B = l \<and> fst (simplify_branch B)")
      case True
      then show ?thesis using le [of F] simplify_branch_size(2) [of B] by (simp add: m_def func_size_def)
    next
      case False
      then have "func_size (m l F) < func_size F" using Cons by auto
      then show ?thesis using simplify_branch_size(1) [of B] by (auto simp: m_def func_size_def)
    qed
  qed simp
  show "\<not> (\<exists>B \<in> set F. label B = l \<and> fst (simplify_branch B)) \<Longrightarrow> m l F = F"
    by (induction F) (auto simp: m_def simplify_branch_size(3))
qed

lemma branch_step_steps:
  assumes "simplify_ok simplify"
  shows "steps st (branch_step simplify l st)"
proof -
  obtain c F where st: "st = (c, F)" by fastforce
  define G where "G = map (\<lambda>B. if label B = l then snd (simplify_branch B) else B) F"
  define ch where "ch = (\<exists>B \<in> set F. label B = l \<and> fst (simplify_branch B))"
  note m = map_branch_size [where l = l and F = F, folded G_def ch_def]
  have 1: "steps (c, F) (c \<or> ch, G)" using m by (cases ch) (auto simp: steps_def)
  have b: "branch_step simplify l st =
      (if \<exists>B \<in> set G. label B = l \<and> code B = [] \<and> (\<exists>m. dterm B = Br m)
       then (case simplify G l of None \<Rightarrow> (c \<or> ch, G) | Some F' \<Rightarrow> (True, F')) else (c \<or> ch, G))"
    by (simp only: branch_step_def st prod.case Let_def G_def ch_def)
  have "steps (c, F) (True, F')" if "simplify G l = Some F'" for F'
  proof -
    have "func_size F' < func_size G" "distinct (ids G) \<longrightarrow> distinct (ids F')"
      using assms that unfolding simplify_ok_def by blast+
    then show ?thesis using m(1,2) by (simp add: steps_def)
  qed
  then show ?thesis unfolding b unfolding st using 1 by (auto split: option.split)
qed

lemma fold_steps: "(\<And>x st. steps st (f x st)) \<Longrightarrow> steps st (fold f xs st)"
proof (induction xs arbitrary: st)
  case (Cons x xs)
  then show ?case using steps_trans [of st "f x st"] by (metis fold_simps(2))
qed simp

subsection \<open>Dead stores: which instructions go\<close>

lemma dead_stores_subset: "set (eliminateDeadStoresForSlot need xs) \<subseteq> fst ` set xs"
proof (induction need xs rule: eliminateDeadStoresForSlot.induct)
  case (2 need i x xs)
  then show ?case by (cases x; cases need) auto
qed simp

lemma fold_erase_ids: "ids (fold erase ds F) = filter (\<lambda>j. j \<notin> set ds) (ids F)"
  by (induction ds arbitrary: F) (simp_all add: erase_ids conj_commute)

lemma fold_erase_steps:
  "set ds \<subseteq> set (ids F) \<Longrightarrow> steps (c, F) (c \<or> ds \<noteq> [], fold erase ds F)"
proof (cases ds)
  case (Cons i js)
  assume "set ds \<subseteq> set (ids F)"
  then have "func_size (erase i F) < func_size F" using erase_size(2) Cons by simp
  moreover have "func_size (fold erase js G) \<le> func_size G" for G
    using erase_size(1) by (induction js arbitrary: G) (auto intro: order_trans)
  moreover have "distinct (ids F) \<longrightarrow> distinct (ids (fold erase ds F))" by (simp add: fold_erase_ids)
  ultimately show ?thesis using Cons by (auto simp: steps_def intro: le_less_trans)
qed simp

lemma slot_insts_disjoint:
  assumes "distinct (map fst xs)" and "s \<noteq> t"
  shows "fst ` set (slot_insts s xs) \<inter> fst ` set (slot_insts t xs) = {}"
proof (rule ccontr)
  assume "fst ` set (slot_insts s xs) \<inter> fst ` set (slot_insts t xs) \<noteq> {}"
  then obtain i x y where "(i, x) \<in> set xs" "(i, y) \<in> set xs" "accesses s x" "accesses t y" by (auto simp: slot_insts_def)
  then have "x = y" using assms(1) by (meson eq_key_imp_eq_value)
  then show False using \<open>accesses s x\<close> \<open>accesses t y\<close> assms(2) by (auto simp: accesses_def split: dinst.splits)
qed

text \<open>One step over a slot, when the accesses of the slot are still there.\<close>

lemma slot_step_cases:
  assumes here: "fst ` set (slot_insts s xs) \<subseteq> set (ids F)"
  obtains "slot_step xs s (c, F) = (c, F)"
  | ds where "getNumUses s F = length (slot_insts s xs)" "ds = eliminateDeadStoresForSlot False (rev (slot_insts s xs))"
      "set ds \<subseteq> fst ` set (slot_insts s xs)" "slot_step xs s (c, F) = (c \<or> ds \<noteq> [], fold erase ds F)"
      "steps (c, F) (c \<or> ds \<noteq> [], fold erase ds F)"
proof (cases "getNumUses s F = length (slot_insts s xs)")
  case False
  then show ?thesis using that(1) by (simp add: slot_step_def)
next
  case True
  let ?ds = "eliminateDeadStoresForSlot False (rev (slot_insts s xs))"
  have sub: "set ?ds \<subseteq> fst ` set (slot_insts s xs)" using dead_stores_subset [of False "rev (slot_insts s xs)"] by simp
  then show ?thesis using that(2) [OF True refl sub] True fold_erase_steps [of ?ds F c] here
    by (simp add: slot_step_def Let_def)
qed

lemma slots_fold_steps:
  assumes dx: "distinct (map fst xs)"
  shows "distinct ss \<Longrightarrow> \<forall>s \<in> set ss. fst ` set (slot_insts s xs) \<subseteq> set (ids (snd st)) \<Longrightarrow> steps st (fold (slot_step xs) ss st)"
proof (induction ss arbitrary: st)
  case (Cons s ss)
  obtain c F where st: "st = (c, F)" by fastforce
  have here: "fst ` set (slot_insts s xs) \<subseteq> set (ids F)" using Cons.prems st by simp
  show ?case
  proof (cases rule: slot_step_cases [OF here, of c])
    case 1
    then show ?thesis using Cons st by simp
  next
    case (2 ds)
    let ?st = "slot_step xs s (c, F)"
    have "fst ` set (slot_insts t xs) \<subseteq> set (ids (snd ?st))" if "t \<in> set ss" for t
    proof -
      have "s \<noteq> t" using Cons.prems(1) that by auto
      then have "fst ` set (slot_insts t xs) \<inter> set ds = {}" using slot_insts_disjoint [OF dx, of s t] 2(3) by blast
      moreover have "fst ` set (slot_insts t xs) \<subseteq> set (ids F)" using Cons.prems(2) that st by simp
      ultimately show ?thesis using 2(4) by (auto simp: fold_erase_ids)
    qed
    then have "steps ?st (fold (slot_step xs) ss ?st)" using Cons by (intro Cons.IH) auto
    then show ?thesis using steps_trans [of st ?st] 2(4,5) st by simp
  qed
qed simp

lemma slots_of_distinct: "distinct (slots_of xs)"
  by (induction xs rule: slots_of.induct) (auto split: dinst.splits)

lemma distinct_ids_block: "distinct (ids F) \<Longrightarrow> k < length F \<Longrightarrow> distinct (map fst (code (F ! k)))"
  by (metis (no_types, lifting) distinct_concat_iff ids_def length_map nth_map nth_mem)

lemma block_ids: "k < length F \<Longrightarrow> fst ` set (slot_insts s (code (F ! k))) \<subseteq> set (ids F)"
  by (force simp: set_ids slot_insts_def)

lemma stores_step_steps:
  assumes "iter_ok iter" and "distinct (ids (snd st))" and "k < length (snd st)"
  shows "steps st (stores_step iter k st)"
  using slots_fold_steps [OF distinct_ids_block [OF assms(2,3)], of "iter (slots_of (code (snd st ! k)))" st]
    block_ids [OF assms(3)] assms(1) slots_of_distinct by (simp add: stores_step_def Let_def iter_ok_def)

lemma slot_step_length [simp]: "length (snd (slot_step xs s st)) = length (snd st)"
proof -
  have "length (fold erase ds F) = length F" for ds F by (induction ds arbitrary: F) simp_all
  then show ?thesis by (cases st) (simp add: slot_step_def Let_def)
qed

lemma stores_step_length [simp]: "length (snd (stores_step iter k st)) = length (snd st)"
proof -
  have "length (snd (fold (slot_step xs) ss st)) = length (snd st)" for xs ss by (induction ss arbitrary: st) simp_all
  then show ?thesis by (simp add: stores_step_def Let_def)
qed

lemma eliminateDeadStores_steps:
  assumes "iter_ok iter" and "distinct (ids (snd st))"
  shows "steps st (eliminateDeadStores iter st)"
proof -
  have "distinct (ids (snd st)) \<Longrightarrow> set ks \<subseteq> {..<length (snd st)} \<Longrightarrow> steps st (fold (stores_step iter) ks st)" for ks
  proof (induction ks arbitrary: st)
    case (Cons k ks)
    then have 1: "steps st (stores_step iter k st)" using stores_step_steps [OF assms(1)] by simp
    then have "distinct (ids (snd (stores_step iter k st)))" using Cons.prems(1) by (simp add: steps_def)
    then have "steps (stores_step iter k st) (fold (stores_step iter) ks (stores_step iter k st))"
      using Cons.prems by (intro Cons.IH) simp_all
    then show ?case using 1 steps_trans by simp
  qed simp
  then show ?thesis using assms(2) by (auto simp: eliminateDeadStores_def atLeast0LessThan)
qed

lemma dce_round_steps:
  assumes "triv_dead_ok td" "simplify_ok simplify" "iter_ok iter" "distinct (ids F)"
  shows "steps (False, F) (dce_round td simplify iter F)"
proof -
  let ?a = "eliminateDeadInstructions td (False, F)"
  let ?b = "eliminateUselessBranchesAndBlocks simplify ?a"
  have 1: "steps (False, F) ?a" unfolding eliminateDeadInstructions_def by (rule erase_dead_steps [OF assms(1)])
  have 2: "steps ?a ?b" unfolding eliminateUselessBranchesAndBlocks_def by (rule fold_steps [OF branch_step_steps [OF assms(2)]])
  have d: "distinct (ids (snd ?b))" using 1 2 assms(4) by (simp add: steps_def)
  have 3: "steps ?b (dce_round td simplify iter F)"
    unfolding dce_round_def by (rule eliminateDeadStores_steps [OF assms(3) d])
  show ?thesis using 1 2 3 steps_trans by blast
qed

subsection \<open>Dead stores: one slot\<close>

text \<open>The other instructions do not touch a slot whose address they cannot have.\<close>

definition leaves_alone :: "'w ext \<Rightarrow> nat \<Rightarrow> bool" where
  "leaves_alone ext s \<longleftrightarrow>
     (\<forall>i as sl sl' w. (\<forall>t. t \<noteq> s \<longrightarrow> sl t = sl' t) \<longrightarrow>
        (case ext i as sl w of (v, a, w1) \<Rightarrow> case ext i as sl' w of (v', b, w2) \<Rightarrow>
           v = v' \<and> w1 = w2 \<and> (\<forall>t. t \<noteq> s \<longrightarrow> a t = b t) \<and> a s = sl s \<and> b s = sl' s))"

definition agree :: "nat set \<Rightarrow> 'w st \<Rightarrow> 'w st \<Rightarrow> bool" where
  "agree Q a b \<longleftrightarrow> regs a = regs b \<and> world a = world b \<and> (\<forall>t. t \<notin> Q \<longrightarrow> slots a t = slots b t)"

text \<open>All accesses of a slot have the same width.\<close>

definition width_ok :: "(nat \<Rightarrow> nat) \<Rightarrow> dinst \<Rightarrow> bool" where
  "width_ok wd x = (case x of Ld _ s n \<Rightarrow> n = wd s | St s _ _ n \<Rightarrow> n = wd s | Ext _ _ \<Rightarrow> True)"

lemma load_bytes_cong: "\<forall>j < n. m j = m' j \<Longrightarrow> load_bytes n m = load_bytes n m'"
  unfolding load_bytes_def by (rule arg_cong [where f = sum_list]) simp

lemma load_store_bytes:
  assumes "0 \<le> v" "v < 256 ^ n"
  shows "load_bytes n (store_bytes n v m) = v"
proof -
  have "sum_list (map (\<lambda>j. v div 256 ^ j mod 256 * 256 ^ j) [0..<k]) = v mod 256 ^ k" for k
  proof (induction k)
    case (Suc k)
    have "v mod 256 ^ Suc k = 256 ^ k * (v div 256 ^ k mod 256) + v mod 256 ^ k"
      using zmod_zmult2_eq [of 256 v "256 ^ k"] by (simp add: mult.commute)
    then show ?case using Suc by (simp add: mult.commute)
  qed simp
  then have "sum_list (map (\<lambda>j. v div 256 ^ j mod 256 * 256 ^ j) [0..<n]) = v" using assms by simp
  moreover have "load_bytes n (store_bytes n v m) = sum_list (map (\<lambda>j. v div 256 ^ j mod 256 * 256 ^ j) [0..<n])"
    unfolding load_bytes_def by (rule arg_cong [where f = sum_list]) (simp add: store_bytes_def)
  ultimately show ?thesis by simp
qed

text \<open>The result of the backward walk, as a forward recursion.\<close>

fun live_code :: "nat \<Rightarrow> (nat \<times> dinst) list \<Rightarrow> (nat \<times> dinst) list \<times> bool" where
  "live_code s [] = ([], False)"
| "live_code s ((i, x) # xs) =
     (case live_code s xs of (ys, need) \<Rightarrow>
        if \<not> accesses s x then ((i, x) # ys, need)
        else (case x of St _ _ _ _ \<Rightarrow> (if need then (i, x) # ys else ys, False) | _ \<Rightarrow> ((i, x) # ys, True)))"

text \<open>The walk along a list that is extended at its far end.\<close>

definition walk_need :: "bool \<Rightarrow> (nat \<times> dinst) list \<Rightarrow> bool" where
  "walk_need need xs = (case filter (\<lambda>(_, x). \<forall>r vs. x \<noteq> Ext r vs) (rev xs) of [] \<Rightarrow> need
     | (_, x) # _ \<Rightarrow> (case x of Ld _ _ _ \<Rightarrow> True | _ \<Rightarrow> False))"

lemma walk_append:
  "eliminateDeadStoresForSlot need (xs @ [(i, x)]) = eliminateDeadStoresForSlot need xs @
     (case x of St _ _ _ _ \<Rightarrow> if walk_need need xs then [] else [i] | _ \<Rightarrow> [])"
proof (induction need xs rule: eliminateDeadStoresForSlot.induct)
  case (1 need)
  then show ?case by (simp add: walk_need_def split: dinst.split)
next
  case (2 need j y xs)
  have w: "walk_need need ((j, y) # xs) = walk_need (case y of Ld _ _ _ \<Rightarrow> True | St _ _ _ _ \<Rightarrow> False | Ext _ _ \<Rightarrow> need) xs"
    by (auto simp: walk_need_def split: dinst.splits list.splits)
  show ?case using 2 w by (cases y; cases need) (simp_all split: dinst.split)
qed

lemma live_code_walk:
  "distinct (map fst xs) \<Longrightarrow>
    fst (live_code s xs) = filter (\<lambda>(j, _). j \<notin> set (eliminateDeadStoresForSlot False (rev (slot_insts s xs)))) xs \<and>
    snd (live_code s xs) = walk_need False (rev (slot_insts s xs))"
proof (induction s xs rule: live_code.induct)
  case (1 s)
  then show ?case by (simp add: slot_insts_def walk_need_def)
next
  case (2 s i x xs)
  let ?D = "set (eliminateDeadStoresForSlot False (rev (slot_insts s xs)))"
  have "?D \<subseteq> fst ` set xs" using dead_stores_subset [of False "rev (slot_insts s xs)"] by (auto simp: slot_insts_def)
  then have i: "i \<notin> ?D" "i \<notin> fst ` set xs" using 2(2) by auto
  have fx: "filter (\<lambda>(j, _). j \<notin> insert i ?D) xs = filter (\<lambda>(j, _). j \<notin> ?D) xs"
    "filter (\<lambda>(j, _). j \<notin> ?D \<and> j \<noteq> i) xs = filter (\<lambda>(j, _). j \<notin> ?D) xs"
    using i(2) by (intro filter_cong; force)+
  have IH: "fst (live_code s xs) = filter (\<lambda>(j, _). j \<notin> ?D) xs"
    "snd (live_code s xs) = walk_need False (rev (slot_insts s xs))" using 2 by simp_all
  show ?case
  proof (cases "accesses s x")
    case False
    then have "slot_insts s ((i, x) # xs) = slot_insts s xs" by (simp add: slot_insts_def)
    then show ?thesis using IH i False by (cases "live_code s xs") simp
  next
    case True
    have sl: "rev (slot_insts s ((i, x) # xs)) = rev (slot_insts s xs) @ [(i, x)]" using True by (simp add: slot_insts_def)
    have wn: "walk_need False (rev (slot_insts s xs) @ [(i, x)]) = (case x of Ld _ _ _ \<Rightarrow> True | _ \<Rightarrow> False)"
      using True by (auto simp: walk_need_def accesses_def split: dinst.splits)
    show ?thesis
      using True IH i fx unfolding sl wn walk_append
      by (cases x; cases "live_code s xs") (auto simp: accesses_def)
  qed
qed

lemma value_of_agree: "agree Q a b \<Longrightarrow> value_of addr a v = value_of addr b v"
  by (simp add: agree_def value_of_def split: opnd.split)

lemma live_code_sound:
  assumes rs: "leaves_alone ext s"
  shows "\<forall>(i, x) \<in> set xs. (\<forall>a v n. x \<noteq> St a v True n) \<and> width_ok wd x \<Longrightarrow> agree {s} a b \<Longrightarrow>
    (snd (live_code s xs) \<longrightarrow> (\<forall>j < wd s. slots a s j = slots b s j)) \<Longrightarrow>
    agree {s} (exec_code ext vol addr xs a) (exec_code ext vol addr (fst (live_code s xs)) b)"
proof (induction xs arbitrary: a b)
  case Nil
  then show ?case by (simp add: exec_code_def)
next
  case (Cons ix xs)
  obtain i x where ix: "ix = (i, x)" by fastforce
  obtain ys need where lc: "live_code s xs = (ys, need)" by fastforce
  have vol: "\<forall>(i, x) \<in> set xs. (\<forall>a v n. x \<noteq> St a v True n) \<and> width_ok wd x" using Cons.prems(1) by auto
  note ag = Cons.prems(2) and ev = value_of_agree [OF Cons.prems(2)]
  have IH: "agree {s} (exec_code ext vol addr xs a') (exec_code ext vol addr ys b')"
    if "agree {s} a' b'" "need \<longrightarrow> (\<forall>j < wd s. slots a' s j = slots b' s j)" for a' b'
    using Cons.IH [OF vol that(1)] that(2) lc by simp
  have keep: "agree {s} (exec_code ext vol addr (ix # xs) a) (exec_code ext vol addr (ix # ys) b)"
    if "agree {s} (exec_inst ext vol addr ix a) (exec_inst ext vol addr ix b)"
      "need \<longrightarrow> (\<forall>j < wd s. slots (exec_inst ext vol addr ix a) s j = slots (exec_inst ext vol addr ix b) s j)"
    using IH [OF that] by (simp add: exec_code_def)
  show ?case
  proof (cases x)
    case (Ld r t n)
    have "n = wd t" using Cons.prems(1) ix Ld by (auto simp: width_ok_def)
    then have "\<forall>j < n. slots a t j = slots b t j"
      using ag Cons.prems(3) ix lc Ld by (cases "t = s") (auto simp: agree_def accesses_def)
    then have "load_bytes n (slots a t) = load_bytes n (slots b t)" by (rule load_bytes_cong)
    then have "agree {s} (exec_inst ext vol addr ix a) (exec_inst ext vol addr ix b)" using ag ix Ld by (auto simp: exec_inst_def agree_def)
    then show ?thesis using keep Cons.prems(3) ix lc Ld by (auto simp: exec_inst_def accesses_def split: if_splits)
  next
    case (St t v vt n)
    then have nv: "\<not> vt" and n: "n = wd t" using Cons.prems(1) ix by (auto simp: width_ok_def)
    show ?thesis
    proof (cases "t = s \<and> \<not> need")
      case True
      have "agree {s} (exec_inst ext vol addr ix a) b" using ag ix St True nv by (auto simp: exec_inst_def agree_def)
      then have "agree {s} (exec_code ext vol addr (ix # xs) a) (exec_code ext vol addr ys b)"
        using IH [of "exec_inst ext vol addr ix a" b] True by (simp add: exec_code_def)
      then show ?thesis using ix lc St True by (simp add: accesses_def)
    next
      case False
      have "agree {s} (exec_inst ext vol addr ix a) (exec_inst ext vol addr ix b)"
        "need \<longrightarrow> (\<forall>j < wd s. slots (exec_inst ext vol addr ix a) s j = slots (exec_inst ext vol addr ix b) s j)"
        using ag ev Cons.prems(3) ix St nv n lc by (auto simp: exec_inst_def agree_def accesses_def store_bytes_def split: if_splits)
      then show ?thesis using keep ix lc St False by (auto simp: accesses_def)
    qed
  next
    case (Ext r vs)
    have as: "map (value_of addr a) vs = map (value_of addr b) vs" using ev by simp
    obtain v sl w where ea: "ext i (map (value_of addr a) vs) (slots a) (world a) = (v, sl, w)" by (metis prod_cases3)
    obtain v' sl' w' where eb: "ext i (map (value_of addr b) vs) (slots b) (world b) = (v', sl', w')" by (metis prod_cases3)
    have "\<forall>t. t \<noteq> s \<longrightarrow> slots a t = slots b t" and wb: "world b = world a" using ag by (auto simp: agree_def)
    then have e: "v = v'" "w = w'" "\<forall>t. t \<noteq> s \<longrightarrow> sl t = sl' t" "sl s = slots a s" "sl' s = slots b s"
      using rs [unfolded leaves_alone_def, rule_format, of "slots a" "slots b" i "map (value_of addr b) vs" "world a"] ea eb as by auto
    have "agree {s} (exec_inst ext vol addr ix a) (exec_inst ext vol addr ix b)"
      using ag ix Ext ea eb e by (auto simp: exec_inst_def agree_def)
    moreover have "need \<longrightarrow> (\<forall>j < wd s. slots (exec_inst ext vol addr ix a) s j = slots (exec_inst ext vol addr ix b) s j)"
      using ix Ext ea eb e Cons.prems(3) lc by (auto simp: exec_inst_def accesses_def)
    ultimately show ?thesis using keep ix lc Ext by (simp add: accesses_def)
  qed
qed

subsection \<open>Dead stores: all slots of a block\<close>

text \<open>A slot is private to block \<open>k\<close> when all its uses are direct accesses in that block.\<close>

definition private_slot :: "nat \<Rightarrow> nat \<Rightarrow> dfunc \<Rightarrow> bool" where
  "private_slot k s F \<longleftrightarrow> getNumUses s F = length (slot_insts s (code (F ! k)))"

definition other_uses :: "nat \<Rightarrow> (nat \<times> dinst) list \<Rightarrow> nat" where
  "other_uses s xs = sum_list (map (\<lambda>(_, x). inst_uses s x - (if accesses s x then 1 else 0)) xs)"

lemma code_uses_split: "code_uses s xs = length (slot_insts s xs) + other_uses s xs"
  by (induction xs)
    (auto simp: code_uses_def slot_insts_def other_uses_def accesses_def inst_uses_def split: dinst.splits)

lemma uses_filter:
  "code_uses s (filter p xs) \<le> code_uses s xs" "other_uses s (filter p xs) \<le> other_uses s xs"
  by (induction xs) (auto simp: code_uses_def other_uses_def)

lemma getNumUses_at:
  assumes "k < length F"
  shows "getNumUses s F = length (slot_insts s (code (F ! k))) + (other_uses s (code (F ! k)) + term_uses s (dterm (F ! k)) +
    (getNumUses s (take k F) + getNumUses s (drop (Suc k) F)))"
proof -
  have "getNumUses s F = getNumUses s (take k F @ F ! k # drop (Suc k) F)" using id_take_nth_drop [OF assms] by simp
  then show ?thesis by (simp add: getNumUses_def code_uses_split)
qed

lemma erase_uses: "getNumUses s (erase i F) \<le> getNumUses s F"
  by (induction F) (auto simp: getNumUses_def add_mono uses_filter)

lemma erase_parts:
  "take k (erase i F) = erase i (take k F)" "drop k (erase i F) = erase i (drop k F)"
  "k < length F \<Longrightarrow> code (erase i F ! k) = filter (\<lambda>(j, _). j \<noteq> i) (code (F ! k))"
  "k < length F \<Longrightarrow> dterm (erase i F ! k) = dterm (F ! k)"
  by (simp_all add: erase_def take_map drop_map)

lemma erase_private: "k < length F \<Longrightarrow> private_slot k s F \<Longrightarrow> private_slot k s (erase i F)"
  unfolding private_slot_def
  using getNumUses_at [of k F s] getNumUses_at [of k "erase i F" s] erase_uses [of s i "take k F"]
    erase_uses [of s i "drop (Suc k) F"] uses_filter(2) [of s "\<lambda>(j, _). j \<noteq> i" "code (F ! k)"]
  by (simp add: erase_parts)

lemma fold_erase_at:
  "k < length F \<Longrightarrow> fold erase ds F ! k = (F ! k)\<lparr>code := filter (\<lambda>(j, _). j \<notin> set ds) (code (F ! k))\<rparr>"
proof (induction ds arbitrary: F)
  case (Cons d ds)
  then show ?case by (simp add: erase_def) (auto intro!: arg_cong [where f = "\<lambda>xs. (F ! k)\<lparr>code := xs\<rparr>"] filter_cong)
qed simp

lemma fold_erase_private: "k < length F \<Longrightarrow> private_slot k s F \<Longrightarrow> private_slot k s (fold erase ds F)"
  by (induction ds arbitrary: F) (simp_all add: erase_private)

lemma slot_step_private: "k < length (snd st) \<Longrightarrow> private_slot k s (snd st) \<Longrightarrow> private_slot k s (snd (slot_step xs t st))"
  using fold_erase_private by (cases st) (auto simp: slot_step_def Let_def)

lemma slots_private:
  "k < length (snd st) \<Longrightarrow> private_slot k s (snd st) \<Longrightarrow> private_slot k s (snd (fold (slot_step xs) ss st))"
  by (induction ss arbitrary: st) (simp_all add: slot_step_private)

lemma agree_trans: "agree Q a b \<Longrightarrow> agree Q b c \<Longrightarrow> agree Q a c"
  by (simp add: agree_def)

lemma agree_mono: "agree Q a b \<Longrightarrow> Q \<subseteq> Q' \<Longrightarrow> agree Q' a b"
  by (auto simp: agree_def)

lemma ids_other_block:
  assumes "distinct (ids F)" and "k < length F" "j < length F" "j \<noteq> k" and "i \<in> fst ` set (code (F ! k))"
  shows "i \<notin> fst ` set (code (F ! j))"
proof -
  have *: "set (map fst (code (F ! a))) \<inter> set (map fst (code (F ! b))) = {}" if "a < b" "b < length F" for a b
  proof -
    have F: "F = take a F @ F ! a # drop (Suc a) F" using id_take_nth_drop that by (metis less_trans)
    have "F ! b = drop (Suc a) F ! (b - Suc a)" "b - Suc a < length (drop (Suc a) F)" using that by simp_all
    then have "F ! b \<in> set (drop (Suc a) F)" by (metis nth_mem)
    then have "set (map fst (code (F ! b))) \<subseteq> set (ids (drop (Suc a) F))" by (auto simp: set_ids)
    moreover have "distinct (ids (take a F) @ map fst (code (F ! a)) @ ids (drop (Suc a) F))"
      using assms(1) F by (metis (no_types, lifting) concat.simps(2) concat_append ids_def list.simps(9) map_append)
    ultimately show ?thesis by auto
  qed
  show ?thesis using *[of j k] *[of k j] assms by (cases "j < k") auto
qed

lemma slots_fold_sound:
  assumes dx: "distinct (map fst xs)" and ext: "\<And>s. private_slot k s (snd (fold (slot_step xs) ss st)) \<Longrightarrow> leaves_alone ext s"
    and "k < length (snd st)" and "distinct (ids (snd st))" and "distinct ss"
    and "\<forall>s \<in> set ss. slot_insts s (code (snd st ! k)) = slot_insts s xs"
    and "\<forall>(i, x) \<in> set (code (snd st ! k)). (\<forall>a v n. x \<noteq> St a v True n) \<and> width_ok wd x"
  shows "agree {s \<in> set ss. private_slot k s (snd (fold (slot_step xs) ss st))}
      (exec_code ext vol addr (code (snd st ! k)) a) (exec_code ext vol addr (code (snd (fold (slot_step xs) ss st) ! k)) a) \<and>
    (\<forall>j < length (snd st). j \<noteq> k \<longrightarrow> snd (fold (slot_step xs) ss st) ! j = snd st ! j)"
  using assms
proof (induction ss arbitrary: st)
  case Nil
  then show ?case by (simp add: agree_def)
next
  case (Cons s ss)
  obtain c F where st: "st = (c, F)" by fastforce
  have k: "k < length F" and dF: "distinct (ids F)" using Cons.prems st by simp_all
  have si: "slot_insts s (code (F ! k)) = slot_insts s xs" using Cons.prems(6) st by simp
  have here: "fst ` set (slot_insts s xs) \<subseteq> set (ids F)" using block_ids [OF k, of s] si by simp
  let ?st = "slot_step xs s st"
  show ?case
  proof (cases rule: slot_step_cases [OF here, of c])
    case 1
    then have e: "fold (slot_step xs) (s # ss) st = fold (slot_step xs) ss st" using st by simp
    have "agree {s \<in> set ss. private_slot k s (snd (fold (slot_step xs) ss st))}
        (exec_code ext vol addr (code (snd st ! k)) a) (exec_code ext vol addr (code (snd (fold (slot_step xs) ss st) ! k)) a) \<and>
      (\<forall>j < length (snd st). j \<noteq> k \<longrightarrow> snd (fold (slot_step xs) ss st) ! j = snd st ! j)"
    proof (rule Cons.IH [OF dx _ Cons.prems(3,4) _ _ Cons.prems(7)])
      show "\<And>s. private_slot k s (snd (fold (slot_step xs) ss st)) \<Longrightarrow> leaves_alone ext s" using Cons.prems(2) unfolding e .
      show "distinct ss" "\<forall>s \<in> set ss. slot_insts s (code (snd st ! k)) = slot_insts s xs" using Cons.prems(5,6) by simp_all
    qed
    then show ?thesis unfolding e by (auto elim: agree_mono)
  next
    case (2 ds)
    let ?F = "fold erase ds F"
    let ?fin = "snd (fold (slot_step xs) ss ?st)"
    have F': "snd ?st = ?F" using 2(4) st by simp
    have dk: "distinct (map fst (code (F ! k)))" by (rule distinct_ids_block [OF dF k])
    have code: "code (?F ! k) = fst (live_code s (code (F ! k)))"
      using live_code_walk [OF dk, of s] fold_erase_at [OF k, of ds] si 2(2) by simp
    have pr: "private_slot k s F" using 2(1) si by (simp add: private_slot_def)
    then have pe: "private_slot k s ?fin" using slots_private [of k ?st s xs ss] fold_erase_private [OF k pr] k F'
      by (metis slot_step_length snd_conv st)
    have la: "leaves_alone ext s" using Cons.prems(2) [of s] pe by simp
    have "\<forall>(i, x) \<in> set (code (F ! k)). (\<forall>a v n. x \<noteq> St a v True n) \<and> width_ok wd x" using Cons.prems(7) st by simp
    from live_code_sound [OF la this, of a a vol addr]
    have 1: "agree {s} (exec_code ext vol addr (code (F ! k)) a) (exec_code ext vol addr (code (?F ! k)) a)"
      unfolding code by (simp add: agree_def)
    have ds: "set ds \<subseteq> fst ` set (slot_insts s xs)" by (rule 2(3))
    have oth: "slot_insts t (code (?F ! k)) = slot_insts t xs" if "t \<in> set ss" for t
    proof -
      have "s \<noteq> t" using Cons.prems(5) that by auto
      then have dis: "fst ` set (slot_insts t xs) \<inter> set ds = {}" using slot_insts_disjoint [OF dx, of s t] ds by blast
      have "slot_insts t (code (?F ! k)) = filter (\<lambda>(j, _). j \<notin> set ds) (slot_insts t (code (F ! k)))"
        using fold_erase_at [OF k, of ds] by (simp add: slot_insts_def conj_commute case_prod_beta)
      also have "slot_insts t (code (F ! k)) = slot_insts t xs" using Cons.prems(6) that st by simp
      finally show ?thesis using dis by (auto simp: filter_id_conv)
    qed
    have same: "?F ! j = F ! j" if "j < length F" "j \<noteq> k" for j
    proof -
      have "set (slot_insts s xs) \<subseteq> set (code (F ! k))" unfolding si [symmetric] by (auto simp: slot_insts_def)
      then have sub: "set ds \<subseteq> fst ` set (code (F ! k))" using ds by blast
      have "i \<notin> set ds" if "(i, x) \<in> set (code (F ! j))" for i x
      proof
        assume "i \<in> set ds"
        then have "i \<notin> fst ` set (code (F ! j))" using ids_other_block [OF dF k \<open>j < length F\<close> \<open>j \<noteq> k\<close>] sub by blast
        then show False using that by force
      qed
      then have "filter (\<lambda>(i, _). i \<notin> set ds) (code (F ! j)) = code (F ! j)" by (auto simp: filter_id_conv)
      then show ?thesis using fold_erase_at [OF that(1), of ds] by simp
    qed
    have IH: "agree {s \<in> set ss. private_slot k s ?fin} (exec_code ext vol addr (code (?F ! k)) a) (exec_code ext vol addr (code (?fin ! k)) a) \<and>
        (\<forall>j < length ?F. j \<noteq> k \<longrightarrow> ?fin ! j = ?F ! j)"
      unfolding F' [symmetric]
    proof (rule Cons.IH [OF dx])
      show "\<And>s. private_slot k s (snd (fold (slot_step xs) ss ?st)) \<Longrightarrow> leaves_alone ext s" using Cons.prems(2) by simp
      show "k < length (snd ?st)" "distinct ss" using Cons.prems by simp_all
      show "distinct (ids (snd ?st))" unfolding F' using dF by (simp add: fold_erase_ids)
      show "\<forall>s \<in> set ss. slot_insts s (code (snd ?st ! k)) = slot_insts s xs" unfolding F' using oth by blast
      show "\<forall>(i, x) \<in> set (code (snd ?st ! k)). (\<forall>a v n. x \<noteq> St a v True n) \<and> width_ok wd x"
        unfolding F' using Cons.prems(7) st fold_erase_at [OF k, of ds] by auto
    qed
    have "length ?F = length F" using F' st by (metis slot_step_length snd_conv)
    moreover have "agree {s' \<in> set (s # ss). private_slot k s' ?fin} (exec_code ext vol addr (code (F ! k)) a)
        (exec_code ext vol addr (code (?fin ! k)) a)"
      by (rule agree_trans [OF agree_mono [OF 1] agree_mono [OF IH [THEN conjunct1]]]) (use pe in auto)
    ultimately show ?thesis using IH same st by simp
  qed
qed

end
