(* ===== verification/Dce_Sound.thy ===== *)
theory Dce_Sound
  imports Dce_Correct
begin

section \<open>Dead-code elimination keeps what functions compute\<close>

text \<open>
  Whole functions: \<open>result\<close> is the big-step semantics of a function, from a block to the values it
  returns and the world it leaves. For functions without cycles in their control flow every stage of the
  pass keeps the results: removing an unused instruction (agreement up to its register), simplifying a branch,
  forwarding an empty block, and removing the dead stores of a block (agreement up to its slots, which no later block uses).
\<close>

subsection \<open>Functions\<close>

inductive result ::
  "'w ext \<Rightarrow> (nat \<Rightarrow> int \<Rightarrow> 'w \<Rightarrow> 'w) \<Rightarrow> (nat \<Rightarrow> int) \<Rightarrow> dfunc \<Rightarrow> nat \<Rightarrow> 'w st \<Rightarrow> int list \<times> 'w \<Rightarrow> bool"
  for ext vol addr F where
  result_ret: "B \<in> set F \<Longrightarrow> label B = l \<Longrightarrow> dterm B = Ret vs \<Longrightarrow> s' = exec_code ext vol addr (code B) s \<Longrightarrow>
    result ext vol addr F l s (map (value_of addr s') vs, world s')"
| result_br: "B \<in> set F \<Longrightarrow> label B = l \<Longrightarrow> dterm B = Br m \<Longrightarrow>
    result ext vol addr F m (exec_code ext vol addr (code B) s) r \<Longrightarrow> result ext vol addr F l s r"
| result_cond: "B \<in> set F \<Longrightarrow> label B = l \<Longrightarrow> dterm B = CondBr c a b \<Longrightarrow> s' = exec_code ext vol addr (code B) s \<Longrightarrow>
    result ext vol addr F (if value_of addr s' c \<noteq> 0 then a else b) s' r \<Longrightarrow> result ext vol addr F l s r"

lemma label_unique: "distinct (map label F) \<Longrightarrow> B \<in> set F \<Longrightarrow> C \<in> set F \<Longrightarrow> label B = label C \<Longrightarrow> B = C"
  by (meson distinct_map inj_onD)

text \<open>A run from a block that is known.\<close>

definition after_block ::
  "'w ext \<Rightarrow> (nat \<Rightarrow> int \<Rightarrow> 'w \<Rightarrow> 'w) \<Rightarrow> (nat \<Rightarrow> int) \<Rightarrow> dfunc \<Rightarrow> dterm \<Rightarrow> 'w st \<Rightarrow> int list \<times> 'w \<Rightarrow> bool" where
  "after_block ext vol addr F t s r \<longleftrightarrow>
     (case t of Ret vs \<Rightarrow> r = (map (value_of addr s) vs, world s) | Br m \<Rightarrow> result ext vol addr F m s r
      | CondBr c a b \<Rightarrow> result ext vol addr F (if value_of addr s c \<noteq> 0 then a else b) s r)"

lemma result_intro:
  "B \<in> set F \<Longrightarrow> label B = l \<Longrightarrow> after_block ext vol addr F (dterm B) (exec_code ext vol addr (code B) s) r \<Longrightarrow>
   result ext vol addr F l s r"
  by (cases "dterm B") (auto simp: after_block_def intro: result.intros)

lemma result_elim:
  assumes "result ext vol addr F l s r"
  obtains B where "B \<in> set F" "label B = l" "after_block ext vol addr F (dterm B) (exec_code ext vol addr (code B) s) r"
  using assms by (cases rule: result.cases) (auto simp: after_block_def)

lemma result_at:
  assumes "distinct (map label F)" "B \<in> set F" "label B = l"
  shows "result ext vol addr F l s r \<longleftrightarrow> after_block ext vol addr F (dterm B) (exec_code ext vol addr (code B) s) r"
  using assms label_unique by (blast intro: result_intro elim: result_elim)

lemma result_fun:
  assumes d: "distinct (map label F)"
  shows "result ext vol addr F l s r \<Longrightarrow> result ext vol addr F l s r' \<Longrightarrow> r = r'"
proof (induction arbitrary: r' rule: result.induct)
  case (result_ret B l vs s' s)
  then show ?case using result_at [OF d result_ret(1,2), of ext vol addr s r'] by (simp add: after_block_def)
next
  case (result_br B l m s r)
  then show ?case using result_at [OF d result_br(1,2), of ext vol addr s r'] by (simp add: after_block_def)
next
  case (result_cond B l c a b s' s r)
  then show ?case using result_at [OF d result_cond(1,2), of ext vol addr s r'] by (simp add: after_block_def)
qed

definition entry :: "dfunc \<Rightarrow> nat" where
  "entry F = label (hd F)"

definition refines :: "'w ext \<Rightarrow> (nat \<Rightarrow> int \<Rightarrow> 'w \<Rightarrow> 'w) \<Rightarrow> (nat \<Rightarrow> int) \<Rightarrow> dfunc \<Rightarrow> dfunc \<Rightarrow> bool" where
  "refines ext vol addr F G \<longleftrightarrow> entry G = entry F \<and>
     (\<forall>s r. result ext vol addr F (entry F) s r \<longrightarrow> result ext vol addr G (entry F) s r)"

lemma refines_refl [simp]: "refines ext vol addr F F"
  by (simp add: refines_def)

lemma refines_trans: "refines ext vol addr F G \<Longrightarrow> refines ext vol addr G H \<Longrightarrow> refines ext vol addr F H"
  by (simp add: refines_def)

subsection \<open>The functions considered\<close>

definition succs :: "dterm \<Rightarrow> nat list" where
  "succs t = (case t of Br m \<Rightarrow> [m] | CondBr _ a b \<Rightarrow> [a, b] | Ret _ \<Rightarrow> [])"

text \<open>The address of a slot is an operand of an instruction that stays (one of \<open>K\<close>).\<close>

definition pinned :: "nat set \<Rightarrow> nat \<Rightarrow> dfunc \<Rightarrow> bool" where
  "pinned K s F \<longleftrightarrow> (\<exists>B \<in> set F. \<exists>(i, x) \<in> set (code B). i \<in> K \<and> (\<exists>r vs. x = Ext r vs \<and> SlotAddr s \<in> set vs))"

text \<open>The entry block keeps an instruction of \<open>K\<close>, or returns: so it never becomes an empty block that forwards to another one, on which
  \<^verbatim>\<open>TryToSimplifyUncondBranchFromEmptyBlock\<close> must not be called.\<close>

definition anchored :: "nat set \<Rightarrow> dfunc \<Rightarrow> bool" where
  "anchored K F \<longleftrightarrow> (\<exists>(i, x) \<in> set (code (hd F)). i \<in> K) \<or> (\<exists>vs. dterm (hd F) = Ret vs)"

definition tame :: "'w ext \<Rightarrow> nat set \<Rightarrow> (nat \<Rightarrow> nat) \<Rightarrow> dfunc \<Rightarrow> bool" where
  "tame ext K rank F \<longleftrightarrow> F \<noteq> [] \<and> distinct (ids F) \<and> distinct (map label F) \<and>
     (\<forall>B \<in> set F. \<forall>m \<in> set (succs (dterm B)). rank m < rank (label B)) \<and>
     (\<forall>B \<in> set F. \<forall>(i, x) \<in> set (code B). (\<forall>a v n. x \<noteq> St a v True n) \<and> (i \<in> K \<longrightarrow> (\<exists>r vs. x = Ext r vs))) \<and>
     (\<exists>wd. \<forall>B \<in> set F. \<forall>(i, x) \<in> set (code B). width_ok wd x) \<and> anchored K F \<and>
     (\<forall>s. leaves_alone ext s \<or> pinned K s F)"

lemma tame_simps:
  assumes "tame ext K rank F"
  shows "F \<noteq> []" "distinct (ids F)" "distinct (map label F)" "B \<in> set F \<Longrightarrow> m \<in> set (succs (dterm B)) \<Longrightarrow> rank m < rank (label B)"
    "B \<in> set F \<Longrightarrow> (i, x) \<in> set (code B) \<Longrightarrow> x \<noteq> St a v True n"
    "B \<in> set F \<Longrightarrow> (i, x) \<in> set (code B) \<Longrightarrow> i \<in> K \<Longrightarrow> \<exists>r vs. x = Ext r vs"
    "leaves_alone ext s \<or> pinned K s F"
    "\<exists>wd. \<forall>B \<in> set F. \<forall>(i, x) \<in> set (code B). width_ok wd x" "anchored K F"
  using assms unfolding tame_def by fast+

text \<open>A change that adds no instruction, no label and no edge against the rank, and keeps the pinned slots.\<close>

lemma tame_change:
  assumes "tame ext K rank F" and "G \<noteq> []" "distinct (ids G)" "distinct (map label G)"
    and "\<And>C m. C \<in> set G \<Longrightarrow> m \<in> set (succs (dterm C)) \<Longrightarrow> rank m < rank (label C)"
    and "\<And>C. C \<in> set G \<Longrightarrow> \<exists>B \<in> set F. set (code C) \<subseteq> set (code B)"
    and "\<And>s. pinned K s F \<Longrightarrow> pinned K s G" and "anchored K G"
  shows "tame ext K rank G"
proof -
  have "case ix of (i, x) \<Rightarrow> (\<forall>a v n. x \<noteq> St a v True n) \<and> (i \<in> K \<longrightarrow> (\<exists>r vs. x = Ext r vs))"
    if "C \<in> set G" "ix \<in> set (code C)" for C ix
    using assms(6) [OF that(1)] that(2) tame_simps(5,6) [OF assms(1)] by (cases ix) (simp, blast)
  moreover obtain wd where "\<forall>B \<in> set F. \<forall>(i, x) \<in> set (code B). width_ok wd x" using tame_simps(8) [OF assms(1)] by blast
  then have "case ix of (i, x) \<Rightarrow> width_ok wd x" if "C \<in> set G" "ix \<in> set (code C)" for C ix
    using assms(6) [OF that(1)] that(2) by blast
  moreover have "leaves_alone ext s \<or> pinned K s G" for s using tame_simps(7) [OF assms(1)] assms(7) by blast
  ultimately show ?thesis using assms(2-5,8) unfolding tame_def by blast
qed

text \<open>What LLVM promises: a trivially dead instruction is a load or has no effect, and its result is not used;
  an empty block other than the entry is removed by making its predecessors branch to its successor. Nothing is said of the entry block.\<close>

definition opnd_reg :: "nat \<Rightarrow> opnd \<Rightarrow> bool" where
  "opnd_reg r v \<longleftrightarrow> v = Reg r"

definition inst_reg :: "nat \<Rightarrow> dinst \<Rightarrow> bool" where
  "inst_reg r x = (case x of Ld _ _ _ \<Rightarrow> False | St _ v _ _ \<Rightarrow> opnd_reg r v | Ext _ vs \<Rightarrow> list_ex (opnd_reg r) vs)"

definition term_reg :: "nat \<Rightarrow> dterm \<Rightarrow> bool" where
  "term_reg r t = (case t of Br _ \<Rightarrow> False | CondBr c _ _ \<Rightarrow> opnd_reg r c | Ret vs \<Rightarrow> list_ex (opnd_reg r) vs)"

definition reg_unused :: "nat \<Rightarrow> dfunc \<Rightarrow> bool" where
  "reg_unused r F = list_all (\<lambda>B. list_all (\<lambda>(_, x). \<not> inst_reg r x) (code B) \<and> \<not> term_reg r (dterm B)) F"

definition removable :: "'w ext \<Rightarrow> nat \<Rightarrow> dinst \<Rightarrow> nat \<Rightarrow> bool" where
  "removable ext i x r \<longleftrightarrow> (\<exists>s n. x = Ld r s n) \<or> (\<exists>vs. x = Ext r vs \<and> (\<forall>as sl w. snd (ext i as sl w) = (sl, w)))"

definition triv_dead_sound :: "'w ext \<Rightarrow> nat set \<Rightarrow> (dfunc \<Rightarrow> nat \<Rightarrow> bool) \<Rightarrow> bool" where
  "triv_dead_sound ext K td \<longleftrightarrow> (\<forall>F i. td F i \<longrightarrow> i \<notin> K \<and>
     (\<exists>B \<in> set F. \<exists>x r. (i, x) \<in> set (code B) \<and> removable ext i x r \<and> reg_unused r F))"

definition retarget :: "nat \<Rightarrow> nat \<Rightarrow> dterm \<Rightarrow> dterm" where
  "retarget l m t = (case t of
     Br x \<Rightarrow> Br (if x = l then m else x)
   | CondBr c x y \<Rightarrow> CondBr c (if x = l then m else x) (if y = l then m else y)
   | Ret vs \<Rightarrow> Ret vs)"

definition redirect :: "nat \<Rightarrow> nat \<Rightarrow> dfunc \<Rightarrow> dfunc" where
  "redirect l m F = map (\<lambda>B. B\<lparr>dterm := retarget l m (dterm B)\<rparr>) (filter (\<lambda>B. label B \<noteq> l) F)"

definition simplify_redirects :: "(dfunc \<Rightarrow> nat \<Rightarrow> dfunc option) \<Rightarrow> bool" where
  "simplify_redirects simplify \<longleftrightarrow> (\<forall>F l F'. l \<noteq> entry F \<longrightarrow> simplify F l = Some F' \<longrightarrow>
     (\<exists>B m. B \<in> set F \<and> label B = l \<and> code B = [] \<and> dterm B = Br m \<and> m \<noteq> l \<and> F' = redirect l m F))"

lemma triv_dead_soundD: "triv_dead_sound ext K td \<Longrightarrow> triv_dead_ok td"
  by (force simp: triv_dead_sound_def triv_dead_ok_def set_ids)

lemma redirect_size:
  assumes "B \<in> set F" "label B = l"
  shows "func_size (redirect l m F) < func_size F"
  using assms
proof (induction F)
  case (Cons C F)
  have *: "block_size (C\<lparr>dterm := retarget l m (dterm C)\<rparr>) = block_size C" "0 < block_size C" for C
    by (simp_all add: block_size_def retarget_def split: dterm.split)
  have le: "func_size (redirect l m F) \<le> func_size F" by (induction F) (auto simp: redirect_def func_size_def *)
  show ?case using Cons le * by (auto simp: redirect_def func_size_def intro: le_less_trans)
qed simp

lemma ids_redirect: "ids (redirect l m F) = concat (map (\<lambda>B. map fst (code B)) (filter (\<lambda>B. label B \<noteq> l) F))"
  by (simp add: ids_def redirect_def comp_def)

lemma distinct_concat_filter: "distinct (concat (map f xs)) \<Longrightarrow> distinct (concat (map f (filter p xs)))"
  by (induction xs) auto

text \<open>A simplification that leaves the entry block alone.\<close>

definition guarded :: "(dfunc \<Rightarrow> nat \<Rightarrow> dfunc option) \<Rightarrow> dfunc \<Rightarrow> nat \<Rightarrow> dfunc option" where
  "guarded simplify F l = (if l = entry F then None else simplify F l)"

lemma simplify_redirectsD: "simplify_redirects simplify \<Longrightarrow> simplify_ok (guarded simplify)"
  unfolding simplify_redirects_def simplify_ok_def guarded_def
  by (metis distinct_concat_filter ids_def ids_redirect option.distinct(1) redirect_size)

subsection \<open>Simulation\<close>

definition term_opnds :: "dterm \<Rightarrow> opnd list" where
  "term_opnds t = (case t of Br _ \<Rightarrow> [] | CondBr c _ _ \<Rightarrow> [c] | Ret vs \<Rightarrow> vs)"

definition matches ::
  "(nat \<Rightarrow> 'w st \<Rightarrow> 'w st \<Rightarrow> bool) \<Rightarrow> (nat \<Rightarrow> int) \<Rightarrow> dterm \<Rightarrow> 'w st \<Rightarrow> 'w st \<Rightarrow> bool" where
  "matches R addr t s s' \<longleftrightarrow> world s = world s' \<and> (\<forall>v \<in> set (term_opnds t). value_of addr s v = value_of addr s' v) \<and>
     (\<forall>m \<in> set (succs t). R m s s')"

lemma result_sim:
  assumes sim: "\<And>B s t. B \<in> set F \<Longrightarrow> R (label B) s t \<Longrightarrow>
      \<exists>C \<in> set G. label C = label B \<and> dterm C = dterm B \<and>
        matches R addr (dterm B) (exec_code ext vol addr (code B) s) (exec_code ext vol addr (code C) t)"
  shows "result ext vol addr F l s r \<Longrightarrow> R l s t \<Longrightarrow> result ext vol addr G l t r"
proof (induction arbitrary: t rule: result.induct)
  case (result_ret B l vs s' s)
  obtain C where C: "C \<in> set G" "label C = l" "dterm C = Ret vs"
      "matches R addr (Ret vs) s' (exec_code ext vol addr (code C) t)"
    using sim [of B s t] result_ret by auto
  then show ?case by (intro result_intro [OF C(1,2)]) (auto simp: after_block_def matches_def term_opnds_def)
next
  case (result_br B l m s r)
  obtain C where C: "C \<in> set G" "label C = l" "dterm C = Br m"
      "matches R addr (Br m) (exec_code ext vol addr (code B) s) (exec_code ext vol addr (code C) t)"
    using sim [of B s t] result_br by auto
  then show ?case using result_br.IH by (intro result_intro [OF C(1,2)]) (auto simp: after_block_def matches_def succs_def)
next
  case (result_cond B l c a b s' s r)
  obtain C where C: "C \<in> set G" "label C = l" "dterm C = CondBr c a b"
      "matches R addr (CondBr c a b) s' (exec_code ext vol addr (code C) t)"
    using sim [of B s t] result_cond by auto
  then have "value_of addr (exec_code ext vol addr (code C) t) c = value_of addr s' c"
    "R a s' (exec_code ext vol addr (code C) t)" "R b s' (exec_code ext vol addr (code C) t)"
    by (auto simp: matches_def succs_def term_opnds_def)
  then show ?case using result_cond.IH C(3) by (intro result_intro [OF C(1,2)]) (auto simp: after_block_def)
qed

lemma refines_sim:
  assumes "entry G = entry F" and "\<And>s. R (entry F) s s"
    and "\<And>B s t. B \<in> set F \<Longrightarrow> R (label B) s t \<Longrightarrow>
      \<exists>C \<in> set G. label C = label B \<and> dterm C = dterm B \<and>
        matches R addr (dterm B) (exec_code ext vol addr (code B) s) (exec_code ext vol addr (code C) t)"
  shows "refines ext vol addr F G"
  using assms(1,2) result_sim [of F R G addr ext vol, OF assms(3)] by (simp add: refines_def)

subsection \<open>Dead instructions\<close>

lemma erase_entry [simp]: "entry (erase i F) = entry F"
  by (cases F) (simp_all add: entry_def)

lemma erase_labels [simp]: "map label (erase i F) = map label F"
  by (simp add: erase_def comp_def)

lemma erase_tame:
  assumes t: "tame ext K rank F" and i: "i \<notin> K"
  shows "tame ext K rank (erase i F)"
proof -
  have "pinned K s (erase i F)" if "pinned K s F" for s
    using that i by (fastforce simp: pinned_def erase_def)
  moreover have "anchored K (erase i F)"
    using tame_simps(1,9) [OF t] i by (cases F) (auto simp: anchored_def)
  ultimately show ?thesis using tame_simps(1-4) [OF t]
    by (intro tame_change [OF t]) (auto simp: erase_ids, auto simp: erase_def)
qed

text \<open>Agreement up to a register.\<close>

definition off_reg :: "nat \<Rightarrow> 'w st \<Rightarrow> 'w st \<Rightarrow> bool" where
  "off_reg r s t \<longleftrightarrow> (\<forall>q. q \<noteq> r \<longrightarrow> regs s q = regs t q) \<and> slots s = slots t \<and> world s = world t"

lemma off_reg_value: "off_reg r s t \<Longrightarrow> \<not> opnd_reg r v \<Longrightarrow> value_of addr s v = value_of addr t v"
  by (auto simp: off_reg_def opnd_reg_def value_of_def split: opnd.split)

lemma off_reg_inst:
  assumes "off_reg r s t" and "\<not> inst_reg r x"
  shows "off_reg r (exec_inst ext vol addr (i, x) s) (exec_inst ext vol addr (i, x) t)"
proof (cases x)
  case (Ext q vs)
  have "map (value_of addr s) vs = map (value_of addr t) vs"
    using assms Ext off_reg_value [OF assms(1)] by (auto simp: inst_reg_def list_ex_iff)
  moreover have "slots s = slots t" "world s = world t" using assms(1) by (simp_all add: off_reg_def)
  ultimately have "ext i (map (value_of addr s) vs) (slots s) (world s) = ext i (map (value_of addr t) vs) (slots t) (world t)"
    by (simp only:)
  then show ?thesis using assms(1) Ext by (auto simp: exec_inst_def off_reg_def split: prod.split)
qed (use assms off_reg_value [OF assms(1)] in \<open>auto simp: exec_inst_def off_reg_def inst_reg_def\<close>)

lemma removable_inst:
  assumes "removable ext i x r"
  shows "off_reg r (exec_inst ext vol addr (i, x) s) s"
proof (cases x)
  case (Ext q vs)
  obtain v sl w where e: "ext i (map (value_of addr s) vs) (slots s) (world s) = (v, sl, w)" by (metis prod_cases3)
  have "q = r" "snd (ext i (map (value_of addr s) vs) (slots s) (world s)) = (slots s, world s)"
    using assms Ext by (auto simp: removable_def)
  then show ?thesis using Ext e by (simp add: exec_inst_def off_reg_def)
qed (use assms in \<open>auto simp: removable_def exec_inst_def off_reg_def\<close>)

lemma off_reg_trans: "off_reg r s t \<Longrightarrow> off_reg r t u \<Longrightarrow> off_reg r s u"
  by (simp add: off_reg_def)

lemma off_reg_code:
  assumes "\<forall>x. (i, x) \<in> set xs \<longrightarrow> removable ext i x r"
  shows "off_reg r s t \<Longrightarrow> \<forall>(_, x) \<in> set xs. \<not> inst_reg r x \<Longrightarrow>
    off_reg r (exec_code ext vol addr xs s) (exec_code ext vol addr (filter (\<lambda>(j, _). j \<noteq> i) xs) t)"
  using assms
proof (induction xs arbitrary: s t)
  case (Cons ix xs)
  obtain j x where ix: "ix = (j, x)" by fastforce
  show ?case
  proof (cases "j = i")
    case True
    then have "off_reg r (exec_inst ext vol addr ix s) t"
      using removable_inst [of ext i x r vol addr s] Cons.prems ix by (auto intro: off_reg_trans)
    then show ?thesis using Cons ix True by (simp add: exec_code_def)
  next
    case False
    then have "off_reg r (exec_inst ext vol addr ix s) (exec_inst ext vol addr ix t)"
      using off_reg_inst Cons.prems ix by auto
    then show ?thesis using Cons ix False by (simp add: exec_code_def)
  qed
qed (simp add: exec_code_def)

lemma term_opnds_reg: "\<not> term_reg r t \<Longrightarrow> v \<in> set (term_opnds t) \<Longrightarrow> \<not> opnd_reg r v"
  by (auto simp: term_reg_def term_opnds_def list_ex_iff split: dterm.splits)

lemma unique_inst:
  assumes "distinct (ids F)" "B \<in> set F" "C \<in> set F" "(i, x) \<in> set (code B)" "(i, y) \<in> set (code C)"
  shows "x = y"
proof -
  obtain k j where k: "k < length F" "F ! k = B" and j: "j < length F" "F ! j = C" using assms(2,3) by (metis in_set_conv_nth)
  have "j = k" using ids_other_block [OF assms(1) k(1) j(1), of i] assms(4,5) k(2) j(2) by force
  then have "B = C" using k j by simp
  then show ?thesis using distinct_ids_block [OF assms(1) k(1)] k(2) assms(4,5) by (metis eq_key_imp_eq_value)
qed

lemma erase_refines:
  assumes d: "distinct (ids F)" and B: "B \<in> set F" "(i, x) \<in> set (code B)" and rm: "removable ext i x r" and u: "reg_unused r F"
  shows "refines ext vol addr F (erase i F)"
proof (rule refines_sim [where R = "\<lambda>_. off_reg r"])
  show "off_reg r s s" for s :: "'a st" by (simp add: off_reg_def)
  fix C and s t :: "'a st"
  assume C: "C \<in> set F" and st: "off_reg r s t"
  let ?D = "C\<lparr>code := filter (\<lambda>(j, _). j \<noteq> i) (code C)\<rparr>"
  have "\<forall>y. (i, y) \<in> set (code C) \<longrightarrow> removable ext i y r" using unique_inst [OF d B(1) C B(2)] rm by auto
  moreover have un: "\<forall>(_, y) \<in> set (code C). \<not> inst_reg r y" "\<not> term_reg r (dterm C)"
    using u C by (auto simp: reg_unused_def list_all_iff)
  ultimately have a: "off_reg r (exec_code ext vol addr (code C) s) (exec_code ext vol addr (code ?D) t)"
    using off_reg_code st by simp
  then have "matches (\<lambda>_. off_reg r) addr (dterm C) (exec_code ext vol addr (code C) s) (exec_code ext vol addr (code ?D) t)"
    using off_reg_value [OF a] term_opnds_reg [OF un(2)] by (simp add: matches_def off_reg_def [of r "exec_code _ _ _ _ _"])
  moreover have "?D \<in> set (erase i F)" using C by (simp add: erase_def)
  ultimately show "\<exists>D \<in> set (erase i F). label D = label C \<and> dterm D = dterm C \<and>
      matches (\<lambda>_. off_reg r) addr (dterm C) (exec_code ext vol addr (code C) s) (exec_code ext vol addr (code D) t)"
    by (intro bexI [of _ ?D] conjI) simp_all
qed simp

lemma erase_dead_refines:
  assumes "triv_dead_sound ext K td"
  shows "tame ext K rank (snd st) \<Longrightarrow> refines ext vol addr (snd st) (snd (erase_dead td is st)) \<and> tame ext K rank (snd (erase_dead td is st))"
  using assms
proof (induction td "is" st rule: erase_dead.induct)
  case (2 td i "is" changed F)
  show ?case
  proof (cases "td F i")
    case True
    then obtain B x r where x: "i \<notin> K" "B \<in> set F" "(i, x) \<in> set (code B)" "removable ext i x r" "reg_unused r F"
      using 2(3) unfolding triv_dead_sound_def by blast
    have t: "tame ext K rank F" using 2(2) by simp
    have "refines ext vol addr F (erase i F)" by (rule erase_refines [OF tame_simps(2) [OF t] x(2-5)])
    then show ?thesis using 2(1) [OF _ 2(3)] True erase_tame [OF t x(1)] refines_trans by (simp, blast)
  qed (use 2 in simp)
qed simp

subsection \<open>Branches and blocks\<close>

definition branched :: "nat \<Rightarrow> dfunc \<Rightarrow> dfunc" where
  "branched l F = map (\<lambda>B. if label B = l then snd (simplify_branch B) else B) F"

lemma simplify_branch_parts:
  "label (snd (simplify_branch B)) = label B" "code (snd (simplify_branch B)) = code B"
  "set (succs (dterm (snd (simplify_branch B)))) = set (succs (dterm B))"
  "after_block ext vol addr F (dterm (snd (simplify_branch B))) s r \<longleftrightarrow> after_block ext vol addr F (dterm B) s r"
  by (auto simp: simplify_branch_def succs_def after_block_def split: dterm.split)

lemma branched_entry [simp]: "F \<noteq> [] \<Longrightarrow> entry (branched l F) = entry F"
  by (cases F) (simp_all add: entry_def branched_def simplify_branch_parts)

lemma branched_block:
  assumes "B \<in> set F"
  obtains C where "C \<in> set (branched l F)" "label C = label B" "code C = code B"
    "\<And>ext vol addr G s r. after_block ext vol addr G (dterm C) s r \<longleftrightarrow> after_block ext vol addr G (dterm B) s r"
  using assms that [of "if label B = l then snd (simplify_branch B) else B"]
  by (auto simp: branched_def simplify_branch_parts)

lemma branched_result: "result ext vol addr F x s r \<Longrightarrow> result ext vol addr (branched l F) x s r"
proof (induction rule: result.induct)
  case (result_ret B x vs s' s)
  obtain C where C: "C \<in> set (branched l F)" "label C = x" "code C = code B"
      "\<And>s r. after_block ext vol addr (branched l F) (dterm C) s r \<longleftrightarrow> after_block ext vol addr (branched l F) (dterm B) s r"
    using branched_block [OF result_ret(1), of l] result_ret(2) by metis
  then show ?case using result_ret by (intro result_intro [OF C(1,2)]) (simp add: C(3,4) after_block_def [of _ _ _ _ "Ret _"])
next
  case (result_br B x m s r)
  obtain C where C: "C \<in> set (branched l F)" "label C = x" "code C = code B"
      "\<And>s r. after_block ext vol addr (branched l F) (dterm C) s r \<longleftrightarrow> after_block ext vol addr (branched l F) (dterm B) s r"
    using branched_block [OF result_br(1), of l] result_br(2) by metis
  then show ?case using result_br by (intro result_intro [OF C(1,2)]) (simp add: C(3,4) after_block_def [of _ _ _ _ "Br _"])
next
  case (result_cond B x c a b s' s r)
  obtain C where C: "C \<in> set (branched l F)" "label C = x" "code C = code B"
      "\<And>s r. after_block ext vol addr (branched l F) (dterm C) s r \<longleftrightarrow> after_block ext vol addr (branched l F) (dterm B) s r"
    using branched_block [OF result_cond(1), of l] result_cond(2) by metis
  then show ?case using result_cond by (intro result_intro [OF C(1,2)]) (simp add: C(3,4) after_block_def [of _ _ _ _ "CondBr _ _ _"])
qed

lemma pinned_codes: "pinned K s F \<longleftrightarrow> (\<exists>xs \<in> code ` set F. \<exists>(i, x) \<in> set xs. i \<in> K \<and> (\<exists>r vs. x = Ext r vs \<and> SlotAddr s \<in> set vs))"
  by (simp add: pinned_def)

lemma branched_tame:
  assumes t: "tame ext K rank F"
  shows "tame ext K rank (branched l F)"
proof -
  have c: "map code (branched l F) = map code F" and lb: "map label (branched l F) = map label F"
    by (simp_all add: branched_def comp_def simplify_branch_parts if_distrib cong: if_cong)
  have "ids (branched l F) = ids F" using arg_cong [OF c, of "\<lambda>cs. concat (map (map fst) cs)"] by (simp add: ids_def comp_def)
  moreover have "pinned K s (branched l F) = pinned K s F" for s
    using arg_cong [OF c, of set] by (simp add: pinned_codes)
  moreover have "branched l F \<noteq> []" using t by (simp add: tame_def branched_def)
  moreover have "snd (simplify_branch B) = B" if "dterm B = Ret vs" for B vs using that by (simp add: simplify_branch_def)
  then have "anchored K (branched l F)"
    using tame_simps(1,9) [OF t] by (cases F) (auto simp: anchored_def branched_def simplify_branch_parts)
  moreover have "rank m < rank (label C)" if "C \<in> set (branched l F)" "m \<in> set (succs (dterm C))" for C m
    using that tame_simps(4) [OF t] by (auto simp: branched_def simplify_branch_parts)
  moreover have "\<exists>B \<in> set F. set (code C) \<subseteq> set (code B)" if "C \<in> set (branched l F)" for C
    using that by (auto simp: branched_def simplify_branch_parts)
  ultimately show ?thesis using tame_simps(2,3) [OF t] lb by (intro tame_change [OF t]) simp_all
qed

text \<open>Forwarding an empty block.\<close>

lemma redirect_entry:
  assumes "F \<noteq> []" "l \<noteq> entry F"
  shows "redirect l m F \<noteq> []" "entry (redirect l m F) = entry F"
  using assms by (cases F; simp add: redirect_def entry_def)+

lemma retarget_simps [simp]:
  "retarget l m (Ret vs) = Ret vs" "retarget l m (Br x) = Br (if x = l then m else x)"
  "retarget l m (CondBr c a b) = CondBr c (if a = l then m else a) (if b = l then m else b)"
  by (simp_all add: retarget_def)

lemma redirect_in: "B \<in> set F \<Longrightarrow> label B \<noteq> l \<Longrightarrow> B\<lparr>dterm := retarget l m (dterm B)\<rparr> \<in> set (redirect l m F)"
  by (simp add: redirect_def)

lemma redirect_result:
  assumes d: "distinct (map label F)" and B: "B \<in> set F" "label B = l" "code B = []" "dterm B = Br m" "m \<noteq> l"
  shows "result ext vol addr F x s r \<Longrightarrow> result ext vol addr (redirect l m F) (if x = l then m else x) s r"
proof (induction rule: result.induct)
  case (result_ret C x vs s' s)
  have x: "x \<noteq> l" using label_unique [OF d result_ret(1) B(1)] result_ret B by auto
  then show ?case using result_ret
    by (intro result_intro [OF redirect_in [OF result_ret(1)]]) (auto simp: after_block_def)
next
  case (result_br C x n s r)
  show ?case
  proof (cases "x = l")
    case True
    then have "C = B" using label_unique [OF d result_br(1) B(1)] result_br(2) B(2) by simp
    then show ?thesis using result_br B True by (simp add: exec_code_def)
  next
    case False
    then show ?thesis using result_br
      by (intro result_intro [OF redirect_in [OF result_br(1)]]) (auto simp: after_block_def)
  qed
next
  case (result_cond C x c a b s' s r)
  have x: "x \<noteq> l" using label_unique [OF d result_cond(1) B(1)] result_cond B by auto
  then show ?case using result_cond
    by (intro result_intro [OF redirect_in [OF result_cond(1)]]) (auto simp: after_block_def split: if_splits)
qed

lemma redirect_tame:
  assumes t: "tame ext K rank F" and l: "l \<noteq> entry F"
    and B: "B \<in> set F" "label B = l" "code B = []" "dterm B = Br m" "m \<noteq> l"
  shows "tame ext K rank (redirect l m F)"
proof -
  have m: "rank m < rank l" using tame_simps(4) [OF t B(1)] B by (simp add: succs_def)
  have "rank n < rank (label C)" if "C \<in> set F" "n \<in> set (succs (retarget l m (dterm C)))" for C n
    using tame_simps(4) [OF t that(1)] that(2) m by (cases "dterm C") (force simp: succs_def split: if_splits)+
  moreover have "pinned K s (redirect l m F)" if p: "pinned K s F" for s
  proof -
    obtain C i x where C: "C \<in> set F" "(i, x) \<in> set (code C)" "i \<in> K" "\<exists>r vs. x = Ext r vs \<and> SlotAddr s \<in> set vs"
      using p unfolding pinned_def by blast
    then have "label C \<noteq> l" using label_unique [OF tame_simps(3) [OF t] C(1) B(1)] B by auto
    then show ?thesis using C by (fastforce simp: pinned_def redirect_def)
  qed
  moreover have "distinct (map label (redirect l m F))" "distinct (ids (redirect l m F))"
    using tame_simps(2,3) [OF t] distinct_concat_filter [of "\<lambda>B. map fst (code B)" F]
    by (auto simp: ids_redirect) (simp_all add: redirect_def comp_def distinct_map_filter ids_def)
  moreover have "\<exists>B \<in> set F. set (code C) \<subseteq> set (code B)" if "C \<in> set (redirect l m F)" for C
    using that by (auto simp: redirect_def)
  moreover have "anchored K (redirect l m F)"
    using tame_simps(1,9) [OF t] l by (cases F) (auto simp: anchored_def redirect_def entry_def)
  ultimately show ?thesis using redirect_entry(1) [OF tame_simps(1) [OF t] l]
    by (intro tame_change [OF t]) (auto simp: redirect_def)
qed

lemma anchored_entry:
  assumes t: "tame ext K rank F" and B: "B \<in> set F" "label B = entry F"
  shows "code B \<noteq> [] \<or> (\<exists>vs. dterm B = Ret vs)"
proof -
  have "hd F \<in> set F" using tame_simps(1) [OF t] by simp
  then have "B = hd F" using label_unique [OF tame_simps(3) [OF t] B(1)] B(2) by (simp add: entry_def)
  then show ?thesis using tame_simps(9) [OF t] by (auto simp: anchored_def)
qed

lemma branch_step_guarded:
  assumes t: "tame ext K rank (snd st)"
  shows "branch_step (guarded simplify) l st = branch_step simplify l st"
proof -
  obtain c F where st: "st = (c, F)" by fastforce
  let ?G = "branched l F"
  have G: "tame ext K rank ?G" using branched_tame t st by simp
  have "\<not> (\<exists>B \<in> set ?G. label B = l \<and> code B = [] \<and> (\<exists>m. dterm B = Br m))" if "l = entry ?G"
    using anchored_entry [OF G] that by fastforce
  then show ?thesis unfolding st branch_step_def branched_def by (auto simp: Let_def guarded_def)
qed

lemma branch_step_refines:
  assumes sr: "simplify_redirects simplify" and t: "tame ext K rank (snd st)"
  shows "refines ext vol addr (snd st) (snd (branch_step simplify l st)) \<and> tame ext K rank (snd (branch_step simplify l st))"
proof -
  obtain c F where st: "st = (c, F)" by fastforce
  let ?G = "branched l F"
  have F: "F \<noteq> []" using tame_simps(1) [OF t] st by simp
  have G: "tame ext K rank ?G" "refines ext vol addr F ?G"
    using branched_tame t st branched_result F by (auto simp: refines_def)
  have "refines ext vol addr ?G H \<and> tame ext K rank H" if h: "guarded simplify ?G l = Some H" for H
  proof -
    have g: "l \<noteq> entry ?G" "simplify ?G l = Some H" using h by (simp_all add: guarded_def split: if_splits)
    obtain B m where H: "B \<in> set ?G" "label B = l" "code B = []" "dterm B = Br m" "m \<noteq> l" "H = redirect l m ?G"
      using sr [unfolded simplify_redirects_def, rule_format, OF g] by blast
    then show ?thesis
      using redirect_result [OF tame_simps(3) [OF G(1)] H(1-5), of ext vol addr "entry ?G"] redirect_entry(2) [OF tame_simps(1) [OF G(1)] g(1)]
        redirect_tame [OF G(1) g(1) H(1-5)] g(1) by (simp add: refines_def)
  qed
  then have "\<forall>H. guarded simplify ?G l = Some H \<longrightarrow> refines ext vol addr F H \<and> tame ext K rank H" using G(2) refines_trans by blast
  then show ?thesis using G unfolding branch_step_guarded [OF t, of simplify, symmetric] unfolding st branch_step_def branched_def
    by (simp add: Let_def split: option.split)
qed

subsection \<open>Dead stores\<close>

text \<open>Instructions that leave each of finitely many slots alone leave all of them alone.\<close>

lemma leaves_alone_all:
  assumes "finite Q"
  shows "\<forall>s \<in> Q. leaves_alone ext s \<Longrightarrow> \<forall>t. t \<notin> Q \<longrightarrow> sl t = sl' t \<Longrightarrow> ext i as sl w = (v, a, w1) \<Longrightarrow> ext i as sl' w = (v', b, w2) \<Longrightarrow>
    v = v' \<and> w1 = w2 \<and> (\<forall>t. t \<notin> Q \<longrightarrow> a t = b t)"
  using assms
proof (induction Q arbitrary: sl v a w1)
  case empty
  then have "sl = sl'" by auto
  then show ?case using empty by simp
next
  case (insert s Q)
  let ?m = "sl(s := sl' s)"
  obtain v'' c w3 where m: "ext i as ?m w = (v'', c, w3)" by (metis prod_cases3)
  have "\<forall>t. t \<notin> Q \<longrightarrow> ?m t = sl' t" using insert.prems(2) by auto
  from insert.IH [OF _ this m insert.prems(4)] have 1: "v'' = v' \<and> w3 = w2 \<and> (\<forall>t. t \<notin> Q \<longrightarrow> c t = b t)"
    using insert.prems(1) by simp
  have "leaves_alone ext s" using insert.prems(1) by simp
  from this [unfolded leaves_alone_def, rule_format, of sl ?m i as w] have "v = v'' \<and> w1 = w3 \<and> (\<forall>t. t \<noteq> s \<longrightarrow> a t = c t)"
    using m insert.prems(3) by simp
  then show ?case using 1 by simp
qed

lemma unused_inst_agree:
  assumes Q: "finite Q" "\<forall>s \<in> Q. leaves_alone ext s" "\<forall>s \<in> Q. inst_uses s x = 0" and ag: "agree Q a b"
  shows "agree Q (exec_inst ext vol addr (i, x) a) (exec_inst ext vol addr (i, x) b)"
proof (cases x)
  case (Ext r vs)
  obtain v sl w where ea: "ext i (map (value_of addr a) vs) (slots a) (world a) = (v, sl, w)" by (metis prod_cases3)
  obtain v' sl' w' where eb: "ext i (map (value_of addr b) vs) (slots b) (world b) = (v', sl', w')" by (metis prod_cases3)
  have "map (value_of addr a) vs = map (value_of addr b) vs" "world a = world b" using value_of_agree [OF ag] ag by (auto simp: agree_def)
  then have ea': "ext i (map (value_of addr b) vs) (slots a) (world b) = (v, sl, w)" using ea by (simp only:)
  have "v = v' \<and> w = w' \<and> (\<forall>t. t \<notin> Q \<longrightarrow> sl t = sl' t)"
    by (rule leaves_alone_all [OF Q(1,2) _ ea' eb]) (use ag in \<open>simp add: agree_def\<close>)
  then show ?thesis using Ext ea eb ag by (auto simp: exec_inst_def agree_def)
next
  case (Ld r t n)
  then have "t \<notin> Q" using Q(3) by (auto simp: inst_uses_def)
  then show ?thesis using Ld ag by (auto simp: exec_inst_def agree_def)
qed (use ag value_of_agree [OF ag] in \<open>auto simp: exec_inst_def agree_def\<close>)

lemma unused_code_agree:
  assumes Q: "finite Q" "\<forall>s \<in> Q. leaves_alone ext s"
  shows "\<forall>s \<in> Q. code_uses s xs = 0 \<Longrightarrow> agree Q a b \<Longrightarrow> agree Q (exec_code ext vol addr xs a) (exec_code ext vol addr xs b)"
proof (induction xs arbitrary: a b)
  case (Cons ix xs)
  obtain i x where ix: "ix = (i, x)" by fastforce
  have "\<forall>s \<in> Q. inst_uses s x = 0" "\<forall>s \<in> Q. code_uses s xs = 0" using Cons.prems(1) ix by (auto simp: code_uses_def)
  then show ?case using Cons unused_inst_agree [OF Q] ix by (simp add: exec_code_def)
qed (simp add: exec_code_def)

text \<open>A private slot of block \<open>k\<close> is not used in any other block, and not pinned.\<close>

lemma private_elsewhere:
  assumes "private_slot k s F" "k < length F" "j < length F" "j \<noteq> k"
  shows "code_uses s (code (F ! j)) = 0"
proof -
  have z: "getNumUses s (take k F) = 0" "getNumUses s (drop (Suc k) F) = 0"
    using getNumUses_at [OF assms(2), of s] assms(1) by (simp_all add: private_slot_def)
  have "F ! j \<in> set (take k F) \<or> F ! j \<in> set (drop (Suc k) F)"
  proof (cases "j < k")
    case True
    then have "F ! j = take k F ! j" "j < length (take k F)" using assms(3) by simp_all
    then show ?thesis by (metis nth_mem)
  next
    case False
    then have "F ! j = drop (Suc k) F ! (j - Suc k)" "j - Suc k < length (drop (Suc k) F)" using assms(3,4) by simp_all
    then show ?thesis by (metis nth_mem)
  qed
  then show ?thesis using z by (auto simp: getNumUses_def)
qed

lemma pinned_uses:
  assumes "pinned K s F" "k < length F"
  shows "\<not> private_slot k s F"
proof -
  obtain B i r vs where B: "B \<in> set F" "(i, Ext r vs) \<in> set (code B)" "SlotAddr s \<in> set vs" using assms(1) by (auto simp: pinned_def)
  then obtain j where j: "j < length F" "F ! j = B" by (metis in_set_conv_nth)
  have "opnd_uses s (SlotAddr s) \<le> inst_uses s (Ext r vs)"
    using member_le_sum_list [of "opnd_uses s (SlotAddr s)" "map (opnd_uses s) vs"] B(3) by (simp add: inst_uses_def)
  then have u: "1 \<le> inst_uses s (Ext r vs)" by (simp add: opnd_uses_def)
  let ?f = "\<lambda>(i :: nat, x). inst_uses s x - (if accesses s x then 1 else 0)"
  have "?f (i, Ext r vs) \<in> set (map ?f (code B))" unfolding set_map by (rule imageI [OF B(2)])
  then have "?f (i, Ext r vs) \<le> other_uses s (code B)" unfolding other_uses_def by (rule member_le_sum_list) simp
  then have "0 < other_uses s (code B)" using u by (simp add: accesses_def)
  then have o: "0 < other_uses s (code (F ! j))" using j(2) by simp
  show ?thesis
  proof (cases "j = k")
    case True
    then show ?thesis using o getNumUses_at [OF assms(2), of s] by (simp add: private_slot_def)
  next
    case False
    then show ?thesis using o private_elsewhere [OF _ assms(2) j(1), of s] code_uses_split [of s "code (F ! j)"] by force
  qed
qed

text \<open>Only stores are removed.\<close>

lemma dead_stores_stores: "set (eliminateDeadStoresForSlot need xs) \<subseteq> {i. \<exists>a v t n. (i, St a v t n) \<in> set xs}"
proof (induction need xs rule: eliminateDeadStoresForSlot.induct)
  case (2 need i x xs)
  then show ?case by (cases x; cases need) (simp; blast)+
qed simp

lemma fold_erase_tame:
  "tame ext K rank F \<Longrightarrow> set ds \<inter> K = {} \<Longrightarrow> tame ext K rank (fold erase ds F)"
  by (induction ds arbitrary: F) (simp_all add: erase_tame)

lemma slots_fold_tame:
  assumes "\<forall>i a v t n. (i, St a v t n) \<in> set xs \<longrightarrow> i \<notin> K"
  shows "tame ext K rank (snd st) \<Longrightarrow> tame ext K rank (snd (fold (slot_step xs) ss st))"
proof (induction ss arbitrary: st)
  case (Cons s ss)
  obtain c F where st: "st = (c, F)" by fastforce
  have "set (eliminateDeadStoresForSlot False (rev (slot_insts s xs))) \<inter> K = {}"
  proof -
    have "set (rev (slot_insts s xs)) \<subseteq> set xs" by (auto simp: slot_insts_def)
    then show ?thesis using dead_stores_stores [of False "rev (slot_insts s xs)"] assms by blast
  qed
  then have "tame ext K rank (snd (slot_step xs s st))"
    using Cons.prems fold_erase_tame [of ext K rank F] st by (simp add: slot_step_def Let_def)
  then show ?case using Cons.IH by simp
qed simp

lemma fold_erase_shape: "map label (fold erase ds F) = map label F \<and> map dterm (fold erase ds F) = map dterm F"
proof (induction ds arbitrary: F)
  case (Cons d ds)
  have "map dterm (erase d F) = map dterm F" by (simp add: erase_def comp_def)
  then show ?case using Cons by simp
qed simp

lemma slots_fold_shape:
  "map label (snd (fold (slot_step xs) ss st)) = map label (snd st) \<and> map dterm (snd (fold (slot_step xs) ss st)) = map dterm (snd st)"
proof (induction ss arbitrary: st)
  case (Cons s ss)
  show ?case using Cons fold_erase_shape by (cases st) (simp add: slot_step_def Let_def)
qed simp

lemma agree_empty: "agree {} s t \<longleftrightarrow> s = t"
  by (cases s; cases t) (auto simp: agree_def)

lemma entry_labels: "map label F = map label G \<Longrightarrow> F \<noteq> [] \<Longrightarrow> entry F = entry G"
  by (cases F; cases G) (simp_all add: entry_def)

text \<open>What a step over block \<open>k\<close> does: \<open>Q\<close> are the slots in which a run of the block may differ, and no other block uses them.\<close>

lemma stores_step_parts:
  assumes t: "tame ext K rank F" and k: "k < length F" and it: "iter_ok iter" and G: "G = snd (stores_step iter k (ch, F))"
  obtains Q where "tame ext K rank G" "map label G = map label F" "map dterm G = map dterm F"
    "\<forall>j < length F. j \<noteq> k \<longrightarrow> G ! j = F ! j" "finite Q" "\<forall>s \<in> Q. leaves_alone ext s"
    "\<forall>s \<in> Q. \<forall>j < length F. j \<noteq> k \<longrightarrow> code_uses s (code (F ! j)) = 0"
    "\<And>a. agree Q (exec_code ext vol addr (code (F ! k)) a) (exec_code ext vol addr (code (G ! k)) a)"
proof -
  define xs where "xs = code (F ! k)"
  define ss where "ss = iter (slots_of xs)"
  define Q where "Q = {s \<in> set ss. private_slot k s G}"
  note tF = tame_simps [OF t]
  have kF: "F ! k \<in> set F" using k by simp
  have G': "G = snd (fold (slot_step xs) ss (ch, F))" by (simp add: G stores_step_def Let_def xs_def ss_def)
  have len: "length G = length F" by (simp add: G)
  have shape: "map label G = map label F" "map dterm G = map dterm F" using slots_fold_shape unfolding G' by simp_all
  have "\<forall>i a v t n. (i, St a v t n) \<in> set xs \<longrightarrow> i \<notin> K" using tF(6) [OF kF] unfolding xs_def by blast
  then have tG: "tame ext K rank G" unfolding G' using slots_fold_tame t by (metis snd_conv)
  have la: "leaves_alone ext s" if "private_slot k s G" for s
    using that tame_simps(7) [OF tG, of s] pinned_uses [of K s G k] k len by auto
  have ds: "distinct ss" using it slots_of_distinct by (simp add: ss_def iter_ok_def)
  obtain wd where "\<forall>B \<in> set F. \<forall>(i, x) \<in> set (code B). width_ok wd x" using tF(8) by blast
  then have vol: "\<forall>(i, x) \<in> set (code (F ! k)). (\<forall>a v n. x \<noteq> St a v True n) \<and> width_ok wd x" using tF(5) [OF kF] kF by blast
  have ag: "agree Q (exec_code ext vol addr (code (F ! k)) a) (exec_code ext vol addr (code (G ! k)) a)"
    and oth: "\<forall>j < length F. j \<noteq> k \<longrightarrow> G ! j = F ! j" for a
    using slots_fold_sound [of xs k ss "(ch, F)" ext wd vol addr a, folded G'] la distinct_ids_block [OF tF(2) k] k tF(2) ds vol
    by (simp_all add: Q_def xs_def)
  have un: "\<forall>s \<in> Q. \<forall>j < length F. j \<noteq> k \<longrightarrow> code_uses s (code (F ! j)) = 0"
    using private_elsewhere [of k _ G] oth k len by (auto simp: Q_def)
  show ?thesis by (rule that [OF tG shape oth _ _ un ag]) (use la in \<open>simp_all add: Q_def\<close>)
qed

lemma stores_step_refines:
  assumes t: "tame ext K rank (snd st)" and k: "k < length (snd st)" and it: "iter_ok iter"
  shows "refines ext vol addr (snd st) (snd (stores_step iter k st)) \<and> tame ext K rank (snd (stores_step iter k st))"
proof -
  define F where "F = snd st"
  define G where "G = snd (stores_step iter k st)"
  have tF: "tame ext K rank F" and kF: "k < length F" using t k by (simp_all add: F_def)
  have "G = snd (stores_step iter k (fst st, F))" by (simp add: G_def F_def)
  from stores_step_parts [OF tF kF it this, of vol addr]
  obtain Q where tG: "tame ext K rank G" and shape: "map label G = map label F" "map dterm G = map dterm F"
    and oth: "\<forall>j < length F. j \<noteq> k \<longrightarrow> G ! j = F ! j" and Q: "finite Q" "\<forall>s \<in> Q. leaves_alone ext s"
    and un: "\<forall>s \<in> Q. \<forall>j < length F. j \<noteq> k \<longrightarrow> code_uses s (code (F ! j)) = 0"
    and ag: "\<And>a. agree Q (exec_code ext vol addr (code (F ! k)) a) (exec_code ext vol addr (code (G ! k)) a)" by metis
  have len: "length G = length F" using shape(1) by (rule map_eq_imp_length_eq)
  let ?R = "\<lambda>x. agree (if rank x < rank (label (F ! k)) then Q else {})"
  have "refines ext vol addr F G"
  proof (rule refines_sim [where R = ?R])
    show "entry G = entry F" using entry_labels [OF shape(1)] tame_simps(1) [OF tG] by simp
    show "?R (entry F) s s" for s by (simp add: agree_def)
    fix B and s t :: "'a st"
    assume B: "B \<in> set F" and st: "?R (label B) s t"
    obtain j where j: "j < length F" "F ! j = B" using B by (metis in_set_conv_nth)
    have C: "G ! j \<in> set G" "label (G ! j) = label B" "dterm (G ! j) = dterm B"
      using j len arg_cong [OF shape(1), of "\<lambda>l. l ! j"] arg_cong [OF shape(2), of "\<lambda>l. l ! j"] by simp_all
    let ?s = "exec_code ext vol addr (code B) s" and ?t = "exec_code ext vol addr (code (G ! j)) t"
    have "agree (if rank (label B) < rank (label (F ! k)) \<or> j = k then Q else {}) ?s ?t"
      using st ag oth un j unused_code_agree [OF Q, of "code B" s t vol addr] by (cases "j = k") (auto simp: agree_empty)
    then have a: "agree Q ?s ?t" "rank (label B) < rank (label (F ! k)) \<or> j = k \<or> ?s = ?t"
      using agree_mono [of "{}" ?s ?t Q] by (auto simp: agree_empty split: if_splits)
    have "?R m ?s ?t" if "m \<in> set (succs (dterm B))" for m
      using a tame_simps(4) [OF tF B that] j(2) by (auto simp: agree_empty)
    then have "matches ?R addr (dterm B) ?s ?t"
      using a(1) value_of_agree [OF a(1)] by (simp add: matches_def agree_def [of Q])
    then show "\<exists>C \<in> set G. label C = label B \<and> dterm C = dterm B \<and> matches ?R addr (dterm B) ?s (exec_code ext vol addr (code C) t)"
      using C by blast
  qed
  then show ?thesis using tG by (simp add: F_def G_def)
qed

subsection \<open>The pass\<close>

lemma fold_refines:
  assumes "\<And>x st. x \<in> set xs \<Longrightarrow> P (snd st) \<Longrightarrow> tame ext K rank (snd st) \<Longrightarrow>
      refines ext vol addr (snd st) (snd (f x st)) \<and> tame ext K rank (snd (f x st)) \<and> P (snd (f x st))"
  shows "tame ext K rank (snd st) \<Longrightarrow> P (snd st) \<Longrightarrow>
    refines ext vol addr (snd st) (snd (fold f xs st)) \<and> tame ext K rank (snd (fold f xs st))"
  using assms
proof (induction xs arbitrary: st)
  case (Cons x xs)
  have 1: "refines ext vol addr (snd st) (snd (f x st))" "tame ext K rank (snd (f x st))" "P (snd (f x st))"
    using Cons.prems(3) [of x st] Cons.prems(1,2) by simp_all
  have "refines ext vol addr (snd (f x st)) (snd (fold f xs (f x st))) \<and> tame ext K rank (snd (fold f xs (f x st)))"
    by (rule Cons.IH [OF 1(2,3)]) (use Cons.prems(3) in simp)
  then show ?case using refines_trans [OF 1(1)] by simp
qed simp

lemma dce_round_refines:
  assumes td: "triv_dead_sound ext K td" and sr: "simplify_redirects simplify" and it: "iter_ok iter" and t: "tame ext K rank F"
  shows "refines ext vol addr F (snd (dce_round td simplify iter F)) \<and> tame ext K rank (snd (dce_round td simplify iter F))"
proof -
  define a where "a = eliminateDeadInstructions td (False, F)"
  define b where "b = eliminateUselessBranchesAndBlocks simplify a"
  have 1: "refines ext vol addr F (snd a)" "tame ext K rank (snd a)"
    using erase_dead_refines [OF td, of rank "(False, F)" vol addr] t by (simp_all add: a_def eliminateDeadInstructions_def)
  have "refines ext vol addr (snd a) (snd b) \<and> tame ext K rank (snd b)"
    unfolding b_def eliminateUselessBranchesAndBlocks_def
    by (rule fold_refines [where P = "\<lambda>_. True"]) (use 1(2) branch_step_refines [OF sr, of ext K rank _ vol addr] in auto)
  then have 2: "refines ext vol addr (snd a) (snd b)" "tame ext K rank (snd b)" by blast+
  have "refines ext vol addr (snd b) (snd (eliminateDeadStores iter b)) \<and> tame ext K rank (snd (eliminateDeadStores iter b))"
    unfolding eliminateDeadStores_def
    by (rule fold_refines [where P = "\<lambda>G. length G = length (snd b)"]) (use 2(2) stores_step_refines [of ext K rank _ _ iter vol addr] it in auto)
  then show ?thesis using 1(1) 2(1) refines_trans unfolding dce_round_def a_def b_def by blast
qed

lemma fold_guarded:
  assumes sr: "simplify_redirects simplify"
  shows "tame ext K rank (snd st) \<Longrightarrow> fold (branch_step (guarded simplify)) ls st = fold (branch_step simplify) ls st"
proof (induction ls arbitrary: st)
  case (Cons l ls)
  then show ?case using branch_step_guarded [OF Cons.prems] branch_step_refines [OF sr Cons.prems] by simp
qed simp

lemma dce_round_guarded:
  assumes td: "triv_dead_sound ext K td" and sr: "simplify_redirects simplify" and t: "tame ext K rank F"
  shows "dce_round td (guarded simplify) iter F = dce_round td simplify iter F"
proof -
  have "tame ext K rank (snd (eliminateDeadInstructions td (False, F)))"
    using erase_dead_refines [OF td, of rank "(False, F)"] t by (simp add: eliminateDeadInstructions_def)
  then show ?thesis unfolding dce_round_def eliminateUselessBranchesAndBlocks_def by (simp only: fold_guarded [OF sr])
qed

lemma dce_run_refines:
  assumes td: "triv_dead_sound ext K td" and sr: "simplify_redirects simplify" and it: "iter_ok iter"
  shows "tame ext K rank F \<Longrightarrow> \<exists>F'. dce_run td simplify iter F = Some F' \<and> refines ext vol addr F F' \<and> tame ext K rank F'"
proof (induction "func_size F" arbitrary: F rule: less_induct)
  case less
  note st = dce_round_steps [OF triv_dead_soundD [OF td] simplify_redirectsD [OF sr] it tame_simps(2) [OF less.prems],
      unfolded dce_round_guarded [OF td sr less.prems]]
  obtain ch F1 where r: "dce_round td simplify iter F = (ch, F1)" by fastforce
  have F1: "refines ext vol addr F F1" "tame ext K rank F1" using dce_round_refines [OF assms less.prems] r by simp_all
  show ?case
  proof (cases ch)
    case False
    then show ?thesis using r F1 by (subst dce_run.simps) simp
  next
    case True
    then have "func_size F1 < func_size F" using st r by (auto simp: steps_def)
    moreover have "dce_run td simplify iter F = dce_run td simplify iter F1" using r True by (subst dce_run.simps) simp
    ultimately show ?thesis using less.hyps [OF _ F1(2)] F1(1) refines_trans by metis
  qed
qed

subsection \<open>What becomes of the accesses of one slot\<close>

lemma slot_insts_erased:
  "k < length F \<Longrightarrow> slot_insts s (code (fold erase ds F ! k)) = filter (\<lambda>(j, _). j \<notin> set ds) (slot_insts s (code (F ! k)))"
  by (simp add: fold_erase_at slot_insts_def conj_commute case_prod_beta)

lemma slot_step_other:
  assumes dx: "distinct (map fst xs)" and st: "t \<noteq> s" and k: "k < length (snd st)"
    and sub: "set (slot_insts s (code (snd st ! k))) \<subseteq> set (slot_insts s xs)"
  shows "slot_insts s (code (snd (slot_step xs t st) ! k)) = slot_insts s (code (snd st ! k))"
proof -
  obtain c F where F: "st = (c, F)" by fastforce
  let ?ds = "eliminateDeadStoresForSlot False (rev (slot_insts t xs))"
  have "set ?ds \<subseteq> fst ` set (slot_insts t xs)" using dead_stores_subset [of False "rev (slot_insts t xs)"] by simp
  then have "fst ` set (slot_insts s xs) \<inter> set ?ds = {}" using slot_insts_disjoint [OF dx, of s t] st by blast
  then have dis: "j \<notin> set ?ds" if "(j, x) \<in> set (slot_insts s (code (F ! k)))" for j x
    using sub that F by (metis (no_types, lifting) disjoint_iff fst_conv image_eqI snd_conv subsetD)
  have "slot_insts s (code (fold erase ?ds F ! k)) = filter (\<lambda>(j, _). j \<notin> set ?ds) (slot_insts s (code (F ! k)))"
    using slot_insts_erased k F by simp
  also have "\<dots> = slot_insts s (code (F ! k))" using dis by (auto simp: filter_id_conv)
  finally show ?thesis using F by (simp add: slot_step_def Let_def)
qed

lemma slots_fold_other:
  assumes dx: "distinct (map fst xs)"
  shows "s \<notin> set ss \<Longrightarrow> k < length (snd st) \<Longrightarrow> set (slot_insts s (code (snd st ! k))) \<subseteq> set (slot_insts s xs) \<Longrightarrow>
    slot_insts s (code (snd (fold (slot_step xs) ss st) ! k)) = slot_insts s (code (snd st ! k))"
proof (induction ss arbitrary: st)
  case (Cons t ss)
  then show ?case using slot_step_other [OF dx, of t s k st] by simp
qed simp

lemma slots_fold_at:
  assumes dx: "distinct (map fst xs)"
  shows "s \<in> set ss \<Longrightarrow> distinct ss \<Longrightarrow> k < length (snd st) \<Longrightarrow> private_slot k s (snd st) \<Longrightarrow>
    slot_insts s (code (snd st ! k)) = slot_insts s xs \<Longrightarrow>
    slot_insts s (code (snd (fold (slot_step xs) ss st) ! k)) =
      filter (\<lambda>(j, _). j \<notin> set (eliminateDeadStoresForSlot False (rev (slot_insts s xs)))) (slot_insts s xs)"
proof (induction ss arbitrary: st)
  case (Cons t ss)
  obtain c F where F: "st = (c, F)" by fastforce
  show ?case
  proof (cases "t = s")
    case True
    let ?ds = "eliminateDeadStoresForSlot False (rev (slot_insts s xs))"
    have e: "snd (slot_step xs t st) = fold erase ?ds F"
      using Cons.prems(4,5) F True by (simp add: slot_step_def Let_def private_slot_def)
    have "slot_insts s (code (fold erase ?ds F ! k)) = filter (\<lambda>(j, _). j \<notin> set ?ds) (slot_insts s xs)"
      using slot_insts_erased [of k F s ?ds] Cons.prems(3,5) F by simp
    then show ?thesis using slots_fold_other [OF dx, of s ss k "slot_step xs t st"] Cons.prems(2,3) e True by auto
  next
    case False
    then show ?thesis using Cons slot_step_private [of k st s xs t] slot_step_other [OF dx False, of k st] by simp
  qed
qed simp

lemma slots_of_iff: "s \<in> set (slots_of xs) \<longleftrightarrow> slot_insts s xs \<noteq> []"
  by (induction xs rule: slots_of.induct) (auto simp: slot_insts_def accesses_def split: dinst.splits)

text \<open>A block without stores to a slot does not change it.\<close>

lemma only_loads_keep:
  assumes la: "leaves_alone ext s"
  shows "\<forall>(j, x) \<in> set (slot_insts s xs). \<exists>r t n. x = Ld r t n \<Longrightarrow> slots (exec_code ext vol addr xs a) s = slots a s"
proof (induction xs arbitrary: a)
  case (Cons ix xs)
  obtain i x where ix: "ix = (i, x)" by fastforce
  have "slots (exec_inst ext vol addr ix a) s = slots a s"
  proof (cases x)
    case (Ext r vs)
    have "fst (snd (ext i (map (value_of addr a) vs) (slots a) (world a))) s = slots a s"
      using la [unfolded leaves_alone_def, rule_format, of "slots a" "slots a" i "map (value_of addr a) vs" "world a"]
      by (auto split: prod.splits)
    then show ?thesis using ix Ext by (auto simp: exec_inst_def split: prod.splits)
  qed (use Cons.prems ix in \<open>auto simp: exec_inst_def slot_insts_def accesses_def\<close>)
  moreover have "\<forall>(j, x) \<in> set (slot_insts s xs). \<exists>r t n. x = Ld r t n" using Cons.prems ix by (auto simp: slot_insts_def split: if_splits)
  ultimately show ?case using Cons.IH [of "exec_inst ext vol addr ix a"] by (simp add: exec_code_def)
qed (simp add: exec_code_def)

lemma walk_loads: "\<forall>(j, x) \<in> set xs. \<exists>r t n. x = Ld r t n \<Longrightarrow> eliminateDeadStoresForSlot need xs = []"
  by (induction need xs rule: eliminateDeadStoresForSlot.induct) auto

text \<open>The state in which a store whose slot is only loaded before it leaves the slot.\<close>

lemma last_store_value:
  assumes la: "leaves_alone ext s" and dx: "distinct (map fst xs)"
    and sl: "slot_insts s xs = ls @ [(i, St s v vt n)]" "\<forall>(j, x) \<in> set ls. \<exists>r t n. x = Ld r t n"
  shows "slots (exec_code ext vol addr xs a) s =
    store_bytes n (value_of addr (exec_code ext vol addr (takeWhile (\<lambda>(j, _). j \<noteq> i) xs) a) v) (slots a s)"
proof -
  have "(i, St s v vt n) \<in> set (slot_insts s xs)" unfolding sl(1) by simp
  then obtain pre post where xs: "xs = pre @ (i, St s v vt n) # post" by (auto simp: slot_insts_def dest: split_list)
  have "i \<notin> fst ` set pre" using dx xs by auto
  then have tw: "takeWhile (\<lambda>(j, _). j \<noteq> i) xs = pre" unfolding xs by (auto simp: takeWhile_append image_iff)
  have acc: "accesses s (St s v vt n)" by (simp add: accesses_def)
  have e: "slot_insts s pre @ (i, St s v vt n) # slot_insts s post = ls @ [(i, St s v vt n)]"
    using sl(1) acc unfolding xs slot_insts_def by simp
  have "slot_insts s post = []"
  proof (rule ccontr)
    assume "slot_insts s post \<noteq> []"
    then have "last (slot_insts s post) = (i, St s v vt n)" using arg_cong [OF e, of last] by simp
    then have "(i, St s v vt n) \<in> set post" using \<open>slot_insts s post \<noteq> []\<close> last_in_set unfolding slot_insts_def by fastforce
    then show False using dx xs by force
  qed
  then have "slot_insts s pre = ls" "\<forall>(j, x) \<in> set (slot_insts s post). \<exists>r t n. x = Ld r t n" using e by simp_all
  then show ?thesis
    using only_loads_keep [OF la, of pre vol addr a] only_loads_keep [OF la, of post vol addr] sl(2)
    unfolding tw by (simp add: xs exec_code_def exec_inst_def)
qed

end
