(* ===== verification/Dce_Properties.thy ===== *)
theory Dce_Properties
  imports Dce_Sound
begin

section \<open>Properties of dead-code elimination\<close>

text \<open>
  The claims about the dead-code elimination pass: that its loop ends, when removing stores is
  right, and where it is not.
\<close>

text \<open>
  C36: The pass ends. Provided that LLVM reports only instructions of the function as trivially dead and
  that simplifying an empty block removes something, the loop of \<^verbatim>\<open>run\<close> ends after finitely many
  rounds, with a function that is not larger and on which a further round changes nothing.
\<close>

theorem dce_ends:
  assumes "triv_dead_ok td" and "simplify_ok simplify" and "iter_ok iter" and "distinct (ids F)"
  shows "\<exists>F'. dce_run td simplify iter F = Some F' \<and> func_size F' \<le> func_size F \<and>
    dce_round td simplify iter F' = (False, F')"
  using assms(4)
proof (induction "func_size F" arbitrary: F rule: less_induct)
  case less
  note st = dce_round_steps [OF assms(1-3) less.prems]
  obtain ch F1 where r: "dce_round td simplify iter F = (ch, F1)" by fastforce
  show ?case
  proof (cases ch)
    case False
    then have "F1 = F" using st r by (auto simp: steps_def)
    then show ?thesis using r False by (subst dce_run.simps) auto
  next
    case True
    then have "func_size F1 < func_size F" "distinct (ids F1)" using st r less.prems by (auto simp: steps_def)
    moreover have "dce_run td simplify iter F = dce_run td simplify iter F1" using r True by (subst dce_run.simps) simp
    ultimately show ?thesis using less.hyps [of F1] by fastforce
  qed
qed

lemma nothing_ok: "triv_dead_ok (\<lambda>_ _. False)" "simplify_ok (\<lambda>_ _. None)" "iter_ok id"
  by (simp_all add: triv_dead_ok_def simplify_ok_def iter_ok_def)

theorem dce_ends_witness:
  "\<exists>F'. dce_run (\<lambda>_ _. False) (\<lambda>_ _. None) id
      [\<lparr>label = 0, code = [(0, St 7 (Imm 1) False 4), (1, St 7 (Imm 2) False 4), (2, Ld 3 7 4)], dterm = CondBr (Reg 3) 1 1\<rparr>] = Some F' \<and>
    dce_round (\<lambda>_ _. False) (\<lambda>_ _. None) id F' = (False, F')"
  using dce_ends [OF nothing_ok,
      of "[\<lparr>label = 0, code = [(0, St 7 (Imm 1) False 4), (1, St 7 (Imm 2) False 4), (2, Ld 3 7 4)], dterm = CondBr (Reg 3) 1 1\<rparr>]"]
  by (auto simp: ids_def)

text \<open>
  C14: Removing dead stores is right for one run of a block whose accesses of a slot all have the same width. When \<^verbatim>\<open>eliminateDeadStores\<close> has processed
  such a block, and it has no volatile stores, a run of the block from any state computes the same registers and
  has the same effect on the world, and leaves every slot with its old final bytes except those
  whose only uses are direct accesses in this block; no other block is changed. Instructions other
  than direct accesses are assumed not to touch such a slot, whose address they cannot have.
\<close>

theorem dead_stores_sound:
  assumes "iter_ok iter" and "distinct (ids F)" and "k < length F"
    and "F' = snd (stores_step iter k (c, F))"
    and "\<And>s. private_slot k s F' \<Longrightarrow> leaves_alone ext s"
    and "\<forall>(i, x) \<in> set (code (F ! k)). (\<forall>a v n. x \<noteq> St a v True n) \<and> width_ok wd x"
  shows "agree {s. private_slot k s F'}
      (exec_code ext vol addr (code (F ! k)) a) (exec_code ext vol addr (code (F' ! k)) a) \<and>
    (\<forall>j < length F. j \<noteq> k \<longrightarrow> F' ! j = F ! j)"
proof -
  let ?xs = "code (F ! k)"
  have e: "F' = snd (fold (slot_step ?xs) (iter (slots_of ?xs)) (c, F))" using assms(4) by (simp add: stores_step_def Let_def)
  have d: "distinct (iter (slots_of ?xs))" using assms(1) slots_of_distinct by (simp add: iter_ok_def)
  show ?thesis
    using slots_fold_sound [OF distinct_ids_block [OF assms(2,3)], of k "iter (slots_of ?xs)" "(c, F)" ext wd vol addr a]
      assms(2,3,5,6) d unfolding e by (auto elim: agree_mono)
qed

text \<open>At the witness the first of two stores is removed; the other instruction adds 1.\<close>

definition add1 :: "unit ext" where
  "add1 i as sl w = (sum_list as + 1, sl, w)"

lemma add1_leaves: "leaves_alone add1 s"
  by (simp add: leaves_alone_def add1_def)

theorem dead_stores_sound_witness:
  "\<exists>F'. F' = snd (stores_step id 0 (False,
      [\<lparr>label = 0, code = [(0, St 7 (Imm 1) False 4), (1, St 7 (Imm 2) False 4), (2, Ld 3 7 4), (4, Ext 5 [Reg 3])], dterm = Ret [Reg 5]\<rparr>])) \<and>
    code (F' ! 0) = [(1, St 7 (Imm 2) False 4), (2, Ld 3 7 4), (4, Ext 5 [Reg 3])] \<and>
    regs (exec_code add1 (\<lambda>_ _ w. w) (\<lambda>_. 0) [(0, St 7 (Imm 1) False 4), (1, St 7 (Imm 2) False 4), (2, Ld 3 7 4), (4, Ext 5 [Reg 3])]
      \<lparr>regs = (\<lambda>_. 0), slots = (\<lambda>_ _. 9), world = ()\<rparr>) =
    regs (exec_code add1 (\<lambda>_ _ w. w) (\<lambda>_. 0) (code (F' ! 0)) \<lparr>regs = (\<lambda>_. 0), slots = (\<lambda>_ _. 9), world = ()\<rparr>)"
proof -
  define F where "F = [\<lparr>label = 0, code = [(0, St 7 (Imm 1) False 4), (1, St 7 (Imm 2) False 4), (2, Ld 3 7 4), (4, Ext 5 [Reg 3])], dterm = Ret [Reg 5]\<rparr>]"
  define F' where "F' = snd (stores_step id 0 (False, F))"
  have c: "code (F' ! 0) = [(1, St 7 (Imm 2) False 4), (2, Ld 3 7 4), (4, Ext 5 [Reg 3])]"
    unfolding F'_def F_def by code_simp
  have "agree {s. private_slot 0 s F'}
      (exec_code add1 (\<lambda>_ _ w. w) (\<lambda>_. 0) (code (F ! 0)) \<lparr>regs = (\<lambda>_. 0), slots = (\<lambda>_ _. 9), world = ()\<rparr>)
      (exec_code add1 (\<lambda>_ _ w. w) (\<lambda>_. 0) (code (F' ! 0)) \<lparr>regs = (\<lambda>_. 0), slots = (\<lambda>_ _. 9), world = ()\<rparr>)"
    by (rule dead_stores_sound [OF nothing_ok(3) _ _ F'_def add1_leaves, where wd = "\<lambda>_. 4", THEN conjunct1])
      (simp_all add: F_def ids_def width_ok_def)
  then show ?thesis using c by (auto simp: agree_def F'_def F_def)
qed

text \<open>
  Accesses of different widths. The backward walk takes any store for an overwrite of the whole slot. When a narrow store follows a
  wide one, as in a union, the wide store is removed although a later wide load reads its upper bytes.
\<close>

lemma narrow_store_kills_wide:
  "let xs = [(0, St 7 (Imm 4294967297) False 8), (1, St 7 (Imm 2) False 4), (2, Ld 3 7 8)];
       F = [\<lparr>label = 0, code = xs, dterm = Ret [Reg 3]\<rparr>];
       ys = code (snd (eliminateDeadStores id (False, F)) ! 0);
       run = (\<lambda>xs. exec_code add1 (\<lambda>_ _ w. w) (\<lambda>_. 0) xs \<lparr>regs = (\<lambda>_. 0), slots = (\<lambda>_ _. 0), world = ()\<rparr>) in
   ys = [(1, St 7 (Imm 2) False 4), (2, Ld 3 7 8)] \<and> regs (run xs) 3 = 4294967298 \<and> regs (run ys) 3 = 2"
proof -
  let ?xs = "[(0, St 7 (Imm 4294967297) False 8), (1, St 7 (Imm 2) False 4), (2, Ld 3 7 8)]"
  have y: "code (snd (eliminateDeadStores id (False, [\<lparr>label = 0, code = ?xs, dterm = Ret [Reg 3]\<rparr>])) ! 0) =
      [(1, St 7 (Imm 2) False 4), (2, Ld 3 7 8)]" by code_simp
  show ?thesis unfolding Let_def y
    by (simp add: exec_code_def exec_inst_def value_of_def store_bytes_def load_bytes_def upt_rec numeral_eq_Suc)
qed








text \<open>
  C39: A store at the end of a block is lost, also in a loop. Suppose that the only uses of a slot are direct accesses in one block, loads and after
  them one store. In each run of the block the store determines the slot for the next run. The pass removes the store and keeps the terminator, whatever it is
  (it may branch back to the block, so that the next iteration loads the slot), and whether or not the store is volatile: the block
  then leaves the slot as it was in every run. Other instructions are assumed not to touch the slot.
\<close>

theorem last_store_erased:
  assumes it: "iter_ok iter" and d: "distinct (ids F)" and k: "k < length F"
    and F': "F' = snd (stores_step iter k (c, F))" and p: "private_slot k s F" and la: "leaves_alone ext s"
    and sl: "slot_insts s (code (F ! k)) = ls @ [(i, St s v vt n)]" "\<forall>(j, x) \<in> set ls. \<exists>r t m. x = Ld r t m"
  shows "slots (exec_code ext vol addr (code (F ! k)) a) s =
      store_bytes n (value_of addr (exec_code ext vol addr (takeWhile (\<lambda>(j, _). j \<noteq> i) (code (F ! k))) a) v) (slots a s) \<and>
    slot_insts s (code (F' ! k)) = ls \<and> dterm (F' ! k) = dterm (F ! k) \<and>
    slots (exec_code ext vol addr (code (F' ! k)) a) s = slots a s"
proof -
  let ?xs = "code (F ! k)"
  have dx: "distinct (map fst ?xs)" by (rule distinct_ids_block [OF d k])
  have e: "F' = snd (fold (slot_step ?xs) (iter (slots_of ?xs)) (c, F))" using F' by (simp add: stores_step_def Let_def)
  have ss: "s \<in> set (iter (slots_of ?xs))" "distinct (iter (slots_of ?xs))"
    using it slots_of_distinct [of ?xs] slots_of_iff [of s ?xs] sl(1) by (simp_all add: iter_ok_def)
  have "\<forall>(j, x) \<in> set (rev ls). \<exists>r t m. x = Ld r t m" using sl(2) by simp
  then have ds: "eliminateDeadStoresForSlot False (rev (slot_insts s ?xs)) = [i]" using walk_loads [of "rev ls" False] by (simp add: sl(1))
  have "distinct (map fst (slot_insts s ?xs))"
    using dx by (simp add: slot_insts_def distinct_map_filter)
  then have "i \<notin> fst ` set ls" unfolding sl(1) by simp
  then have "filter (\<lambda>(j, _). j \<notin> set [i]) (slot_insts s ?xs) = ls" unfolding sl(1) by (auto simp: filter_id_conv image_iff)
  then have l: "slot_insts s (code (F' ! k)) = ls" unfolding e using slots_fold_at [OF dx ss, of k "(c, F)"] k p ds by simp
  have "map dterm F' = map dterm F" unfolding e using slots_fold_shape by simp
  then have t: "dterm (F' ! k) = dterm (F ! k)" using k by (metis length_map nth_map)
  show ?thesis using last_store_value [OF la dx sl] l t only_loads_keep [OF la, of "code (F' ! k)"] sl(2) by simp
qed

text \<open>At the witness, the block is its own loop: it loads slot 7, adds 1 and stores the sum.\<close>

definition loop_func :: dfunc where
  "loop_func = [\<lparr>label = 0, code = [(0, Ld 1 7 4), (2, Ext 3 [Reg 1]), (4, St 7 (Reg 3) False 4)], dterm = CondBr (Reg 3) 0 1\<rparr>,
     \<lparr>label = 1, code = [], dterm = Ret [Reg 3]\<rparr>]"

theorem last_store_erased_witness:
  "dterm (snd (stores_step id 0 (False, loop_func)) ! 0) = CondBr (Reg 3) 0 1 \<and>
   slots (exec_code add1 (\<lambda>_ _ w. w) (\<lambda>_. 0) (code (loop_func ! 0)) \<lparr>regs = (\<lambda>_. 0), slots = (\<lambda>_ _. 0), world = ()\<rparr>) 7 0 = 1 \<and>
   slots (exec_code add1 (\<lambda>_ _ w. w) (\<lambda>_. 0) (code (snd (stores_step id 0 (False, loop_func)) ! 0))
     \<lparr>regs = (\<lambda>_. 0), slots = (\<lambda>_ _. 0), world = ()\<rparr>) 7 0 = 0"
proof -
  have c: "slot_insts 7 (code (loop_func ! 0)) = [(0, Ld 1 7 4)] @ [(4, St 7 (Reg 3) False 4)]" by code_simp
  have p: "private_slot 0 7 loop_func" by code_simp
  have t: "takeWhile (\<lambda>(j, _). j \<noteq> 4) (code (loop_func ! 0)) = [(0, Ld 1 7 4), (2, Ext 3 [Reg 1])]" by (simp add: loop_func_def)
  have d: "distinct (ids loop_func)" "0 < length loop_func" by (simp_all add: loop_func_def ids_def)
  have v: "value_of (\<lambda>_. 0) (exec_code add1 (\<lambda>_ _ w. w) (\<lambda>_. 0) [(0, Ld 1 7 4), (2, Ext 3 [Reg 1])]
      \<lparr>regs = (\<lambda>_. 0), slots = (\<lambda>_ _. 0), world = ()\<rparr>) (Reg 3) = 1"
    by (simp add: exec_code_def exec_inst_def add1_def value_of_def load_bytes_def upt_rec numeral_eq_Suc)
  have "dterm (loop_func ! 0) = CondBr (Reg 3) 0 1" by (simp add: loop_func_def)
  then show ?thesis
    using last_store_erased [OF nothing_ok(3) d refl p add1_leaves c, of "\<lambda>_ _ w. w" "\<lambda>_. 0"
        "\<lparr>regs = (\<lambda>_. 0), slots = (\<lambda>_ _. 0), world = ()\<rparr>" False] t v
    by (simp add: store_bytes_def)
qed

end
