(* ===== verification/Spec2Isabelle.thy ===== *)
theory Spec2Isabelle
  imports Sort_Properties Sys_Properties Fs_Properties Shell_Properties Script_Properties Conc_Properties
    Lock_Conc_Properties Alloc_Properties System_Properties Mem_Properties Mem_Exec_Properties Dce_Properties
begin

text \<open>
  A verification of the systems programming labs: eight programs in C and C++ under \<^verbatim>\<open>src\<close>, each
  with its own directory. They share no code; what they share here is the prelude, the C library
  routines they call, and how an outcome is represented.

  \<^bold>\<open>Common ground.\<close> \<open>Sys_Prelude\<close> names the machine types (LP64), \<open>C_Strings\<close> and
  \<open>C_Stdio\<close> hold the string, scanning and printing routines of the C library that the programs
  use. A result of type \<open>option\<close> stands for code that may have no defined outcome: \<open>None\<close> is an
  access outside the memory the code owns, an overflow of a signed number or of a buffer, a lock
  taken twice, or a loop that does not end. A theorem that a computation is \<open>Some\<close> is therefore one on
  memory safety and termination. What the kernel, the C library's allocator, LLVM or generated code
  decides is an argument of the definitions that depend on it, quantified over in the theorems.

  \<^bold>\<open>Sorting\<close> (\<^verbatim>\<open>task00-sort/src/sort.cpp\<close>). \<open>Ext_Sort\<close>: chunks of lines are sorted into
  temporary files and merged with a priority queue; \<open>separate\<close>, \<open>merge\<close>, \<open>fgetline\<close> and \<open>sort_main\<close>
  are the functions of the source. \<open>Ext_Sort_Correct\<close> proves the merge for every queue that
  satisfies the contract \<open>queue_top\<close>, whichever of several least elements it gives. The program prints
  the lines of its input in order, or nothing at all when a temporary file cannot be created or a write to it is reported as failed. That a failing flush in
  \<^verbatim>\<open>rewind\<close> goes unnoticed and loses lines is a lemma. Reading the input and the runs is taken to succeed.

  \<^bold>\<open>System calls\<close> (\<^verbatim>\<open>task01-syscalls/src\<close>). \<open>Sys_Calls\<close>: the two preload libraries over a kernel
  and the tracer over the events of the traced process. The libraries agree for every kernel; the
  tracer reports every \<^verbatim>\<open>read\<close> and \<^verbatim>\<open>write\<close> of a process that exits, and never ends for one that is killed.

  \<^bold>\<open>File system\<close> (\<^verbatim>\<open>task02-fileio/src\<close>). \<open>Fs_Inode\<close> and \<open>Fs_Tree\<close> are \<^verbatim>\<open>inode.c\<close> and the shape of
  the tree, \<open>Fs_Ops\<close> the FUSE callbacks of \<^verbatim>\<open>memfs.c\<close> with the lines they log, \<open>Fs_Statfs\<close> the
  recursive counting, \<open>Fs_Log\<close> the replay in \<^verbatim>\<open>log.c\<close>. \<open>Fs_Invariant\<close> shows that every callback
  keeps the tree well-formed. The contract \<open>journal\<close> says when replaying the log of a run gives
  the state of that run; \<open>Fs_Recovery\<close> discharges it for the callbacks and the log format, with its
  conversions and buffer sizes. Names, paths and data beyond those sizes are shown to be lost.

  \<^bold>\<open>Shell\<close> (\<^verbatim>\<open>task03-processes\<close>). \<open>Shell\<close>: \<^verbatim>\<open>run_pipeline\<close> with the descriptor tables of the
  children, \<^verbatim>\<open>run_builtin\<close>, a round of the main loop, and \<^verbatim>\<open>append_argv\<close>. The theorems
  say how the children are connected, that no process but the two neighbours holds a pipe, what is
  returned and waited for, and what is left behind on the error paths. \<open>Shell_Scan\<close>: the rules of \<^verbatim>\<open>scan.l\<close>, with the
  longest match and the first rule among equals as Flex documents it. \<open>Shell_Parse\<close>: the grammar of
  \<^verbatim>\<open>parse.y\<close> with its actions as a recursive descent over the tokens, where an error leaves what was built so far
  and drops the offending token, as Bison does without an \<^verbatim>\<open>error\<close> rule; and \<^verbatim>\<open>main\<close> from the text to the exit status.
  \<open>Shell_Script\<close> prints pipelines as command lines; scanning and parsing gives them back, and a script of such
  lines runs them in order.

  \<^bold>\<open>Concurrency\<close> (\<^verbatim>\<open>task04-concurrency/src\<close>). \<open>Spin_Lock\<close>: a step relation for any number of
  threads on one lock. \<open>Lf_Map\<close>: the lock-free hash map as small steps of its threads, one for each
  atomic operation; \<open>Lf_Invariant\<close> has the invariant of the linked buckets in all reachable states,
  and that every operation takes effect at one step; \<open>Lf_Seq\<close> the operations run by one
  thread. \<open>Lock_Map\<close> and \<open>Lock_Invariant\<close>: the map with a lock for each bucket, with its
  allocations and frees. \<open>Lock_Conc\<close> lets any number of threads run its operations, one step for each attempt on a lock and
  each access to the lists; \<open>Lock_Conc_Inv\<close> has the invariant, with the nodes that a thread owns and what it knows of the
  bucket whose lock it has, \<open>Lock_Conc_Steps\<close> shows that every step keeps it, and \<open>Lock_Conc_Runs\<close> concludes for all
  runs: the calls take effect one at a time as those of a multiset, no node is used after it is freed, no two threads
  touch the same memory at once, and every call can end. Both maps are interpretations of the contract \<open>chashmap\<close> of \<open>Hashmap_Spec\<close>,
  which is a multiset of numbers, and so give the same answers to any sequence of calls.

  \<^bold>\<open>Memory\<close> (\<^verbatim>\<open>task05-memory/src/allocator.c\<close>). \<open>Alloc_Heap\<close>: the arena allocator over a byte
  memory with 64-bit words. \<open>Alloc_Lists\<close> refines the list routines to functions on block lists,
  \<open>Alloc_Arena\<close> and \<open>Alloc_Api\<close> lift this to an arena and to the entry points. \<open>Alloc_Spec\<close> states the
  contracts \<open>block_allocator\<close> and \<open>resizing_allocator\<close>, proves that programs that use them run
  safely, and interprets them on the model.

  \<^bold>\<open>Sockets\<close> (\<^verbatim>\<open>task06-sockets/src\<close>). \<open>Net_Msg\<close>: sockets and framing over byte streams that the
  kernel cuts into arbitrary pieces. \<open>Net_Server\<close>: \<^verbatim>\<open>handle_client\<close> in the three parts between which other workers may run, a round of a worker, the accept
  loop, and the client. \<open>Net_Counter\<close> proves the final counter for any order of serving, for every
  serialization that meets the contract \<open>message_format\<close>; \<open>Net_Wire\<close> interprets the contract on
  the encoding of \<^verbatim>\<open>message.proto\<close>. \<open>Net_System\<close> puts the main thread and the workers together in a step relation,
  in which a worker loads, prints and sends the counter in separate steps: an uninterrupted round is \<^verbatim>\<open>server_kernel\<close>, an invariant says where every connection is and what is still to be counted,
  and the work that is left can always be finished.

  \<^bold>\<open>LLVM passes\<close> (\<^verbatim>\<open>task07-llvm\<close>). \<open>Mem_Runtime\<close> and \<open>Mem_Check\<close>: the block table of the
  memory-safety runtime with wrapping addresses and what its check lets through. \<open>Mem_Pass\<close>: the
  instrumentation, shown equal to one rewriting in place; \<open>Mem_Module\<close>: the declarations in the module. \<open>Mem_Exec\<close> runs instrumented
  code against the runtime on an abstract machine and shows that it is the original code, guarded; called functions may change the table. \<open>Dce\<close> and \<open>Dce_Correct\<close>: dead-code
  elimination on functions whose slots are bytes and whose loads and stores have widths; it ends, and removing dead stores keeps what one run of a block computes
  if each slot is accessed with one width. Where this does not hold (a narrow store behind a wide one, a block that is its own loop, volatile stores) live stores are removed, which
  is shown too. \<open>Dce_Sound\<close>: for functions without cycles the whole pass keeps the returned
  values and the effects, by simulations for its stages; the entry block must keep an instruction or return, since the pass would otherwise call LLVM's helper for empty blocks on it, which
  LLVM forbids.

  \<^bold>\<open>Loops.\<close> The only fuel is that of the recursion of \<^verbatim>\<open>statfs\<close> over the inode tree; its depth is bounded
  by the number of inodes, and that this is enough is a theorem. Recursion is structural where the source counts down or walks a list;
  loops over linked structures and retry loops are \<open>partial_function (option)\<close> or functions with a
  decreasing size, and that they return is part of the theorems.

  \<^bold>\<open>Atomicity.\<close> The steps of the spinlock and of the lock-free map are single atomic operations, taken one
  after the other; the acquire, release and relaxed orders that the sources ask for are taken to give sequential consistency. The steps of the locked map are accesses to plain memory; that
  they can be taken one after the other rests on the absence of data races, which is a theorem. Addresses of freed
  nodes are not given out again, so that every use after a free shows as \<open>None\<close>. The allocator holds
  a lock around each operation, so an operation is one function there; what others may do between
  two locked sections is an argument.

  \<^bold>\<open>Not modelled.\<close> The tables that Flex and Bison generate (their inputs are); the code generated from
  \<^verbatim>\<open>message.proto\<close>; the registration of the LLVM plugins, and LLVM itself, whose decisions are
  arguments; the usage messages and prompts; the annotated copies of two programs under \<^verbatim>\<open>examples\<close>, which are the
  modelled sources token by token, with more comments.
\<close>

end
